(* ===== verification/Prelude.thy ===== *)
theory Prelude
  imports Main "HOL-Library.Word"
begin

text \<open>
  What every component of the development shares: the reading of \<open>std::string_view\<close> as a
  list of bytes, the \<open>find\<close>/\<open>substr\<close>/\<open>starts_with\<close> vocabulary of the C++ standard library
  that the sources use, decimal numerals with their overflow checks, and the laws of a
  \<open>std::expected\<close> value, which is a sum (\<open>Inl\<close> the error, \<open>Inr\<close> the value).

  A byte is a \<^typ>\<open>char\<close>. Sizes (\<open>std::size_t\<close>) of objects held in memory are \<^typ>\<open>nat\<close>;
  integers whose width the code relies on are words.
\<close>

named_theorems str_simps \<open>laws of the string vocabulary\<close>
named_theorems bounds_simps \<open>word and bound facts\<close>

type_synonym ('e, 'a) expected = "'e + 'a"

abbreviation unexpected :: "'e \<Rightarrow> ('e, 'a) expected" where
  "unexpected \<equiv> Inl"

abbreviation success :: "'a \<Rightarrow> ('e, 'a) expected" where
  "success \<equiv> Inr"

fun has_value :: "('e, 'a) expected \<Rightarrow> bool" where
  "has_value (Inl _) = False"
| "has_value (Inr _) = True"

section \<open>Bytes\<close>

definition byte :: "char \<Rightarrow> nat" where
  "byte c = of_char c"

lemma byte_less [simp]: "byte c < 256"
  by (simp add: byte_def)

lemma byte_inject [simp]: "byte c = byte d \<longleftrightarrow> c = d"
  by (simp add: byte_def)

definition is_digit :: "char \<Rightarrow> bool" where
  "is_digit c \<longleftrightarrow> 48 \<le> byte c \<and> byte c \<le> 57"

definition digit_value :: "char \<Rightarrow> nat" where
  "digit_value c = byte c - 48"

definition digit_char :: "nat \<Rightarrow> char" where
  "digit_char n = char_of (48 + n)"

lemma digit_value_le: "is_digit c \<Longrightarrow> digit_value c \<le> 9"
  unfolding is_digit_def digit_value_def by linarith

lemma digit_char_simps [simp]:
  assumes "n < 10"
  shows "is_digit (digit_char n)" "digit_value (digit_char n) = n"
  using assms by (simp_all add: is_digit_def digit_value_def digit_char_def byte_def)

lemma octal_digit_not_newline: "k < 8 \<Longrightarrow> CHR 0x0A \<noteq> char_of (48 + k :: nat)"
  by (auto dest!: arg_cong [where f = byte] simp: byte_def take_bit_nat_eq_self)

section \<open>Searching\<close>

text \<open>\<open>s.find(c)\<close>: the index of the first \<open>c\<close>, or \<open>npos\<close>.\<close>

fun str_find :: "char \<Rightarrow> string \<Rightarrow> nat option" where
  "str_find c [] = None"
| "str_find c (x # xs) = (if x = c then Some 0 else map_option Suc (str_find c xs))"

text \<open>\<open>s.find(c, from)\<close>.\<close>

definition str_find_from :: "char \<Rightarrow> string \<Rightarrow> nat \<Rightarrow> nat option" where
  "str_find_from c s i = map_option (\<lambda>k. i + k) (str_find c (drop i s))"

text \<open>\<open>s.starts_with(p)\<close> and \<open>s.ends_with(p)\<close>.\<close>

fun starts_with :: "string \<Rightarrow> string \<Rightarrow> bool" where
  "starts_with s [] = True"
| "starts_with [] (p # ps) = False"
| "starts_with (x # xs) (p # ps) = (x = p \<and> starts_with xs ps)"

definition ends_with :: "string \<Rightarrow> string \<Rightarrow> bool" where
  "ends_with s p \<longleftrightarrow> starts_with (rev s) (rev p)"

text \<open>\<open>s.find(needle)\<close> for a string needle.\<close>

fun sub_find :: "string \<Rightarrow> string \<Rightarrow> nat option" where
  "sub_find p [] = (if p = [] then Some 0 else None)"
| "sub_find p (x # xs) =
     (if starts_with (x # xs) p then Some 0 else map_option Suc (sub_find p xs))"

definition sub_find_from :: "string \<Rightarrow> string \<Rightarrow> nat \<Rightarrow> nat option" where
  "sub_find_from p s i = map_option (\<lambda>k. i + k) (sub_find p (drop i s))"

definition contains_sub :: "string \<Rightarrow> string \<Rightarrow> bool" where
  "contains_sub s p \<longleftrightarrow> sub_find p s \<noteq> None"

lemma starts_with_iff: "starts_with s p \<longleftrightarrow> (\<exists>t. s = p @ t)"
  by (induction s p rule: starts_with.induct) auto

lemma starts_with_append [simp]: "starts_with (p @ s) p"
  by (simp add: starts_with_iff)

lemma starts_with_append_iff [str_simps]: "starts_with (p @ s) (p @ q) \<longleftrightarrow> starts_with s q"
  by (simp add: starts_with_iff)

lemma starts_withE:
  assumes "starts_with s p"
  obtains t where "s = p @ t"
  using assms by (auto simp: starts_with_iff)

lemma ends_with_iff: "ends_with s p \<longleftrightarrow> (\<exists>t. s = t @ p)"
  by (auto simp: ends_with_def starts_with_iff) (metis rev_append rev_rev_ident)+

lemma str_find_None [str_simps]: "str_find c s = None \<longleftrightarrow> c \<notin> set s"
  by (induction s) auto

lemma str_find_append [str_simps]: "c \<notin> set a \<Longrightarrow> str_find c (a @ c # b) = Some (length a)"
  by (induction a) auto

lemma str_find_append_None [str_simps]:
  "c \<notin> set a \<Longrightarrow> str_find c (a @ b) = map_option (\<lambda>k. length a + k) (str_find c b)"
  by (cases "str_find c b"; induction a) auto

lemma str_find_Some:
  assumes "str_find c s = Some i"
  shows "i < length s" "s ! i = c" "c \<notin> set (take i s)"
  using assms by (induction s arbitrary: i) (auto split: if_splits)

lemma str_find_decomp:
  assumes "str_find c s = Some i"
  shows "s = take i s @ c # drop (Suc i) s"
  using str_find_Some[OF assms] by (metis id_take_nth_drop)

lemma sub_find_Some:
  assumes "sub_find p s = Some i"
  shows "i \<le> length s" "starts_with (drop i s) p"
proof -
  have "i \<le> length s \<and> starts_with (drop i s) p"
    using assms by (induction s arbitrary: i) (auto split: if_splits)
  then show "i \<le> length s" "starts_with (drop i s) p" by auto
qed

lemma contains_sub_iff: "contains_sub s p \<longleftrightarrow> (\<exists>a b. s = a @ p @ b)"
proof
  assume "contains_sub s p"
  then obtain i where i: "sub_find p s = Some i" by (auto simp: contains_sub_def)
  then obtain t where "drop i s = p @ t" by (auto dest!: sub_find_Some elim: starts_withE)
  then have "s = take i s @ p @ t" by (metis append_take_drop_id)
  then show "\<exists>a b. s = a @ p @ b" by blast
next
  have "sub_find p (a @ p @ b) \<noteq> None" for a b
  proof (induction a)
    case Nil
    then show ?case by (cases "p @ b") (use starts_with_append [of p b] in auto)
  next
    case (Cons x a)
    then show ?case by auto
  qed
  then show "\<exists>a b. s = a @ p @ b \<Longrightarrow> contains_sub s p"
    by (auto simp: contains_sub_def)
qed

lemma contains_sub_set: "contains_sub s p \<Longrightarrow> set p \<subseteq> set s"
  by (auto simp: contains_sub_iff)

section \<open>Decimal numerals\<close>

fun dec_value :: "nat \<Rightarrow> string \<Rightarrow> nat" where
  "dec_value acc [] = acc"
| "dec_value acc (c # cs) = dec_value (10 * acc + digit_value c) cs"

fun dec_string :: "nat \<Rightarrow> string" where
  "dec_string n = (if n < 10 then [digit_char n] else dec_string (n div 10) @ [digit_char (n mod 10)])"

declare dec_string.simps [simp del]

lemma dec_value_append [simp]: "dec_value acc (xs @ ys) = dec_value (dec_value acc xs) ys"
  by (induction acc xs rule: dec_value.induct) auto

lemma dec_value_ge: "acc \<le> dec_value acc s"
  by (induction acc s rule: dec_value.induct) auto

lemma dec_string_digits: "\<forall>c \<in> set (dec_string n). is_digit c"
proof (induction n rule: dec_string.induct)
  case (1 n)
  then show ?case by (cases "n < 10") (auto simp: dec_string.simps [of n])
qed

lemma dec_string_nonempty [simp]: "dec_string n \<noteq> []"
  by (subst dec_string.simps) auto

lemma dec_value_dec_string [simp]: "dec_value 0 (dec_string n) = n"
proof (induction n rule: dec_string.induct)
  case (1 n)
  then show ?case by (cases "n < 10") (auto simp: dec_string.simps [of n])
qed


lemma digit_char_digit_value: "is_digit c \<Longrightarrow> digit_char (digit_value c) = c"
  by (simp add: digit_char_def digit_value_def is_digit_def byte_def)

lemma digit_zero: "digit_char 0 = CHR ''0''"
  by code_simp

lemma dec_string_canonical: "length (dec_string n) = 1 \<or> hd (dec_string n) \<noteq> CHR ''0''"
proof (induction n rule: dec_string.induct)
  case (1 n)
  show ?case
  proof (cases "n < 10")
    case True
    then show ?thesis by (simp add: dec_string.simps [of n])
  next
    case False
    have "dec_string (n div 10) \<noteq> [CHR ''0'']"
    proof
      assume "dec_string (n div 10) = [CHR ''0'']"
      then have "n div 10 = 0" using dec_value_dec_string [of "n div 10"] by (simp add: digit_value_def byte_def)
      then show False using False by simp
    qed
    then have "hd (dec_string (n div 10)) \<noteq> CHR ''0''"
      using 1 False by (cases "dec_string (n div 10)") auto
    then show ?thesis using False by (simp add: dec_string.simps [of n])
  qed
qed

lemma dec_value_pos: "is_digit c \<Longrightarrow> c \<noteq> CHR ''0'' \<Longrightarrow> 0 < dec_value 0 (c # s)"
proof -
  assume "is_digit c" "c \<noteq> CHR ''0''"
  then have "0 < digit_value c"
    using digit_char_digit_value [of c] digit_zero by (cases "digit_value c") auto
  then show ?thesis using dec_value_ge [of "digit_value c" s] by simp
qed

lemma dec_string_dec_value:
  assumes "list_all is_digit s" "s \<noteq> []" "length s = 1 \<or> hd s \<noteq> CHR ''0''"
  shows "dec_string (dec_value 0 s) = s"
  using assms
proof (induction s rule: rev_induct)
  case (snoc c s)
  show ?case
  proof (cases "s = []")
    case True
    then show ?thesis using snoc.prems using digit_value_le [of c] by (simp add: dec_string.simps digit_char_digit_value)
  next
    case False
    then have hd: "hd s \<noteq> CHR ''0''" "is_digit (hd s)" "list_all is_digit s" "is_digit c"
      using snoc.prems by (cases s, auto)+
    have "dec_string (dec_value 0 s) = s" using snoc.IH False hd by simp
    moreover have "0 < dec_value 0 s" using dec_value_pos [OF hd(2,1), of "tl s"] False by simp
    moreover have "digit_value c \<le> 9" by (rule digit_value_le [OF hd(4)])
    ultimately show ?thesis using hd by (subst dec_string.simps) (simp add: digit_char_digit_value)
  qed
qed simp

text \<open>A number the way it is printed: digits without a leading zero, below \<open>2^32\<close>.\<close>

definition canonical_number :: "string \<Rightarrow> bool" where
  "canonical_number s \<longleftrightarrow> s \<noteq> [] \<and> (length s = 1 \<or> hd s \<noteq> CHR ''0'') \<and> list_all is_digit s \<and> dec_value 0 s < 2 ^ 32"

lemma canonical_number_iff: "canonical_number s \<longleftrightarrow> (\<exists>n < 2 ^ 32. s = dec_string n)"
proof
  assume "canonical_number s"
  then show "\<exists>n < 2 ^ 32. s = dec_string n"
    using dec_string_dec_value [of s] by (intro exI [of _ "dec_value 0 s"]) (simp add: canonical_number_def)
next
  assume "\<exists>n < 2 ^ 32. s = dec_string n"
  then show "canonical_number s"
    using dec_string_canonical dec_string_digits by (auto simp: canonical_number_def list_all_iff)
qed

lemma dec_string_not_in [simp]: "\<not> is_digit c \<Longrightarrow> c \<notin> set (dec_string n)"
  using dec_string_digits [of n] by blast

lemma not_digit_simps [simp]:
  "\<not> is_digit (CHR ''.'')" "\<not> is_digit (CHR ''-'')" "\<not> is_digit (CHR 0x0D)" "\<not> is_digit (CHR 0x0A)"
  "\<not> is_digit (CHR ''n'')"
  by (simp_all add: is_digit_def byte_def)

lemma byte_dot: "byte (CHR ''.'') = 46"
  by (simp add: byte_def)

lemma takeWhile_digits:
  assumes "s = [] \<or> \<not> is_digit (hd s)"
  shows "takeWhile is_digit (dec_string n @ s) = dec_string n"
  using assms dec_string_digits [of n] by (cases s) (auto simp: takeWhile_tail)

section \<open>Lists\<close>

lemma map_eq_quantifiers:
  assumes "map f xs = map g ys"
  shows "list_all f xs = list_all g ys" "list_ex f xs = list_ex g ys"
  using assms by (induction xs arbitrary: ys) (auto simp: map_eq_Cons_conv Cons_eq_map_conv)

lemma find_SomeD: "find P xs = Some x \<Longrightarrow> P x \<and> x \<in> set xs"
  by (auto simp: find_Some_iff)

section \<open>Words\<close>

lemma u16_bound: "unat (w :: 16 word) < 65536"
  using unsigned_less [of w, where ?'a = nat] by simp


lemma digit_word_bound: "is_digit c \<Longrightarrow> unat (word_of_nat (digit_value c) :: 32 word) = digit_value c"
  using digit_value_le [of c] by (simp add: unat_of_nat)

lemma max_minus_div:
  assumes "d \<le> 9"
  shows "unat ((- 1 - word_of_nat d :: 32 word) div 10) = (4294967295 - d) div 10"
proof -
  have "unat (- 1 - word_of_nat d :: 32 word) = 4294967295 - d"
    using assms by (subst unat_sub) (auto simp: word_le_nat_alt unat_of_nat unsigned_minus_1_eq_mask mask_eq_exp_minus_1)
  then show ?thesis by (simp add: unat_div)
qed

lemma digits_loop_step:
  assumes "is_digit c"
  shows "((- 1 - word_of_nat (digit_value c)) div 10 < (out :: 32 word))
         \<longleftrightarrow> 2 ^ 32 \<le> 10 * unat out + digit_value c"
    and "10 * unat out + digit_value c < 2 ^ 32 \<Longrightarrow>
         unat (out * 10 + word_of_nat (digit_value c)) = 10 * unat out + digit_value c"
proof -
  have d: "digit_value c \<le> 9" by (rule digit_value_le [OF assms])
  show "((- 1 - word_of_nat (digit_value c)) div 10 < (out :: 32 word))
         \<longleftrightarrow> 2 ^ 32 \<le> 10 * unat out + digit_value c"
    unfolding word_less_nat_alt max_minus_div [OF d] using d by simp arith
  assume "10 * unat out + digit_value c < 2 ^ 32"
  then show "unat (out * 10 + word_of_nat (digit_value c)) = 10 * unat out + digit_value c"
    using d by (simp add: unat_word_ariths unat_of_nat mult.commute)
qed

section \<open>Step relations\<close>

text \<open>What a component promises of its step relation: the reachable states are the start states closed under steps. The
  invariants of the concurrent components rest on these laws.\<close>

locale transition_system =
  fixes start :: "'s \<Rightarrow> bool" and step :: "'s \<Rightarrow> 's \<Rightarrow> bool" and reachable :: "'s \<Rightarrow> bool"
  assumes reachable_start: "start s \<Longrightarrow> reachable s"
    and reachable_step: "reachable s \<Longrightarrow> step s t \<Longrightarrow> reachable t"
    and reachable_induct: "reachable s \<Longrightarrow> (\<And>s. start s \<Longrightarrow> P s) \<Longrightarrow>
      (\<And>s t. reachable s \<Longrightarrow> P s \<Longrightarrow> step s t \<Longrightarrow> P t) \<Longrightarrow> P s"
begin

lemma invariant:
  assumes "reachable s" and "\<And>s. start s \<Longrightarrow> I s" and "\<And>s t. step s t \<Longrightarrow> I s \<Longrightarrow> I t"
  shows "I s"
  using assms(1) by (rule reachable_induct) (use assms in blast)+

text \<open>An invariant may be proved with the help of another one.\<close>

lemma invariant_using:
  assumes "reachable s" and "\<And>s. reachable s \<Longrightarrow> J s" and "\<And>s. start s \<Longrightarrow> I s"
    and "\<And>s t. step s t \<Longrightarrow> J s \<Longrightarrow> I s \<Longrightarrow> I t"
  shows "I s"
  using assms(1) by (rule reachable_induct) (use assms in blast)+

lemma reachable_run: "step\<^sup>*\<^sup>* s t \<Longrightarrow> reachable s \<Longrightarrow> reachable t"
  by (induction rule: rtranclp_induct) (auto intro: reachable_step)

end

end
