(* ===== verification/Filters.thy ===== *)
theory Filters
  imports Prelude
begin

text \<open>
  Typed queries: \<open>filter_expr.hpp\<close> (the closed expression variant and its evaluation),
  \<open>lowered_node.hpp\<close> and \<open>lowering.hpp\<close> (flattening an expression into nodes for a sink),
  \<open>relations.hpp\<close> (quantifiers over related rows), \<open>legacy_lookup.hpp\<close> (the Python spelling
  \<open>field__lookup=value\<close>) and \<open>cardinality.hpp\<close> (exactly one, or say which way it failed).

  An entity is a type variable; a field is its name and its accessor, as in the headers. A
  sink is a record of the nine calls the walk makes, each a function on the sink's state.
\<close>

section \<open>Expressions\<close>

datatype StringOp = op_equals | op_iequals | op_contains | op_starts_with | op_ends_with

datatype NumberOp =
    num_equals | num_not_equals | num_less | num_less_equal | num_greater | num_greater_equal

datatype Combine = conjunction | disjunction

record 'e StringField =
  sf_name :: string
  sf_read :: "'e \<Rightarrow> string"

record 'e BoolField =
  bf_name :: string
  bf_read :: "'e \<Rightarrow> bool"

record 'e NumberField =
  nf_name :: string
  nf_read :: "'e \<Rightarrow> int"

datatype LoweredKind =
    string_test | bool_test | number_test | begin_group | end_group
  | begin_negation | end_negation | begin_relation | end_relation

record LoweredNode =
  node_kind :: LoweredKind
  node_name :: string
  node_op :: string
  node_operand :: string
  node_number :: int
  node_conjunction :: bool
  node_expected :: bool
  node_quantifier :: int

type_synonym LoweredExpression = "LoweredNode list"

datatype (dead 'e) FilterExpr =
    StringTest "'e StringField" StringOp string
  | BoolTest "'e BoolField" bool
  | NumberTest "'e NumberField" NumberOp int
  | Group Combine "'e FilterExpr list"
  | Negation "'e FilterExpr"
  | RelationTest string int "'e \<Rightarrow> bool" LoweredExpression

section \<open>Evaluation\<close>

definition fold_char :: "char \<Rightarrow> char" where
  "fold_char c = (if 65 \<le> byte c \<and> byte c \<le> 90 then char_of (byte c + 32) else c)"

fun evaluate_string :: "StringOp \<Rightarrow> string \<Rightarrow> string \<Rightarrow> bool" where
  "evaluate_string op_equals v operand = (v = operand)"
| "evaluate_string op_iequals v operand =
     (length v = length operand \<and> list_all2 (\<lambda>l r. fold_char l = fold_char r) v operand)"
| "evaluate_string op_contains v operand = (sub_find operand v \<noteq> None)"
| "evaluate_string op_starts_with v operand = starts_with v operand"
| "evaluate_string op_ends_with v operand = ends_with v operand"

fun evaluate_number :: "NumberOp \<Rightarrow> int \<Rightarrow> int \<Rightarrow> bool" where
  "evaluate_number num_equals v operand = (v = operand)"
| "evaluate_number num_not_equals v operand = (v \<noteq> operand)"
| "evaluate_number num_less v operand = (v < operand)"
| "evaluate_number num_less_equal v operand = (v \<le> operand)"
| "evaluate_number num_greater v operand = (v > operand)"
| "evaluate_number num_greater_equal v operand = (v \<ge> operand)"

fun evaluate :: "'e FilterExpr \<Rightarrow> 'e \<Rightarrow> bool" where
  "evaluate (StringTest f op operand) e = evaluate_string op (sf_read f e) operand"
| "evaluate (BoolTest f expct) e = (bf_read f e = expct)"
| "evaluate (NumberTest f op operand) e = evaluate_number op (nf_read f e) operand"
| "evaluate (Group c operands) e =
     (if c = conjunction then list_all (\<lambda>x. evaluate x e) operands
      else list_ex (\<lambda>x. evaluate x e) operands)"
| "evaluate (Negation operand) e = (\<not> evaluate operand e)"
| "evaluate (RelationTest r q f child) e = f e"

definition expr_and :: "'e FilterExpr \<Rightarrow> 'e FilterExpr \<Rightarrow> 'e FilterExpr" where
  "expr_and l r = Group conjunction [l, r]"

definition expr_or :: "'e FilterExpr \<Rightarrow> 'e FilterExpr \<Rightarrow> 'e FilterExpr" where
  "expr_or l r = Group disjunction [l, r]"

definition expr_not :: "'e FilterExpr \<Rightarrow> 'e FilterExpr" where
  "expr_not x = Negation x"

definition field_eq :: "'e StringField \<Rightarrow> string \<Rightarrow> 'e FilterExpr" where
  "field_eq f operand = StringTest f op_equals operand"

definition field_ne :: "'e StringField \<Rightarrow> string \<Rightarrow> 'e FilterExpr" where
  "field_ne f operand = expr_not (field_eq f operand)"

definition flag_is :: "'e BoolField \<Rightarrow> bool \<Rightarrow> 'e FilterExpr" where
  "flag_is f expct = BoolTest f expct"

definition flag_is_not :: "'e BoolField \<Rightarrow> bool \<Rightarrow> 'e FilterExpr" where
  "flag_is_not f expct = flag_is f (\<not> expct)"

definition matching :: "'e FilterExpr \<Rightarrow> 'e list \<Rightarrow> 'e list" where
  "matching expr rows = filter (evaluate expr) rows"

section \<open>Cardinality\<close>

datatype CardinalityError = none_matched | several_matched

fun first_row :: "'a list \<Rightarrow> 'a option" where
  "first_row [] = None"
| "first_row (x # xs) = Some x"

fun exactly_one :: "'a list \<Rightarrow> (CardinalityError, 'a) expected" where
  "exactly_one [] = Inl none_matched"
| "exactly_one [x] = Inr x"
| "exactly_one (x # y # zs) = Inl several_matched"

section \<open>Lowering\<close>

fun string_op_name :: "StringOp \<Rightarrow> string" where
  "string_op_name op_equals = ''eq''"
| "string_op_name op_iequals = ''iexact''"
| "string_op_name op_contains = ''contains''"
| "string_op_name op_starts_with = ''startswith''"
| "string_op_name op_ends_with = ''endswith''"

fun number_op_name :: "NumberOp \<Rightarrow> string" where
  "number_op_name num_equals = ''eq''"
| "number_op_name num_not_equals = ''ne''"
| "number_op_name num_less = ''lt''"
| "number_op_name num_less_equal = ''lte''"
| "number_op_name num_greater = ''gt''"
| "number_op_name num_greater_equal = ''gte''"

record 's Sink =
  on_string :: "string \<Rightarrow> string \<Rightarrow> string \<Rightarrow> 's \<Rightarrow> 's"
  on_bool :: "string \<Rightarrow> bool \<Rightarrow> 's \<Rightarrow> 's"
  on_number :: "string \<Rightarrow> string \<Rightarrow> int \<Rightarrow> 's \<Rightarrow> 's"
  on_begin_group :: "bool \<Rightarrow> 's \<Rightarrow> 's"
  on_end_group :: "'s \<Rightarrow> 's"
  on_begin_negation :: "'s \<Rightarrow> 's"
  on_end_negation :: "'s \<Rightarrow> 's"
  on_begin_relation :: "string \<Rightarrow> int \<Rightarrow> 's \<Rightarrow> 's"
  on_end_relation :: "'s \<Rightarrow> 's"

definition replay_node :: "'s Sink \<Rightarrow> LoweredNode \<Rightarrow> 's \<Rightarrow> 's" where
  "replay_node k n =
     (case node_kind n of
        string_test \<Rightarrow> on_string k (node_name n) (node_op n) (node_operand n)
      | bool_test \<Rightarrow> on_bool k (node_name n) (node_expected n)
      | number_test \<Rightarrow> on_number k (node_name n) (node_op n) (node_number n)
      | begin_group \<Rightarrow> on_begin_group k (node_conjunction n)
      | end_group \<Rightarrow> on_end_group k
      | begin_negation \<Rightarrow> on_begin_negation k
      | end_negation \<Rightarrow> on_end_negation k
      | begin_relation \<Rightarrow> on_begin_relation k (node_name n) (node_quantifier n)
      | end_relation \<Rightarrow> on_end_relation k)"

fun replay :: "'s Sink \<Rightarrow> LoweredExpression \<Rightarrow> 's \<Rightarrow> 's" where
  "replay k [] s = s"
| "replay k (n # ns) s = replay k ns (replay_node k n s)"

fun lower :: "'s Sink \<Rightarrow> 'e FilterExpr \<Rightarrow> 's \<Rightarrow> 's" where
  "lower k (StringTest f op operand) s = on_string k (sf_name f) (string_op_name op) operand s"
| "lower k (BoolTest f expct) s = on_bool k (bf_name f) expct s"
| "lower k (NumberTest f op operand) s = on_number k (nf_name f) (number_op_name op) operand s"
| "lower k (Group c operands) s =
     on_end_group k (fold (\<lambda>x t. lower k x t) operands (on_begin_group k (c = conjunction) s))"
| "lower k (Negation operand) s = on_end_negation k (lower k operand (on_begin_negation k s))"
| "lower k (RelationTest r q f child) s =
     on_end_relation k (replay k child (on_begin_relation k r q s))"

text \<open>\<open>NodeCollector\<close>: the sink whose state is the vector of nodes.\<close>

definition blank_node :: LoweredNode where
  "blank_node = \<lparr>node_kind = string_test, node_name = [], node_op = [], node_operand = [],
     node_number = 0, node_conjunction = False, node_expected = False, node_quantifier = 0\<rparr>"

definition push_kind :: "LoweredKind \<Rightarrow> LoweredExpression \<Rightarrow> LoweredExpression" where
  "push_kind k ns = ns @ [blank_node\<lparr>node_kind := k\<rparr>]"

definition node_collector :: "LoweredExpression Sink" where
  "node_collector = \<lparr>
     on_string = (\<lambda>f op operand ns. ns @ [blank_node\<lparr>node_kind := string_test, node_name := f,
        node_op := op, node_operand := operand\<rparr>]),
     on_bool = (\<lambda>f expct ns. ns @ [blank_node\<lparr>node_kind := bool_test, node_name := f,
        node_expected := expct\<rparr>]),
     on_number = (\<lambda>f op operand ns. ns @ [blank_node\<lparr>node_kind := number_test, node_name := f,
        node_op := op, node_number := operand\<rparr>]),
     on_begin_group = (\<lambda>c ns. ns @ [blank_node\<lparr>node_kind := begin_group, node_conjunction := c\<rparr>]),
     on_end_group = push_kind end_group,
     on_begin_negation = push_kind begin_negation,
     on_end_negation = push_kind end_negation,
     on_begin_relation = (\<lambda>r q ns. ns @ [blank_node\<lparr>node_kind := begin_relation, node_name := r,
        node_quantifier := q\<rparr>]),
     on_end_relation = push_kind end_relation\<rparr>"

definition lowered :: "'e FilterExpr \<Rightarrow> LoweredExpression" where
  "lowered expr = lower node_collector expr []"

section \<open>Relations\<close>

datatype Quantifier = any_of | all_of | none_of | is_one

fun quantifier_value :: "Quantifier \<Rightarrow> int" where
  "quantifier_value any_of = 0"
| "quantifier_value all_of = 1"
| "quantifier_value none_of = 2"
| "quantifier_value is_one = 3"

definition children_of :: "'c list \<Rightarrow> 'c StringField \<Rightarrow> 'p StringField \<Rightarrow> 'p \<Rightarrow> 'c list" where
  "children_of rows foreign_key key parent =
     filter (\<lambda>child. sf_read foreign_key child = sf_read key parent) rows"

definition parent_of :: "'p list \<Rightarrow> 'c StringField \<Rightarrow> 'p StringField \<Rightarrow> 'c \<Rightarrow> 'p option" where
  "parent_of rows foreign_key key child =
     List.find (\<lambda>row. sf_read key row = sf_read foreign_key child) rows"

definition quantified ::
  "string \<Rightarrow> Quantifier \<Rightarrow> ('e \<Rightarrow> 'r list) \<Rightarrow> 'r FilterExpr \<Rightarrow> 'e FilterExpr" where
  "quantified name quantifier read test =
     RelationTest name (quantifier_value quantifier)
       (\<lambda>entity. let related = read entity
          in if quantifier = any_of then list_ex (evaluate test) related
             else if quantifier = all_of then list_all (evaluate test) related
             else \<not> list_ex (evaluate test) related)
       (lowered test)"

definition is_related :: "string \<Rightarrow> ('e \<Rightarrow> 'r option) \<Rightarrow> 'r FilterExpr \<Rightarrow> 'e FilterExpr" where
  "is_related name read test =
     RelationTest name (quantifier_value is_one)
       (\<lambda>entity. case read entity of None \<Rightarrow> False | Some row \<Rightarrow> evaluate test row)
       (lowered test)"

section \<open>The Python spelling\<close>

datatype LookupParseError = missing_value | unknown_field | unknown_lookup

definition lookup_of :: "string \<Rightarrow> (LookupParseError, StringOp) expected" where
  "lookup_of name =
     (if name = [] \<or> name = ''eq'' \<or> name = ''exact'' then Inr op_equals
      else if name = ''iexact'' then Inr op_iequals
      else if name = ''contains'' then Inr op_contains
      else if name = ''startswith'' then Inr op_starts_with
      else if name = ''endswith'' then Inr op_ends_with
      else Inl unknown_lookup)"

text \<open>\<open>s.rfind(needle)\<close>: the last position at which it occurs.\<close>

fun sub_rfind :: "string \<Rightarrow> string \<Rightarrow> nat option" where
  "sub_rfind p [] = (if p = [] then Some 0 else None)"
| "sub_rfind p (x # xs) =
     (case sub_rfind p xs of
        Some k \<Rightarrow> Some (Suc k)
      | None \<Rightarrow> if starts_with (x # xs) p then Some 0 else None)"

fun find_field :: "'e StringField list \<Rightarrow> string \<Rightarrow> 'e StringField option" where
  "find_field [] name = None"
| "find_field (f # fs) name = (if sf_name f = name then Some f else find_field fs name)"

definition parse_lookup ::
  "string \<Rightarrow> 'e StringField list \<Rightarrow> (LookupParseError, 'e FilterExpr) expected" where
  "parse_lookup term table =
     (case str_find (CHR ''='') term of
        None \<Rightarrow> Inl missing_value
      | Some assign \<Rightarrow>
          (let key = take assign term; val = drop (Suc assign) term;
               split = sub_rfind ''__'' key;
               name = (case split of None \<Rightarrow> key | Some k \<Rightarrow> take k key);
               lookup = (case split of None \<Rightarrow> [] | Some k \<Rightarrow> drop (k + 2) key)
           in if split \<noteq> None \<and> lookup = [] then Inl unknown_lookup
              else (case lookup_of lookup of
                  Inl err \<Rightarrow> Inl err
                | Inr op \<Rightarrow>
                    (case find_field table name of
                       None \<Rightarrow> Inl unknown_field
                     | Some f \<Rightarrow> Inr (StringTest f op val)))))"

section \<open>Any sink sees what the collector collected\<close>

lemma collector_simps [simp]:
  "on_string node_collector f op v ns = ns @ [blank_node\<lparr>node_kind := string_test, node_name := f,
     node_op := op, node_operand := v\<rparr>]"
  "on_bool node_collector f b ns = ns @ [blank_node\<lparr>node_kind := bool_test, node_name := f,
     node_expected := b\<rparr>]"
  "on_number node_collector f op i ns = ns @ [blank_node\<lparr>node_kind := number_test, node_name := f,
     node_op := op, node_number := i\<rparr>]"
  "on_begin_group node_collector c ns = ns @ [blank_node\<lparr>node_kind := begin_group, node_conjunction := c\<rparr>]"
  "on_end_group node_collector ns = ns @ [blank_node\<lparr>node_kind := end_group\<rparr>]"
  "on_begin_negation node_collector ns = ns @ [blank_node\<lparr>node_kind := begin_negation\<rparr>]"
  "on_end_negation node_collector ns = ns @ [blank_node\<lparr>node_kind := end_negation\<rparr>]"
  "on_begin_relation node_collector r q ns = ns @ [blank_node\<lparr>node_kind := begin_relation,
     node_name := r, node_quantifier := q\<rparr>]"
  "on_end_relation node_collector ns = ns @ [blank_node\<lparr>node_kind := end_relation\<rparr>]"
  by (simp_all add: node_collector_def push_kind_def)

text \<open>A node the collector made: nothing is set but the fields its kind uses.\<close>

definition canonical_node :: "LoweredNode \<Rightarrow> bool" where
  "canonical_node n \<longleftrightarrow> replay_node node_collector n [] = [n]"

lemma replay_append [simp]: "replay k (xs @ ys) s = replay k ys (replay k xs s)"
  by (induction xs arbitrary: s) auto

lemma replay_node_collector: "replay_node node_collector n ns = ns @ replay_node node_collector n []"
  by (auto simp: replay_node_def split: LoweredKind.splits)

lemma replay_collector: "\<forall>n \<in> set xs. canonical_node n \<Longrightarrow> replay node_collector xs ns = ns @ xs"
proof (induction xs arbitrary: ns)
  case (Cons n xs)
  then show ?case by (subst replay.simps, subst replay_node_collector) (simp add: canonical_node_def)
qed simp

text \<open>
  The expressions the library builds hold canonical children: \<open>lowered\<close> made them.
\<close>

fun canonical_expr :: "'e FilterExpr \<Rightarrow> bool" where
  "canonical_expr (Group c xs) = list_all canonical_expr xs"
| "canonical_expr (Negation x) = canonical_expr x"
| "canonical_expr (RelationTest r q f child) = list_all canonical_node child"
| "canonical_expr _ = True"

lemma fold_collects:
  assumes "\<And>x t. x \<in> set xs \<Longrightarrow> lower node_collector x t = t @ lowered x"
  shows "fold (\<lambda>x t. lower node_collector x t) xs s = s @ concat (map lowered xs)"
  using assms by (induction xs arbitrary: s) auto

lemma lower_collects: "canonical_expr e \<Longrightarrow> lower node_collector e s = s @ lowered e"
proof (induction e arbitrary: s)
  case (Group c xs)
  then have "fold (\<lambda>x t. lower node_collector x t) xs t = t @ concat (map lowered xs)" for t
    by (intro fold_collects) (auto simp: list_all_iff)
  then show ?case by (simp add: lowered_def)
next
  case (Negation e)
  then show ?case by (simp add: lowered_def [of "Negation e"])
next
  case (RelationTest r q f child)
  then show ?case by (simp add: lowered_def replay_collector list_all_iff)
qed (simp_all add: lowered_def)

lemma lowered_simps:
  "lowered (StringTest f op v) = [blank_node\<lparr>node_kind := string_test, node_name := sf_name f,
     node_op := string_op_name op, node_operand := v\<rparr>]"
  "lowered (BoolTest g b) = [blank_node\<lparr>node_kind := bool_test, node_name := bf_name g,
     node_expected := b\<rparr>]"
  "lowered (NumberTest h nop i) = [blank_node\<lparr>node_kind := number_test, node_name := nf_name h,
     node_op := number_op_name nop, node_number := i\<rparr>]"
  "list_all canonical_expr xs \<Longrightarrow> lowered (Group c xs) =
     [blank_node\<lparr>node_kind := begin_group, node_conjunction := (c = conjunction)\<rparr>] @
     concat (map lowered xs) @ [blank_node\<lparr>node_kind := end_group\<rparr>]"
  "canonical_expr e \<Longrightarrow> lowered (Negation e) =
     [blank_node\<lparr>node_kind := begin_negation\<rparr>] @ lowered e @ [blank_node\<lparr>node_kind := end_negation\<rparr>]"
  "list_all canonical_node child \<Longrightarrow> lowered (RelationTest r q t child) =
     [blank_node\<lparr>node_kind := begin_relation, node_name := r, node_quantifier := q\<rparr>] @ child @
     [blank_node\<lparr>node_kind := end_relation\<rparr>]"
proof -
  assume "list_all canonical_expr xs"
  then show "lowered (Group c xs) =
     [blank_node\<lparr>node_kind := begin_group, node_conjunction := (c = conjunction)\<rparr>] @
     concat (map lowered xs) @ [blank_node\<lparr>node_kind := end_group\<rparr>]"
    by (subst lowered_def) (simp add: fold_collects lower_collects list_all_iff)
next
  assume "canonical_expr e"
  then show "lowered (Negation e) =
     [blank_node\<lparr>node_kind := begin_negation\<rparr>] @ lowered e @ [blank_node\<lparr>node_kind := end_negation\<rparr>]"
    by (subst lowered_def) (simp add: lower_collects)
qed (simp_all add: lowered_def replay_collector list_all_iff)

lemma lowered_canonical: "canonical_expr e \<Longrightarrow> \<forall>n \<in> set (lowered e). canonical_node n"
  by (induction e)
    (auto simp: lowered_simps canonical_node_def replay_node_def blank_node_def list_all_iff)

lemma fold_replays:
  assumes "\<And>x t. x \<in> set xs \<Longrightarrow> lower k x t = replay k (lowered x) t"
  shows "fold (\<lambda>x t. lower k x t) xs s = replay k (concat (map lowered xs)) s"
  using assms by (induction xs arbitrary: s) auto

lemma lower_replays: "canonical_expr e \<Longrightarrow> lower k e s = replay k (lowered e) s"
proof (induction e arbitrary: s)
  case (Group c xs)
  then have "fold (\<lambda>x t. lower k x t) xs t = replay k (concat (map lowered xs)) t" for t
    by (intro fold_replays) (auto simp: list_all_iff)
  with Group.prems show ?case by (simp add: lowered_simps replay_node_def blank_node_def)
qed (simp_all add: lowered_simps replay_node_def blank_node_def)

section \<open>Reading a lowered expression back\<close>

text \<open>
  What an expression says without its accessors, the nodes it flattens to, and a decoder that
  reads nodes with a stack of open brackets. None of this is in the library; it states that
  lowering loses nothing but the accessors.
\<close>

datatype Shape =
    SString string string string
  | SBool string bool
  | SNumber string string int
  | SGroup bool "Shape list"
  | SNot Shape
  | SRelation string int Shape

fun flatten :: "Shape \<Rightarrow> LoweredExpression" where
  "flatten (SString f op v) = [blank_node\<lparr>node_kind := string_test, node_name := f, node_op := op,
     node_operand := v\<rparr>]"
| "flatten (SBool f b) = [blank_node\<lparr>node_kind := bool_test, node_name := f, node_expected := b\<rparr>]"
| "flatten (SNumber f op i) = [blank_node\<lparr>node_kind := number_test, node_name := f, node_op := op,
     node_number := i\<rparr>]"
| "flatten (SGroup c xs) = [blank_node\<lparr>node_kind := begin_group, node_conjunction := c\<rparr>] @
     concat (map flatten xs) @ [blank_node\<lparr>node_kind := end_group\<rparr>]"
| "flatten (SNot x) = [blank_node\<lparr>node_kind := begin_negation\<rparr>] @ flatten x @
     [blank_node\<lparr>node_kind := end_negation\<rparr>]"
| "flatten (SRelation r q x) = [blank_node\<lparr>node_kind := begin_relation, node_name := r,
     node_quantifier := q\<rparr>] @ flatten x @ [blank_node\<lparr>node_kind := end_relation\<rparr>]"

fun close_frame :: "LoweredKind \<Rightarrow> LoweredNode \<Rightarrow> Shape list \<Rightarrow> Shape option" where
  "close_frame end_group opener xs =
     (if node_kind opener = begin_group then Some (SGroup (node_conjunction opener) xs) else None)"
| "close_frame end_negation opener [x] =
     (if node_kind opener = begin_negation then Some (SNot x) else None)"
| "close_frame end_relation opener [x] =
     (if node_kind opener = begin_relation
      then Some (SRelation (node_name opener) (node_quantifier opener) x) else None)"
| "close_frame _ _ _ = None"

fun decode :: "LoweredExpression \<Rightarrow> (LoweredNode \<times> Shape list) list \<Rightarrow> Shape list \<Rightarrow> Shape list option" where
  "decode [] stack done = (if stack = [] then Some done else None)"
| "decode (n # ns) stack done =
     (if node_kind n = string_test
        then decode ns stack (done @ [SString (node_name n) (node_op n) (node_operand n)])
      else if node_kind n = bool_test
        then decode ns stack (done @ [SBool (node_name n) (node_expected n)])
      else if node_kind n = number_test
        then decode ns stack (done @ [SNumber (node_name n) (node_op n) (node_number n)])
      else if node_kind n \<in> {begin_group, begin_negation, begin_relation}
        then decode ns ((n, done) # stack) []
      else (case stack of
          [] \<Rightarrow> None
        | (opener, before) # rest \<Rightarrow>
            (case close_frame (node_kind n) opener done of
               None \<Rightarrow> None
             | Some x \<Rightarrow> decode ns rest (before @ [x]))))"

lemma decode_flatten: "decode (flatten x @ ns) stack acc = decode ns stack (acc @ [x])"
proof (induction x arbitrary: ns stack acc)
  case (SGroup c xs)
  have "decode (concat (map flatten ys) @ ms) st acc' = decode ms st (acc' @ ys)"
    if "set ys \<subseteq> set xs" for ys ms st acc'
    using that SGroup by (induction ys arbitrary: acc') auto
  from this [of xs] show ?case by (simp add: blank_node_def)
qed (simp_all add: blank_node_def)

fun shape :: "'e FilterExpr \<Rightarrow> Shape option" where
  "shape (StringTest f op v) = Some (SString (sf_name f) (string_op_name op) v)"
| "shape (BoolTest f b) = Some (SBool (bf_name f) b)"
| "shape (NumberTest f op i) = Some (SNumber (nf_name f) (number_op_name op) i)"
| "shape (Group c xs) = map_option (SGroup (c = conjunction)) (those (map shape xs))"
| "shape (Negation x) = map_option SNot (shape x)"
| "shape (RelationTest r q f child) =
     (case decode child [] [] of
        Some [x] \<Rightarrow> if flatten x = child then Some (SRelation r q x) else None
      | _ \<Rightarrow> None)"

lemma flatten_canonical: "\<forall>n \<in> set (flatten x). canonical_node n"
  by (induction x) (auto simp: canonical_node_def replay_node_def blank_node_def)

lemma those_map: "those (map f xs) = Some ys \<longleftrightarrow> map f xs = map Some ys"
proof (induction xs arbitrary: ys)
  case (Cons x xs)
  then show ?case by (cases ys) (auto split: option.splits)
qed auto

lemma shape_canonical: "shape e = Some x \<Longrightarrow> canonical_expr e"
proof (induction e arbitrary: x)
  case (Group c xs)
  then obtain ys where "map shape xs = map Some ys" by (auto simp: those_map)
  then have "\<exists>y. shape e = Some y" if "e \<in> set xs" for e
    using that by (metis (no_types, lifting) image_iff list.set_map)
  with Group.IH show ?case by (simp add: list_all_iff) blast
next
  case (RelationTest r q f child)
  then show ?case using flatten_canonical
    by (auto simp: list_all_iff split: option.splits list.splits if_splits)
qed auto

lemma lowered_shape: "shape e = Some x \<Longrightarrow> lowered e = flatten x"
proof (induction e arbitrary: x)
  case (Group c xs)
  then obtain ys where ys: "map shape xs = map Some ys" "x = SGroup (c = conjunction) ys"
    by (auto simp: those_map)
  from ys(1) Group.IH have "map lowered xs = map flatten ys"
    by (induction xs arbitrary: ys) (auto simp: map_eq_Cons_conv)
  moreover have "list_all canonical_expr xs" using shape_canonical [OF Group.prems] by simp
  ultimately show ?case using ys(2) by (simp add: lowered_simps)
next
  case (Negation e)
  then show ?case using shape_canonical [OF Negation.prems] by (auto simp: lowered_simps)
next
  case (RelationTest r q f child)
  then show ?case using shape_canonical [OF RelationTest]
    by (auto simp: lowered_simps split: option.splits list.splits if_splits)
qed (auto simp: lowered_simps)

lemma shape_builders:
  assumes "shape test = Some x"
  shows "shape (quantified name q read test) = Some (SRelation name (quantifier_value q) x)"
    and "shape (is_related name read1 test) = Some (SRelation name (quantifier_value is_one) x)"
  using decode_flatten [of x "[]" "[]" "[]"] lowered_shape [OF assms]
  by (simp_all add: quantified_def is_related_def)

section \<open>Evaluating by name\<close>

definition number_op_of :: "string \<Rightarrow> NumberOp option" where
  "number_op_of n = List.find (\<lambda>op. number_op_name op = n)
     [num_equals, num_not_equals, num_less, num_less_equal, num_greater, num_greater_equal]"

lemma number_op_of_name [simp]: "number_op_of (number_op_name op) = Some op"
  by (cases op) (simp_all add: number_op_of_def)

lemma lookup_of_name [simp]: "lookup_of (string_op_name op) = Inr op"
  by (cases op) (simp_all add: lookup_of_def)

record 'e Reader =
  read_string :: "string \<Rightarrow> 'e \<Rightarrow> string"
  read_bool :: "string \<Rightarrow> 'e \<Rightarrow> bool"
  read_number :: "string \<Rightarrow> 'e \<Rightarrow> int"
  read_relation :: "string \<Rightarrow> int \<Rightarrow> LoweredExpression \<Rightarrow> 'e \<Rightarrow> bool"

fun evaluate_by_name :: "'e Reader \<Rightarrow> Shape \<Rightarrow> 'e \<Rightarrow> bool" where
  "evaluate_by_name R (SString f op v) e =
     (case lookup_of op of Inl _ \<Rightarrow> False | Inr o' \<Rightarrow> evaluate_string o' (read_string R f e) v)"
| "evaluate_by_name R (SBool f b) e = (read_bool R f e = b)"
| "evaluate_by_name R (SNumber f op i) e =
     (case number_op_of op of None \<Rightarrow> False | Some o' \<Rightarrow> evaluate_number o' (read_number R f e) i)"
| "evaluate_by_name R (SGroup c xs) e =
     (if c then list_all (\<lambda>x. evaluate_by_name R x e) xs
      else list_ex (\<lambda>x. evaluate_by_name R x e) xs)"
| "evaluate_by_name R (SNot x) e = (\<not> evaluate_by_name R x e)"
| "evaluate_by_name R (SRelation r q x) e = read_relation R r q (flatten x) e"

fun names_agree :: "'e Reader \<Rightarrow> 'e FilterExpr \<Rightarrow> bool" where
  "names_agree R (StringTest f op v) = (read_string R (sf_name f) = sf_read f)"
| "names_agree R (BoolTest f b) = (read_bool R (bf_name f) = bf_read f)"
| "names_agree R (NumberTest f op i) = (read_number R (nf_name f) = nf_read f)"
| "names_agree R (Group c xs) = list_all (names_agree R) xs"
| "names_agree R (Negation x) = names_agree R x"
| "names_agree R (RelationTest r q f child) = (read_relation R r q child = f)"

lemma evaluate_by_name_shape:
  "shape expr = Some x \<Longrightarrow> names_agree R expr \<Longrightarrow> evaluate_by_name R x e = evaluate expr e"
proof (induction expr arbitrary: x)
  case (Group c xs)
  then obtain ys where ys: "map shape xs = map Some ys" "x = SGroup (c = conjunction) ys"
    by (auto simp: those_map)
  from ys(1) Group.IH Group.prems(2)
  have "map (\<lambda>y. evaluate_by_name R y e) ys = map (\<lambda>y. evaluate y e) xs"
    by (induction xs arbitrary: ys) (auto simp: map_eq_Cons_conv)
  then have "list_all (\<lambda>y. evaluate_by_name R y e) ys = list_all (\<lambda>y. evaluate y e) xs"
    "list_ex (\<lambda>y. evaluate_by_name R y e) ys = list_ex (\<lambda>y. evaluate y e) xs"
    using map_eq_quantifiers by blast+
  with ys(2) show ?case by simp
qed (auto split: option.splits list.splits if_splits)

section \<open>Lookup terms\<close>

lemma sub_rfind_none: "CHR ''_'' \<notin> set s \<Longrightarrow> sub_rfind ''__'' s = None"
  by (induction s) auto

lemma sub_rfind_split:
  "CHR ''_'' \<notin> set s \<Longrightarrow> sub_rfind ''__'' (name @ ''__'' @ s) = Some (length name)"
proof (induction name)
  case Nil
  then show ?case by (cases s) (auto simp: sub_rfind_none)
qed auto

lemma string_op_name_chars: "CHR ''_'' \<notin> set (string_op_name op)" "CHR ''='' \<notin> set (string_op_name op)"
    "string_op_name op \<noteq> []"
  by (cases op; simp)+

lemma parse_lookup_key:
  assumes "CHR ''='' \<notin> set key"
  shows "parse_lookup (key @ CHR ''='' # v) table =
    (let split = sub_rfind ''__'' key;
         name = (case split of None \<Rightarrow> key | Some k \<Rightarrow> take k key);
         lookup = (case split of None \<Rightarrow> [] | Some k \<Rightarrow> drop (k + 2) key)
     in if split \<noteq> None \<and> lookup = [] then Inl unknown_lookup
        else (case lookup_of lookup of
            Inl err \<Rightarrow> Inl err
          | Inr op \<Rightarrow>
              (case find_field table name of
                 None \<Rightarrow> Inl unknown_field
               | Some f \<Rightarrow> Inr (StringTest f op v))))"
  using str_find_append [OF assms, of v] by (simp add: parse_lookup_def)

lemma exactly_one_Inr: "exactly_one zs = Inr z \<longleftrightarrow> zs = [z]"
  by (cases zs rule: exactly_one.cases) auto

lemma exactly_one_matching:
  "exactly_one (matching t rows) = Inr c \<longleftrightarrow>
     (\<exists>xs ys. rows = xs @ c # ys \<and> evaluate t c \<and> matching t xs = [] \<and> matching t ys = [])"
  unfolding exactly_one_Inr matching_def filter_eq_Cons_iff eq_commute [of "[]" "filter _ _"]
    filter_empty_conv by blast

section \<open>Properties\<close>


definition sample_field :: "string StringField" where
  "sample_field = \<lparr>sf_name = ''pane_title'', sf_read = id\<rparr>"

definition sample_expr :: "string FilterExpr" where
  "sample_expr = expr_and (field_ne sample_field ''vim'') (StringTest sample_field op_contains ''x'')"


text \<open>
  A lowered filter means what the filter means: read through any reader whose named fields
  agree with the accessors the expression was built with, the decoded nodes select exactly the
  rows \<open>matching\<close> selects.
\<close>

theorem lowered_meaning:
  assumes "shape expr = Some x" "names_agree R expr"
  shows "\<exists>y. decode (lowered expr) [] [] = Some [y] \<and>
             matching expr rows = filter (evaluate_by_name R y) rows"
  using assms decode_flatten [of x "[]" "[]" "[]"] lowered_shape [OF assms(1)]
    evaluate_by_name_shape [OF assms]
  by (intro exI [of _ x]) (auto simp: matching_def intro: filter_cong)

theorem lowered_meaning_witness:
  "matching sample_expr [''vim'', ''xyz'', ''abc''] = [''xyz''] \<and>
   (\<exists>y. decode (lowered sample_expr) [] [] = Some [y] \<and>
      filter (evaluate_by_name \<lparr>read_string = (\<lambda>_. id), read_bool = (\<lambda>_ _. False),
        read_number = (\<lambda>_ _. 0), read_relation = (\<lambda>_ _ _ _. False)\<rparr> y) [''vim'', ''xyz'', ''abc''] = [''xyz''])"
proof -
  let ?R = "\<lparr>read_string = (\<lambda>_. id), read_bool = (\<lambda>_ _. False),
        read_number = (\<lambda>_ _. 0), read_relation = (\<lambda>_ _ _ _. False)\<rparr> :: string Reader"
  have sh: "shape sample_expr = Some (SGroup True
     [SNot (SString ''pane_title'' ''eq'' ''vim''), SString ''pane_title'' ''contains'' ''x''])"
    and ag: "names_agree ?R sample_expr"
    by (simp_all add: sample_expr_def expr_and_def field_ne_def expr_not_def field_eq_def sample_field_def)
  have m: "matching sample_expr [''vim'', ''xyz'', ''abc''] = [''xyz'']"
    by (simp add: matching_def sample_expr_def expr_and_def field_ne_def expr_not_def field_eq_def
        sample_field_def)
  with lowered_meaning [OF sh ag, of "[''vim'', ''xyz'', ''abc'']"] show ?thesis by metis
qed

text \<open>
  The Python spelling of a lookup is read as written: a term \<open>field__lookup=value\<close> over a
  table yields the test on the first field of that name with the lookup's operation and the value
  verbatim, whatever bytes the value holds; the bare spelling \<open>field=value\<close> of a name without a
  double underscore is equality.
\<close>

theorem parse_lookup_reads:
  assumes "CHR ''='' \<notin> set name" "find_field table name = Some f"
  shows "parse_lookup (name @ ''__'' @ string_op_name op @ ''='' @ v) table = Inr (StringTest f op v) \<and>
         (sub_rfind ''__'' name = None \<longrightarrow> parse_lookup (name @ ''='' @ v) table = Inr (field_eq f v)) \<and>
         parse_lookup (name @ ''__='' @ v) table = Inl unknown_lookup"
proof -
  have "parse_lookup ((name @ ''__'' @ string_op_name op) @ CHR ''='' # v) table = Inr (StringTest f op v)"
    using assms sub_rfind_split [OF string_op_name_chars(1), of name op] string_op_name_chars(2,3) [of op]
    by (subst parse_lookup_key) (auto simp: Let_def)
  moreover have "parse_lookup (name @ CHR ''='' # v) table = Inr (field_eq f v)"
    if "sub_rfind ''__'' name = None"
    using assms that by (subst parse_lookup_key) (auto simp: lookup_of_def field_eq_def)
  moreover have "parse_lookup ((name @ ''__'') @ CHR ''='' # v) table = Inl unknown_lookup"
    using assms(1) sub_rfind_split [of "[]" name] by (subst parse_lookup_key) auto
  ultimately show ?thesis by simp
qed

theorem parse_lookup_reads_witness:
  "parse_lookup ''pane_title__endswith=a=b__c'' [sample_field]
     = Inr (StringTest sample_field op_ends_with ''a=b__c'')"
proof -
  have "CHR ''='' \<notin> set ''pane_title''" "find_field [sample_field] ''pane_title'' = Some sample_field"
    by (simp_all add: sample_field_def)
  from parse_lookup_reads [OF this, of op_ends_with "''a=b__c''"] show ?thesis by simp
qed

text \<open>
  Quantifiers over a join of two listings: \<open>any_of\<close> holds for a parent exactly when some
  child row carries its id and satisfies the test, \<open>none_of\<close> is its negation, \<open>all_of\<close> is
  \<open>none_of\<close> the negated test (so both hold vacuously for a parent without children), and
  \<open>exactly_one\<close> of the matching rows is a row that matches and is the only one to do so.
\<close>

theorem quantified_join:
  "(evaluate (quantified n any_of (children_of rows fk key) t) p \<longleftrightarrow>
            (\<exists>c. c \<in> set rows \<and> sf_read fk c = sf_read key p \<and> evaluate t c)) \<and>
         (evaluate (quantified n none_of (children_of rows fk key) t) p \<longleftrightarrow> \<not> evaluate (quantified n any_of (children_of rows fk key) t) p) \<and>
         (evaluate (quantified n all_of (children_of rows fk key) t) p \<longleftrightarrow> evaluate (quantified n none_of (children_of rows fk key) (expr_not t)) p) \<and>
         (exactly_one (matching t rows) = Inr c \<longleftrightarrow>
            (\<exists>xs ys. rows = xs @ c # ys \<and> evaluate t c \<and>
               matching t xs = [] \<and> matching t ys = []))"
  by (auto simp: quantified_def children_of_def list_ex_iff list_all_iff Let_def expr_not_def
      exactly_one_matching)

end
