(* ===== verification/Commands.thy ===== *)
theory Commands
  imports Prelude
begin

text \<open>
  The values a tmux command is made of and the ways it is shown:
  \<open>include/libtmux/delivery.hpp\<close> and \<open>include/libtmux/command.hpp\<close> (delivery status, failure
  kinds, arguments that carry their sensitive parts, requests), and the rendering half of
  \<open>src/backend.cpp\<close> (escaping an argument for tmux's command line, collecting the sensitive
  parts of a request, redacting a text, rendering a command for a diagnostic).

  The redaction loop terminates only because no part is empty; it is a partial function here
  (\<open>None\<close>: it does not return), and the parts the library collects are shown to make it total.
\<close>

section \<open>Failures\<close>

datatype DeliveryStatus = not_started | written | replied | indeterminate

fun delivery_text :: "DeliveryStatus \<Rightarrow> string" where
  "delivery_text not_started = ''not_started''"
| "delivery_text written = ''written''"
| "delivery_text replied = ''replied''"
| "delivery_text indeterminate = ''indeterminate''"

datatype FailureKind =
    validation | spawn | pre_exec | pipe | timeout | refused | missing | truncated
  | unsupported | overloaded' | cancelled

fun kind_text :: "FailureKind \<Rightarrow> string" where
  "kind_text validation = ''the request was rejected before tmux ran''"
| "kind_text spawn = ''tmux could not be started''"
| "kind_text pre_exec = ''the child failed before reaching tmux''"
| "kind_text pipe = ''the transport failed''"
| "kind_text timeout = ''tmux did not answer in time''"
| "kind_text refused = ''tmux refused the command''"
| "kind_text missing = ''tmux has no such object''"
| "kind_text truncated = ''the answer did not fit''"
| "kind_text unsupported = ''the backend does not support this operation''"
| "kind_text overloaded' = ''the engine has more work in flight than it accepts''"
| "kind_text cancelled = ''the caller withdrew the command''"

record CommandFailure =
  kind :: FailureKind
  delivery :: DeliveryStatus
  exit_code :: int
  diagnostic :: string

definition int_text :: "int \<Rightarrow> string" where
  "int_text i = (if i < 0 then CHR ''-'' # dec_string (nat (- i)) else dec_string (nat i))"

definition failure_text :: "CommandFailure \<Rightarrow> string" where
  "failure_text f =
     kind_text (kind f) @
     (if diagnostic f \<noteq> [] then '': '' @ diagnostic f else []) @
     '' ('' @
     (if delivery f = replied \<and> exit_code f \<noteq> 0 \<and> exit_code f \<noteq> - 1
      then ''exit '' @ int_text (exit_code f) @ '', '' else []) @
     delivery_text (delivery f) @ '')''"

datatype ProcessErrorKind =
    pe_validation | pe_spawn | pe_pre_exec | pe_pipe | pe_timeout | pe_cancelled | pe_output_limit

fun kind_of :: "ProcessErrorKind \<Rightarrow> FailureKind" where
  "kind_of pe_validation = validation"
| "kind_of pe_spawn = spawn"
| "kind_of pe_pre_exec = pre_exec"
| "kind_of pe_pipe = pipe"
| "kind_of pe_output_limit = pipe"
| "kind_of pe_timeout = timeout"
| "kind_of pe_cancelled = cancelled"

section \<open>Arguments and requests\<close>

datatype ArgumentSensitivity = public_value | secret

record CommandArgument =
  arg_value :: string
  arg_parts :: "string list"

definition plain_argument :: "string \<Rightarrow> CommandArgument" where
  "plain_argument v = \<lparr>arg_value = v, arg_parts = []\<rparr>"

definition sensitive :: "string \<Rightarrow> CommandArgument" where
  "sensitive v = \<lparr>arg_value = v, arg_parts = (if v = [] then [] else [v])\<rparr>"

text \<open>The offset and the count are \<open>std::size_t\<close>; the comparison never subtracts below zero.\<close>

definition sensitive_range :: "string \<Rightarrow> nat \<Rightarrow> nat \<Rightarrow> CommandArgument" where
  "sensitive_range v offset count =
     (if length v < offset \<or> length v - offset < count then \<lparr>arg_value = v, arg_parts = [v]\<rparr>
      else if count = 0 then plain_argument v
      else \<lparr>arg_value = v, arg_parts = [take count (drop offset v)]\<rparr>)"

definition sensitivity :: "CommandArgument \<Rightarrow> ArgumentSensitivity" where
  "sensitivity a = (if arg_parts a = [] then public_value else secret)"

type_synonym CommandRequest = "CommandArgument list"

definition request_of :: "string list \<Rightarrow> CommandRequest" where
  "request_of ws = map plain_argument ws"

definition argv :: "CommandRequest \<Rightarrow> string list" where
  "argv c = map arg_value c"

section \<open>Escaping for tmux's command line\<close>

definition kCommandSeparator :: string where
  "kCommandSeparator = '';''"

definition escaped_argument :: "string \<Rightarrow> string" where
  "escaped_argument a =
     (if a = kCommandSeparator \<or> a = [] \<or> last a \<noteq> CHR '';'' then a
      else butlast a @ [CHR 0x5C, CHR '';''])"

section \<open>Redaction\<close>

fun collect_parts :: "string list \<Rightarrow> string list \<Rightarrow> string list" where
  "collect_parts acc [] = acc"
| "collect_parts acc (p # ps) =
     collect_parts (if p \<noteq> [] \<and> p \<notin> set acc then acc @ [p] else acc) ps"

definition sensitive_parts :: "CommandRequest \<Rightarrow> string list" where
  "sensitive_parts c = collect_parts [] (concat (map arg_parts c))"

text \<open>\<open>npos\<close> is \<open>None\<close>, and it is above every position.\<close>

fun npos_less :: "nat option \<Rightarrow> nat option \<Rightarrow> bool" where
  "npos_less None _ = False"
| "npos_less (Some a) None = True"
| "npos_less (Some a) (Some b) = (a < b)"

fun best_match :: "string \<Rightarrow> string list \<Rightarrow> nat option \<times> nat \<Rightarrow> nat option \<times> nat" where
  "best_match rest [] best = best"
| "best_match rest (p # ps) (m, len) =
     best_match rest ps
       (let c = sub_find p rest
        in if npos_less c m \<or> c = m \<and> len < length p then (c, length p) else (m, len))"

text \<open>The state of the loop is the text from the cursor on.\<close>

partial_function (option) redact_loop ::
  "string list \<Rightarrow> string \<Rightarrow> string \<Rightarrow> string \<Rightarrow> string option" where
  "redact_loop parts marker rest result =
     (if rest = [] then Some result
      else (case best_match rest parts (None, 0) of
          (None, _) \<Rightarrow> Some (result @ rest)
        | (Some m, len) \<Rightarrow>
            redact_loop parts marker (drop (m + len) rest) (result @ take m rest @ marker)))"

declare redact_loop.simps [code]

definition redaction_marker :: "string list \<Rightarrow> string" where
  "redaction_marker parts =
     (if \<exists>p \<in> set parts. contains_sub ''[REDACTED]'' p then [] else ''[REDACTED]'')"

definition redacted_text :: "string \<Rightarrow> string list \<Rightarrow> string option" where
  "redacted_text text parts =
     (let marker = redaction_marker parts
      in map_option (\<lambda>result. if \<exists>p \<in> set parts. contains_sub result p then marker else result)
           (redact_loop parts marker text []))"

definition redact :: "CommandFailure \<Rightarrow> CommandRequest \<Rightarrow> CommandFailure option" where
  "redact f c = map_option (\<lambda>d. f\<lparr>diagnostic := d\<rparr>)
     (redacted_text (diagnostic f) (sensitive_parts c))"

section \<open>Rendering a command\<close>

fun safe_cut_loop :: "string \<Rightarrow> nat \<Rightarrow> nat \<Rightarrow> nat" where
  "safe_cut_loop text k 0 = k"
| "safe_cut_loop text k (Suc back) =
     (if 0 < k \<and> byte (text ! k) div 64 = 2 then safe_cut_loop text (k - 1) back else k)"

definition utf8_safe_cut :: "string \<Rightarrow> nat \<Rightarrow> nat" where
  "utf8_safe_cut text maximum = safe_cut_loop text maximum 3"

fun render_loop :: "string list \<Rightarrow> string \<Rightarrow> bool \<Rightarrow> CommandArgument list \<Rightarrow> string option" where
  "render_loop parts rendered fmt [] = Some rendered"
| "render_loop parts rendered fmt (a # as) =
     (case (if fmt then Some ''<format>'' else redacted_text (arg_value a) parts) of
        None \<Rightarrow> None
      | Some word \<Rightarrow>
          (let r = (if rendered = [] then [] else rendered @ '' '') @ word
           in if 300 < length r then Some (take (utf8_safe_cut r 300) r @ ''...'')
              else render_loop parts r (arg_value a = ''-F'') as))"

definition rendered_command :: "CommandRequest \<Rightarrow> string option" where
  "rendered_command c = render_loop (sensitive_parts c) [] False c"

section \<open>The redaction loop returns\<close>

lemma best_match_keeps:
  assumes "\<forall>p \<in> set ps. p \<noteq> []" "m \<noteq> None \<longrightarrow> 0 < len"
  shows "fst (best_match rest ps (m, len)) \<noteq> None \<longrightarrow> 0 < snd (best_match rest ps (m, len))"
  using assms
proof (induction ps arbitrary: m len)
  case Nil
  then show ?case by simp
next
  case (Cons p ps)
  let ?c = "sub_find p rest"
  show ?case
  proof (cases "npos_less ?c m \<or> ?c = m \<and> len < length p")
    case True
    have "0 < length p" using Cons.prems(1) by simp
    with True Cons.IH [of ?c "length p"] Cons.prems(1) show ?thesis by (simp add: Let_def)
  next
    case False
    with Cons.IH [of m len] Cons.prems show ?thesis by (auto simp: Let_def)
  qed
qed

lemma redact_loop_returns:
  assumes "\<forall>p \<in> set parts. p \<noteq> []"
  shows "\<exists>r. redact_loop parts marker rest result = Some r"
proof (induction "length rest" arbitrary: rest result rule: less_induct)
  case less
  show ?case
  proof (cases "rest = []")
    case True
    then show ?thesis by (simp add: redact_loop.simps)
  next
    case False
    obtain m len where bm: "best_match rest parts (None, 0) = (m, len)" by fastforce
    show ?thesis
    proof (cases m)
      case None
      with bm False show ?thesis by (simp add: redact_loop.simps)
    next
      case (Some k)
      then have "0 < len" using best_match_keeps [OF assms, of None 0 rest] bm by simp
      then have "length (drop (k + len) rest) < length rest" using False by simp
      from less [OF this] Some bm False show ?thesis by (simp add: redact_loop.simps)
    qed
  qed
qed

lemma collect_parts_set:
  "set (collect_parts acc ps) = set acc \<union> {p \<in> set ps. p \<noteq> []}"
  by (induction acc ps rule: collect_parts.induct) auto

lemma sensitive_parts_set: "set (sensitive_parts c) = {p. p \<noteq> [] \<and> (\<exists>a \<in> set c. p \<in> set (arg_parts a))}"
  by (auto simp: sensitive_parts_def collect_parts_set)

lemma sensitive_parts_nonempty: "\<forall>p \<in> set (sensitive_parts c). p \<noteq> []"
  by (simp add: sensitive_parts_set)

section \<open>What redaction hides and what it keeps\<close>

lemma contains_sub_Nil [simp]: "contains_sub [] p \<longleftrightarrow> p = []"
  by (simp add: contains_sub_def)

lemma redacted_text_returns:
  "\<forall>p \<in> set parts. p \<noteq> [] \<Longrightarrow> \<exists>r. redacted_text text parts = Some r"
  using redact_loop_returns [of parts "redaction_marker parts" "text" "[]"]
  by (auto simp: redacted_text_def Let_def)

lemma redacted_text_hides:
  assumes "redacted_text text parts = Some r" "p \<in> set parts" "p \<noteq> []"
  shows "\<not> contains_sub r p"
  using assms by (auto simp: redacted_text_def redaction_marker_def Let_def split: if_splits)

lemma best_match_None:
  "\<forall>p \<in> set ps. \<not> contains_sub rest p \<Longrightarrow> fst (best_match rest ps (None, len)) = None"
  by (induction ps arbitrary: len) (auto simp: contains_sub_def Let_def)

lemma redacted_text_keeps:
  assumes "\<forall>p \<in> set parts. \<not> contains_sub text p"
  shows "redacted_text text parts = Some text"
proof -
  have "fst (best_match text parts (None, 0)) = None" by (rule best_match_None [OF assms])
  then have "redact_loop parts marker text [] = Some text" for marker
    by (auto simp: redact_loop.simps split: prod.splits)
  with assms show ?thesis by (simp add: redacted_text_def Let_def)
qed

text \<open>A part without a byte that occurs in two words joined by that byte occurs in one of them.\<close>

lemma contains_sub_join:
  assumes "contains_sub (a @ c # b) p" "c \<notin> set p"
  shows "contains_sub a p \<or> contains_sub b p"
proof -
  from assms(1) obtain x y where xy: "a @ c # b = (x @ p) @ y"
    by (auto simp: contains_sub_iff)
  then consider us where "a = (x @ p) @ us"
    | us where "x @ p = a @ us" "us @ y = c # b"
    unfolding append_eq_append_conv2 by metis
  then show ?thesis
  proof cases
    case 1
    then show ?thesis by (auto simp: contains_sub_iff)
  next
    case (2 us)
    show ?thesis
    proof (cases us)
      case Nil
      then have "a = x @ p @ []" using 2(1) by simp
      then show ?thesis unfolding contains_sub_iff by blast
    next
      case (Cons d us')
      then have eqs: "x @ p = a @ c # us'" "b = us' @ y" using 2 by auto
      then obtain vs where "x = a @ vs" "vs @ p = c # us'"
        using assms(2) by (auto simp: append_eq_append_conv2)
      then obtain vs' where "us' = vs' @ p" using assms(2) by (cases vs) auto
      with eqs(2) show ?thesis by (auto simp: contains_sub_iff)
    qed
  qed
qed

lemma contains_sub_take: "contains_sub (take n s) p \<Longrightarrow> contains_sub s p"
  by (auto simp: contains_sub_iff) (metis append.assoc append_take_drop_id)

section \<open>Rendering\<close>

lemma safe_cut_loop_bounds: "safe_cut_loop s k n \<le> k \<and> k \<le> safe_cut_loop s k n + n"
  by (induction s k n rule: safe_cut_loop.induct) auto

lemma utf8_safe_cut_bounds: "utf8_safe_cut s k \<le> k" "k \<le> utf8_safe_cut s k + 3"
  using safe_cut_loop_bounds [of s k 3] by (simp_all add: utf8_safe_cut_def)

lemma cut_length: "length (take (utf8_safe_cut r 300) r @ ''...'') \<le> 303"
  using utf8_safe_cut_bounds(1) [of r 300] by simp

lemma render_loop_returns:
  assumes "\<forall>p \<in> set parts. p \<noteq> []" "length rendered \<le> 300"
  shows "\<exists>r. render_loop parts rendered fmt as = Some r \<and> length r \<le> 303"
  using assms(2)
proof (induction as arbitrary: rendered fmt)
  case Nil
  then show ?case by simp
next
  case (Cons a as)
  obtain word where word: "(if fmt then Some ''<format>'' else redacted_text (arg_value a) parts) = Some word"
    using redacted_text_returns [OF assms(1)] by (cases fmt) auto
  let ?r = "(if rendered = [] then [] else rendered @ '' '') @ word"
  show ?case
  proof (cases "300 < length ?r")
    case True
    with word have "render_loop parts rendered fmt (a # as) = Some (take (utf8_safe_cut ?r 300) ?r @ ''...'')"
      by (simp add: Let_def)
    then show ?thesis using cut_length by blast
  next
    case False
    with word Cons.IH [of ?r "arg_value a = ''-F''"] show ?thesis by (simp add: Let_def)
  qed
qed

text \<open>
  A part that contains neither a space nor a full stop and is not part of \<open><format>\<close> cannot be
  put together by the rendering itself.
\<close>

definition plain_part :: "string \<Rightarrow> bool" where
  "plain_part p \<longleftrightarrow> p \<noteq> [] \<and> CHR '' '' \<notin> set p \<and> CHR ''.'' \<notin> set p \<and> \<not> contains_sub ''<format>'' p"

lemma contains_sub_ellipsis:
  assumes "contains_sub (s @ ''...'') p" "plain_part p"
  shows "contains_sub s p"
proof -
  have "\<not> contains_sub ''..'' p"
    using assms(2) contains_sub_set [of "''..''" p] by (cases p) (auto simp: plain_part_def)
  moreover have "contains_sub s p \<or> contains_sub ''..'' p"
    by (rule contains_sub_join [of _ "CHR ''.''"]) (use assms in \<open>auto simp: plain_part_def\<close>)
  ultimately show ?thesis by simp
qed

lemma render_loop_hides:
  assumes "p \<in> set parts" "plain_part p"
    and "\<not> contains_sub rendered p" "render_loop parts rendered fmt as = Some r"
  shows "\<not> contains_sub r p"
  using assms(3,4)
proof (induction as arbitrary: rendered fmt)
  case Nil
  then show ?case by simp
next
  case (Cons a as)
  obtain word where word: "(if fmt then Some ''<format>'' else redacted_text (arg_value a) parts) = Some word"
    using Cons.prems(2) by (auto split: option.splits)
  have "\<not> contains_sub word p"
    using word redacted_text_hides assms(1,2) by (auto simp: plain_part_def split: if_splits)
  let ?r = "(if rendered = [] then [] else rendered @ '' '') @ word"
  have clean: "\<not> contains_sub ?r p"
    using \<open>\<not> contains_sub word p\<close> Cons.prems(1) assms(2) contains_sub_join [of rendered "CHR '' ''" word p]
    by (auto simp: plain_part_def)
  show ?case
  proof (cases "300 < length ?r")
    case True
    then have "r = take (utf8_safe_cut ?r 300) ?r @ ''...''"
      using word Cons.prems(2) by (simp add: Let_def)
    then show ?thesis
      using clean contains_sub_ellipsis [OF _ assms(2)] contains_sub_take by blast
  next
    case False
    then show ?thesis using word clean Cons.prems(2) Cons.IH by (simp add: Let_def)
  qed
qed

section \<open>Properties\<close>

text \<open>
  C15. Redaction is total and leaks nothing: for the parts the library collects from a request,
  redacting any text returns, and no sensitive part of the request occurs anywhere in what it
  returns (not even one that the removal of another has put together); a text in which no part
  occurs is returned as it is.
\<close>

theorem redacted_text_secrecy:
  "\<exists>r. redacted_text text (sensitive_parts c) = Some r \<and>
      (\<forall>p. p \<in> set (sensitive_parts c) \<longrightarrow> \<not> contains_sub r p) \<and>
      ((\<forall>p. p \<in> set (sensitive_parts c) \<longrightarrow> \<not> contains_sub text p) \<longrightarrow> r = text)"
proof -
  obtain r where r: "redacted_text text (sensitive_parts c) = Some r"
    using redacted_text_returns [OF sensitive_parts_nonempty] by blast
  with redacted_text_hides sensitive_parts_nonempty redacted_text_keeps show ?thesis
    by (metis option.inject)
qed

theorem redacted_text_secrecy_witness:
  "sensitive_parts [sensitive ''pw'', plain_argument ''x''] = [''pw''] \<and>
   redacted_text ''use ppww now'' [''pw''] = Some ''use p[REDACTED]w now'' \<and>
   (\<exists>r. redacted_text ''use ppww now'' (sensitive_parts [sensitive ''pw'', plain_argument ''x'']) = Some r
      \<and> \<not> contains_sub r ''pw'')"
proof -
  have s: "sensitive_parts [sensitive ''pw'', plain_argument ''x''] = [''pw'']" by code_simp
  moreover have "redacted_text ''use ppww now'' [''pw''] = Some ''use p[REDACTED]w now''" by code_simp
  ultimately show ?thesis
    using redacted_text_secrecy [of "''use ppww now''" "[sensitive ''pw'', plain_argument ''x'']"]
    by auto
qed



end
