(* ===== verification/Snapshots.thy ===== *)
theory Snapshots
  imports Commands
begin

text \<open>
  \<open>include/libtmux/snapshot.hpp\<close> and \<open>src/snapshot.cpp\<close>: the format argument a listing asks for,
  the escaping that lets a value contain the column separator, splitting and decoding the output
  in place, and taking a snapshot through a backend. The backend's \<open>run\<close> is a parameter; the
  psmux-only part of \<open>take_in_session\<close> (compiled on Windows) is not modelled.
\<close>

section \<open>Separators and the format argument\<close>

definition kFormatSeparator :: string where
  "kFormatSeparator = [CHR 0xE2, CHR 0x90, CHR 0x9E]"

definition kFormatEscape :: string where
  "kFormatEscape = [CHR 0xE2, CHR 0x90, CHR 0x9B]"

fun format_request :: "string list \<Rightarrow> string" where
  "format_request [] = []"
| "format_request (f # fs) =
     ''#{s/'' @ kFormatSeparator @ ''/'' @ kFormatEscape @ ''S/:#{s/'' @ kFormatEscape @ ''/'' @
     kFormatEscape @ ''E/:'' @ f @ ''}}'' @ kFormatSeparator @ format_request fs"

section \<open>Decoding in place\<close>

text \<open>
  The buffer is updated at the write cursor while it is read ahead of it. Each iteration reads
  \<open>begin[read ..]\<close> before it writes.
\<close>

definition decoded_at :: "string \<Rightarrow> nat \<Rightarrow> nat \<Rightarrow> string" where
  "decoded_at buf size' rd =
     (if size' - rd > length kFormatEscape \<and>
         take (length kFormatEscape) (drop rd buf) = kFormatEscape
      then (if buf ! (rd + length kFormatEscape) = CHR ''S'' then kFormatSeparator
            else if buf ! (rd + length kFormatEscape) = CHR ''E'' then kFormatEscape else [])
      else [])"

fun write_bytes :: "string \<Rightarrow> nat \<Rightarrow> string \<Rightarrow> string" where
  "write_bytes buf pos [] = buf"
| "write_bytes buf pos (b # bs) = write_bytes (buf[pos := b]) (Suc pos) bs"

function decode_loop :: "string \<Rightarrow> nat \<Rightarrow> nat \<Rightarrow> nat \<Rightarrow> string \<times> nat" where
  "decode_loop buf size' rd wr =
     (if rd < size' then
        (let decoded = decoded_at buf size' rd
         in if decoded = []
            then decode_loop (buf[wr := buf ! rd]) size' (Suc rd) (Suc wr)
            else decode_loop (write_bytes buf wr decoded) size'
                   (rd + length kFormatEscape + 1) (wr + length decoded))
      else (buf, wr))"
  by pat_completeness auto
termination
  by (relation "measure (\<lambda>(buf, size', rd, wr). size' - rd)") auto

declare decode_loop.simps [simp del]

definition decode_value :: "string \<Rightarrow> nat \<Rightarrow> string \<times> nat" where
  "decode_value buf size' = decode_loop buf size' 0 0"

section \<open>Splitting rows\<close>

text \<open>The loop state is the line from \<open>position\<close> on.\<close>

function split_loop :: "string \<Rightarrow> string list \<times> string" where
  "split_loop rest =
     (case sub_find kFormatSeparator rest of
        None \<Rightarrow> ([], rest)
      | Some k \<Rightarrow>
          (let (vs, r) = split_loop (drop (k + length kFormatSeparator) rest)
           in (take k rest # vs, r)))"
  by pat_completeness auto
termination
proof (relation "measure length", goal_cases)
  case (2 rest k)
  then have "starts_with (drop k rest) kFormatSeparator" by (rule sub_find_Some(2))
  then have "drop k rest \<noteq> []" by (auto simp: kFormatSeparator_def)
  then show ?case by (simp add: kFormatSeparator_def)
qed simp

declare split_loop.simps [simp del]

definition split_row :: "string \<Rightarrow> nat \<Rightarrow> string list option" where
  "split_row line columns =
     (case split_loop line of (vs, r) \<Rightarrow> if length vs = columns \<and> r = [] then Some vs else None)"

definition decode_field :: "string \<Rightarrow> string" where
  "decode_field v = (case decode_value v (length v) of (buf, n) \<Rightarrow> take n buf)"

text \<open>\<open>Snapshot::parse\<close>: the loop over the lines of the output from \<open>position\<close> on.\<close>

definition parse_line :: "nat \<Rightarrow> string \<Rightarrow> string list list option" where
  "parse_line columns line =
     (if line = [] then Some []
      else map_option (\<lambda>vs. [map decode_field vs]) (split_row line columns))"

function parse_rows :: "nat \<Rightarrow> string \<Rightarrow> string list list option" where
  "parse_rows columns out =
     (if out = [] then Some []
      else (case str_find (CHR 0x0A) out of
          None \<Rightarrow> parse_line columns out
        | Some k \<Rightarrow>
            (case parse_line columns (take k out) of
               None \<Rightarrow> None
             | Some new \<Rightarrow> map_option (\<lambda>rows. new @ rows) (parse_rows columns (drop (Suc k) out)))))"
  by pat_completeness auto
termination
  by (relation "measure (length \<circ> snd)") auto

declare parse_rows.simps [simp del]

section \<open>Snapshots\<close>

record Snapshot =
  snap_fields :: "string list"
  snap_rows :: "string list list"

datatype FormatArgument = flag | message

fun insert_format :: "string \<Rightarrow> CommandRequest \<Rightarrow> bool \<Rightarrow> CommandRequest" where
  "insert_format fmt [] inserted =
     (if inserted then [] else [plain_argument ''-F'', plain_argument fmt])"
| "insert_format fmt (a # as) inserted =
     (if \<not> inserted \<and> arg_value a = ''--''
      then plain_argument ''-F'' # plain_argument fmt # a # insert_format fmt as True
      else a # insert_format fmt as inserted)"

definition place_format :: "string list \<Rightarrow> CommandRequest \<Rightarrow> FormatArgument \<Rightarrow> CommandRequest" where
  "place_format names request placement =
     (if placement = flag then insert_format (format_request names) request False
      else request @ [plain_argument (format_request names)])"

definition take_snapshot ::
  "(CommandRequest \<Rightarrow> (CommandFailure, string) expected) \<Rightarrow> string list \<Rightarrow> CommandRequest \<Rightarrow>
   FormatArgument \<Rightarrow> (CommandFailure, Snapshot) expected" where
  "take_snapshot run names request placement =
     (case run (place_format names request placement) of
        Inl failure \<Rightarrow> Inl failure
      | Inr output \<Rightarrow>
          (case parse_rows (length names) output of
             None \<Rightarrow> Inl \<lparr>kind = refused, delivery = replied, exit_code = 0,
                        diagnostic = ''tmux output did not match the fields asked for''\<rparr>
           | Some rows \<Rightarrow> Inr \<lparr>snap_fields = names, snap_rows = rows\<rparr>))"

definition from_recording :: "string list \<Rightarrow> string \<Rightarrow> Snapshot option" where
  "from_recording names output =
     map_option (\<lambda>rows. \<lparr>snap_fields = names, snap_rows = rows\<rparr>) (parse_rows (length names) output)"

fun index_from :: "nat \<Rightarrow> string list \<Rightarrow> string \<Rightarrow> nat" where
  "index_from i [] field = i"
| "index_from i (f # fs) field = (if f = field then i else index_from (Suc i) fs field)"

definition index_of :: "Snapshot \<Rightarrow> string \<Rightarrow> nat" where
  "index_of snap field = index_from 0 (snap_fields snap) field"

section \<open>Decoding in place is decoding\<close>

definition escape_tag :: "string \<Rightarrow> string" where
  "escape_tag s =
     (if 3 < length s \<and> take 3 s = kFormatEscape
      then (if s ! 3 = CHR ''S'' then kFormatSeparator
            else if s ! 3 = CHR ''E'' then kFormatEscape else [])
      else [])"

text \<open>The reference: decoding into a fresh string.\<close>

function decode_bytes :: "string \<Rightarrow> string" where
  "decode_bytes s =
     (if s = [] then []
      else if escape_tag s = [] then hd s # decode_bytes (tl s)
      else escape_tag s @ decode_bytes (drop 4 s))"
  by pat_completeness auto
termination
  by (relation "measure length") auto

declare decode_bytes.simps [simp del]

lemma separator_lengths [simp]:
  "length kFormatEscape = 3" "length kFormatSeparator = 3"
  "kFormatEscape \<noteq> []" "kFormatSeparator \<noteq> []"
  by (simp_all add: kFormatEscape_def kFormatSeparator_def)

lemma escape_tag_length: "escape_tag s \<noteq> [] \<Longrightarrow> length (escape_tag s) = 3 \<and> 3 < length s"
  by (auto simp: escape_tag_def split: if_splits)

lemma decode_bytes_length: "length (decode_bytes s) \<le> length s"
proof (induction s rule: decode_bytes.induct)
  case (1 s)
  then show ?case using escape_tag_length [of s]
    by (subst decode_bytes.simps) (auto simp: Suc_le_eq neq_Nil_conv)
qed

lemma decoded_at_tag:
  "size' \<le> length buf \<Longrightarrow> decoded_at buf size' rd = escape_tag (take (size' - rd) (drop rd buf))"
  by (auto simp: decoded_at_def escape_tag_def nth_append min_def)

lemma write_bytes_eq:
  "pos + length bs \<le> length buf \<Longrightarrow> write_bytes buf pos bs = take pos buf @ bs @ drop (pos + length bs) buf"
proof (induction bs arbitrary: buf pos)
  case (Cons b bs)
  then have "write_bytes buf pos (b # bs) = take (Suc pos) (buf[pos := b]) @ bs @ drop (Suc pos + length bs) (buf[pos := b])"
    by simp
  also have "\<dots> = take pos buf @ [b] @ bs @ drop (pos + length (b # bs)) buf"
    using Cons.prems by (simp add: take_Suc_conv_app_nth drop_update_cancel)
  finally show ?case by simp
qed simp

lemma decode_loop_eq:
  assumes "wr \<le> rd" "rd \<le> size'" "size' \<le> length buf"
  defines "D \<equiv> decode_bytes (take (size' - rd) (drop rd buf))"
  shows "decode_loop buf size' rd wr = (take wr buf @ D @ drop (wr + length D) buf, wr + length D)"
  using assms(1-3) unfolding D_def
proof (induction buf size' rd wr rule: decode_loop.induct)
  case (1 buf size' rd wr)
  let ?s = "take (size' - rd) (drop rd buf)"
  show ?case
  proof (cases "rd < size'")
    case False
    then show ?thesis by (simp add: decode_loop.simps [of buf] decode_bytes.simps)
  next
    case True
    note tag = decoded_at_tag [OF "1.prems"(3), of rd]
    have s: "?s \<noteq> []" "hd ?s = buf ! rd" "tl ?s = take (size' - Suc rd) (drop (Suc rd) buf)"
      "drop 4 ?s = take (size' - (4 + rd)) (drop (4 + rd) buf)"
      using True "1.prems" by (auto simp: hd_drop_conv_nth tl_take tl_drop drop_take add.commute drop_Suc hd_take)
    show ?thesis
    proof (cases "escape_tag ?s = []")
      case none: True
      let ?b = "buf[wr := buf ! rd]"
      have len: "length (decode_bytes (tl ?s)) \<le> size' - Suc rd"
        using decode_bytes_length [of "tl ?s"] s(3) by simp
      have upd: "drop (Suc rd) ?b = drop (Suc rd) buf"
        "take (Suc wr) ?b = take wr buf @ [buf ! rd]"
        "drop (Suc (wr + n)) ?b = drop (Suc (wr + n)) buf" for n
        using "1.prems" True by (auto simp: take_Suc_conv_app_nth)
      have "decode_loop buf size' rd wr = decode_loop ?b size' (Suc rd) (Suc wr)"
        using True none tag by (simp add: decode_loop.simps [of buf])
      also have "\<dots> = (take (Suc wr) ?b @ decode_bytes (tl ?s) @ drop (Suc wr + length (decode_bytes (tl ?s))) ?b,
          Suc wr + length (decode_bytes (tl ?s)))"
        using "1.IH"(1) [OF True refl] none tag True "1.prems" by (simp add: upd s(3))
      finally show ?thesis
        using s(1,2) none upd by (simp add: decode_bytes.simps [of ?s])
    next
      case some: False
      then have l3: "length (escape_tag ?s) = 3" "4 \<le> length ?s" using escape_tag_length [of ?s] by auto
      then have r4: "4 + rd \<le> size'" using "1.prems" by auto
      let ?b = "write_bytes buf wr (escape_tag ?s)"
      have b: "?b = take wr buf @ escape_tag ?s @ drop (wr + 3) buf"
        using write_bytes_eq [of wr "escape_tag ?s" buf] "1.prems" l3 r4 by simp
      have upd: "drop (4 + rd) ?b = drop (4 + rd) buf" "length ?b = length buf"
        "take (wr + 3) ?b = take wr buf @ escape_tag ?s"
        "drop (wr + 3 + n) ?b = drop (wr + 3 + n) buf" for n
        using "1.prems" l3 r4 by (simp_all add: b ac_simps)
      have "decode_loop buf size' rd wr = decode_loop ?b size' (4 + rd) (wr + 3)"
        using True some tag l3 by (simp add: decode_loop.simps [of buf] ac_simps)
      also have "\<dots> = (take (wr + 3) ?b @ decode_bytes (drop 4 ?s) @ drop (wr + 3 + length (decode_bytes (drop 4 ?s))) ?b,
          wr + 3 + length (decode_bytes (drop 4 ?s)))"
        using "1.IH"(2) [OF True refl] some tag True "1.prems" r4 l3 by (simp add: upd s(4))
      finally show ?thesis
        using s(1) some upd l3 by (simp add: decode_bytes.simps [of ?s] add.assoc)
    qed
  qed
qed

lemma decode_field_eq: "decode_field v = decode_bytes v"
  using decode_loop_eq [of 0 0 "length v" v] by (simp add: decode_field_def decode_value_def)

section \<open>Escaping\<close>

text \<open>
  What the two nested substitutions of \<^const>\<open>format_request\<close> produce, in one pass.
\<close>

function escape_value :: "string \<Rightarrow> string" where
  "escape_value s =
     (if s = [] then []
      else if starts_with s kFormatEscape then kFormatEscape @ ''E'' @ escape_value (drop 3 s)
      else if starts_with s kFormatSeparator then kFormatEscape @ ''S'' @ escape_value (drop 3 s)
      else hd s # escape_value (tl s))"
  by pat_completeness auto
termination
  by (relation "measure length") auto

declare escape_value.simps [simp del]

lemma escape_value_Nil [simp]: "escape_value [] = []"
  by (simp add: escape_value.simps)

lemma escape_value_marked [simp]:
  "escape_value (kFormatEscape @ s) = kFormatEscape @ ''E'' @ escape_value s"
  "escape_value (kFormatSeparator @ s) = kFormatEscape @ ''S'' @ escape_value s"
proof -
  show "escape_value (kFormatEscape @ s) = kFormatEscape @ ''E'' @ escape_value s"
    by (subst escape_value.simps) simp
  have "\<not> starts_with (kFormatSeparator @ s) kFormatEscape"
    by (simp add: kFormatSeparator_def kFormatEscape_def)
  then show "escape_value (kFormatSeparator @ s) = kFormatEscape @ ''S'' @ escape_value s"
    by (subst escape_value.simps) simp
qed

lemma escape_value_plain:
  assumes "\<not> starts_with (c # s) kFormatEscape" "\<not> starts_with (c # s) kFormatSeparator"
  shows "escape_value (c # s) = c # escape_value s"
  using assms by (subst escape_value.simps) simp

lemma escape_cases:
  obtains (Nil) "s = []" | (Escape) t where "s = kFormatEscape @ t"
    | (Separator) t where "s = kFormatSeparator @ t"
    | (Plain) c t where "s = c # t" "\<not> starts_with s kFormatEscape" "\<not> starts_with s kFormatSeparator"
  by (metis neq_Nil_conv starts_with_iff)

lemma escape_value_induct [case_names Nil Escape Separator Plain]:
  assumes "P []" "\<And>t. P t \<Longrightarrow> P (kFormatEscape @ t)" "\<And>t. P t \<Longrightarrow> P (kFormatSeparator @ t)"
    "\<And>c t. P t \<Longrightarrow> \<not> starts_with (c # t) kFormatEscape \<Longrightarrow> \<not> starts_with (c # t) kFormatSeparator \<Longrightarrow> P (c # t)"
  shows "P s"
proof (induction "length s" arbitrary: s rule: less_induct)
  case less
  show ?case by (cases s rule: escape_cases) (use less assms in auto)
qed

text \<open>A byte of the escaped text that is not the first byte of a marker stands for itself.\<close>

lemma escape_head:
  assumes "escape_value s @ r = x # t" "x \<noteq> CHR 0xE2" "r = [] \<or> hd r = CHR 0xE2"
  shows "\<exists>s'. s = x # s' \<and> t = escape_value s' @ r"
proof (cases s rule: escape_cases)
  case Nil
  with assms show ?thesis by (cases r) auto
next
  case (Plain c u)
  with assms(1) show ?thesis by (simp add: escape_value_plain)
next
  case (Escape u)
  with assms(1) have "kFormatEscape @ ''E'' @ escape_value u @ r = x # t" by simp
  with assms(2) show ?thesis by (simp add: kFormatEscape_def)
next
  case (Separator u)
  with assms(1) have "kFormatEscape @ ''S'' @ escape_value u @ r = x # t" by simp
  with assms(2) show ?thesis by (simp add: kFormatEscape_def)
qed

lemma escape_no_marker:
  assumes "\<not> starts_with (c # s) m" "m = [CHR 0xE2, CHR 0x90, z]" "z \<noteq> CHR 0xE2" "r = [] \<or> hd r = CHR 0xE2"
  shows "\<not> starts_with (c # escape_value s @ r) m"
proof
  assume "starts_with (c # escape_value s @ r) m"
  then obtain u where c: "c = CHR 0xE2" and u: "escape_value s @ r = CHR 0x90 # z # u"
    using assms(2) by (auto simp: starts_with_iff)
  from escape_head [OF u] assms(4) obtain s' where s': "s = CHR 0x90 # s'" "z # u = escape_value s' @ r"
    by auto
  from escape_head [OF s'(2) [symmetric]] assms(3,4) obtain s'' where "s' = z # s''" by auto
  with c s' assms(1,2) show False by simp
qed

lemma escape_tag_marked [simp]:
  "escape_tag (kFormatEscape @ CHR ''E'' # s) = kFormatEscape"
  "escape_tag (kFormatEscape @ CHR ''S'' # s) = kFormatSeparator"
  by (simp_all add: escape_tag_def nth_append)

lemma escape_tag_none: "\<not> starts_with s kFormatEscape \<Longrightarrow> escape_tag s = []"
proof -
  assume "\<not> starts_with s kFormatEscape"
  then have "take 3 s \<noteq> kFormatEscape" by (metis append_take_drop_id starts_with_append)
  then show ?thesis by (simp add: escape_tag_def)
qed

lemma decode_escape: "decode_bytes (escape_value v) = v"
proof (induction v rule: escape_value_induct)
  case Nil
  then show ?case by (simp add: decode_bytes.simps)
next
  case (Escape t)
  then show ?case by (simp add: decode_bytes.simps [of "kFormatEscape @ CHR ''E'' # escape_value t"])
next
  case (Separator t)
  then show ?case by (simp add: decode_bytes.simps [of "kFormatEscape @ CHR ''S'' # escape_value t"])
next
  case (Plain c t)
  have "\<not> starts_with (c # escape_value t @ []) kFormatEscape"
    by (rule escape_no_marker [OF Plain.hyps(1), of "CHR 0x9B"]) (simp_all add: kFormatEscape_def)
  then have "\<not> starts_with (c # escape_value t) kFormatEscape" by simp
  then have "escape_tag (c # escape_value t) = []" by (rule escape_tag_none)
  then show ?case
    using Plain.IH escape_value_plain [OF Plain.hyps] by (simp add: decode_bytes.simps [of "c # escape_value t"])
qed

lemma sub_find_marked:
  "x \<noteq> CHR 0xE2 \<Longrightarrow>
   sub_find kFormatSeparator (kFormatEscape @ x # s) = map_option (\<lambda>k. k + 4) (sub_find kFormatSeparator s)"
  by (cases "sub_find kFormatSeparator s") (simp_all add: kFormatSeparator_def kFormatEscape_def)

lemma sub_find_escape:
  "sub_find kFormatSeparator (escape_value v @ kFormatSeparator @ r) = Some (length (escape_value v))"
proof (induction v rule: escape_value_induct)
  case Nil
  then show ?case by (cases "kFormatSeparator @ r") (auto simp: kFormatSeparator_def)
next
  case (Plain c t)
  then have "\<not> starts_with (c # escape_value t @ kFormatSeparator @ r) kFormatSeparator"
    by (intro escape_no_marker [of c t kFormatSeparator "CHR 0x9E"]) (auto simp: kFormatSeparator_def)
  with Plain show ?case by (simp add: escape_value_plain)
qed (simp_all add: sub_find_marked)

lemma split_loop_escape:
  "split_loop (concat (map (\<lambda>v. escape_value v @ kFormatSeparator) vs)) = (map escape_value vs, [])"
proof (induction vs)
  case Nil
  then show ?case by (simp add: split_loop.simps)
next
  case (Cons v vs)
  then show ?case
    using sub_find_escape [of v "concat (map (\<lambda>v. escape_value v @ kFormatSeparator) vs)"]
    by (subst split_loop.simps) simp
qed

lemma escape_value_set: "set (escape_value v) \<subseteq> set v \<union> set kFormatEscape \<union> {CHR ''E'', CHR ''S''}"
  by (induction v rule: escape_value_induct) (auto simp: escape_value_plain)

section \<open>tmux's substitution\<close>

text \<open>
  \<open>#{s/pattern/replacement/:value}\<close> is tmux's: a parameter, with the documented reading that each
  occurrence, from the left, is replaced and the rest is kept.
\<close>

definition substitutes :: "(string \<Rightarrow> string \<Rightarrow> string \<Rightarrow> string) \<Rightarrow> bool" where
  "substitutes subst \<longleftrightarrow>
     (\<forall>p r v. sub_find p v = None \<longrightarrow> subst p r v = v) \<and>
     (\<forall>p r v k. p \<noteq> [] \<longrightarrow> sub_find p v = Some k \<longrightarrow>
        subst p r v = take k v @ r @ subst p r (drop (k + length p) v))"

function substitute :: "string \<Rightarrow> string \<Rightarrow> string \<Rightarrow> string" where
  "substitute p r s =
     (if s = [] \<or> p = [] then s
      else if starts_with s p then r @ substitute p r (drop (length p) s)
      else hd s # substitute p r (tl s))"
  by pat_completeness auto
termination
  by (relation "measure (\<lambda>(p, r, s). length s)") auto

declare substitute.simps [simp del]

lemma substitute_none: "sub_find p v = None \<Longrightarrow> substitute p r v = v"
proof (induction v)
  case (Cons c v)
  then have "\<not> starts_with (c # v) p" "sub_find p v = None" by (auto split: if_splits)
  with Cons.IH show ?case by (subst substitute.simps) simp
qed (simp add: substitute.simps)

lemma substitute_some:
  "p \<noteq> [] \<Longrightarrow> sub_find p v = Some k \<Longrightarrow>
   substitute p r v = take k v @ r @ substitute p r (drop (k + length p) v)"
proof (induction v arbitrary: k)
  case (Cons c v)
  show ?case
  proof (cases "starts_with (c # v) p")
    case True
    with Cons.prems show ?thesis by (subst substitute.simps) simp
  next
    case False
    with Cons.prems obtain j where "k = Suc j" "sub_find p v = Some j" by auto
    with False Cons.IH Cons.prems(1) show ?thesis by (subst substitute.simps) simp
  qed
qed simp

lemma substitutes_substitute: "substitutes substitute"
  using substitute_none substitute_some by (simp add: substitutes_def)

lemma substitutes_unique:
  assumes "substitutes subst" "p \<noteq> []"
  shows "subst p r v = substitute p r v"
proof (induction "length v" arbitrary: v rule: less_induct)
  case less
  show ?case
  proof (cases "sub_find p v")
    case None
    with assms show ?thesis by (simp add: substitutes_def substitute_none)
  next
    case (Some k)
    have "drop k v \<noteq> []" using sub_find_Some(2) [OF Some] assms(2) by (auto simp: starts_with_iff)
    then have "length (drop (k + length p) v) < length v" using assms(2) by (cases p) auto
    from less [OF this] Some assms show ?thesis by (simp add: substitutes_def substitute_some)
  qed
qed

abbreviation (input) escape_pass :: "string \<Rightarrow> string" where
  "escape_pass \<equiv> substitute kFormatEscape (kFormatEscape @ ''E'')"

lemma substitute_match [simp]: "p \<noteq> [] \<Longrightarrow> substitute p r (p @ s) = r @ substitute p r s"
  by (subst substitute.simps) simp

lemma substitute_step: "\<not> starts_with (c # s) p \<Longrightarrow> substitute p r (c # s) = c # substitute p r s"
  by (cases "p = []") (simp_all add: substitute.simps [of p r "c # s"])

lemma substitute_Nil [simp]: "substitute p r [] = []"
  by (simp add: substitute.simps)

lemma substitute_past_marker:
  "x \<noteq> CHR 0xE2 \<Longrightarrow>
   substitute kFormatSeparator r (kFormatEscape @ x # s) = kFormatEscape @ x # substitute kFormatSeparator r s"
  "escape_pass (kFormatSeparator @ s) = kFormatSeparator @ escape_pass s"
  by (simp_all add: kFormatSeparator_def kFormatEscape_def substitute_step)

lemma escape_pass_head:
  assumes "escape_pass s = x # t" "x \<noteq> CHR 0xE2"
  shows "\<exists>s'. s = x # s' \<and> t = escape_pass s'"
proof (cases "starts_with s kFormatEscape")
  case True
  then obtain u where "s = kFormatEscape @ u" by (auto simp: starts_with_iff)
  then have "kFormatEscape @ ''E'' @ escape_pass u = x # t" using assms(1) by simp
  with assms(2) show ?thesis by (simp add: kFormatEscape_def)
next
  case False
  with assms show ?thesis by (cases s) (auto simp: substitute_step)
qed

lemma escape_two_passes:
  "substitute kFormatSeparator (kFormatEscape @ ''S'') (escape_pass v) = escape_value v"
proof (induction v rule: escape_value_induct)
  case (Plain c t)
  have "\<not> starts_with (c # escape_pass t) kFormatSeparator"
  proof
    assume "starts_with (c # escape_pass t) kFormatSeparator"
    then obtain u where c: "c = CHR 0xE2" and u: "escape_pass t = CHR 0x90 # CHR 0x9E # u"
      by (auto simp: starts_with_iff kFormatSeparator_def)
    from escape_pass_head [OF u] obtain t' where t': "t = CHR 0x90 # t'" "CHR 0x9E # u = escape_pass t'"
      by auto
    from escape_pass_head [OF t'(2) [symmetric]] obtain t'' where "t' = CHR 0x9E # t''" by auto
    with c t' Plain.hyps(2) show False by (simp add: kFormatSeparator_def)
  qed
  with Plain show ?case by (simp add: substitute_step escape_value_plain)
qed (simp_all add: substitute_past_marker)

definition tmux_field :: "(string \<Rightarrow> string \<Rightarrow> string \<Rightarrow> string) \<Rightarrow> string \<Rightarrow> string" where
  "tmux_field subst v =
     subst kFormatSeparator (kFormatEscape @ ''S'') (subst kFormatEscape (kFormatEscape @ ''E'') v)
     @ kFormatSeparator"

definition tmux_listing :: "(string \<Rightarrow> string \<Rightarrow> string \<Rightarrow> string) \<Rightarrow> string list list \<Rightarrow> string" where
  "tmux_listing subst rows = concat (map (\<lambda>row. concat (map (tmux_field subst) row) @ [CHR 0x0A]) rows)"

lemma tmux_field_escape: "substitutes subst \<Longrightarrow> tmux_field subst v = escape_value v @ kFormatSeparator"
  by (simp add: tmux_field_def substitutes_unique escape_two_passes)

lemma parse_rows_line:
  assumes "row \<noteq> []" "\<forall>v \<in> set row. CHR 0x0A \<notin> set v"
  shows "parse_rows (length row) (concat (map (\<lambda>v. escape_value v @ kFormatSeparator) row) @ CHR 0x0A # rest)
    = map_option (\<lambda>rows. row # rows) (parse_rows (length row) rest)"
proof -
  let ?line = "concat (map (\<lambda>v. escape_value v @ kFormatSeparator) row)"
  have "CHR 0x0A \<notin> set (escape_value v @ kFormatSeparator)" if "v \<in> set row" for v
    using assms(2) that escape_value_set [of v] by (auto simp: kFormatEscape_def kFormatSeparator_def)
  then have "CHR 0x0A \<notin> set ?line" unfolding set_concat set_map by blast
  then have find: "str_find (CHR 0x0A) (?line @ CHR 0x0A # rest) = Some (length ?line)"
    by (rule str_find_append)
  have "?line \<noteq> []" using assms(1) by (cases row) auto
  moreover have "split_row ?line (length row) = Some (map escape_value row)"
    by (simp add: split_row_def split_loop_escape)
  moreover have "map decode_field (map escape_value row) = row"
    by (simp add: decode_field_eq decode_escape o_def)
  ultimately show ?thesis
    by (subst parse_rows.simps) (auto simp add: find parse_line_def append_Cons fun_eq_iff simp del: map_map
      intro!: option.map_cong0)
qed

lemma parse_rows_width: "parse_rows n out = Some rows \<Longrightarrow> row \<in> set rows \<Longrightarrow> length row = n"
proof (induction n out arbitrary: rows rule: parse_rows.induct)
  case (1 n out)
  have line: "length row = n" if "parse_line n line = Some new" "row \<in> set new" for line new
    using that by (auto simp: parse_line_def split_row_def split: if_splits prod.splits)
  show ?case
    using "1.prems" line "1.IH" parse_rows.simps [of n out]
    by (fastforce split: if_splits option.splits)
qed

section \<open>Properties\<close>

text \<open>
  Decoding in place is decoding: over any buffer that holds the value, the loop that writes
  behind its own read cursor leaves the decoded bytes at the front, returns their number, which
  never exceeds the size it was given, and touches no byte after them.
\<close>

theorem decode_value_in_place:
  assumes "size' \<le> length buf"
  shows "decode_value buf size' =
      (decode_bytes (take size' buf) @ drop (length (decode_bytes (take size' buf))) buf,
       length (decode_bytes (take size' buf))) \<and>
    length (decode_bytes (take size' buf)) \<le> size'"
  using decode_loop_eq [of 0 0 size' buf] decode_bytes_length [of "take size' buf"] assms
  by (simp add: decode_value_def)

theorem decode_value_in_place_witness:
  "decode_value (''a'' @ kFormatEscape @ ''Sb'' @ ''tail'') 6
     = (''a'' @ kFormatSeparator @ ''b'' @ ''btail'', 5)"
proof -
  have "(6::nat) \<le> length (''a'' @ kFormatEscape @ ''Sb'' @ ''tail'')" by simp
  moreover have "decode_bytes (take 6 (''a'' @ kFormatEscape @ ''Sb'' @ ''tail'')) = ''a'' @ kFormatSeparator @ ''b''"
    by code_simp
  ultimately show ?thesis
    using decode_value_in_place [of 6 "''a'' @ kFormatEscape @ ''Sb'' @ ''tail''"]
    by (simp add: kFormatEscape_def kFormatSeparator_def)
qed

text \<open>
  C24. A listing is read back exactly: whatever bytes the values hold (separators, escape markers,
  fragments of either; a newline excepted, since tmux ends a row with one), if tmux substitutes
  as documented, the rows parsed from its answer to \<^const>\<open>format_request\<close> are the rows it
  listed; every row of any successful parse has one value per field asked for.
\<close>

theorem snapshot_roundtrip:
  assumes "substitutes subst" "names \<noteq> []"
    and "\<forall>row \<in> set rows. length row = length names \<and> (\<forall>v \<in> set row. CHR 0x0A \<notin> set v)"
  shows "from_recording names (tmux_listing subst rows) = Some \<lparr>snap_fields = names, snap_rows = rows\<rparr> \<and>
    (\<forall>out s r. from_recording names out = Some s \<and> r \<in> set (snap_rows s) \<longrightarrow> length r = length names)"
proof -
  have fields: "map (tmux_field subst) row = map (\<lambda>v. escape_value v @ kFormatSeparator) row" for row
    using tmux_field_escape [OF assms(1)] by simp
  have "parse_rows (length names) (tmux_listing subst rows) = Some rows"
    using assms(3)
  proof (induction rows)
    case Nil
    then show ?case by (simp add: tmux_listing_def parse_rows.simps)
  next
    case (Cons row rows)
    then have "row \<noteq> []" "length row = length names" using assms(2) by auto
    with Cons parse_rows_line [of row "tmux_listing subst rows"] show ?case
      by (simp add: tmux_listing_def fields)
  qed
  then show ?thesis using parse_rows_width by (auto simp: from_recording_def)
qed

theorem snapshot_roundtrip_witness:
  "from_recording [''window_id'', ''window_name'']
     (tmux_listing substitute [[''@1'', ''a'' @ kFormatSeparator @ ''b''], [''@2'', kFormatEscape @ ''S'']])
   = Some \<lparr>snap_fields = [''window_id'', ''window_name''],
       snap_rows = [[''@1'', ''a'' @ kFormatSeparator @ ''b''], [''@2'', kFormatEscape @ ''S'']]\<rparr>"
  by (rule snapshot_roundtrip [OF substitutes_substitute, THEN conjunct1])
    (simp_all add: kFormatEscape_def kFormatSeparator_def)

text \<open>
  The format flag stays ahead of the terminator: it is put before the first \<open>--\<close> of the
  request, or at its end when there is none, and the arguments themselves keep their order.
\<close>

theorem place_format_before_terminator:
  "\<exists>pre post. request = pre @ post \<and>
     place_format names request flag =
       pre @ [plain_argument ''-F'', plain_argument (format_request names)] @ post \<and>
     ''--'' \<notin> set (argv pre) \<and> (post = [] \<or> arg_value (hd post) = ''--'')"
proof -
  have kept: "insert_format fmt as True = as" for fmt as by (induction as) auto
  have "\<exists>pre post. request = pre @ post \<and>
     insert_format fmt request False = pre @ [plain_argument ''-F'', plain_argument fmt] @ post \<and>
     ''--'' \<notin> set (argv pre) \<and> (post = [] \<or> arg_value (hd post) = ''--'')" for fmt
  proof (induction request)
    case (Cons a as)
    show ?case
    proof (cases "arg_value a = ''--''")
      case True
      then show ?thesis by (intro exI [of _ "[]"] exI [of _ "a # as"]) (simp add: kept argv_def)
    next
      case False
      from Cons obtain pre post where "as = pre @ post"
        "insert_format fmt as False = pre @ [plain_argument ''-F'', plain_argument fmt] @ post"
        "''--'' \<notin> set (argv pre)" "post = [] \<or> arg_value (hd post) = ''--''" by blast
      with False show ?thesis by (intro exI [of _ "a # pre"] exI [of _ post]) (simp add: argv_def)
    qed
  qed (simp add: argv_def)
  then show ?thesis by (simp add: place_format_def)
qed

end
