(* ===== verification/Control_Protocol.thy ===== *)
theory Control_Protocol
  imports Commands
begin

text \<open>
  The decoder of tmux's control protocol (\<open>src/control.cpp\<close>, \<open>include/libtmux/control.hpp\<close>,
  \<open>include/libtmux/notification.hpp\<close>): reply blocks framed between \<open>%begin\<close> and \<open>%end\<close> or
  \<open>%error\<close>, notifications outside blocks, the octal unescaping of pane output, and the reading
  of a notification's name and arguments.

  \<open>Parser\<close> is a record with the class's members; \<open>feed\<close> and \<open>finish\<close> return the parser they
  leave and what they answer. The two bounds are kept as the code has them, 0 meaning none.
\<close>

section \<open>Values\<close>

record ProtocolError =
  error_message :: string
  error_delivery :: DeliveryStatus

definition protocol_error :: "string \<Rightarrow> ProtocolError" where
  "protocol_error m = \<lparr>error_message = m, error_delivery = indeterminate\<rparr>"

datatype ControlTerminal = terminal_end | terminal_error

record ControlBlock =
  sequence :: "64 word"
  command_number :: "64 word"
  terminal :: ControlTerminal
  begin_metadata :: string
  terminal_metadata :: string
  body :: string
  body_truncated :: bool
  body_bytes :: nat

datatype Event = Block ControlBlock | Notification string

record Parser =
  pending :: string
  block :: "ControlBlock option"
  failure :: "ProtocolError option"
  retained_reply_bytes :: nat
  line_bytes :: nat
  finished :: bool

text \<open>\<open>std::from_chars\<close> into a \<open>std::uint64_t\<close>, required to consume everything: digits only, no
  sign, and an error when the value does not fit.\<close>

definition decimal :: "string \<Rightarrow> 64 word option" where
  "decimal s = (if s = [] \<or> \<not> list_all is_digit s then None
     else if dec_value 0 s < 2 ^ 64 then Some (of_nat (dec_value 0 s)) else None)"

record ParsedGuard =
  guard_sequence :: "64 word"
  guard_number :: "64 word"
  guard_flags :: "64 word"
  guard_metadata :: string

definition parse_begin :: "string \<Rightarrow> (ProtocolError, ParsedGuard) expected" where
  "parse_begin line =
     (if \<not> starts_with line ''%begin '' then Inl (protocol_error ''malformed begin guard'')
      else let metadata = drop 7 line in
       case str_find CHR '' '' metadata of
         None \<Rightarrow> Inl (protocol_error ''malformed begin guard metadata'')
       | Some first_space \<Rightarrow>
           if first_space = 0 then Inl (protocol_error ''malformed begin guard metadata'')
           else (case str_find_from CHR '' '' metadata (first_space + 1) of
             None \<Rightarrow> Inl (protocol_error ''malformed begin guard metadata'')
           | Some second_space \<Rightarrow>
               if second_space = first_space + 1
                  \<or> str_find_from CHR '' '' metadata (second_space + 1) \<noteq> None
                  \<or> second_space + 1 = length metadata
               then Inl (protocol_error ''malformed begin guard metadata'')
               else (case (decimal (take first_space metadata),
                      decimal (take (second_space - first_space - 1) (drop (first_space + 1) metadata)),
                      decimal (drop (second_space + 1) metadata)) of
                   (Some s, Some n, Some f) \<Rightarrow>
                     Inr \<lparr>guard_sequence = s, guard_number = n, guard_flags = f, guard_metadata = metadata\<rparr>
                 | _ \<Rightarrow> Inl (protocol_error ''non-decimal begin guard metadata''))))"

section \<open>Pane output\<close>

fun octal_digits :: "nat \<Rightarrow> string \<Rightarrow> nat option" where
  "octal_digits decoded [] = Some decoded"
| "octal_digits decoded (d # ds) =
     (if byte d < 48 \<or> byte d > 55 then None else octal_digits (decoded * 8 + (byte d - 48)) ds)"

function octal_loop :: "string \<Rightarrow> string \<Rightarrow> (ProtocolError, string) expected" where
  "octal_loop result [] = Inr result"
| "octal_loop result (c # cs) =
     (if c \<noteq> CHR 0x5C then octal_loop (result @ [c]) cs
      else if length (c # cs) < 4 then Inl (protocol_error ''short pane-output octal escape'')
      else (case octal_digits 0 (take 3 cs) of
          None \<Rightarrow> Inl (protocol_error ''invalid pane-output octal escape'')
        | Some decoded \<Rightarrow>
            if decoded > 255 then Inl (protocol_error ''pane-output octal escape exceeds one byte'')
            else octal_loop (result @ [char_of decoded]) (drop 3 cs)))"
  by pat_completeness auto
termination by (relation "measure (\<lambda>(_, cs). length cs)") auto

definition decode_octal_payload :: "string \<Rightarrow> nat \<Rightarrow> (ProtocolError, string) expected" where
  "decode_octal_payload line start = octal_loop (take start line) (drop start line)"

definition notification_body :: "string \<Rightarrow> (ProtocolError, string) expected" where
  "notification_body line =
     (if starts_with line ''%output '' then
        (case str_find_from CHR '' '' line 8 of
           None \<Rightarrow> Inl (protocol_error ''malformed pane-output notification'')
         | Some payload \<Rightarrow>
             if payload = 8 then Inl (protocol_error ''malformed pane-output notification'')
             else decode_octal_payload line (payload + 1))
      else if starts_with line ''%extended-output '' then
        (case sub_find_from '' : '' line 17 of
           None \<Rightarrow> Inl (protocol_error ''malformed extended pane-output notification'')
         | Some delimiter \<Rightarrow> decode_octal_payload line (delimiter + 3))
      else Inr line)"

definition marker :: "string \<Rightarrow> string \<Rightarrow> bool" where
  "marker line name \<longleftrightarrow> line = name
     \<or> (starts_with line name \<and> length line > length name \<and> line ! length name = CHR '' '')"

section \<open>The parser\<close>

definition close_block :: "string \<Rightarrow> ControlBlock \<Rightarrow> string \<Rightarrow> ControlTerminal \<Rightarrow> ControlBlock option" where
  "close_block view b prefix t =
     (if \<not> starts_with view prefix then None
      else let metadata = drop (length prefix) view in
        if metadata \<noteq> begin_metadata b then None
        else Some (b\<lparr>terminal := t, terminal_metadata := metadata\<rparr>))"

definition retain_line :: "nat \<Rightarrow> string \<Rightarrow> ControlBlock \<Rightarrow> ControlBlock" where
  "retain_line retained view b =
     (let arriving = length view + 1; b = b\<lparr>body_bytes := body_bytes b + arriving\<rparr> in
      if retained = 0 \<or> length (body b) + arriving \<le> retained
      then b\<lparr>body := body b @ view @ [CHR 0x0A]\<rparr>
      else if \<not> body_truncated b
      then b\<lparr>body := body b @ take (retained - length (body b)) view, body_truncated := True\<rparr>
      else b)"

definition fail_with :: "Parser \<Rightarrow> ProtocolError \<Rightarrow> Parser" where
  "fail_with p e = p\<lparr>failure := Some e\<rparr>"

text \<open>\<open>consume_line\<close> of \<open>Parser::feed\<close>: it changes the block and the failure and appends events.\<close>

definition consume_line :: "Parser \<Rightarrow> Event list \<Rightarrow> string \<Rightarrow> Parser \<times> Event list" where
  "consume_line p events view =
     (case block p of
        Some b \<Rightarrow>
          (case close_block view b ''%end '' terminal_end of
             Some c \<Rightarrow> (p\<lparr>block := None\<rparr>, events @ [Block c])
           | None \<Rightarrow>
               (case close_block view b ''%error '' terminal_error of
                  Some c \<Rightarrow> (p\<lparr>block := None\<rparr>, events @ [Block c])
                | None \<Rightarrow> (p\<lparr>block := Some (retain_line (retained_reply_bytes p) view b)\<rparr>, events)))
      | None \<Rightarrow>
          if marker view ''%begin'' then
            (case parse_begin view of
               Inl e \<Rightarrow> (fail_with p e, events)
             | Inr g \<Rightarrow> (p\<lparr>block := Some \<lparr>sequence = guard_sequence g, command_number = guard_number g,
                   terminal = terminal_end, begin_metadata = guard_metadata g, terminal_metadata = [],
                   body = [], body_truncated = False, body_bytes = 0\<rparr>\<rparr>, events))
          else if marker view ''%end'' \<or> marker view ''%error'' then
            (fail_with p (protocol_error ''terminal guard without an open block''), events)
          else (case notification_body view of
               Inl e \<Rightarrow> (fail_with p e, events)
             | Inr text' \<Rightarrow> (p, events @ [Notification text'])))"

definition oversized :: "Parser \<Rightarrow> ProtocolError" where
  "oversized p = protocol_error (''control line exceeded '' @ dec_string (line_bytes p) @ '' bytes'')"

definition reject_oversized_line :: "Parser \<Rightarrow> Parser" where
  "reject_oversized_line p = (fail_with p (oversized p))\<lparr>pending := []\<rparr>"

definition too_long :: "Parser \<Rightarrow> nat \<Rightarrow> bool" where
  "too_long p segment_bytes \<longleftrightarrow> line_bytes p \<noteq> 0 \<and>
     (length (pending p) > line_bytes p \<or> segment_bytes > line_bytes p - length (pending p))"

definition answer :: "Parser \<times> Event list \<Rightarrow> Parser \<times> (ProtocolError, Event list) expected" where
  "answer r = (fst r, case failure (fst r) of Some e \<Rightarrow> Inl e | None \<Rightarrow> Inr (snd r))"

function feed_loop :: "Parser \<Rightarrow> Event list \<Rightarrow> string \<Rightarrow> Parser \<times> Event list" where
  "feed_loop p events input =
     (if input = [] then (p, events)
      else case str_find (CHR 0x0A) input of
        None \<Rightarrow>
          if too_long p (length input) then (reject_oversized_line p, events)
          else (p\<lparr>pending := pending p @ input\<rparr>, events)
      | Some segment_bytes \<Rightarrow>
          if too_long p segment_bytes then (reject_oversized_line p, events)
          else
            let (p', events') =
              (if pending p = [] then consume_line p events (take segment_bytes input)
               else let (q, es) = consume_line p events (pending p @ take segment_bytes input)
                    in (q\<lparr>pending := []\<rparr>, es))
            in if failure p' \<noteq> None then (p', events')
               else feed_loop p' events' (drop (segment_bytes + 1) input))"
  by pat_completeness auto
termination by (relation "measure (\<lambda>(_, _, input). length input)") auto

definition feed :: "Parser \<Rightarrow> string \<Rightarrow> Parser \<times> (ProtocolError, Event list) expected" where
  "feed p input =
     (case failure p of
        Some e \<Rightarrow> (p, Inl e)
      | None \<Rightarrow>
          if finished p then
            (let e = protocol_error ''control stream already finished'' in (fail_with p e, Inl e))
          else answer (feed_loop p [] input))"

definition finish :: "Parser \<Rightarrow> Parser \<times> (ProtocolError, unit) expected" where
  "finish p =
     (case failure p of
        Some e \<Rightarrow> (p, Inl e)
      | None \<Rightarrow>
          if finished p then (p, Inr ())
          else if pending p \<noteq> [] then
            (let e = protocol_error ''control stream ended with a partial line'' in (fail_with p e, Inl e))
          else if block p \<noteq> None then
            (let e = protocol_error ''control stream ended inside a command block'' in (fail_with p e, Inl e))
          else (p\<lparr>finished := True\<rparr>, Inr ()))"

declare feed_loop.simps [simp del]

section \<open>Reading a notification\<close>

datatype NotificationKind =
  nk_unknown
| nk_output
| nk_extended_output
| nk_paused
| nk_resumed
| nk_sessions_changed
| nk_session_changed
| nk_session_renamed
| nk_session_window_changed
| nk_client_detached
| nk_client_session_changed
| nk_window_add
| nk_window_close
| nk_window_renamed
| nk_window_pane_changed
| nk_unlinked_window_add
| nk_unlinked_window_close
| nk_unlinked_window_renamed
| nk_pane_mode_changed
| nk_paste_buffer_changed
| nk_paste_buffer_deleted
| nk_subscription_changed
| nk_config_error
| nk_exit
| nk_layout_change
| nk_message

record ParsedNotification =
  note_kind :: NotificationKind
  note_name :: string
  note_session :: string
  note_window :: string
  note_pane :: string
  note_text :: string
  note_payload :: string
  note_age :: "64 word option"

definition kNotificationNames :: "(string \<times> NotificationKind) list" where
  "kNotificationNames = [
    (''%output'', nk_output),
    (''%extended-output'', nk_extended_output),
    (''%pause'', nk_paused),
    (''%continue'', nk_resumed),
    (''%sessions-changed'', nk_sessions_changed),
    (''%session-changed'', nk_session_changed),
    (''%session-renamed'', nk_session_renamed),
    (''%session-window-changed'', nk_session_window_changed),
    (''%client-detached'', nk_client_detached),
    (''%client-session-changed'', nk_client_session_changed),
    (''%window-add'', nk_window_add),
    (''%window-close'', nk_window_close),
    (''%window-renamed'', nk_window_renamed),
    (''%window-pane-changed'', nk_window_pane_changed),
    (''%unlinked-window-add'', nk_unlinked_window_add),
    (''%unlinked-window-close'', nk_unlinked_window_close),
    (''%unlinked-window-renamed'', nk_unlinked_window_renamed),
    (''%pane-mode-changed'', nk_pane_mode_changed),
    (''%paste-buffer-changed'', nk_paste_buffer_changed),
    (''%paste-buffer-deleted'', nk_paste_buffer_deleted),
    (''%subscription-changed'', nk_subscription_changed),
    (''%config-error'', nk_config_error),
    (''%exit'', nk_exit),
    (''%layout-change'', nk_layout_change),
    (''%message'', nk_message)]"

definition kind_name :: "NotificationKind \<Rightarrow> string" where
  "kind_name k = (case find (\<lambda>known. snd known = k) kNotificationNames of
     Some known \<Rightarrow> fst known | None \<Rightarrow> ''unknown'')"

definition kind_named :: "string \<Rightarrow> NotificationKind" where
  "kind_named name = (case find (\<lambda>known. fst known = name) kNotificationNames of
     Some known \<Rightarrow> snd known | None \<Rightarrow> nk_unknown)"

text \<open>A field is kept with its offset in the line, which is what \<open>fields[i].data() - line.data()\<close>
  computes.\<close>

function leading_loop :: "string \<Rightarrow> nat \<Rightarrow> nat \<Rightarrow> (nat \<times> string) list \<Rightarrow> (nat \<times> string) list" where
  "leading_loop line limit index found =
     (if index < length line \<and> length found < limit then
        (case str_find_from CHR '' '' line index of
           None \<Rightarrow> found @ [(index, drop index line)]
         | Some space \<Rightarrow>
             leading_loop line limit (space + 1) (found @ [(index, take (space - index) (drop index line))]))
      else found)"
  by pat_completeness auto
termination
  by (relation "measure (\<lambda>(line, _, index, _). length line - index)")
    (auto simp: str_find_from_def)

declare leading_loop.simps [simp del]

definition leading_fields :: "string \<Rightarrow> nat \<Rightarrow> (nat \<times> string) list" where
  "leading_fields line limit = leading_loop line limit 0 []"

definition place_argument :: "ParsedNotification \<Rightarrow> string \<Rightarrow> ParsedNotification" where
  "place_argument parsed field =
     (if length field > 1 \<and> hd field = CHR ''$'' then parsed\<lparr>note_session := field\<rparr>
      else if length field > 1 \<and> hd field = CHR ''@'' then parsed\<lparr>note_window := field\<rparr>
      else if length field > 1 \<and> hd field = CHR ''%'' then parsed\<lparr>note_pane := field\<rparr>
      else parsed)"

definition placed_ids :: "ParsedNotification \<Rightarrow> string \<times> string \<times> string" where
  "placed_ids parsed = (note_session parsed, note_window parsed, note_pane parsed)"

fun scan_arguments :: "string \<Rightarrow> ParsedNotification \<Rightarrow> (nat \<times> string) list \<Rightarrow> ParsedNotification" where
  "scan_arguments line parsed [] = parsed"
| "scan_arguments line parsed ((offset, field) # rest) =
     (let placed = place_argument parsed field in
      if placed_ids placed \<noteq> placed_ids parsed then scan_arguments line placed rest
      else placed\<lparr>note_text := drop offset line\<rparr>)"

definition parse_output :: "string \<Rightarrow> ParsedNotification \<Rightarrow> ParsedNotification" where
  "parse_output line parsed =
     (let found = leading_fields line 2 in
      if length found < 2 then parsed
      else let parsed = place_argument parsed (snd (found ! 1));
               consumed = (length (snd (found ! 0)) + 1) + (length (snd (found ! 1)) + 1) in
        if consumed \<le> length line then parsed\<lparr>note_payload := drop consumed line\<rparr> else parsed)"

definition parse_extended :: "string \<Rightarrow> ParsedNotification \<Rightarrow> ParsedNotification" where
  "parse_extended line parsed =
     (let found = leading_fields line 3 in
      if length found < 3 then parsed
      else let parsed = place_argument parsed (snd (found ! 1));
               digits' = snd (found ! 2);
               parsed = (case decimal digits' of Some age \<Rightarrow> parsed\<lparr>note_age := Some age\<rparr> | None \<Rightarrow> parsed) in
        case sub_find_from '' : '' line (fst (found ! 2) + length digits') of
          Some delimiter \<Rightarrow> parsed\<lparr>note_payload := drop (delimiter + 3) line\<rparr>
        | None \<Rightarrow> parsed)"

definition parse_subscription :: "string \<Rightarrow> ParsedNotification \<Rightarrow> ParsedNotification" where
  "parse_subscription line parsed =
     (let found = leading_fields line 6 in
      if length found < 6 then parsed
      else let parsed = place_argument parsed (snd (found ! 2));
               parsed = place_argument parsed (snd (found ! 3));
               parsed = place_argument parsed (snd (found ! 5)) in
        parsed\<lparr>note_text := drop (fst (found ! 1)) line\<rparr>)"

definition parse_notification :: "string \<Rightarrow> ParsedNotification" where
  "parse_notification line =
     (let first_space = str_find CHR '' '' line;
          name = (case first_space of None \<Rightarrow> line | Some n \<Rightarrow> take n line);
          parsed = \<lparr>note_kind = kind_named name, note_name = name, note_session = [], note_window = [],
             note_pane = [], note_text = [], note_payload = [], note_age = None\<rparr> in
      if first_space = None then parsed
      else if note_kind parsed = nk_output then parse_output line parsed
      else if note_kind parsed = nk_extended_output then parse_extended line parsed
      else if note_kind parsed = nk_subscription_changed then parse_subscription line parsed
      else scan_arguments line parsed (drop 1 (leading_fields line 8)))"

definition layout_contains_pane :: "string \<Rightarrow> string \<Rightarrow> bool option" where
  "layout_contains_pane change pane_id =
     (let layout = (case str_find CHR '' '' change of None \<Rightarrow> change | Some space \<Rightarrow> take space change) in
      if pane_id = [] \<or> \<not> starts_with layout (CHR 0x7B # CHR 0x22 # CHR ''V'' # CHR 0x22 # '':'')
      then None
      else Some (contains_sub layout ((CHR 0x22 # CHR ''I'' # CHR 0x22 # CHR '':'' # [CHR 0x22]) @ pane_id @ [CHR 0x22])))"

section \<open>One byte at a time\<close>

text \<open>The parser as an automaton over single bytes, the specification of \<^const>\<open>feed\<close>: once it has
  failed it ignores what follows.\<close>

fun byte_step :: "char \<Rightarrow> Parser \<times> Event list \<Rightarrow> Parser \<times> Event list" where
  "byte_step c (p, events) =
     (if failure p \<noteq> None then (p, events)
     else if c = CHR 0x0A then
       (if too_long p 0 then (reject_oversized_line p, events)
        else let (q, es) = consume_line p events (pending p) in (q\<lparr>pending := []\<rparr>, es))
     else if too_long p 1 then (reject_oversized_line p, events)
     else (p\<lparr>pending := pending p @ [c]\<rparr>, events))"

lemma byte_step_failed: "failure p \<noteq> None \<Longrightarrow> fold byte_step input (p, events) = (p, events)"
  by (induction input) (auto)

lemma fail_with_simps [simp]:
  "failure (fail_with p e) = Some e" "pending (fail_with p e) = pending p"
  "line_bytes (fail_with p e) = line_bytes p"
  "retained_reply_bytes (fail_with p e) = retained_reply_bytes p" "block (fail_with p e) = block p"
  "finished (fail_with p e) = finished p" "failure (reject_oversized_line p) = Some (oversized p)"
  by (simp_all add: fail_with_def reject_oversized_line_def)

lemma reject_pending [simp]:
  "reject_oversized_line (p\<lparr>pending := x\<rparr>) = reject_oversized_line p"
  by (simp add: reject_oversized_line_def fail_with_def oversized_def)

text \<open>A line is consumed without looking at the bytes that are pending.\<close>

lemma consume_line_pending:
  "consume_line (p\<lparr>pending := x\<rparr>) events view =
     (let (q, es) = consume_line p events view in (q\<lparr>pending := x\<rparr>, es))"
  by (auto simp: consume_line_def fail_with_def split: option.splits sum.splits)

lemma fold_segment:
  assumes "CHR 0x0A \<notin> set seg" "failure p = None" "seg \<noteq> []"
  shows "fold byte_step seg (p, events) =
    (if too_long p (length seg) then (reject_oversized_line p, events)
     else (p\<lparr>pending := pending p @ seg\<rparr>, events))"
  using assms
proof (induction seg arbitrary: p)
  case (Cons c seg)
  show ?case
  proof (cases "too_long p 1")
    case True
    then have "too_long p (length (c # seg))" by (auto simp: too_long_def)
    with True Cons.prems show ?thesis by (auto simp: byte_step_failed)
  next
    case False
    let ?q = "p\<lparr>pending := pending p @ [c]\<rparr>"
    have "too_long ?q (length seg) = too_long p (length (c # seg))"
      using False by (auto simp: too_long_def)
    with False Cons show ?thesis
      by (cases "seg = []") (auto)
  qed
qed simp

lemma consume_line_fields:
  assumes "consume_line p events view = (q, es)"
  shows "pending q = pending p" "line_bytes q = line_bytes p"
    "retained_reply_bytes q = retained_reply_bytes p" "finished q = finished p"
  using assms
  by (auto simp: consume_line_def split: option.splits sum.splits if_splits)

lemma fold_line:
  assumes "CHR 0x0A \<notin> set seg" "failure p = None"
  shows "fold byte_step (seg @ [CHR 0x0A]) (p, events) =
    (if too_long p (length seg) then (reject_oversized_line p, events)
     else let (q, es) = consume_line p events (pending p @ seg) in (q\<lparr>pending := []\<rparr>, es))"
proof (cases "seg = []")
  case True
  with assms show ?thesis by (simp)
next
  case False
  let ?q = "p\<lparr>pending := pending p @ seg\<rparr>"
  have q: "too_long ?q 0 = too_long p (length seg)" if "\<not> too_long p (length seg)"
    using that by (auto simp: too_long_def)
  show ?thesis
  proof (cases "too_long p (length seg)")
    case True
    then show ?thesis using False assms by (simp add: fold_segment)
  next
    case n: False
    have "fold byte_step (seg @ [CHR 0x0A]) (p, events) = byte_step (CHR 0x0A) (?q, events)"
      using n False assms by (simp add: fold_segment)
    also have "\<dots> = (let (q, es) = consume_line p events (pending p @ seg) in (q\<lparr>pending := []\<rparr>, es))"
      using q [OF n] n assms(2) by (simp add: consume_line_pending split_beta Let_def)
    finally show ?thesis using n by simp
  qed
qed

lemma feed_loop_bytes: "failure p = None \<Longrightarrow> feed_loop p events input = fold byte_step input (p, events)"
proof (induction p events input rule: feed_loop.induct)
  case (1 p events input)
  show ?case
  proof (cases "input = []")
    case True
    then show ?thesis by (simp add: feed_loop.simps)
  next
    case ne: False
    show ?thesis
    proof (cases "str_find (CHR 0x0A) input")
      case None
      then have "CHR 0x0A \<notin> set input" by (simp add: str_find_None)
      with 1(2) ne None show ?thesis
        by (simp add: feed_loop.simps [of p events input] fold_segment)
    next
      case (Some n)
      let ?seg = "take n input" and ?rest = "drop (n + 1) input"
      have split: "input = (?seg @ [CHR 0x0A]) @ ?rest" and nl: "CHR 0x0A \<notin> set ?seg"
        and len: "length ?seg = n" "min (length input) n = n"
        using str_find_decomp [OF Some] str_find_Some [OF Some] by auto
      obtain q es where q: "consume_line p events (pending p @ ?seg) = (q, es)" by fastforce
      have step: "(if pending p = [] then consume_line p events ?seg
               else let (q, es) = consume_line p events (pending p @ ?seg) in (q\<lparr>pending := []\<rparr>, es))
            = (q\<lparr>pending := []\<rparr>, es)"
        using q consume_line_fields(1) [OF q] by auto
      have fold: "fold byte_step input (p, events) = fold byte_step ?rest (fold byte_step (?seg @ [CHR 0x0A]) (p, events))"
        by (subst split) (simp only: fold_append comp_apply)
      show ?thesis
      proof (cases "too_long p n")
        case True
        then show ?thesis
          using ne Some
          by (simp add: feed_loop.simps [of p events input] fold fold_line nl 1(2) len byte_step_failed del: fold_append)
      next
        case ok: False
        have line: "fold byte_step (?seg @ [CHR 0x0A]) (p, events) = (q\<lparr>pending := []\<rparr>, es)"
          using ok q by (simp add: fold_line nl 1(2) len del: fold_append)
        show ?thesis
        proof (cases "failure q")
          case None
          then have "feed_loop (q\<lparr>pending := []\<rparr>) es ?rest = fold byte_step ?rest (q\<lparr>pending := []\<rparr>, es)"
            using 1(1) [OF ne Some ok step [symmetric]] by simp
          then show ?thesis
            using ne Some ok None by (subst feed_loop.simps) (simp add: step fold line del: fold_append)
        next
          case (Some e)
          then show ?thesis
            using ne \<open>str_find (CHR 0x0A) input = Some n\<close> ok
            by (subst feed_loop.simps) (simp add: step fold line byte_step_failed del: fold_append)
        qed
      qed
    qed
  qed
qed

section \<open>What the parser keeps\<close>

text \<open>The part of a reply body that a bound lets through.\<close>

definition within :: "nat \<Rightarrow> string \<Rightarrow> string" where
  "within retained s = (if retained = 0 then s else take retained s)"

definition body_text :: "string list \<Rightarrow> string" where
  "body_text lines = concat (map (\<lambda>l. l @ [CHR 0x0A]) lines)"

text \<open>A block holds the lines that arrived since its \<open>%begin\<close>: their bytes up to the bound, whether
  there were more, and how many there were.\<close>

definition holds_lines :: "nat \<Rightarrow> string list \<Rightarrow> ControlBlock \<Rightarrow> bool" where
  "holds_lines retained lines b \<longleftrightarrow> body b = within retained (body_text lines)
     \<and> body_bytes b = length (body_text lines)
     \<and> (body_truncated b \<longleftrightarrow> retained \<noteq> 0 \<and> length (body_text lines) > retained)"

lemma body_text_simps [simp]:
  "body_text [] = []" "body_text (l # ls) = l @ CHR 0x0A # body_text ls"
  "body_text (ls @ ls') = body_text ls @ body_text ls'"
  by (simp_all add: body_text_def)

lemma retain_line_holds:
  "holds_lines retained lines b \<Longrightarrow> holds_lines retained (lines @ [l]) (retain_line retained l b)"
  by (auto simp: holds_lines_def retain_line_def within_def Let_def min_def)

lemma retain_line_keeps [simp]:
  "begin_metadata (retain_line n l b) = begin_metadata b" "sequence (retain_line n l b) = sequence b"
  "command_number (retain_line n l b) = command_number b" "terminal (retain_line n l b) = terminal b"
  "terminal_metadata (retain_line n l b) = terminal_metadata b"
  by (simp_all add: retain_line_def Let_def)

section \<open>Feeding\<close>

definition ready :: "Parser \<Rightarrow> bool" where
  "ready p \<longleftrightarrow> failure p = None \<and> \<not> finished p"

lemma byte_step_finished: "finished (fst (fold byte_step input (p, events))) = finished p"
proof (induction input arbitrary: p events)
  case (Cons c input)
  obtain q es where q: "byte_step c (p, events) = (q, es)" by fastforce
  then have "finished q = finished p"
    by (auto simp: reject_oversized_line_def split: if_splits prod.splits dest: consume_line_fields)
  with Cons q show ?case by simp
qed simp

lemma byte_step_events:
  "byte_step c (p, e1 @ e2) = (let (q, es) = byte_step c (p, e2) in (q, e1 @ es))"
  by (auto simp: consume_line_def Let_def split: option.splits sum.splits prod.splits)

lemma fold_byte_events:
  "fold byte_step input (p, e1 @ e2) = (let (q, es) = fold byte_step input (p, e2) in (q, e1 @ es))"
proof (induction input arbitrary: p e2)
  case (Cons c input)
  obtain q es where q: "byte_step c (p, e2) = (q, es)" by fastforce
  then show ?case using Cons [of q es] by (simp only: fold_simps byte_step_events Let_def prod.case)
qed simp

lemma feed_ready: "ready p \<Longrightarrow> feed p input = answer (fold byte_step input (p, []))"
  by (simp add: ready_def feed_def feed_loop_bytes)

lemma feed_append:
  "feed p (a @ b) =
     (let (q, r1) = feed p a; (q', r2) = feed q b in
      (q', case r1 of Inl e \<Rightarrow> Inl e
           | Inr e1 \<Rightarrow> (case r2 of Inl e \<Rightarrow> Inl e | Inr e2 \<Rightarrow> Inr (e1 @ e2))))"
proof (cases "ready p")
  case True
  obtain q es where q: "fold byte_step a (p, []) = (q, es)" by fastforce
  have ab: "fold byte_step (a @ b) (p, []) = fold byte_step b (q, es @ [])" using q by simp
  have fin: "\<not> finished q" using byte_step_finished [of a p "[]"] q True by (simp add: ready_def)
  show ?thesis
  proof (cases "failure q")
    case None
    with fin have "ready q" by (simp add: ready_def)
    then show ?thesis using True q ab None fold_byte_events [of b q es "[]"]
      by (simp add: feed_ready answer_def split_beta Let_def split: option.splits del: fold_append)
  next
    case (Some e)
    then show ?thesis using True q ab
      by (simp add: feed_ready feed_def [of q] answer_def byte_step_failed del: fold_append)
  qed
next
  case False
  then show ?thesis
    by (cases "failure p") (auto simp: ready_def feed_def Let_def fail_with_def)
qed

lemma feed_line:
  assumes "ready p" "pending p = []" "CHR 0x0A \<notin> set l" "\<not> too_long p (length l)"
  shows "feed p (l @ [CHR 0x0A]) = answer (let (q, es) = consume_line p [] l in (q\<lparr>pending := []\<rparr>, es))"
  using assms by (simp add: feed_ready fold_line ready_def del: fold_append)

section \<open>The parser's invariant\<close>

definition parser_ok :: "Parser \<Rightarrow> bool" where
  "parser_ok p \<longleftrightarrow> (line_bytes p \<noteq> 0 \<longrightarrow> length (pending p) \<le> line_bytes p)
     \<and> (\<forall>b. block p = Some b \<longrightarrow> (\<exists>lines. holds_lines (retained_reply_bytes p) lines b))"

definition event_ok :: "nat \<Rightarrow> Event \<Rightarrow> bool" where
  "event_ok retained e \<longleftrightarrow> (case e of
     Block b \<Rightarrow> terminal_metadata b = begin_metadata b \<and> (\<exists>lines. holds_lines retained lines b)
   | Notification _ \<Rightarrow> True)"

lemma holds_no_lines:
  "body b = [] \<Longrightarrow> body_bytes b = 0 \<Longrightarrow> \<not> body_truncated b \<Longrightarrow> holds_lines retained [] b"
  by (simp add: holds_lines_def within_def)

lemma holds_lines_update [simp]:
  "holds_lines n lines (b\<lparr>terminal := t, terminal_metadata := m\<rparr>) = holds_lines n lines b"
  by (simp add: holds_lines_def)

lemma close_block_Some:
  "close_block view b prefix t = Some c \<Longrightarrow> c = b\<lparr>terminal := t, terminal_metadata := begin_metadata b\<rparr>"
  by (auto simp: close_block_def Let_def split: if_splits)

lemma consume_line_ok:
  assumes "consume_line p events view = (q, es)" "parser_ok p"
    "\<forall>e \<in> set events. event_ok (retained_reply_bytes p) e"
  shows "parser_ok q \<and> (\<forall>e \<in> set es. event_ok (retained_reply_bytes p) e)"
proof (cases "block p")
  case None
  have "parser_ok (fail_with p e)" for e
    using assms(2) by (simp add: parser_ok_def)
  moreover have "parser_ok (p\<lparr>block := Some b\<rparr>)"
    if "body b = []" "body_bytes b = 0" "\<not> body_truncated b" for b
    using assms(2) holds_no_lines [OF that] by (auto simp: parser_ok_def)
  moreover have "event_ok n (Notification t)" for n t by (simp add: event_ok_def)
  ultimately show ?thesis using assms None
    by (auto simp: consume_line_def split: if_splits sum.splits)
next
  case (Some b)
  obtain lines where lines: "holds_lines (retained_reply_bytes p) lines b"
    using assms(2) Some by (auto simp: parser_ok_def)
  have "event_ok (retained_reply_bytes p) (Block c)" if "close_block view b prefix t = Some c" for c prefix t
    using lines close_block_Some [OF that] by (auto simp: event_ok_def)
  moreover have "parser_ok (p\<lparr>block := None\<rparr>)"
      "parser_ok (p\<lparr>block := Some (retain_line (retained_reply_bytes p) view b)\<rparr>)"
    using assms(2) retain_line_holds [OF lines] by (auto simp: parser_ok_def)
  ultimately show ?thesis using assms Some
    by (auto simp: consume_line_def split: option.splits)
qed

lemma byte_step_ok:
  assumes "byte_step c (p, events) = (q, es)" "parser_ok p"
    "\<forall>e \<in> set events. event_ok (retained_reply_bytes p) e"
  shows "parser_ok q \<and> retained_reply_bytes q = retained_reply_bytes p
    \<and> (\<forall>e \<in> set es. event_ok (retained_reply_bytes p) e)"
proof -
  have "parser_ok (reject_oversized_line p)" "parser_ok (p\<lparr>pending := pending p @ [c]\<rparr>)" if "\<not> too_long p 1"
    using assms(2) that by (auto simp: parser_ok_def reject_oversized_line_def fail_with_def too_long_def)
  moreover have "parser_ok (reject_oversized_line p)"
    using assms(2) by (auto simp: parser_ok_def reject_oversized_line_def fail_with_def)
  moreover have "parser_ok (q'\<lparr>pending := []\<rparr>)" if "parser_ok q'" for q'
    using that by (auto simp: parser_ok_def)
  moreover note consume_line_ok [OF _ assms(2,3)] consume_line_fields(3)
  ultimately show ?thesis using assms
    by (fastforce simp: reject_oversized_line_def fail_with_def split: if_splits prod.splits)
qed

lemma fold_byte_ok:
  assumes "fold byte_step input (p, events) = (q, es)" "parser_ok p"
    "\<forall>e \<in> set events. event_ok (retained_reply_bytes p) e"
  shows "parser_ok q \<and> (\<forall>e \<in> set es. event_ok (retained_reply_bytes p) e)"
  using assms
proof (induction input arbitrary: p events)
  case (Cons c input)
  obtain r rs where r: "byte_step c (p, events) = (r, rs)" by fastforce
  with Cons.prems byte_step_ok [OF r] Cons.IH [of r rs] show ?case by simp
qed simp

section \<open>Chunks\<close>

text \<open>Feeding chunk by chunk: the events of the chunks in order, or the first error.\<close>

fun feed_each :: "Parser \<Rightarrow> string list \<Rightarrow> Parser \<times> (ProtocolError, Event list) expected" where
  "feed_each p [] = feed p []"
| "feed_each p (c # cs) =
     (let (q, r1) = feed p c; (q', r2) = feed_each q cs in
      (q', case r1 of Inl e \<Rightarrow> Inl e
           | Inr e1 \<Rightarrow> (case r2 of Inl e \<Rightarrow> Inl e | Inr e2 \<Rightarrow> Inr (e1 @ e2))))"

section \<open>Framing\<close>

definition guard_text :: "64 word \<Rightarrow> 64 word \<Rightarrow> 64 word \<Rightarrow> string" where
  "guard_text s n f = dec_string (unat s) @ CHR '' '' # dec_string (unat n) @ CHR '' '' # dec_string (unat f)"

definition closing :: "ControlTerminal \<Rightarrow> string" where
  "closing t = (case t of terminal_end \<Rightarrow> ''%end '' | terminal_error \<Rightarrow> ''%error '')"

lemma decimal_dec_string [simp]: "decimal (dec_string (unat (w :: 64 word))) = Some w"
proof -
  have "list_all is_digit (dec_string (unat w))" using dec_string_digits by (simp add: list_all_iff)
  moreover have "unat w < 2 ^ 64" using unsigned_less [of w, where ?'a = nat] by simp
  ultimately show ?thesis by (simp add: decimal_def)
qed

lemma parse_begin_guard:
  "parse_begin (''%begin '' @ guard_text s n f) =
     Inr \<lparr>guard_sequence = s, guard_number = n, guard_flags = f, guard_metadata = guard_text s n f\<rparr>"
proof -
  have sp: "CHR '' '' \<notin> set (dec_string k)" for k by (simp add: is_digit_def byte_def)
  have d: "drop (length a + Suc 0) (a @ x # b) = b" "drop (Suc (length a)) (a @ x # b) = b"
      "drop (Suc (length a + k)) (a @ x # b) = drop k b" "take (length a) (a @ b) = a"
    for a b :: string and x k by (simp_all add: drop_append)
  have "starts_with (''%begin '' @ m) ''%begin ''" "drop 7 (''%begin '' @ m) = m" for m by simp_all
  then show ?thesis
    unfolding parse_begin_def Let_def guard_text_def
    by (simp only: str_find_append [OF sp] str_find_from_def d option.case if_True not_True_eq_False if_False)
      (simp add: d str_find_append [OF sp] str_find_None [THEN iffD2, OF sp] sp)
qed

lemma consume_body_line:
  assumes "block p = Some b" "\<forall>t. l \<noteq> closing t @ begin_metadata b"
  shows "consume_line p [] l = (p\<lparr>block := Some (retain_line (retained_reply_bytes p) l b)\<rparr>, [])"
proof -
  have "close_block l b ''%end '' terminal_end = None" "close_block l b ''%error '' terminal_error = None"
    using assms(2) by (force simp: close_block_def closing_def Let_def starts_with_iff split: ControlTerminal.splits)+
  with assms(1) show ?thesis by (simp add: consume_line_def)
qed

text \<open>The block tmux described: its guard, and what the bound keeps of its lines.\<close>

definition described :: "nat \<Rightarrow> 64 word \<Rightarrow> 64 word \<Rightarrow> string \<Rightarrow> ControlTerminal \<Rightarrow> string \<Rightarrow> string list \<Rightarrow> ControlBlock" where
  "described retained s n m t tm lines =
     \<lparr>sequence = s, command_number = n, terminal = t, begin_metadata = m, terminal_metadata = tm,
      body = within retained (body_text lines),
      body_truncated = (retained \<noteq> 0 \<and> length (body_text lines) > retained),
      body_bytes = length (body_text lines)\<rparr>"

lemma described_iff:
  "b = described retained s n m t tm lines \<longleftrightarrow> holds_lines retained lines b \<and> sequence b = s
     \<and> command_number b = n \<and> terminal b = t \<and> begin_metadata b = m \<and> terminal_metadata b = tm"
  by (cases b) (auto simp: described_def holds_lines_def)

lemma retain_described:
  "retain_line retained l (described retained s n m t tm lines) = described retained s n m t tm (lines @ [l])"
  using retain_line_holds [of retained lines "described retained s n m t tm lines" l]
    described_iff [of "described retained s n m t tm lines" retained s n m t tm lines]
  by (simp add: described_iff)

lemma feed_body:
  assumes "ready p" "pending p = []" "block p = Some (described (retained_reply_bytes p) s n m t tm seen)"
    "\<forall>l \<in> set lines. CHR 0x0A \<notin> set l \<and> \<not> too_long p (length l) \<and> (\<forall>t. l \<noteq> closing t @ m)"
  shows "feed p (body_text lines) =
    (p\<lparr>block := Some (described (retained_reply_bytes p) s n m t tm (seen @ lines))\<rparr>, Inr [])"
  using assms
proof (induction lines arbitrary: p seen)
  case Nil
  then show ?case by (cases p) (simp add: feed_ready answer_def ready_def)
next
  case (Cons l lines)
  let ?r = "retained_reply_bytes p"
  let ?q = "p\<lparr>block := Some (described ?r s n m t tm (seen @ [l]))\<rparr>"
  have "begin_metadata (described ?r s n m t tm seen) = m" by (simp add: described_def)
  then have "consume_line p [] l = (?q, [])"
    using consume_body_line [OF Cons.prems(3), of l] Cons.prems(4) by (simp add: retain_described)
  then have l: "feed p (l @ [CHR 0x0A]) = (?q, Inr [])"
    using feed_line [of p l] Cons.prems by (cases p) (simp add: answer_def ready_def)
  have "too_long ?q = too_long p" by (simp add: too_long_def fun_eq_iff)
  then have "feed ?q (body_text lines) = (p\<lparr>block := Some (described ?r s n m t tm (seen @ l # lines))\<rparr>, Inr [])"
    using Cons.IH [of ?q "seen @ [l]"] Cons.prems by (simp add: ready_def)
  with l show ?case using feed_append [of p "l @ [CHR 0x0A]" "body_text lines"] by simp
qed

lemma consume_begin:
  assumes "block p = None"
  shows "consume_line p [] (''%begin '' @ guard_text s n f) =
    (p\<lparr>block := Some (described (retained_reply_bytes p) s n (guard_text s n f) terminal_end [] [])\<rparr>, [])"
proof -
  have "marker (''%begin '' @ x) ''%begin''" for x by (simp add: marker_def)
  with assms show ?thesis
    by (simp only: consume_line_def option.case if_True parse_begin_guard sum.case) (simp add: described_def within_def)
qed

lemma consume_closing:
  assumes "block p = Some (described r s n m terminal_end [] lines)"
  shows "consume_line p [] (closing t @ m) = (p\<lparr>block := None\<rparr>, [Block (described r s n m t m lines)])"
  using assms by (cases t) (simp_all add: consume_line_def closing_def close_block_def described_def)

lemma block_framed:
  assumes "ready p" "pending p = []" "block p = None"
    and m: "m = guard_text s n f"
    and fit: "\<forall>l \<in> set ((''%begin '' @ m) # (closing t @ m) # lines). CHR 0x0A \<notin> set l \<and> \<not> too_long p (length l)"
    and inner: "\<forall>l \<in> set lines. \<forall>t. l \<noteq> closing t @ m"
  shows "feed p (body_text ((''%begin '' @ m) # lines @ [closing t @ m])) =
    (p, Inr [Block \<lparr>sequence = s, command_number = n, terminal = t, begin_metadata = m, terminal_metadata = m,
       body = within (retained_reply_bytes p) (body_text lines),
       body_truncated = (retained_reply_bytes p \<noteq> 0 \<and> length (body_text lines) > retained_reply_bytes p),
       body_bytes = length (body_text lines)\<rparr>])"
proof -
  let ?r = "retained_reply_bytes p"
  let ?b = "\<lambda>ls. p\<lparr>block := Some (described ?r s n m terminal_end [] ls)\<rparr>"
  have tl: "too_long (?b ls) = too_long p" for ls by (simp add: too_long_def fun_eq_iff)
  have p: "p\<lparr>block := None\<rparr> = p" "?b ls\<lparr>pending := []\<rparr> = ?b ls" "p\<lparr>pending := []\<rparr> = p" for ls
    using assms(2,3) by (cases p; simp)+
  have 1: "feed p ((''%begin '' @ m) @ [CHR 0x0A]) = (?b [], Inr [])"
    using feed_line [of p "''%begin '' @ m"] fit assms(1-3) consume_begin [of p s n f] p(2) [of "[]"]
    by (simp add: m answer_def ready_def)
  have 2: "feed (?b []) (body_text lines) = (?b lines, Inr [])"
    using feed_body [of "?b []" s n m terminal_end "[]" "[]" lines] fit inner assms(1,2) tl
    by (simp add: ready_def)
  have 3: "feed (?b lines) ((closing t @ m) @ [CHR 0x0A]) = (p, Inr [Block (described ?r s n m t m lines)])"
    using feed_line [of "?b lines" "closing t @ m"] fit assms(1,2) consume_closing [of "?b lines" ?r s n m lines t] tl p
    by (simp add: answer_def ready_def)
  have "body_text ((''%begin '' @ m) # lines @ [closing t @ m]) =
      ((''%begin '' @ m) @ [CHR 0x0A]) @ body_text lines @ ((closing t @ m) @ [CHR 0x0A])" by simp
  then show ?thesis using 1 2 3
    by (simp only: feed_append Let_def prod.case sum.case append.left_neutral) (simp add: described_def)
qed

text \<open>
  C22.
  Replies are framed exactly: between a \<open>%begin\<close> line and the \<open>%end\<close> or \<open>%error\<close> line that repeats
  its three numbers, every line is body, whatever it looks like (another guard, a notification). The
  one event is the block with those numbers, the bytes of its lines up to the retention bound, how
  many bytes there were and whether some were dropped; the parser is left as it was.
\<close>

theorem block_framing:
  assumes "ready p" "pending p = []" "block p = None"
    and m: "m = guard_text s n f"
    and fit: "\<forall>l \<in> set ((''%begin '' @ m) # (closing t @ m) # lines). CHR 0x0A \<notin> set l \<and> \<not> too_long p (length l)"
    and inner: "\<forall>l \<in> set lines. \<forall>t. l \<noteq> closing t @ m"
  shows "feed p (body_text ((''%begin '' @ m) # lines @ [closing t @ m])) =
    (p, Inr [Block \<lparr>sequence = s, command_number = n, terminal = t, begin_metadata = m, terminal_metadata = m,
       body = within (retained_reply_bytes p) (body_text lines),
       body_truncated = (retained_reply_bytes p \<noteq> 0 \<and> length (body_text lines) > retained_reply_bytes p),
       body_bytes = length (body_text lines)\<rparr>])"
  unfolding m by (rule block_framed [OF assms(1-3) refl]) (use assms in simp_all)

definition fresh_parser :: "nat \<Rightarrow> nat \<Rightarrow> Parser" where
  "fresh_parser retained line_limit = \<lparr>pending = [], block = None, failure = None,
     retained_reply_bytes = retained, line_bytes = line_limit, finished = False\<rparr>"

theorem block_framing_witness:
  "feed (fresh_parser 4 0) (body_text ((''%begin '' @ guard_text 1 2 0) # [''%end 9'', ''x''] @ [closing terminal_end @ guard_text 1 2 0])) =
    (fresh_parser 4 0, Inr [Block \<lparr>sequence = 1, command_number = 2, terminal = terminal_end,
       begin_metadata = guard_text 1 2 0, terminal_metadata = guard_text 1 2 0,
       body = ''%end'', body_truncated = True, body_bytes = 9\<rparr>])"
proof -
  have g: "guard_text 1 2 0 = ''1 2 0''" by code_simp
  show ?thesis
    using block_framing [of "fresh_parser 4 0" "guard_text 1 2 0" 1 2 0 terminal_end "[''%end 9'', ''x'']"]
    by (simp add: fresh_parser_def ready_def too_long_def closing_def within_def g split: ControlTerminal.splits)
qed


text \<open>
  C23.
  The two bounds hold at all times, whatever tmux sends: the bytes pending never exceed the line
  bound, an open or delivered block keeps at most the retention bound of its body and says whether
  bytes were dropped and how many arrived, and every delivered block is closed by its own guard.
\<close>

theorem feed_bounded:
  assumes "parser_ok p" "feed p input = (q, r)"
  shows "parser_ok q \<and> (case r of Inl e \<Rightarrow> failure q = Some e
     | Inr events \<Rightarrow> failure q = None \<and> (\<forall>e \<in> set events. event_ok (retained_reply_bytes p) e))"
proof (cases "ready p")
  case True
  obtain q' es where q': "fold byte_step input (p, []) = (q', es)" by fastforce
  with True assms(2) have "q = q'" "r = (case failure q' of Some e \<Rightarrow> Inl e | None \<Rightarrow> Inr es)"
    by (auto simp add: feed_ready answer_def split: option.splits)
  with fold_byte_ok [OF q' assms(1)] show ?thesis by (auto split: option.splits)
next
  case False
  then show ?thesis using assms by (auto simp: ready_def feed_def Let_def parser_ok_def fail_with_def split: option.splits)
qed

theorem feed_bounded_witness:
  "parser_ok (fst (feed (fresh_parser 4 16) (''%window-add @3'' @ [CHR 0x0A] @ ''%be'')))"
  using feed_bounded [of "fresh_parser 4 16" "''%window-add @3'' @ [CHR 0x0A] @ ''%be''"]
  by (cases "feed (fresh_parser 4 16) (''%window-add @3'' @ [CHR 0x0A] @ ''%be'')")
    (simp add: fresh_parser_def parser_ok_def)

section \<open>Pane output\<close>

text \<open>How tmux writes pane output: control bytes and the backslash as three octal digits.\<close>

definition octal_char :: "char \<Rightarrow> string" where
  "octal_char c = (if byte c < 32 \<or> c = CHR 0x5C
     then [CHR 0x5C, char_of (48 + byte c div 64), char_of (48 + byte c div 8 mod 8), char_of (48 + byte c mod 8)]
     else [c])"

definition octal_encode :: "string \<Rightarrow> string" where
  "octal_encode s = concat (map octal_char s)"

lemma octal_digits_char:
  "octal_digits 0 [char_of (48 + byte c div 64), char_of (48 + byte c div 8 mod 8), char_of (48 + byte c mod 8)] = Some (byte c)"
proof -
  have lt: "byte c div 64 < 4" using byte_less [of c] by (simp add: less_mult_imp_div_less)
  have b: "byte (char_of (48 + k)) = 48 + k" if "k < 8" for k :: nat
    using that by (simp add: byte_def)
  have "byte c div 64 * 8 + byte c div 8 mod 8 = byte c div 8"
    using div_mult_mod_eq [of "byte c div 8" 8] by (simp add: div_mult2_eq [symmetric])
  then have "(byte c div 64 * 8 + byte c div 8 mod 8) * 8 + byte c mod 8 = byte c"
    using div_mult_mod_eq [of "byte c" 8] by simp
  moreover have "byte c mod 8 < 8" "byte c div 8 mod 8 < 8" by simp_all
  moreover note lt
  ultimately show ?thesis by (simp add: b not_less del: mod_less_divisor)
qed

lemma octal_loop_char: "octal_loop result (octal_char c @ rest) = octal_loop (result @ [c]) rest"
proof (cases "byte c < 32 \<or> c = CHR 0x5C")
  case True
  have "\<not> 255 < byte c" using byte_less [of c] by linarith
  moreover have "char_of (byte c) = c" by (simp add: byte_def)
  moreover note octal_digits_char [of c] True
  ultimately show ?thesis by (simp add: octal_char_def del: octal_digits.simps)
qed (auto simp: octal_char_def)

lemma octal_loop_encode: "octal_loop result (octal_encode s) = Inr (result @ s)"
  by (induction s arbitrary: result) (simp_all add: octal_encode_def octal_loop_char)

lemma octal_encode_no_newline: "CHR 0x0A \<notin> set (octal_encode s)"
proof -
  have "CHR 0x0A \<notin> set (octal_char c)" for c
  proof -
    have k: "byte c div 64 < 8" "byte c div 8 mod 8 < 8" "byte c mod 8 < 8" using byte_less [of c] by linarith+
    have "CHR 0x0A \<notin> {CHR 0x5C, char_of (48 + byte c div 64), char_of (48 + byte c div 8 mod 8), char_of (48 + byte c mod 8)}"
      using k [THEN octal_digit_not_newline] by simp
    moreover have "c \<noteq> CHR 0x0A" if "\<not> byte c < 32" using that by (auto simp: byte_def)
    ultimately show ?thesis by (auto simp: octal_char_def)
  qed
  then show ?thesis by (auto simp: octal_encode_def)
qed

lemma leading_two:
  assumes "CHR '' '' \<notin> set a" "CHR '' '' \<notin> set b" 
  shows "leading_fields (a @ CHR '' '' # b @ CHR '' '' # rest) 2 = [(0, a), (Suc (length a), b)]"
  using assms
  by (simp add: leading_fields_def leading_loop.simps str_find_from_def str_find_append)

lemma parse_output_line:
  assumes "CHR '' '' \<notin> set pane" "pane \<noteq> []"
  shows "parse_notification (''%output %'' @ pane @ CHR '' '' # payload) =
    \<lparr>note_kind = nk_output, note_name = ''%output'', note_session = [], note_window = [],
     note_pane = CHR ''%'' # pane, note_text = [], note_payload = payload, note_age = None\<rparr>"
proof -
  have l: "''%output %'' @ pane @ CHR '' '' # payload = ''%output'' @ CHR '' '' # (CHR ''%'' # pane) @ CHR '' '' # payload"
    by simp
  have sp: "CHR '' '' \<notin> set ''%output''" "CHR '' '' \<notin> set (CHR ''%'' # pane)" using assms by auto
  have k: "kind_named ''%output'' = nk_output" by (simp add: kind_named_def kNotificationNames_def)
  have "str_find CHR '' '' (''%output'' @ CHR '' '' # (CHR ''%'' # pane) @ CHR '' '' # payload) = Some (length ''%output'')"
    by (rule str_find_append [OF sp(1)])
  then show ?thesis unfolding l parse_notification_def Let_def
    using leading_two [OF sp] k assms(2)
    by (simp add: parse_output_def Let_def place_argument_def)
qed

text \<open>
  Pane output arrives byte for byte: whatever a pane prints, the line tmux escapes it into is one
  line, is decoded to the original bytes, and the notification read from it names the pane and has
  exactly those bytes as its payload.
\<close>

theorem output_roundtrip:
  assumes "ready p" "pending p = []" "block p = None" "line_bytes p = 0"
    "CHR '' '' \<notin> set pane" "CHR 0x0A \<notin> set pane" "pane \<noteq> []"
  shows "\<exists>line. feed p (''%output %'' @ pane @ '' '' @ octal_encode payload @ [CHR 0x0A]) = (p, Inr [Notification line])
    \<and> parse_notification line = \<lparr>note_kind = nk_output, note_name = ''%output'', note_session = [], note_window = [],
     note_pane = CHR ''%'' # pane, note_text = [], note_payload = payload, note_age = None\<rparr>"
proof -
  let ?head = "''%output %'' @ pane @ '' ''"
  let ?l = "?head @ octal_encode payload"
  have fnd: "str_find_from CHR '' '' ?l 8 = Some (9 + length pane)"
    using assms(5) str_find_append [of "CHR '' ''" "CHR ''%'' # pane"] by (simp add: str_find_from_def)
  have "notification_body ?l = decode_octal_payload ?l (length ?head)"
    using fnd by (simp add: notification_body_def add.commute eval_nat_numeral)
  also have "\<dots> = Inr (?head @ payload)"
    by (simp add: decode_octal_payload_def octal_loop_encode del: append.simps(2) append_assoc)
  finally have nb: "notification_body ?l = Inr (?head @ payload)" .
  have "\<not> marker ?l ''%begin''" "\<not> marker ?l ''%end''" "\<not> marker ?l ''%error''" by (simp_all add: marker_def)
  then have c: "consume_line p [] ?l = (p, [Notification (?head @ payload)])"
    using assms(3) nb by (simp add: consume_line_def)
  have "feed p (?l @ [CHR 0x0A]) = (p, Inr [Notification (?head @ payload)])"
    using feed_line [of p ?l] c assms octal_encode_no_newline [of payload]
    by (cases p) (simp add: ready_def too_long_def answer_def)
  then show ?thesis using parse_output_line [OF assms(5,7), of payload] by simp
qed

theorem output_roundtrip_witness:
  "\<exists>line. feed (fresh_parser 0 0) (''%output %'' @ ''7'' @ '' '' @ octal_encode [CHR 0x0A, CHR 0x5C, CHR 0xE2] @ [CHR 0x0A])
      = (fresh_parser 0 0, Inr [Notification line])
    \<and> parse_notification line = \<lparr>note_kind = nk_output, note_name = ''%output'', note_session = [], note_window = [],
     note_pane = ''%7'', note_text = [], note_payload = [CHR 0x0A, CHR 0x5C, CHR 0xE2], note_age = None\<rparr>"
  using output_roundtrip [of "fresh_parser 0 0" "''7''" "[CHR 0x0A, CHR 0x5C, CHR 0xE2]"]
  by (simp add: fresh_parser_def ready_def)

section \<open>Names\<close>

lemma kind_named_name: "k \<noteq> nk_unknown \<Longrightarrow> kind_named (kind_name k) = k \<and> CHR '' '' \<notin> set (kind_name k)"
  by (cases k) (simp_all add: kind_named_def kind_name_def kNotificationNames_def)

lemma place_argument_kind [simp]:
  "note_kind (place_argument p f) = note_kind p" "note_name (place_argument p f) = note_name p"
  by (simp_all add: place_argument_def)

lemma scan_arguments_kind [simp]:
  "note_kind (scan_arguments line p fs) = note_kind p \<and> note_name (scan_arguments line p fs) = note_name p"
  by (induction line p fs rule: scan_arguments.induct) (simp_all add: Let_def)

lemma parse_kinds [simp]:
  "note_kind (parse_output l p) = note_kind p" "note_name (parse_output l p) = note_name p"
  "note_kind (parse_extended l p) = note_kind p" "note_name (parse_extended l p) = note_name p"
  "note_kind (parse_subscription l p) = note_kind p" "note_name (parse_subscription l p) = note_name p"
  by (simp_all add: parse_output_def parse_extended_def parse_subscription_def Let_def split: option.splits)

text \<open>
  The name of a notification decides its kind and nothing else does: a line whose first word is the
  name of a kind is of that kind whatever follows, no two kinds share a name, and a line with any
  other first word is of the unknown kind with its name kept.
\<close>

theorem notification_names:
  assumes "CHR '' '' \<notin> set name" "rest = [] \<or> hd rest = CHR '' ''"
  shows "note_name (parse_notification (name @ rest)) = name
    \<and> (\<forall>k. k \<noteq> nk_unknown \<longrightarrow> (note_kind (parse_notification (name @ rest)) = k \<longleftrightarrow> name = kind_name k))"
proof -
  have fnd: "(case str_find CHR '' '' (name @ rest) of None \<Rightarrow> name @ rest | Some n \<Rightarrow> take n (name @ rest)) = name"
    using assms by (cases rest) (simp_all add: str_find_append str_find_None [THEN iffD2])
  have "note_kind (parse_notification (name @ rest)) = kind_named name \<and> note_name (parse_notification (name @ rest)) = name"
    unfolding parse_notification_def Let_def fnd by simp
  moreover have "name = kind_name k" if "kind_named name = k" "k \<noteq> nk_unknown" for k
    using that by (auto simp: kind_named_def kind_name_def kNotificationNames_def split: if_splits)
  ultimately show ?thesis using kind_named_name by auto
qed

theorem notification_names_witness:
  "note_kind (parse_notification (''%window-add'' @ '' @3'')) = nk_window_add"
proof -
  have "kind_name nk_window_add = ''%window-add''" by (simp add: kind_name_def kNotificationNames_def)
  then show ?thesis using notification_names [of "''%window-add''" "'' @3''"] by simp
qed

end
