(* ===== verification/Versions.thy ===== *)
theory Versions
  imports Prelude "HOL-Library.Product_Lexorder"
begin

text \<open>
  \<open>include/libtmux/version.hpp\<close>: reading the first line of \<open>tmux -V\<close> and ordering what was
  read. The record has the source's fields at their widths; \<open>operator<=>\<close> is the cascade of
  comparisons the header writes, and it is shown to be the lexicographic order of a key. That
  order agrees with the defaulted \<open>operator==\<close> on every version the parser returns (the only
  exception a caller can build is the candidate 65535, which ranks as a release).
\<close>

section \<open>Versions and their order\<close>

datatype VersionError = missing_prefix | malformed

record Version =
  major :: "32 word"
  minor :: "32 word"
  revision :: "32 word"
  prerelease :: bool
  unbounded :: bool
  candidate :: "16 word"

datatype strong_ordering = ord_less | ord_equal | ord_greater

definition compare_word :: "'a::len word \<Rightarrow> 'a word \<Rightarrow> strong_ordering" where
  "compare_word a b = (if a < b then ord_less else if a = b then ord_equal else ord_greater)"

definition candidate_rank :: "16 word \<Rightarrow> 16 word" where
  "candidate_rank v = (if v = 0 then - 1 else v)"

definition compare_version :: "Version \<Rightarrow> Version \<Rightarrow> strong_ordering" where
  "compare_version v w =
     (if unbounded v \<noteq> unbounded w then (if unbounded v then ord_greater else ord_less)
      else if compare_word (major v) (major w) \<noteq> ord_equal then compare_word (major v) (major w)
      else if compare_word (minor v) (minor w) \<noteq> ord_equal then compare_word (minor v) (minor w)
      else if compare_word (revision v) (revision w) \<noteq> ord_equal
           then compare_word (revision v) (revision w)
      else if prerelease v \<noteq> prerelease w then (if prerelease v then ord_less else ord_greater)
      else compare_word (candidate_rank (candidate v)) (candidate_rank (candidate w)))"

definition version_less :: "Version \<Rightarrow> Version \<Rightarrow> bool" where
  "version_less v w \<longleftrightarrow> compare_version v w = ord_less"

definition version_ge :: "Version \<Rightarrow> Version \<Rightarrow> bool" where
  "version_ge v w \<longleftrightarrow> compare_version v w \<noteq> ord_less"

definition release :: "32 word \<Rightarrow> 32 word \<Rightarrow> 32 word \<Rightarrow> Version" where
  "release ma mi re = \<lparr>major = ma, minor = mi, revision = re, prerelease = False,
     unbounded = False, candidate = 0\<rparr>"

definition kMinimumSupported :: Version where
  "kMinimumSupported = release 3 3 1"

definition kMinimumSupportedText :: string where
  "kMinimumSupportedText = ''3.3a''"

definition is_supported :: "Version \<Rightarrow> bool" where
  "is_supported v \<longleftrightarrow> version_ge v kMinimumSupported"

section \<open>Parsing\<close>

text \<open>
  The \<open>digits\<close> lambda: an unsigned 32-bit accumulator, refused before it would wrap.
\<close>

fun digits_loop :: "32 word \<Rightarrow> string \<Rightarrow> 32 word option" where
  "digits_loop out [] = Some out"
| "digits_loop out (c # cs) =
     (if \<not> is_digit c then None
      else let v = word_of_nat (digit_value c)
           in if (- 1 - v) div 10 < out then None else digits_loop (out * 10 + v) cs)"

definition digits :: "string \<Rightarrow> 32 word option" where
  "digits text = (if text = [] then None else digits_loop 0 text)"

definition parse_suffix :: "Version \<Rightarrow> string \<Rightarrow> (VersionError, Version) expected" where
  "parse_suffix v suffix =
     (if suffix = [] then Inr v
      else if prerelease v then Inl malformed
      else if starts_with suffix ''-rc'' then
        (if length suffix = 3 then Inr (v\<lparr>candidate := 1\<rparr>)
         else (case digits (drop 3 suffix) of
             None \<Rightarrow> Inl malformed
           | Some n \<Rightarrow> if n \<noteq> 0 \<and> n < 65535 then Inr (v\<lparr>candidate := ucast n\<rparr>) else Inl malformed))
      else if starts_with suffix ''.'' then
        (case digits (drop 1 suffix) of
             None \<Rightarrow> Inl malformed
           | Some n \<Rightarrow> Inr (v\<lparr>revision := n\<rparr>))
      else if length suffix \<noteq> 1 \<or> byte (hd suffix) < 97 \<or> 122 < byte (hd suffix)
        then Inl malformed
      else Inr (v\<lparr>revision := word_of_nat (byte (hd suffix) - 97) + 1\<rparr>))"

definition parse_numbers :: "bool \<Rightarrow> string \<Rightarrow> (VersionError, Version) expected" where
  "parse_numbers pre output =
     (case str_find (CHR ''.'') output of
        None \<Rightarrow> Inl malformed
      | Some dot \<Rightarrow>
          if dot = 0 then Inl malformed
          else (case digits (take dot output) of
            None \<Rightarrow> Inl malformed
          | Some ma \<Rightarrow>
              (let rest = drop (Suc dot) output; ende = length (takeWhile is_digit rest)
               in (case digits (take ende rest) of
                 None \<Rightarrow> Inl malformed
               | Some mi \<Rightarrow>
                   parse_suffix ((release ma mi 0)\<lparr>prerelease := pre\<rparr>) (drop ende rest)))))"

definition parse_version :: "string \<Rightarrow> (VersionError, Version) expected" where
  "parse_version output =
     (let line = takeWhile (\<lambda>c. c \<noteq> CHR 0x0D \<and> c \<noteq> CHR 0x0A) output
      in if \<not> starts_with line ''tmux '' then Inl missing_prefix
         else let rest = drop 5 line
              in if starts_with rest ''next-'' then parse_numbers True (drop 5 rest)
                 else parse_numbers False rest)"

section \<open>The order is lexicographic\<close>

type_synonym version_key = "bool \<times> 32 word \<times> 32 word \<times> 32 word \<times> bool \<times> 16 word"

definition version_key :: "Version \<Rightarrow> version_key" where
  "version_key v = (unbounded v, major v, minor v, revision v, \<not> prerelease v,
     candidate_rank (candidate v))"

lemma compare_word_simps [simp]:
  "compare_word a b = ord_less \<longleftrightarrow> a < b"
  "compare_word a b = ord_equal \<longleftrightarrow> a = b"
  "compare_word a b = ord_greater \<longleftrightarrow> b < a"
  by (auto simp: compare_word_def)

lemma compare_version_key:
  "compare_version v w = ord_less \<longleftrightarrow> version_key v < version_key w"
  "compare_version v w = ord_equal \<longleftrightarrow> version_key v = version_key w"
  by (auto simp: compare_version_def version_key_def less_prod_def)

lemma compare_version_greater:
  "compare_version v w = ord_greater \<longleftrightarrow> version_key w < version_key v"
  using compare_version_key [of v w]
  by (cases "compare_version v w") auto

lemma version_less_key: "version_less v w \<longleftrightarrow> version_key v < version_key w"
  by (simp add: version_less_def compare_version_key)

lemma version_ge_key: "version_ge v w \<longleftrightarrow> version_key w \<le> version_key v"
  by (simp add: version_ge_def compare_version_key not_less)

text \<open>What \<open>parse_version\<close> can return.\<close>

definition parsed_version :: "Version \<Rightarrow> bool" where
  "parsed_version v \<longleftrightarrow> \<not> unbounded v \<and> candidate v \<noteq> - 1 \<and>
     (prerelease v \<longrightarrow> revision v = 0 \<and> candidate v = 0) \<and>
     (candidate v \<noteq> 0 \<longrightarrow> revision v = 0)"

lemma candidate_rank_inject:
  "a \<noteq> - 1 \<Longrightarrow> b \<noteq> - 1 \<Longrightarrow> candidate_rank a = candidate_rank b \<longleftrightarrow> a = b"
  by (auto simp: candidate_rank_def)

lemma version_key_inject:
  assumes "parsed_version v" "parsed_version w"
  shows "version_key v = version_key w \<longleftrightarrow> v = w"
  using assms candidate_rank_inject [of "candidate v" "candidate w"]
  by (cases v; cases w) (auto simp: version_key_def parsed_version_def)

section \<open>Parsing returns well-formed versions\<close>

lemma digits_loop_iff:
  "digits_loop out s = Some w \<longleftrightarrow>
     (\<forall>c \<in> set s. is_digit c) \<and> dec_value (unat out) s < 2 ^ 32 \<and> unat w = dec_value (unat out) s"
proof (induction out s rule: digits_loop.induct)
  case (1 out)
  then show ?case using unsigned_less [of out, where ?'a = nat] by (auto simp: word_unat_eq_iff)
next
  case (2 out c cs)
  show ?case
  proof (cases "is_digit c")
    case True
    note step = digits_loop_step [OF True, of out]
    show ?thesis
    proof (cases "10 * unat out + digit_value c < 2 ^ 32")
      case lt: True
      with step have "\<not> (- 1 - word_of_nat (digit_value c)) div 10 < out" by simp
      with True lt "2.IH" step(2) show ?thesis by (simp add: Let_def)
    next
      case False
      with step have "(- 1 - word_of_nat (digit_value c)) div 10 < out" by simp
      moreover have "\<not> dec_value (10 * unat out + digit_value c) cs < 2 ^ 32"
        using False dec_value_ge [of "10 * unat out + digit_value c" cs] by linarith
      ultimately show ?thesis using True by (simp add: Let_def)
    qed
  qed simp
qed

lemma digits_iff:
  "digits s = Some w \<longleftrightarrow>
     s \<noteq> [] \<and> (\<forall>c \<in> set s. is_digit c) \<and> dec_value 0 s < 2 ^ 32 \<and> unat w = dec_value 0 s"
  by (auto simp: digits_def digits_loop_iff)

lemma digits_dec_string [simp]: "digits (dec_string (unat w)) = Some w"
  using dec_string_digits unsigned_less [of w, where ?'a = nat] by (auto simp: digits_iff)

lemma parse_suffix_parsed:
  assumes "parse_suffix v s = Inr w" "parsed_version v" "candidate v = 0" "revision v = 0"
  shows "parsed_version w"
proof -
  have "(ucast n :: 16 word) \<noteq> - 1 \<and> (ucast n :: 16 word) \<noteq> 0" if "n \<noteq> 0" "n < 65535" for n :: "32 word"
  proof -
    have "unat n < 65535" using that by (simp add: word_less_nat_alt)
    then have "unat (ucast n :: 16 word) = unat n"
      by (simp add: unsigned_ucast_eq take_bit_nat_eq_self)
    with that show ?thesis
      by (auto simp: word_less_nat_alt unsigned_minus_1_eq_mask mask_eq_exp_minus_1 word_unat_eq_iff)
  qed
  with assms show ?thesis
    by (auto simp: parse_suffix_def parsed_version_def split: if_splits option.splits)
qed

lemma parse_version_parsed: "parse_version s = Inr v \<Longrightarrow> parsed_version v"
  by (auto simp: parse_version_def parse_numbers_def Let_def release_def parsed_version_def
      split: if_splits option.splits dest!: parse_suffix_parsed)

section \<open>Printing and reading back\<close>

text \<open>
  The spelling tmux gives a version (not part of the library, which only reads versions): the
  inverse the parser is measured against.
\<close>

definition suffix_text :: "Version \<Rightarrow> string" where
  "suffix_text v =
     (if candidate v \<noteq> 0 then ''-rc'' @ dec_string (unat (candidate v))
      else if revision v = 0 then []
      else if revision v \<le> 26 then [char_of (96 + unat (revision v))]
      else ''.'' @ dec_string (unat (revision v)))"

definition version_text :: "Version \<Rightarrow> string" where
  "version_text v =
     (if prerelease v then ''next-'' else []) @ dec_string (unat (major v)) @
     CHR ''.'' # dec_string (unat (minor v)) @ suffix_text v"

lemma digits_dec_string16: "digits (dec_string (unat (w :: 16 word))) = Some (ucast w)"
  using dec_string_digits [of "unat w"] u16_bound [of w]
  by (auto simp: digits_iff unsigned_ucast_eq take_bit_nat_eq_self)

lemma parse_suffix_text:
  assumes "parsed_version v"
  shows "parse_suffix (v\<lparr>candidate := 0, revision := 0\<rparr>) (suffix_text v) = Inr v"
proof (cases "candidate v = 0")
  case True
  note c = this
  show ?thesis
  proof (cases "revision v = 0")
    case True
    with c show ?thesis by (simp add: parse_suffix_def suffix_text_def)
  next
    case False
    then have pre: "\<not> prerelease v" using assms by (auto simp: parsed_version_def)
    show ?thesis
    proof (cases "revision v \<le> 26")
      case True
      then have r: "unat (revision v) \<le> 26" by (simp add: word_le_nat_alt)
      moreover have "0 < unat (revision v)" using False by (simp add: unat_gt_0)
      ultimately have "byte (char_of (96 + unat (revision v)) :: char) = 96 + unat (revision v)"
        by (simp add: byte_def)
      moreover from this have "(char_of (96 + unat (revision v)) :: char) \<noteq> CHR ''.''"
        using byte_dot by fastforce
      ultimately show ?thesis using False True c pre r \<open>0 < unat (revision v)\<close>
        by (auto simp: parse_suffix_def suffix_text_def byte_def)
    next
      case big: False
      with False c pre show ?thesis by (simp add: parse_suffix_def suffix_text_def)
    qed
  qed
next
  case False
  then have "revision v = 0" "\<not> prerelease v" "candidate v \<noteq> - 1"
    using assms by (auto simp: parsed_version_def)
  moreover have "(ucast (candidate v) :: 32 word) \<noteq> 0" "(ucast (candidate v) :: 32 word) < 65535"
    using False \<open>candidate v \<noteq> - 1\<close> u16_bound [of "candidate v"]
    by (auto simp: word_unat_eq_iff word_less_nat_alt unsigned_ucast_eq take_bit_nat_eq_self
        unsigned_minus_1_eq_mask mask_eq_exp_minus_1)
  moreover have "(ucast (ucast (candidate v) :: 32 word) :: 16 word) = candidate v"
    using u16_bound [of "candidate v"]
    by (simp add: word_unat_eq_iff unsigned_ucast_eq take_bit_nat_eq_self take_bit_word_eq_self)
  ultimately show ?thesis using False
    by (cases v) (simp add: parse_suffix_def suffix_text_def digits_dec_string16)
qed

lemma suffix_text_hd: "suffix_text v = [] \<or> \<not> is_digit (hd (suffix_text v))"
proof (cases "candidate v = 0 \<and> revision v \<noteq> 0 \<and> revision v \<le> 26")
  case True
  then have "unat (revision v) \<le> 26" "0 < unat (revision v)"
    by (simp_all add: word_le_nat_alt unat_gt_0)
  with True show ?thesis by (simp add: suffix_text_def is_digit_def byte_def)
next
  case False
  then show ?thesis by (auto simp: suffix_text_def)
qed

lemma parse_numbers_text:
  assumes "parsed_version v"
  shows "parse_numbers (prerelease v) (dec_string (unat (major v)) @ CHR ''.'' #
           dec_string (unat (minor v)) @ suffix_text v) = Inr v"
proof -
  have dot: "CHR ''.'' \<notin> set (dec_string (unat (major v)))"
    by simp
  have eq: "(release (major v) (minor v) 0)\<lparr>prerelease := prerelease v\<rparr> = v\<lparr>candidate := 0, revision := 0\<rparr>"
    using assms by (cases v) (simp add: release_def parsed_version_def)
  show ?thesis
    using parse_suffix_text [OF assms] takeWhile_digits [OF suffix_text_hd]
    by (simp add: parse_numbers_def str_find_append [OF dot] eq Let_def)
qed

lemma version_text_chars:
  "c \<in> set (suffix_text v) \<Longrightarrow> c \<noteq> CHR 0x0D \<and> c \<noteq> CHR 0x0A"
proof (cases "candidate v = 0 \<and> revision v \<noteq> 0 \<and> revision v \<le> 26")
  case True
  then have r: "unat (revision v) \<le> 26" "0 < unat (revision v)"
    by (simp_all add: word_le_nat_alt unat_gt_0)
  assume "c \<in> set (suffix_text v)"
  with True have "byte c = 96 + unat (revision v)"
    using r by (simp add: suffix_text_def byte_def)
  then show ?thesis by (auto simp: byte_def)
next
  case False
  assume "c \<in> set (suffix_text v)"
  with False show ?thesis
    by (auto simp: suffix_text_def split: if_splits)
qed

lemma starts_with_next: "\<not> starts_with (dec_string n @ s) ''next-''"
  using dec_string_not_in [of "CHR ''n''" n] by (cases "dec_string n") auto

section \<open>Properties\<close>

lemma parse_version_text:
  assumes "parsed_version v"
  shows "parse_version (''tmux '' @ version_text v) = Inr v"
proof -
  have id: "takeWhile (\<lambda>c. c \<noteq> CHR 0x0D \<and> c \<noteq> CHR 0x0A) (''tmux '' @ version_text v)
      = ''tmux '' @ version_text v"
    by (subst takeWhile_eq_all_conv) (auto simp: version_text_def dest: version_text_chars)
  show ?thesis
    unfolding parse_version_def Let_def id
    using parse_numbers_text [OF assms] starts_with_next by (auto simp: version_text_def)
qed

text \<open>
  Reading back what tmux prints: the versions \<open>parse_version\<close> returns are exactly the
  well-formed ones (never unbounded, a candidate below 65535, a \<open>next-\<close> build with neither
  patch letter nor candidate), and each of them, spelled the way tmux spells it, is read as
  itself.
\<close>

theorem parse_version_roundtrip:
  "((\<exists>s. parse_version s = Inr v) \<longleftrightarrow> parsed_version v) \<and>
   (parse_version (''tmux '' @ version_text v) = Inr v \<longleftrightarrow> parsed_version v)"
  using parse_version_parsed parse_version_text by blast

text \<open>
  The spaceship operator is a strict total order on what the parser returns and agrees with
  memberwise equality: exactly one of less, equal, greater; the reverse comparison mirrors it;
  less is transitive; and the result \<open>equal\<close> means the same version.
\<close>

theorem compare_version_strong_order:
  assumes "parsed_version u" "parsed_version v" "parsed_version w"
  shows "(compare_version u v = ord_equal \<longleftrightarrow> u = v) \<and>
         (compare_version u v = ord_less \<longleftrightarrow> compare_version v u = ord_greater) \<and>
         (version_less u v \<and> version_less v w \<longrightarrow> version_less u w) \<and>
         (compare_version u v = ord_less \<longleftrightarrow> version_key u < version_key v)"
  using version_key_inject [OF assms(1,2)]
  by (auto simp: compare_version_key compare_version_greater version_less_key)

theorem compare_version_strong_order_witness:
  "compare_version (release 3 3 0) kMinimumSupported = ord_less \<and>
   version_less (release 3 3 0) (release 3 4 0)"
proof -
  have p: "parsed_version (release 3 3 0)" "parsed_version kMinimumSupported"
      "parsed_version (release 3 4 0)"
    by (simp_all add: parsed_version_def release_def kMinimumSupported_def)
  have "version_less (release 3 3 0) kMinimumSupported" "version_less kMinimumSupported (release 3 4 0)"
    by (simp_all add: version_less_key version_key_def release_def kMinimumSupported_def less_prod_def)
  with compare_version_strong_order [OF p] show ?thesis by (simp add: version_less_def)
qed

text \<open>
  What the support floor accepts: of the versions a daemon or executable can report, exactly
  3.3a and the patch releases after it, and everything from 3.4 on, its development builds and
  candidates included; 3.3 itself and each of its candidates and development builds are refused.
\<close>

theorem is_supported_iff:
  assumes "parse_version s = Inr v"
  shows "is_supported v \<longleftrightarrow>
    3 < major v \<or> major v = 3 \<and> (3 < minor v \<or> minor v = 3 \<and> revision v \<noteq> 0)"
proof -
  have p: "parsed_version v" by (rule parse_version_parsed [OF assms])
  have "1 \<le> revision v \<longleftrightarrow> revision v \<noteq> 0" by (simp add: word_le_nat_alt Suc_le_eq unat_gt_0)
  then show ?thesis using p
    by (auto simp: is_supported_def version_ge_key version_key_def kMinimumSupported_def release_def
        candidate_rank_def parsed_version_def less_eq_prod_def order_le_less)
qed

theorem is_supported_iff_witness:
  "is_supported (release 3 3 1) \<and> \<not> is_supported ((release 3 3 0)\<lparr>candidate := 2\<rparr>)"
proof -
  have "parse_version ''tmux 3.3a'' = Inr (release 3 3 1)"
    "parse_version ''tmux 3.3-rc2'' = Inr ((release 3 3 0)\<lparr>candidate := 2\<rparr>)" by code_simp+
  from this [THEN is_supported_iff] show ?thesis by (simp add: release_def)
qed

end
