(* ===== verification/Version_Gate.thy ===== *)
theory Version_Gate
  imports Versions Commands
begin

text \<open>
  Which tmux answers at an endpoint, and the fence that keeps a command on the daemon that was
  asked (\<open>src/support_versions.cpp\<close>), with the process values it exchanges with the runner
  (\<open>src/process.hpp\<close>, \<open>src/transport_values.hpp\<close>; the POSIX members that this code sets).

  Running a process is what the operating system does with a request: it is a parameter, the
  \<open>launch\<close> of a \<open>Platform\<close>, whose answer may depend on everything launched before. The requests
  launched are kept in order, so that theorems can say what was run. \<open>std::random_device\<close> is a
  parameter likewise. Paths are strings with \<open>/\<close> as the separator, bytes are characters, so
  \<open>text_of\<close> is the identity.
\<close>

section \<open>Requests and replies\<close>

datatype StdioPolicy = stdio_capture | inherit_terminal

record Argument =
  argument_value :: string
  argument_sensitivity :: ArgumentSensitivity

definition public_argument :: "string \<Rightarrow> Argument" where
  "public_argument v = \<lparr>argument_value = v, argument_sensitivity = public_value\<rparr>"

definition default_capture_limit :: nat where
  "default_capture_limit = 1024 * 1024"

record ProcessRequest =
  executable :: string
  arguments :: "Argument list"
  environment :: "(string \<times> string option) list"
  time_limit :: "int option"
  capture_limit :: nat
  stdio :: StdioPolicy
  working_directory :: string

definition empty_request :: ProcessRequest where
  "empty_request = \<lparr>executable = [], arguments = [], environment = [], time_limit = None,
     capture_limit = default_capture_limit, stdio = stdio_capture, working_directory = []\<rparr>"

datatype Termination = Exited int | Signaled int

record ProcessReply =
  termination_of :: Termination
  stdout_bytes :: string
  stderr_bytes :: string
  output_truncated :: bool

record ProcessError =
  error_kind :: ProcessErrorKind
  error_started :: DeliveryStatus
  error_diagnostic :: string

definition contains_nul :: "string \<Rightarrow> bool" where
  "contains_nul s \<longleftrightarrow> str_find (CHR 0x00) s \<noteq> None"

definition process_request_is_valid :: "ProcessRequest \<Rightarrow> bool" where
  "process_request_is_valid r \<longleftrightarrow>
     executable r \<noteq> [] \<and> \<not> contains_nul (executable r) \<and> \<not> contains_nul (working_directory r)
     \<and> list_all (\<lambda>a. \<not> contains_nul (argument_value a)) (arguments r)
     \<and> list_all (\<lambda>(name, v). \<not> (name = [] \<or> str_find CHR ''='' name \<noteq> None \<or> contains_nul name
          \<or> (case v of Some w \<Rightarrow> contains_nul w | None \<Rightarrow> False))) (environment r)"

record Platform =
  launch :: "ProcessRequest list \<Rightarrow> ProcessRequest \<Rightarrow> (ProcessError, ProcessReply) expected"
  entropy :: "ProcessRequest list \<Rightarrow> 32 word list"

definition run_process :: "Platform \<Rightarrow> ProcessRequest list \<Rightarrow> ProcessRequest
    \<Rightarrow> ProcessRequest list \<times> (ProcessError, ProcessReply) expected" where
  "run_process os launched request = (launched @ [request], launch os launched request)"

section \<open>Reading what tmux prints\<close>

definition kUnknownCommand :: string where
  "kUnknownCommand = ''unknown command: ''"

definition kBeforeThreeTwo :: "string list" where
  "kBeforeThreeTwo =
     [''server version is too old for client'',
      ''usage: run-shell [-b] [-t target-pane] shell-command'',
      ''unknown option -- N'']"

definition kRemedy :: string where
  "kRemedy = ''Upgrade tmux and restart the server, or stay on the previous libtmux release.''"

definition is_blank :: "char \<Rightarrow> bool" where
  "is_blank c \<longleftrightarrow> c = CHR '' '' \<or> c = CHR 0x09"

definition trimmed :: "string \<Rightarrow> string" where
  "trimmed s = dropWhile is_blank
     (rev (dropWhile (\<lambda>c. c = CHR 0x0A \<or> c = CHR 0x0D \<or> is_blank c) (rev s)))"

definition strip_cr :: "string \<Rightarrow> string" where
  "strip_cr line = (if line \<noteq> [] \<and> last line = CHR 0x0D then butlast line else line)"

function for_each_line :: "string \<Rightarrow> (string \<Rightarrow> 's \<Rightarrow> 's) \<Rightarrow> 's \<Rightarrow> 's" where
  "for_each_line s visit st =
     (if s = [] then st
      else case str_find (CHR 0x0A) s of
        None \<Rightarrow> visit (strip_cr s) st
      | Some n \<Rightarrow> for_each_line (drop (n + 1) s) visit (visit (strip_cr (take n s)) st))"
  by pat_completeness auto
termination by (relation "measure (\<lambda>(s, _, _). length s)") auto

declare for_each_line.simps [simp del]

fun failure_kind :: "ProcessErrorKind \<Rightarrow> FailureKind" where
  "failure_kind pe_validation = validation"
| "failure_kind pe_spawn = spawn"
| "failure_kind pe_pre_exec = pre_exec"
| "failure_kind pe_pipe = pipe"
| "failure_kind pe_output_limit = pipe"
| "failure_kind pe_timeout = timeout"
| "failure_kind pe_cancelled = cancelled"

definition process_failure :: "ProcessError \<Rightarrow> CommandFailure" where
  "process_failure e = \<lparr>kind = failure_kind (error_kind e), delivery = not_started, exit_code = - 1,
     diagnostic = ''tmux did not report its version before dispatch: '' @ error_diagnostic e\<rparr>"

definition token_char :: "char \<Rightarrow> bool" where
  "token_char c \<longleftrightarrow> is_digit c \<or> 97 \<le> byte c \<and> byte c \<le> 122 \<or> 65 \<le> byte c \<and> byte c \<le> 90
     \<or> c = CHR ''.'' \<or> c = CHR ''-''"

definition plain_token :: "string \<Rightarrow> bool" where
  "plain_token token \<longleftrightarrow> token \<noteq> [] \<and> length token \<le> 64 \<and> list_all token_char token"

definition marker_nibbles :: "32 word \<Rightarrow> string" where
  "marker_nibbles w = map (\<lambda>n. ''0123456789abcdef'' ! unat (and (drop_bit (n * 4) w) 0xF)) [0..<8]"

definition version_marker :: "32 word list \<Rightarrow> string" where
  "version_marker words = ''libtmux-version-'' @ concat (map (\<lambda>i. marker_nibbles (words ! i)) [0..<4])"

definition answers_like_before_three_two :: "string \<Rightarrow> bool" where
  "answers_like_before_three_two s \<longleftrightarrow> list_ex (contains_sub s) kBeforeThreeTwo"

definition version_check_failure :: "FailureKind \<Rightarrow> string \<Rightarrow> CommandFailure" where
  "version_check_failure k d = \<lparr>kind = k, delivery = not_started, exit_code = 0, diagnostic = d\<rparr>"

definition before_three_two_failure :: CommandFailure where
  "before_three_two_failure = version_check_failure unsupported
     (''tmux older than 3.2 is not supported; libtmux requires tmux '' @ kMinimumSupportedText
      @ '' or newer. '' @ kRemedy)"

definition version_of_line :: "string \<Rightarrow> string \<Rightarrow> string" where
  "version_of_line prefix line =
     (let version = drop (length prefix) line in
      case sub_find '' (running: '' version of None \<Rightarrow> version | Some n \<Rightarrow> take n version)"

text \<open>The state of the loop in \<open>probe_report\<close> is its two locals, \<open>report\<close> and \<open>repeated\<close>.\<close>

fun probe_line :: "string \<Rightarrow> string \<Rightarrow> string option \<times> bool \<Rightarrow> string option \<times> bool" where
  "probe_line prefix line (report, repeated) =
     (if \<not> starts_with line prefix then (report, repeated)
      else (Some (version_of_line prefix line), repeated \<or> report \<noteq> None))"

definition probe_report :: "string \<Rightarrow> string \<Rightarrow> string option" where
  "probe_report s marker =
     (let (report, repeated) = for_each_line s (probe_line (kUnknownCommand @ marker)) (None, False)
      in if repeated then None else report)"

definition endpoint_is_absent :: "string \<Rightarrow> bool" where
  "endpoint_is_absent s \<longleftrightarrow> contains_sub s ''no server running''
     \<or> contains_sub s ''error connecting to''
       \<and> (contains_sub s ''No such file or directory'' \<or> contains_sub s ''Connection refused'')"

definition path_filename :: "string \<Rightarrow> string" where
  "path_filename p = rev (takeWhile (\<lambda>c. c \<noteq> CHR ''/'') (rev p))"

fun report_after :: "string \<Rightarrow> string list \<Rightarrow> string option" where
  "report_after output [] = None"
| "report_after output (prefix # prefixes) =
     (if length prefix > 1 \<and> starts_with output prefix then Some (trimmed (drop (length prefix) output))
      else report_after output prefixes)"

definition executable_report :: "string \<Rightarrow> string \<Rightarrow> string option" where
  "executable_report output binary =
     (let output = takeWhile (\<lambda>c. c \<noteq> CHR 0x0D \<and> c \<noteq> CHR 0x0A) output in
      report_after output [path_filename binary @ '' '', ''tmux ''])"

section \<open>The decision\<close>

record EndpointVersion =
  live :: bool
  version :: Version
  token :: string

definition whom :: "bool \<Rightarrow> string" where
  "whom is_live = (if is_live then ''the daemon'' else ''the executable'')"

definition read_report :: "string \<Rightarrow> bool \<Rightarrow> (CommandFailure, EndpointVersion) expected" where
  "read_report token' is_live =
     (let t = trimmed token'; parsed = parse_version (''tmux '' @ t) in
      if \<not> plain_token t \<or> \<not> has_value parsed
      then Inl (version_check_failure unsupported
        (''libtmux cannot read the tmux version '' @ [CHR 0x27] @ t @ [CHR 0x27] @ '' reported by ''
         @ whom is_live @ ''; libtmux requires tmux '' @ kMinimumSupportedText @ '' or newer. '' @ kRemedy))
      else Inr \<lparr>live = is_live, version = projr parsed, token = t\<rparr>)"

definition require_supported :: "EndpointVersion \<Rightarrow> Version \<Rightarrow> (CommandFailure, unit) expected" where
  "require_supported endpoint floor' =
     (if unbounded (version endpoint) then Inl (version_check_failure unsupported
        (''libtmux cannot order the tmux version '' @ [CHR 0x27] @ token endpoint @ [CHR 0x27] @ '' reported by ''
         @ whom (live endpoint) @ ''; an undated master build does not establish a release. '' @ kRemedy))
      else if version_less (version endpoint) floor' then Inl (version_check_failure unsupported
        (''libtmux requires tmux '' @ kMinimumSupportedText @ '' or newer; '' @ whom (live endpoint)
         @ '' reports '' @ [CHR 0x27] @ token endpoint @ [CHR 0x27] @ ''. '' @ kRemedy))
      else Inr ())"

definition probe_request :: "string \<Rightarrow> string list \<Rightarrow> int option \<Rightarrow> string \<Rightarrow> ProcessRequest" where
  "probe_request binary selectors timeout' marker = empty_request\<lparr>executable := binary,
     time_limit := timeout', capture_limit := 64 * 1024,
     arguments := map public_argument (selectors @ [''-N'', ''run-shell'', ''-C'', marker @ ''#{version}''])\<rparr>"

definition version_request :: "string \<Rightarrow> int option \<Rightarrow> ProcessRequest" where
  "version_request binary timeout' = empty_request\<lparr>executable := binary, time_limit := timeout',
     capture_limit := 64 * 1024, arguments := [public_argument ''-V'']\<rparr>"

definition query_executable :: "Platform \<Rightarrow> string \<Rightarrow> int option \<Rightarrow> ProcessRequest list
    \<Rightarrow> ProcessRequest list \<times> (CommandFailure, EndpointVersion) expected" where
  "query_executable os binary timeout' launched =
     (let (launched, printed) = run_process os launched (version_request binary timeout') in
      (launched, case printed of
         Inl e \<Rightarrow> Inl (process_failure e)
       | Inr reply \<Rightarrow>
           (case (if termination_of reply = Exited 0 then executable_report (stdout_bytes reply) binary else None) of
              None \<Rightarrow> Inl (version_check_failure unsupported
                (''libtmux cannot establish the tmux version from '' @ [CHR 0x27] @ binary @ '' -V''
                 @ [CHR 0x27] @ '' before dispatch''))
            | Some report \<Rightarrow> read_report report False)))"

definition query_endpoint :: "Platform \<Rightarrow> string \<Rightarrow> string list \<Rightarrow> int option \<Rightarrow> ProcessRequest list
    \<Rightarrow> ProcessRequest list \<times> (CommandFailure, EndpointVersion) expected" where
  "query_endpoint os binary selectors timeout' launched =
     (let marker = version_marker (entropy os launched) @ ''-'';
          (launched, reply) = run_process os launched (probe_request binary selectors timeout' marker) in
      case reply of
        Inl e \<Rightarrow> (launched, Inl (process_failure e))
      | Inr reply \<Rightarrow>
          let error_text = stderr_bytes reply;
              exited_one = (termination_of reply = Exited 1);
              report = probe_report error_text marker in
          if exited_one \<and> report \<noteq> None then (launched, read_report (the report) True)
          else if exited_one \<and> answers_like_before_three_two error_text
          then (launched, Inl before_three_two_failure)
          else if endpoint_is_absent error_text then query_executable os binary timeout' launched
          else let detail = trimmed error_text in
            (launched, Inl (version_check_failure refused
               (if detail = [] then ''tmux did not report a daemon version'' else detail))))"

definition version_fence :: "string \<Rightarrow> string \<Rightarrow> Argument list" where
  "version_fence token' marker = map public_argument
     [''if-shell'', ''-F'', ''#{==:#{version},'' @ token' @ ''}'', [], marker, '';'']"

definition fence_fired :: "string \<Rightarrow> string \<Rightarrow> bool" where
  "fence_fired stderr_text marker =
     for_each_line stderr_text (\<lambda>line fired. if line = kUnknownCommand @ marker then True else fired) False"

definition replaced_daemon :: CommandFailure where
  "replaced_daemon = version_check_failure unsupported
     (''the tmux daemon changed after libtmux checked its version; no command ran, so ''
      @ ''retrying checks the new daemon'')"

section \<open>Lines\<close>

definition unlines :: "string list \<Rightarrow> string" where
  "unlines ls = concat (map (\<lambda>l. l @ [CHR 0x0A]) ls)"

definition pieces :: "string list \<Rightarrow> string \<Rightarrow> string list" where
  "pieces ls rest = map strip_cr (ls @ (if rest = [] then [] else [rest]))"

lemma unlines_simps [simp]:
  "unlines [] = []" "unlines (l # ls) = l @ CHR 0x0A # unlines ls" "unlines (a @ b) = unlines a @ unlines b"
  by (simp_all add: unlines_def)

lemma for_each_line_pieces:
  assumes "\<forall>l \<in> set (rest # ls). CHR 0x0A \<notin> set l"
  shows "for_each_line (unlines ls @ rest) visit st = fold visit (pieces ls rest) st"
  using assms
proof (induction ls arbitrary: st)
  case Nil
  then show ?case by (cases "rest = []") (simp_all add: for_each_line.simps pieces_def str_find_None [THEN iffD2])
next
  case (Cons l ls)
  then have "str_find (CHR 0x0A) (l @ CHR 0x0A # unlines ls @ rest) = Some (length l)"
    by (simp add: str_find_append)
  then have "for_each_line (unlines (l # ls) @ rest) visit st = for_each_line (unlines ls @ rest) visit (visit (strip_cr l) st)"
    by (subst for_each_line.simps) simp
  with Cons show ?case by (simp add: pieces_def)
qed

lemma lines_exist: "\<exists>ls rest. s = unlines ls @ rest \<and> (\<forall>l \<in> set (rest # ls). CHR 0x0A \<notin> set l)"
proof (induction s)
  case (Cons c s)
  then obtain ls rest where s: "s = unlines ls @ rest" "\<forall>l \<in> set (rest # ls). CHR 0x0A \<notin> set l" by blast
  show ?case
  proof (cases "c = CHR 0x0A")
    case True
    with s show ?thesis by (intro exI [of _ "[] # ls"] exI [of _ rest]) auto
  next
    case False
    show ?thesis
    proof (cases ls)
      case Nil
      with False s show ?thesis by (intro exI [of _ "[]"] exI [of _ "c # rest"]) auto
    next
      case (Cons l ls')
      with False s show ?thesis by (intro exI [of _ "(c # l) # ls'"] exI [of _ rest]) auto
    qed
  qed
qed (auto intro: exI [of _ "[]"])

lemma probe_line_fold:
  "fold (probe_line prefix) ls (report, repeated) =
    (case rev (filter (\<lambda>l. starts_with l prefix) ls) of
       [] \<Rightarrow> (report, repeated)
     | l # others \<Rightarrow> (Some (version_of_line prefix l), repeated \<or> report \<noteq> None \<or> others \<noteq> []))"
proof (induction ls rule: rev_induct)
  case (snoc l ls)
  then show ?case
    by (cases "rev (filter (\<lambda>l. starts_with l prefix) ls)"; cases "starts_with l prefix") auto
qed simp

lemma fold_found: "fold (\<lambda>line fired. if line = w then True else fired) xs b \<longleftrightarrow> b \<or> w \<in> set xs"
  by (induction xs arbitrary: b) auto

lemma fence_fired_lines:
  assumes "\<forall>l \<in> set (rest # ls). CHR 0x0A \<notin> set l"
  shows "fence_fired (unlines ls @ rest) marker \<longleftrightarrow> kUnknownCommand @ marker \<in> set (pieces ls rest)"
  unfolding fence_fired_def for_each_line_pieces [OF assms] fold_found by simp

lemma probe_report_lines:
  assumes "\<forall>l \<in> set (rest # ls). CHR 0x0A \<notin> set l"
  shows "probe_report (unlines ls @ rest) marker =
    (case filter (\<lambda>l. starts_with l (kUnknownCommand @ marker)) (pieces ls rest) of
       [l] \<Rightarrow> Some (version_of_line (kUnknownCommand @ marker) l)
     | _ \<Rightarrow> None)"
  unfolding probe_report_def for_each_line_pieces [OF assms] probe_line_fold
  by (cases "filter (\<lambda>l. starts_with l (kUnknownCommand @ marker)) (pieces ls rest)" rule: rev_cases)
    (auto split: list.splits simp: Cons_eq_append_conv)

section \<open>Tokens\<close>

lemma dec_string_length: "n < 10 ^ k \<Longrightarrow> 0 < k \<Longrightarrow> length (dec_string n) \<le> k"
proof (induction n arbitrary: k rule: dec_string.induct)
  case (1 n)
  show ?case
  proof (cases "n < 10")
    case False
    then have k: "k \<noteq> Suc 0" using 1(2) by auto
    then obtain j where j: "k = Suc j" "0 < j" using 1(3) by (cases k) auto
    then have "n div 10 < 10 ^ j" using 1(2) by (simp add: less_mult_imp_div_less mult.commute)
    with 1(1) [OF False] j False show ?thesis by (subst dec_string.simps) auto
  qed (use 1 in \<open>subst dec_string.simps, simp\<close>)
qed

lemma word_text_length:
  "length (dec_string (unat (w :: 32 word))) \<le> 10" "length (dec_string (unat (c :: 16 word))) \<le> 5"
  using dec_string_length [of "unat w" 10] dec_string_length [of "unat c" 5]
    unsigned_less [of w, where ?'a = nat] u16_bound [of c] by simp_all

lemma dec_string_token: "list_all token_char (dec_string n)"
  using dec_string_digits [of n] by (auto simp: list_all_iff token_char_def)

lemma suffix_text_token: "list_all token_char (suffix_text v) \<and> length (suffix_text v) \<le> 11"
proof (cases "candidate v = 0 \<and> revision v \<noteq> 0 \<and> revision v \<le> 26")
  case True
  then have "unat (revision v) \<le> 26" "0 < unat (revision v)"
    by (simp_all add: word_le_nat_alt unat_gt_0)
  with True show ?thesis by (simp add: suffix_text_def token_char_def byte_def)
next
  case False
  then show ?thesis
    using word_text_length(1) [of "revision v"] word_text_length(2) [of "candidate v"] dec_string_token
    by (auto simp: suffix_text_def) (simp_all add: token_char_def byte_def)
qed

lemma version_text_plain: "plain_token (version_text v)"
proof -
  have "list_all token_char ''next-''" "token_char CHR ''.''" by (simp_all add: token_char_def byte_def)
  moreover have "length (version_text v) \<le> 5 + 10 + 1 + 10 + 11"
    using word_text_length(1) [of "major v"] word_text_length(1) [of "minor v"] suffix_text_token [of v]
    by (simp add: version_text_def)
  ultimately show ?thesis
    using dec_string_token suffix_text_token [of v] by (auto simp: plain_token_def version_text_def)
qed

lemma token_char_not:
  "token_char c \<Longrightarrow> c \<notin> {CHR '' '', CHR 0x09, CHR 0x0A, CHR 0x0D, CHR ''('', CHR ''#'', CHR '','', CHR ''{'', CHR ''}''}"
  by (auto simp: token_char_def is_digit_def byte_def)

lemma trimmed_plain: "plain_token t \<Longrightarrow> trimmed t = t"
proof -
  assume "plain_token t"
  then have "\<forall>c \<in> set t. \<not> is_blank c \<and> c \<noteq> CHR 0x0A \<and> c \<noteq> CHR 0x0D"
    using token_char_not by (fastforce simp: plain_token_def list_all_iff is_blank_def)
  then have "dropWhile (\<lambda>c. c = CHR 0x0A \<or> c = CHR 0x0D \<or> is_blank c) (rev t) = rev t"
      "dropWhile is_blank t = t"
    by (cases "rev t"; fastforce dest: arg_cong [where f = set])
       (cases t; simp_all add: \<open>\<forall>c \<in> set t. _ c\<close>)
  then show ?thesis by (simp add: trimmed_def)
qed

section \<open>The daemon's answer\<close>

lemma sub_find_past:
  assumes "p = c # p'" "c \<notin> set a" "starts_with b p"
  shows "sub_find p (a @ b) = Some (length a)"
  using assms by (induction a) (auto simp: starts_with_iff)

lemma sub_find_absent:
  assumes "p = c # p'" "c \<notin> set a"
  shows "sub_find p a = None"
  using assms by (induction a) (auto simp: starts_with_iff)

lemma strip_cr_append: "b \<noteq> [] \<or> a = [] \<or> last a \<noteq> CHR 0x0D \<Longrightarrow> strip_cr (a @ b) = a @ strip_cr b"
  by (auto simp: strip_cr_def butlast_append)

lemma strip_cr_running:
  assumes "starts_with s '' (running: ''"
  shows "starts_with (strip_cr s) '' (running: ''"
proof -
  obtain t where "s = '' (running: '' @ t" using assms by (auto simp: starts_with_iff)
  then have "strip_cr s = '' (running: '' @ strip_cr t" using strip_cr_append [of t "'' (running: ''"] by simp
  then show ?thesis by simp
qed

lemma strip_cr_no_newline: "CHR 0x0A \<notin> set l \<Longrightarrow> CHR 0x0A \<notin> set (strip_cr l)"
  by (auto simp: strip_cr_def dest: in_set_butlastD)

lemma version_of_answer:
  assumes "plain_token t" "origin = [] \<or> starts_with origin '' (running: ''"
  shows "version_of_line prefix (strip_cr (prefix @ t @ origin)) = t"
    and "starts_with (strip_cr (prefix @ t @ origin)) prefix"
proof -
  have sp: "CHR '' '' \<notin> set t" and cr: "last t \<noteq> CHR 0x0D" and ne: "t \<noteq> []"
    using assms(1) token_char_not last_in_set [of t] by (fastforce simp: plain_token_def list_all_iff)+
  have 1: "strip_cr (prefix @ t @ origin) = prefix @ t @ strip_cr origin"
    using strip_cr_append [of origin "prefix @ t"] cr ne by simp
  show "starts_with (strip_cr (prefix @ t @ origin)) prefix" by (simp add: 1)
  show "version_of_line prefix (strip_cr (prefix @ t @ origin)) = t"
  proof (cases "origin = []")
    case True
    moreover from this 1 have "strip_cr (prefix @ t) = prefix @ t" by (simp add: strip_cr_def [of "[]"])
    ultimately show ?thesis using sub_find_absent [OF refl sp] by (simp add: version_of_line_def)
  next
    case False
    then have "sub_find '' (running: '' (t @ strip_cr origin) = Some (length t)"
      using sub_find_past [OF refl sp] strip_cr_running assms(2) by blast
    then show ?thesis by (simp add: 1 version_of_line_def)
  qed
qed

lemma probe_report_answer:
  assumes "plain_token t" "origin = [] \<or> starts_with origin '' (running: ''"
    and nl: "\<forall>l \<in> set (origin # marker # before @ after). CHR 0x0A \<notin> set l"
    and others: "\<forall>l \<in> set (before @ after). \<not> starts_with (strip_cr l) (kUnknownCommand @ marker)"
  shows "probe_report (unlines (before @ (kUnknownCommand @ marker @ t @ origin) # after)) marker = Some t"
proof -
  let ?p = "kUnknownCommand @ marker"
  have "CHR 0x0A \<notin> set t" using assms(1) token_char_not by (fastforce simp: plain_token_def list_all_iff)
  then have "\<forall>l \<in> set ([] # before @ (?p @ t @ origin) # after). CHR 0x0A \<notin> set l"
    using nl by (auto simp: kUnknownCommand_def)
  from probe_report_lines [OF this, of marker] show ?thesis
    using version_of_answer [OF assms(1,2), of ?p] others
    by (simp add: pieces_def filter_empty_conv)
qed

lemma nibbles_no_newline: "CHR 0x0A \<notin> set (marker_nibbles w)"
proof -
  have "unat (and x (0xF :: 32 word)) < 16" for x
  proof -
    have "and x (0xF :: 32 word) = take_bit 4 x" by (simp add: take_bit_eq_mask mask_eq_exp_minus_1)
    then have "unat (and x (0xF :: 32 word)) = take_bit 4 (unat x)"
      by (simp only: unsigned_take_bit_eq)
    then have "unat (and x (0xF :: 32 word)) = unat x mod 2 ^ 4" by (simp only: take_bit_eq_mod)
    then show ?thesis by simp
  qed
  then have "''0123456789abcdef'' ! unat (and x (0xF :: 32 word)) \<in> set ''0123456789abcdef''" for x
    by (intro nth_mem) (simp add: eval_nat_numeral)
  then have "set (marker_nibbles w) \<subseteq> set ''0123456789abcdef''" unfolding marker_nibbles_def set_map by (rule image_subsetI)
  then show ?thesis by auto
qed

lemma marker_no_newline: "CHR 0x0A \<notin> set (version_marker words)"
  using nibbles_no_newline by (auto simp: version_marker_def)

lemma read_report_text: "parsed_version v \<Longrightarrow>
    read_report (version_text v) l = Inr \<lparr>live = l, version = v, token = version_text v\<rparr>"
  using version_text_plain [of v] parse_version_text [of v]
  by (simp add: read_report_def trimmed_plain Let_def del: append.simps)

text \<open>What every answer of the version check satisfies.\<close>

definition established :: "(CommandFailure, EndpointVersion) expected \<Rightarrow> bool" where
  "established result \<longleftrightarrow> (case result of
     Inl f \<Rightarrow> delivery f = not_started
   | Inr e \<Rightarrow> plain_token (token e) \<and> parse_version (''tmux '' @ token e) = Inr (version e))"

lemma established_failure [simp]:
  "established (Inl (version_check_failure k d))" "established (Inl (process_failure e))"
  "established (Inl before_three_two_failure)"
  by (simp_all add: established_def version_check_failure_def process_failure_def before_three_two_failure_def)

lemma established_read [simp]: "established (read_report s l)"
  by (cases "parse_version (''tmux '' @ trimmed s)") (auto simp: read_report_def Let_def established_def version_check_failure_def)

lemma query_launches:
  assumes "query_endpoint os binary selectors limit h = (h', result)"
  shows "\<exists>m. h' = h @ [probe_request binary selectors limit m]
    \<or> h' = h @ [probe_request binary selectors limit m, version_request binary limit]"
  using assms by (auto simp: query_endpoint_def query_executable_def run_process_def Let_def
      split: sum.splits if_splits option.splits)

lemma query_endpoint_established: "established (snd (query_endpoint os binary selectors limit h))"
  by (simp add: query_endpoint_def query_executable_def run_process_def Let_def split: sum.split option.split)

section \<open>Properties\<close>

text \<open>
  The version a daemon reports is the version the library decides with: when the probe fails with the
  line that names its random marker and the daemon's version, the endpoint is reported live with
  exactly that version and its text as the token, whatever else is on stderr, with or without carriage
  returns, and whether or not tmux says where the command came from. Nothing but the probe was run.
\<close>

theorem query_endpoint_reads:
  fixes os :: Platform
  assumes v: "parsed_version v" and m: "m = version_marker (entropy os h) @ ''-''"
    and reply: "launch os h (probe_request binary selectors limit m) = Inr r" "termination_of r = Exited 1"
    and err: "stderr_bytes r = unlines (before @ (kUnknownCommand @ m @ version_text v @ origin) # after)"
    and origin: "origin = [] \<or> starts_with origin '' (running: ''"
    and others: "\<forall>l \<in> set (before @ after). \<not> starts_with (strip_cr l) (kUnknownCommand @ m)"
    and nl: "\<forall>l \<in> set (origin # before @ after). CHR 0x0A \<notin> set l"
  shows "query_endpoint os binary selectors limit h =
    (h @ [probe_request binary selectors limit m], Inr \<lparr>live = True, version = v, token = version_text v\<rparr>)"
proof -
  have "CHR 0x0A \<notin> set m" using marker_no_newline by (simp add: m)
  then have "probe_report (stderr_bytes r) m = Some (version_text v)"
    unfolding err using nl by (intro probe_report_answer [OF version_text_plain origin _ others]) auto
  then show ?thesis
    using reply read_report_text [OF v] by (simp add: query_endpoint_def run_process_def m [symmetric] Let_def)
qed

theorem query_endpoint_reads_witness:
  "let os = \<lparr>launch = (\<lambda>h r. Inr \<lparr>termination_of = Exited 1, stdout_bytes = [],
        stderr_bytes = unlines ([''warning''] @ (kUnknownCommand @ (version_marker [1, 2, 3, 4] @ ''-'') @ version_text (release 3 5 1) @ '' (running: x)'') # []),
        output_truncated = False\<rparr>), entropy = (\<lambda>h. [1, 2, 3, 4])\<rparr> in
   snd (query_endpoint os ''/bin/tmux'' [] None []) = Inr \<lparr>live = True, version = release 3 5 1, token = ''3.5a''\<rparr>"
proof -
  have "version_text (release 3 5 1) = ''3.5a''" by code_simp
  moreover have "parsed_version (release 3 5 1)" by (simp add: parsed_version_def release_def)
  moreover obtain r where "r = \<lparr>termination_of = Exited 1, stdout_bytes = [],
        stderr_bytes = unlines ([''warning''] @ (kUnknownCommand @ (version_marker [1, 2, 3, 4] @ ''-'') @ version_text (release 3 5 1) @ '' (running: x)'') # []),
        output_truncated = False\<rparr>" by simp
  ultimately show ?thesis
    using query_endpoint_reads [of "release 3 5 1" "version_marker [1, 2, 3, 4] @ ''-''" "\<lparr>launch = \<lambda>h q. Inr r, entropy = \<lambda>h. [1, 2, 3, 4]\<rparr>" "[]"
        "''/bin/tmux''" "[]" None r "[''warning'']" "'' (running: x)''" "[]"]
    by (simp add: kUnknownCommand_def strip_cr_def)
qed

text \<open>
  The gate is closed unless a version was established, and looking is harmless. Whatever the
  processes answer: at most two are run, the probe (which may not start a server) and, only when the
  endpoint was absent, \<open>-V\<close> of the executable; every failure says that nothing was started; and a
  version is returned only for a plain token that the parser reads as that version, so that the token
  put into the fence's format string holds no \<open>#\<close>, brace or comma.
\<close>

theorem query_endpoint_gate:
  assumes "query_endpoint os binary selectors limit h = (h', result)"
  shows "(\<exists>m. h' = h @ [probe_request binary selectors limit m]
        \<or> h' = h @ [probe_request binary selectors limit m, version_request binary limit])
    \<and> (case result of
         Inl f \<Rightarrow> delivery f = not_started
       | Inr e \<Rightarrow> plain_token (token e) \<and> parse_version (''tmux '' @ token e) = Inr (version e)
           \<and> (\<forall>c \<in> set (token e). c \<notin> {CHR ''#'', CHR ''{'', CHR ''}'', CHR '',''})
           \<and> (require_supported e kMinimumSupported = Inr () \<longleftrightarrow> is_supported (version e)))"
proof -
  have gate: "established result"
    using query_endpoint_established [of os binary selectors limit h] assms by simp
  have "require_supported e kMinimumSupported = Inr () \<longleftrightarrow> is_supported (version e)"
    if "parse_version s = Inr (version e)" for e s
    using parse_version_parsed [OF that]
    by (simp add: require_supported_def parsed_version_def is_supported_def version_ge_def version_less_def)
  moreover note query_launches [OF assms]
  ultimately show ?thesis
    using gate token_char_not by (fastforce simp: established_def plain_token_def list_all_iff split: sum.splits)
qed

theorem query_endpoint_gate_witness:
  "let os = \<lparr>launch = (\<lambda>h r. if h = [] then Inr \<lparr>termination_of = Exited 1, stdout_bytes = [],
        stderr_bytes = ''no server running on /tmp/t'', output_truncated = False\<rparr>
        else Inr \<lparr>termination_of = Exited 0, stdout_bytes = ''tmux 3.5a'', stderr_bytes = [], output_truncated = False\<rparr>),
        entropy = (\<lambda>h. [1, 2, 3, 4])\<rparr> in
   case snd (query_endpoint os ''/bin/tmux'' [] None []) of Inl f \<Rightarrow> False
   | Inr e \<Rightarrow> token e = ''3.5a'' \<and> \<not> live e \<and> require_supported e kMinimumSupported = Inr ()"
proof -
  let ?os = "\<lparr>launch = (\<lambda>h r. if h = [] then Inr \<lparr>termination_of = Exited 1, stdout_bytes = [],
        stderr_bytes = ''no server running on /tmp/t'', output_truncated = False\<rparr>
        else Inr \<lparr>termination_of = Exited 0, stdout_bytes = ''tmux 3.5a'', stderr_bytes = [], output_truncated = False\<rparr>),
        entropy = (\<lambda>h. [1, 2, 3, 4])\<rparr>"
  have "probe_report ''no server running on /tmp/t'' (version_marker [1, 2, 3, 4] @ ''-'') = None"
    "endpoint_is_absent ''no server running on /tmp/t''" "\<not> answers_like_before_three_two ''no server running on /tmp/t''"
    "executable_report ''tmux 3.5a'' ''/bin/tmux'' = Some ''3.5a''"
    "read_report ''3.5a'' False = Inr \<lparr>live = False, version = release 3 5 1, token = ''3.5a''\<rparr>"
    "is_supported (release 3 5 1)"
    by code_simp+
  then have "query_endpoint ?os ''/bin/tmux'' [] None [] =
      ([probe_request ''/bin/tmux'' [] None (version_marker [1, 2, 3, 4] @ ''-''), version_request ''/bin/tmux'' None],
       Inr \<lparr>live = False, version = release 3 5 1, token = ''3.5a''\<rparr>)"
    by (simp add: query_endpoint_def query_executable_def run_process_def Let_def)
  from this query_endpoint_gate [OF this] \<open>is_supported (release 3 5 1)\<close> show ?thesis by (simp add: Let_def)
qed

end
