(* ===== verification/Sockets.thy ===== *)
theory Sockets
  imports Prelude
begin

text \<open>
  Selecting a server and keeping hold of the one that was selected: \<open>include/libtmux/socket.hpp\<close>
  (selectors) and \<open>src/socket_identity.cpp\<close> (resolution of a selector to a socket, the private hard
  link that pins its inode, and the identity two handles are compared by).

  The file system, the environment and the user id are what a \<open>Files\<close> value answers: the result
  of \<open>canonical\<close>, \<open>weakly_canonical\<close>, \<open>mkdtemp\<close>, \<open>link\<close> and \<open>lstat\<close> on the paths asked for, at
  one moment. The removal of the private directory when the last owner of an alias goes away is not
  modelled; an alias is its path. Paths are POSIX: \<open>/\<close> is \<open>path_join\<close>.
\<close>

section \<open>Selectors\<close>

definition kSocketPathLimit :: nat where
  "kSocketPathLimit = 107"

datatype SocketError = se_empty | name_has_separator | path_too_long | path_unsupported

definition socket_name_arguments :: "string \<Rightarrow> (SocketError, string list) expected" where
  "socket_name_arguments name =
     (if name = [] then Inl se_empty
      else if str_find CHR ''/'' name \<noteq> None then Inl name_has_separator
      else Inr [''-L'', name])"

definition socket_path_arguments :: "string \<Rightarrow> (SocketError, string list) expected" where
  "socket_path_arguments path =
     (if path = [] then Inl se_empty
      else if length path > kSocketPathLimit then Inl path_too_long
      else Inr [''-S'', path])"

datatype SocketSource = source_none | path_variable | name_variable

record EnvironmentSocket =
  source :: SocketSource
  source_value :: string

fun source_arguments :: "EnvironmentSocket \<Rightarrow> (SocketError, string list) expected" where
  "source_arguments e = (case source e of
     path_variable \<Rightarrow> socket_path_arguments (source_value e)
   | name_variable \<Rightarrow> socket_name_arguments (source_value e)
   | source_none \<Rightarrow> Inr [])"

section \<open>The file system\<close>

datatype LinkResult = link_ok | link_enoent | link_enotdir | link_exdev | link_error string

record Stat =
  is_sock :: bool
  st_dev :: nat
  st_ino :: nat

record Files =
  env_tmux :: "string option"
  env_tmpdir :: "string option"
  canonical :: "string \<Rightarrow> string option"
  weakly_canonical :: "string \<Rightarrow> string option"
  user_id :: nat
  mkdtemp :: "string \<Rightarrow> (string, string) expected"
  link :: "string \<Rightarrow> string \<Rightarrow> LinkResult"
  lstat :: "string \<Rightarrow> (string, Stat) expected"

definition path_join :: "string \<Rightarrow> string \<Rightarrow> string" where
  "path_join p q =
     (if q \<noteq> [] \<and> hd q = CHR ''/'' then q
      else if p = [] \<or> last p = CHR ''/'' then p @ q else p @ ''/'' @ q)"

definition parent_path :: "string \<Rightarrow> string" where
  "parent_path p =
     (let stem = rev (dropWhile (\<lambda>c. c \<noteq> CHR ''/'') (rev p));
          trimmed' = rev (dropWhile (\<lambda>c. c = CHR ''/'') (rev stem)) in
      if stem \<noteq> [] \<and> trimmed' = [] then ''/'' else trimmed')"

section \<open>Resolution\<close>

definition socket_directory :: "Files \<Rightarrow> string option" where
  "socket_directory fs =
     (case (case env_tmpdir fs of
              Some configured \<Rightarrow> if configured \<noteq> [] then canonical fs configured else None
            | None \<Rightarrow> None) of
        Some resolved \<Rightarrow> Some resolved
      | None \<Rightarrow> canonical fs ''/tmp'')"

definition inherited_tmux_socket :: "Files \<Rightarrow> string option" where
  "inherited_tmux_socket fs =
     (case env_tmux fs of
        None \<Rightarrow> None
      | Some inherited \<Rightarrow>
          if inherited = [] \<or> hd inherited = CHR '','' then None
          else Some (takeWhile (\<lambda>c. c \<noteq> CHR '','') inherited))"

definition resolve_verbatim :: "Files \<Rightarrow> string \<Rightarrow> string" where
  "resolve_verbatim fs path = (case weakly_canonical fs path of None \<Rightarrow> path | Some r \<Rightarrow> r)"

definition resolved_socket_path :: "Files \<Rightarrow> string list \<Rightarrow> string option" where
  "resolved_socket_path fs selector =
     (let pair = (length selector = 2);
          inherited = (if selector = [] then inherited_tmux_socket fs else None) in
      if pair \<and> hd selector = ''-S'' \<or> inherited \<noteq> None
      then Some (resolve_verbatim fs (case inherited of Some p \<Rightarrow> p | None \<Rightarrow> last selector))
      else if selector \<noteq> [] \<and> \<not> (pair \<and> hd selector = ''-L'') then None
      else let label = (if pair then last selector else ''default'') in
        (case socket_directory fs of
           None \<Rightarrow> None
         | Some directory \<Rightarrow>
             Some (path_join (path_join directory (''tmux-'' @ dec_string (user_id fs))) label)))"

section \<open>Pinning\<close>

datatype PinAttempt =
  pinned Stat string
| pin_missing string
| retry_elsewhere string
| pin_failed string

definition pin_under :: "Files \<Rightarrow> string \<Rightarrow> string \<Rightarrow> PinAttempt" where
  "pin_under fs root socket =
     (let directory_text = path_join root ''.libtmux-XXXXXX'' in
      if length directory_text + 2 > kSocketPathLimit
      then retry_elsewhere ''the pinned tmux socket path does not fit a unix domain address''
      else case mkdtemp fs directory_text of
        Inl e \<Rightarrow> retry_elsewhere (''could not create a private tmux socket alias directory: '' @ e)
      | Inr directory \<Rightarrow>
          let alias = directory @ ''/s'' in
          (case link fs socket alias of
             link_enoent \<Rightarrow> pin_missing alias
           | link_enotdir \<Rightarrow> pin_missing alias
           | link_exdev \<Rightarrow> retry_elsewhere ''the private tmux socket alias is on another filesystem''
           | link_error e \<Rightarrow> pin_failed (''could not pin the tmux socket: '' @ e)
           | link_ok \<Rightarrow>
               (case lstat fs alias of
                  Inl e \<Rightarrow> pin_failed (''could not inspect the pinned tmux socket: '' @ e)
                | Inr metadata \<Rightarrow>
                    if \<not> is_sock metadata
                    then pin_failed ''the resolved tmux endpoint is not a unix socket''
                    else pinned metadata alias)))"

definition inode_identity :: "Stat \<Rightarrow> string" where
  "inode_identity m = ''unix:'' @ dec_string (st_dev m) @ '':'' @ dec_string (st_ino m)"

record SocketEndpoint =
  ep_connection :: "string list"
  ep_socket_path :: string
  ep_identity :: string
  ep_alias :: "string option"
  ep_missing :: bool

definition bind_socket_endpoint :: "Files \<Rightarrow> string list \<Rightarrow> (string, SocketEndpoint) expected" where
  "bind_socket_endpoint fs selector =
     (case resolved_socket_path fs selector of
        None \<Rightarrow> Inr \<lparr>ep_connection = selector, ep_socket_path = [], ep_identity = [], ep_alias = None,
                   ep_missing = False\<rparr>
      | Some socket \<Rightarrow>
          let pin = pin_under fs ''/tmp'' socket;
              pin = (case pin of retry_elsewhere _ \<Rightarrow> pin_under fs (parent_path socket) socket | _ \<Rightarrow> pin) in
          (case pin of
             pin_missing alias \<Rightarrow> Inr \<lparr>ep_connection = [''-S'', alias], ep_socket_path = alias,
                 ep_identity = ''missing:'' @ alias, ep_alias = Some alias, ep_missing = True\<rparr>
           | pinned metadata alias \<Rightarrow> Inr \<lparr>ep_connection = [''-S'', alias], ep_socket_path = alias,
                 ep_identity = inode_identity metadata, ep_alias = Some alias, ep_missing = False\<rparr>
           | retry_elsewhere d \<Rightarrow> Inl (if d = [] then ''could not pin the tmux socket'' else d)
           | pin_failed d \<Rightarrow> Inl (if d = [] then ''could not pin the tmux socket'' else d)))"

section \<open>What an identity says\<close>

text \<open>The ways a selector can be bound: to nothing, to a name that does not exist yet, to an inode.\<close>

lemma inode_identity_inject:
  "inode_identity a = inode_identity b \<longleftrightarrow> st_dev a = st_dev b \<and> st_ino a = st_ino b"
proof
  assume "inode_identity a = inode_identity b"
  then have eq: "dec_string (st_dev a) @ '':'' @ dec_string (st_ino a) = dec_string (st_dev b) @ '':'' @ dec_string (st_ino b)"
    by (simp add: inode_identity_def)
  have colon: "CHR '':'' \<notin> set (dec_string n)" for n by (simp add: is_digit_def byte_def)
  have "takeWhile (\<lambda>c. c \<noteq> CHR '':'') (dec_string n @ '':'' @ s) = dec_string n" for n s
    using colon [of n] by (subst takeWhile_append2) auto
  then have dev: "dec_string (st_dev a) = dec_string (st_dev b)" using eq by metis
  with eq have "dec_string (st_ino a) = dec_string (st_ino b)" by simp
  with dev show "st_dev a = st_dev b \<and> st_ino a = st_ino b" using dec_value_dec_string by metis
qed (simp add: inode_identity_def)

lemma path_join_component:
  "last p \<noteq> CHR ''/'' \<Longrightarrow> p \<noteq> [] \<Longrightarrow> q \<noteq> [] \<Longrightarrow> hd q \<noteq> CHR ''/'' \<Longrightarrow> path_join p q = p @ ''/'' @ q"
  by (simp add: path_join_def)

lemma parent_path_component:
  assumes "last p \<noteq> CHR ''/''" "p \<noteq> []" "CHR ''/'' \<notin> set q"
  shows "parent_path (p @ ''/'' @ q) = p"
proof -
  obtain r c where p: "p = r @ [c]" "c \<noteq> CHR ''/''" using assms(1,2) by (cases p rule: rev_cases) auto
  have "dropWhile (\<lambda>c. c \<noteq> CHR ''/'') (rev (p @ ''/'' @ q)) = CHR ''/'' # rev p"
    using assms(3) by (simp add: dropWhile_append3 dropWhile_append)
  then have "rev (dropWhile (\<lambda>c. c \<noteq> CHR ''/'') (rev (p @ ''/'' @ q))) = p @ ''/''" by simp
  then show ?thesis using p by (simp only: parent_path_def Let_def) simp
qed

lemma resolved_path_selector [simp]: "resolved_socket_path fs [''-S'', p] = Some (resolve_verbatim fs p)"
  by (simp add: resolved_socket_path_def)

lemma bind_cases:
  assumes "bind_socket_endpoint fs selector = Inr e"
  obtains (unresolved) "resolved_socket_path fs selector = None" "ep_identity e = []" "ep_connection e = selector" "\<not> ep_missing e"
  | (absent) path where "ep_missing e" "ep_identity e = ''missing:'' @ path" "ep_connection e = [''-S'', path]"
  | (inode) m path socket where "resolved_socket_path fs selector = Some socket" "\<not> ep_missing e"
      "ep_identity e = inode_identity m" "ep_connection e = [''-S'', path]" "link fs socket path = link_ok"
      "lstat fs path = Inr m" "is_sock m"
  using assms
  by (auto simp: bind_socket_endpoint_def pin_under_def Let_def split: option.splits PinAttempt.splits
      LinkResult.splits sum.splits if_splits)

lemma resolve_slash_free [simp]:
  "socket_name_arguments name = Inr args \<longleftrightarrow> name \<noteq> [] \<and> CHR ''/'' \<notin> set name \<and> args = [''-L'', name]"
  by (auto simp: socket_name_arguments_def str_find_None)

text \<open>
  Two handles are taken for the same server exactly when they hold the same socket: the identities of
  two live endpoints are equal iff the pinned links have the same device and inode, however the sockets
  were spelled; an unresolvable selector has no identity and a socket that does not exist never has
  the identity of a live one; and an identity is only given to something that was linked and is a
  socket.
\<close>

theorem endpoint_identity:
  assumes "bind_socket_endpoint fs s = Inr e" "bind_socket_endpoint fs' s' = Inr e'" "ep_identity e \<noteq> []"
  shows "ep_identity e = ep_identity e' \<longleftrightarrow>
      (if ep_missing e \<or> ep_missing e' then ep_missing e \<and> ep_missing e' \<and> ep_connection e = ep_connection e'
       else \<exists>p p' m m'. ep_connection e = [''-S'', p] \<and> ep_connection e' = [''-S'', p']
         \<and> lstat fs p = Inr m \<and> lstat fs' p' = Inr m' \<and> is_sock m \<and> is_sock m'
         \<and> st_dev m = st_dev m' \<and> st_ino m = st_ino m')"
  using assms(3)
  by (cases rule: bind_cases [OF assms(1)]; cases rule: bind_cases [OF assms(2)])
    (auto simp: inode_identity_inject, auto simp: inode_identity_def)

theorem endpoint_identity_witness:
  "let fs = (\<lambda>n. \<lparr>env_tmux = None, env_tmpdir = None, canonical = Some, weakly_canonical = Some, user_id = 0,
       mkdtemp = (\<lambda>t. Inr t), link = (\<lambda>s a. link_ok), lstat = (\<lambda>p. Inr \<lparr>is_sock = True, st_dev = 1, st_ino = n\<rparr>)\<rparr>)
   in ep_identity (projr (bind_socket_endpoint (fs 7) [])) = ep_identity (projr (bind_socket_endpoint (fs 7) [''-S'', ''/run/t'']))
     \<and> ep_identity (projr (bind_socket_endpoint (fs 7) [])) \<noteq> ep_identity (projr (bind_socket_endpoint (fs 8) []))"
proof -
  let ?fs = "\<lambda>n. \<lparr>env_tmux = None, env_tmpdir = None, canonical = Some, weakly_canonical = Some, user_id = 0,
       mkdtemp = (\<lambda>t. Inr t), link = (\<lambda>s a. link_ok), lstat = (\<lambda>p. Inr \<lparr>is_sock = True, st_dev = 1, st_ino = n\<rparr>)\<rparr>"
  have b: "bind_socket_endpoint (?fs n) s = Inr \<lparr>ep_connection = [''-S'', ''/tmp/.libtmux-XXXXXX/s''],
       ep_socket_path = ''/tmp/.libtmux-XXXXXX/s'', ep_identity = inode_identity \<lparr>is_sock = True, st_dev = 1, st_ino = n\<rparr>,
       ep_alias = Some ''/tmp/.libtmux-XXXXXX/s'', ep_missing = False\<rparr>" if "s = [] \<or> s = [''-S'', ''/run/t'']" for n s
    using that by (auto simp: bind_socket_endpoint_def resolved_socket_path_def inherited_tmux_socket_def
        socket_directory_def pin_under_def path_join_def kSocketPathLimit_def resolve_verbatim_def Let_def)
  show ?thesis
    using endpoint_identity [OF b [of "[]" 7] b [of "[''-S'', ''/run/t'']" 7]]
      endpoint_identity [OF b [of "[]" 7] b [of "[]" 8]]
    by (simp add: b Let_def inode_identity_def del: One_nat_def)
qed

text \<open>
  A selector given by name can only reach a socket inside the user's own tmux directory: a name the
  selector accepts resolves, whatever its bytes, to one component directly under
  \<open>tmux-<uid>\<close> of the socket directory.
\<close>

theorem socket_name_confined:
  assumes "socket_name_arguments name = Inr args" "resolved_socket_path fs args = Some path"
  shows "\<exists>directory. socket_directory fs = Some directory
    \<and> path = path_join directory (''tmux-'' @ dec_string (user_id fs)) @ ''/'' @ name
    \<and> parent_path path = path_join directory (''tmux-'' @ dec_string (user_id fs))"
proof -
  have name: "name \<noteq> []" "CHR ''/'' \<notin> set name" "args = [''-L'', name]" using assms(1) by simp_all
  have sl: "CHR ''/'' \<notin> set (dec_string n)" for n by (simp add: is_digit_def byte_def)
  obtain d where d: "socket_directory fs = Some d"
      "path = path_join (path_join d (''tmux-'' @ dec_string (user_id fs))) name"
    using assms(2) name by (auto simp: resolved_socket_path_def split: option.splits)
  have lastc: "last (dec_string (user_id fs)) \<noteq> CHR ''/''"
    using sl [of "user_id fs"] last_in_set [OF dec_string_nonempty [of "user_id fs"]] by metis
  let ?base = "path_join d (''tmux-'' @ dec_string (user_id fs))"
  have base: "last ?base \<noteq> CHR ''/''" "?base \<noteq> []"
    using lastc by (auto simp: path_join_def)
  have hd: "hd name \<noteq> CHR ''/''" using name hd_in_set by metis
  have p: "path = ?base @ ''/'' @ name" unfolding d(2) using base name(1) hd by (intro path_join_component)
  moreover have "parent_path (?base @ ''/'' @ name) = ?base"
    using base name(2) by (intro parent_path_component)
  ultimately show ?thesis using d(1) by metis
qed

theorem socket_name_confined_witness:
  "let fs = \<lparr>env_tmux = None, env_tmpdir = Some ''/run'', canonical = Some, weakly_canonical = Some, user_id = 5,
       mkdtemp = (\<lambda>t. Inr t), link = (\<lambda>s a. link_ok), lstat = (\<lambda>p. Inl ''no'')\<rparr> in
   parent_path (the (resolved_socket_path fs [''-L'', ''..'' ])) = path_join ''/run'' ''tmux-5''"
proof -
  let ?fs = "\<lparr>env_tmux = None, env_tmpdir = Some ''/run'', canonical = Some, weakly_canonical = Some, user_id = 5,
       mkdtemp = (\<lambda>t. Inr t), link = (\<lambda>s a. link_ok), lstat = (\<lambda>p. Inl ''no'')\<rparr>"
  have "socket_directory ?fs = Some ''/run''" by (simp add: socket_directory_def)
  moreover have "resolved_socket_path ?fs [''-L'', ''..''] = Some (the (resolved_socket_path ?fs [''-L'', ''..'']))"
    by (simp add: resolved_socket_path_def socket_directory_def)
  moreover have "dec_string 5 = ''5''" by code_simp
  ultimately show ?thesis
    using socket_name_confined [of "''..''" "[''-L'', ''..'']" ?fs] by (auto simp: Let_def)
qed

end
