(* ===== verification/Capabilities.thy ===== *)
theory Capabilities
  imports Versions
begin

text \<open>
  What a tmux release can do and which releases have a known defect
  (\<open>src/support_capabilities.cpp\<close>), the manifest written from those tables by a streaming writer,
  and the local promises of a server (\<open>include/libtmux/capabilities.hpp\<close>).

  The writer is a record with the class's three members; it is shown to print the same bytes as a
  recursive pretty printer of a JSON tree.
\<close>

section \<open>The registry\<close>

datatype Handling = handle_refuse | handle_fallback | handle_repair

record Release =
  rel_version :: Version
  rel_text :: string

record CommandUse =
  use_command :: string
  use_flags :: "string list"

datatype CapabilityId = control_mode | buffer_delete_named | layout_mirrored_main | layout_json | clipboard_query

datatype WorkaroundId = break_pane_misnames_windows | name_separators_rejected

record Capability =
  cap_key :: CapabilityId
  cap_id :: string
  cap_name :: string
  cap_summary :: string
  cap_since :: Release
  cap_handling :: Handling
  cap_error :: string
  cap_apis :: "string list"
  cap_commands :: "CommandUse list"

record Workaround =
  wk_key :: WorkaroundId
  wk_id :: string
  wk_name :: string
  wk_summary :: string
  wk_releases :: "Release list"
  wk_handling :: Handling
  wk_apis :: "string list"
  wk_commands :: "CommandUse list"

definition kSchema :: string where "kSchema = ''libtmux-capabilities/1''"
definition kPort :: string where "kPort = ''cxx''"
definition kProtocolError :: string where "kProtocolError = ''libtmux::ProtocolError''"
definition kCommandFailure :: string where "kCommandFailure = ''libtmux::CommandFailure''"

definition kTmux34 :: Release where "kTmux34 = \<lparr>rel_version = release 3 4 0, rel_text = ''3.4''\<rparr>"
definition kTmux35 :: Release where "kTmux35 = \<lparr>rel_version = release 3 5 0, rel_text = ''3.5''\<rparr>"
definition kTmux36a :: Release where "kTmux36a = \<lparr>rel_version = release 3 6 1, rel_text = ''3.6a''\<rparr>"
definition kTmux37 :: Release where "kTmux37 = \<lparr>rel_version = release 3 7 0, rel_text = ''3.7''\<rparr>"
definition kTmux38 :: Release where "kTmux38 = \<lparr>rel_version = release 3 8 0, rel_text = ''3.8''\<rparr>"

definition kLayoutApis :: "string list" where
  "kLayoutApis = [''libtmux::Server::validate_layouts'', ''libtmux::Window::select_layout'']"

definition kLayoutCommands :: "CommandUse list" where
  "kLayoutCommands = [\<lparr>use_command = ''select-layout'', use_flags = []\<rparr>]"

definition kCapabilities :: "Capability list" where
  "kCapabilities = [
     \<lparr>cap_key = control_mode, cap_id = ''control-mode'', cap_name = ''Control mode'',
      cap_summary = ''Attach a library-managed control client and stream events.'',
      cap_since = kTmux37, cap_handling = handle_refuse, cap_error = kProtocolError,
      cap_apis = [''libtmux::Connection::connect'', ''libtmux::Server::control'',
        ''libtmux::Server::control_with_options'', ''libtmux::Server::over_control''],
      cap_commands = [\<lparr>use_command = ''attach-session'', use_flags = []\<rparr>]\<rparr>,
     \<lparr>cap_key = buffer_delete_named, cap_id = ''buffer-delete-named'', cap_name = ''Named buffer deletion'',
      cap_summary = ''Delete or rename one paste buffer by name without risking another buffer.'',
      cap_since = kTmux34, cap_handling = handle_refuse, cap_error = kCommandFailure,
      cap_apis = [''libtmux::Buffer::remove''],
      cap_commands = [\<lparr>use_command = ''delete-buffer'', use_flags = [''-b'']\<rparr>,
        \<lparr>use_command = ''set-buffer'', use_flags = [''-b'', ''-n'']\<rparr>]\<rparr>,
     \<lparr>cap_key = layout_mirrored_main, cap_id = ''layout-mirrored-main'', cap_name = ''Mirrored main layouts'',
      cap_summary = ''Apply main-horizontal-mirrored and main-vertical-mirrored.'',
      cap_since = kTmux35, cap_handling = handle_refuse, cap_error = kCommandFailure,
      cap_apis = kLayoutApis, cap_commands = kLayoutCommands\<rparr>,
     \<lparr>cap_key = layout_json, cap_id = ''layout-json'', cap_name = ''JSON layout strings'',
      cap_summary = ''Apply a layout saved in the JSON form tmux reports.'',
      cap_since = kTmux38, cap_handling = handle_refuse, cap_error = kCommandFailure,
      cap_apis = kLayoutApis, cap_commands = kLayoutCommands\<rparr>,
     \<lparr>cap_key = clipboard_query, cap_id = ''clipboard-query'', cap_name = ''Clipboard query'',
      cap_summary = ''Ask an attached client for its clipboard with refresh-client -l.'',
      cap_since = kTmux36a, cap_handling = handle_refuse, cap_error = kCommandFailure,
      cap_apis = [], cap_commands = [\<lparr>use_command = ''refresh-client'', use_flags = [''-l'']\<rparr>]\<rparr>]"

definition kWorkarounds :: "Workaround list" where
  "kWorkarounds = [
     \<lparr>wk_key = break_pane_misnames_windows, wk_id = ''break-pane-misnames-windows'',
      wk_name = ''break-pane window naming'',
      wk_summary = ''break-pane gets the new window wrong on exactly tmux 3.7; Pane::break_out names the window and repairs it.'',
      wk_releases = [kTmux37], wk_handling = handle_repair, wk_apis = [''libtmux::Pane::break_out''],
      wk_commands = [\<lparr>use_command = ''break-pane'', use_flags = []\<rparr>]\<rparr>,
     \<lparr>wk_key = name_separators_rejected, wk_id = ''name-separators-rejected'',
      wk_name = ''Colon and dot in names'',
      wk_summary = ''tmux 3.7 rejects '' @ [CHR 0x27] @ '':'' @ [CHR 0x27] @ '' and '' @ [CHR 0x27] @ ''.'' @ [CHR 0x27]
        @ '' in session and window names after partly running.'',
      wk_releases = [kTmux37], wk_handling = handle_refuse,
      wk_apis = [''libtmux::Server::new_session'', ''libtmux::Session::new_window'',
        ''libtmux::Session::rename'', ''libtmux::Window::rename''],
      wk_commands = [\<lparr>use_command = ''new-session'', use_flags = [''-s'', ''-n'']\<rparr>,
        \<lparr>use_command = ''new-window'', use_flags = [''-n'']\<rparr>,
        \<lparr>use_command = ''rename-session'', use_flags = []\<rparr>,
        \<lparr>use_command = ''rename-window'', use_flags = []\<rparr>]\<rparr>]"

fun handling_text :: "Handling \<Rightarrow> string" where
  "handling_text handle_refuse = ''refuse''"
| "handling_text handle_fallback = ''fallback''"
| "handling_text handle_repair = ''repair''"

text \<open>\<open>*std::ranges::find\<close> dereferences what it found; \<open>None\<close> is the end iterator it must not be.\<close>

definition find_capability :: "CapabilityId \<Rightarrow> Capability option" where
  "find_capability key = find (\<lambda>c. cap_key c = key) kCapabilities"

definition find_workaround :: "WorkaroundId \<Rightarrow> Workaround option" where
  "find_workaround key = find (\<lambda>x. wk_key x = key) kWorkarounds"

definition capability :: "CapabilityId \<Rightarrow> Capability" where
  "capability key = the (find_capability key)"

definition workaround :: "WorkaroundId \<Rightarrow> Workaround" where
  "workaround key = the (find_workaround key)"

definition affects :: "WorkaroundId \<Rightarrow> Version \<Rightarrow> bool" where
  "affects key running = list_ex (\<lambda>r. rel_version r = running) (wk_releases (workaround key))"

section \<open>The manifest writer\<close>

record Writer =
  w_out :: string
  w_depth :: nat
  w_first :: bool

definition w_newline :: "Writer \<Rightarrow> Writer" where
  "w_newline w = w\<lparr>w_out := w_out w @ [CHR 0x0A] @ replicate (w_depth w * 2) CHR '' ''\<rparr>"

definition w_element :: "Writer \<Rightarrow> Writer" where
  "w_element w = (let w = (if \<not> w_first w then w\<lparr>w_out := w_out w @ '',''\<rparr> else w)
     in (w_newline w)\<lparr>w_first := False\<rparr>)"

definition w_open :: "char \<Rightarrow> Writer \<Rightarrow> Writer" where
  "w_open bracket w = w\<lparr>w_out := w_out w @ [bracket], w_depth := w_depth w + 1, w_first := True\<rparr>"

definition w_close :: "char \<Rightarrow> Writer \<Rightarrow> Writer" where
  "w_close bracket w =
     (let w = w\<lparr>w_depth := w_depth w - 1\<rparr>; w = (if \<not> w_first w then w_newline w else w)
      in w\<lparr>w_out := w_out w @ [bracket], w_first := False\<rparr>)"

definition escape_json :: "char \<Rightarrow> string" where
  "escape_json c = (if c = CHR 0x22 then [CHR 0x5C, CHR 0x22]
     else if c = CHR 0x5C then [CHR 0x5C, CHR 0x5C]
     else if c = CHR 0x0A then [CHR 0x5C, CHR ''n''] else [c])"

definition w_string :: "string \<Rightarrow> Writer \<Rightarrow> Writer" where
  "w_string s w = w\<lparr>w_out := w_out w @ [CHR 0x22] @ concat (map escape_json s) @ [CHR 0x22], w_first := False\<rparr>"

definition w_key :: "string \<Rightarrow> Writer \<Rightarrow> Writer" where
  "w_key name w = (let w = w_string name (w_element w) in w\<lparr>w_out := w_out w @ '': '', w_first := True\<rparr>)"

definition w_item :: "Writer \<Rightarrow> Writer" where
  "w_item w = w_element w"

definition w_finish :: "Writer \<Rightarrow> string" where
  "w_finish w = w_out w @ [CHR 0x0A]"

definition write_names :: "string list \<Rightarrow> Writer \<Rightarrow> Writer" where
  "write_names list w = w_close CHR '']'' (fold (\<lambda>name w. w_string name (w_item w)) list (w_open CHR ''['' w))"

definition write_command :: "CommandUse \<Rightarrow> Writer \<Rightarrow> Writer" where
  "write_command use w =
     (let w = w_open CHR ''{'' (w_item w); w = w_string (use_command use) (w_key ''command'' w);
          w = (if use_flags use \<noteq> [] then write_names (use_flags use) (w_key ''flags'' w) else w)
      in w_close CHR ''}'' w)"

definition write_commands :: "CommandUse list \<Rightarrow> Writer \<Rightarrow> Writer" where
  "write_commands list w = w_close CHR '']'' (fold write_command list (w_open CHR ''['' w))"

definition write_capability :: "Capability \<Rightarrow> Writer \<Rightarrow> Writer" where
  "write_capability c w =
     (let w = w_open CHR ''{'' (w_item w);
          w = write_names (cap_apis c) (w_key ''apis'' w);
          w = write_commands (cap_commands c) (w_key ''commands'' w);
          w = (if cap_error c \<noteq> [] then w_string (cap_error c) (w_key ''error'' w) else w);
          w = w_string (handling_text (cap_handling c)) (w_key ''handling'' w);
          w = w_string (cap_id c) (w_key ''id'' w);
          w = w_string (cap_name c) (w_key ''name'' w);
          w = w_string (rel_text (cap_since c)) (w_key ''since'' w);
          w = w_string (cap_summary c) (w_key ''summary'' w)
      in w_close CHR ''}'' w)"

definition write_workaround :: "Workaround \<Rightarrow> Writer \<Rightarrow> Writer" where
  "write_workaround x w =
     (let w = w_open CHR ''{'' (w_item w);
          w = write_names (wk_apis x) (w_key ''apis'' w);
          w = write_commands (wk_commands x) (w_key ''commands'' w);
          w = w_string (handling_text (wk_handling x)) (w_key ''handling'' w);
          w = w_string (wk_id x) (w_key ''id'' w);
          w = w_string (wk_name x) (w_key ''name'' w);
          w = w_open CHR ''['' (w_key ''releases'' w);
          w = fold (\<lambda>r w. w_string (rel_text r) (w_item w)) (wk_releases x) w;
          w = w_close CHR '']'' w;
          w = w_string (wk_summary x) (w_key ''summary'' w)
      in w_close CHR ''}'' w)"

definition manifest_json :: string where
  "manifest_json =
     (let w = w_open CHR ''{'' \<lparr>w_out = [], w_depth = 0, w_first = True\<rparr>;
          w = w_open CHR ''['' (w_key ''capabilities'' w);
          w = w_close CHR '']'' (fold write_capability kCapabilities w);
          w = w_open CHR ''{'' (w_key ''floor'' w);
          w = w_string kMinimumSupportedText (w_key ''minimum'' w);
          w = w_close CHR ''}'' w;
          w = w_string kPort (w_key ''port'' w);
          w = w_string kSchema (w_key ''schema'' w);
          w = w_open CHR ''['' (w_key ''workarounds'' w);
          w = w_close CHR '']'' (fold write_workaround kWorkarounds w);
          w = w_close CHR ''}'' w
      in w_finish w)"

section \<open>Local promises of a server\<close>

datatype ServerImplementation = impl_unknown | impl_tmux | impl_psmux

datatype BackendKind = backend_custom | backend_subprocess | backend_control

datatype ServerFeature =
  exact_inspection | server_cleanup | server_entity_lookup | session_creation | window_creation
| captured_mutation | pane_io | terminal_attach | reusable_window_target | server_state | wait_channels
| feature_control_mode

record ServerCapabilities =
  implementation :: ServerImplementation
  backend :: BackendKind

definition supports :: "ServerCapabilities \<Rightarrow> ServerFeature \<Rightarrow> bool" where
  "supports caps feature =
     (if implementation caps = impl_unknown then False
      else case feature of
        exact_inspection \<Rightarrow> True
      | server_cleanup \<Rightarrow> True
      | _ \<Rightarrow> implementation caps = impl_tmux)"

definition refuses :: "ServerCapabilities \<Rightarrow> ServerFeature \<Rightarrow> bool" where
  "refuses caps feature \<longleftrightarrow> implementation caps \<noteq> impl_unknown \<and> \<not> supports caps feature"

section \<open>The pretty printer the writer implements\<close>

datatype Json = JStr string | JArr "Json list" | JObj "(string \<times> Json) list"

definition quote :: "string \<Rightarrow> string" where
  "quote s = [CHR 0x22] @ concat (map escape_json s) @ [CHR 0x22]"

definition line_at :: "nat \<Rightarrow> string" where
  "line_at d = [CHR 0x0A] @ replicate (d * 2) CHR '' ''"

fun separated :: "string list \<Rightarrow> string" where
  "separated [] = []"
| "separated [e] = e"
| "separated (e # es) = e @ '','' @ separated es"

definition enclosed :: "char \<Rightarrow> char \<Rightarrow> nat \<Rightarrow> string list \<Rightarrow> string" where
  "enclosed l r d es = [l] @ separated (map (\<lambda>e. line_at (Suc d) @ e) es)
     @ (if es = [] then [] else line_at d) @ [r]"

fun render :: "nat \<Rightarrow> Json \<Rightarrow> string" where
  "render d (JStr s) = quote s"
| "render d (JArr vs) = enclosed CHR ''['' CHR '']'' d (map (render (Suc d)) vs)"
| "render d (JObj kvs) = enclosed CHR ''{'' CHR ''}'' d (map (\<lambda>(k, v). quote k @ '': '' @ render (Suc d) v) kvs)"

definition command_value :: "CommandUse \<Rightarrow> Json" where
  "command_value use = JObj ((''command'', JStr (use_command use)) #
     (if use_flags use \<noteq> [] then [(''flags'', JArr (map JStr (use_flags use)))] else []))"

definition capability_value :: "Capability \<Rightarrow> Json" where
  "capability_value c = JObj (
     [(''apis'', JArr (map JStr (cap_apis c))),
      (''commands'', JArr (map command_value (cap_commands c)))] @
     (if cap_error c \<noteq> [] then [(''error'', JStr (cap_error c))] else []) @
     [(''handling'', JStr (handling_text (cap_handling c))), (''id'', JStr (cap_id c)),
      (''name'', JStr (cap_name c)), (''since'', JStr (rel_text (cap_since c))),
      (''summary'', JStr (cap_summary c))])"

definition workaround_value :: "Workaround \<Rightarrow> Json" where
  "workaround_value x = JObj
     [(''apis'', JArr (map JStr (wk_apis x))),
      (''commands'', JArr (map command_value (wk_commands x))),
      (''handling'', JStr (handling_text (wk_handling x))), (''id'', JStr (wk_id x)),
      (''name'', JStr (wk_name x)), (''releases'', JArr (map (\<lambda>r. JStr (rel_text r)) (wk_releases x))),
      (''summary'', JStr (wk_summary x))]"

definition manifest_value :: Json where
  "manifest_value = JObj
     [(''capabilities'', JArr (map capability_value kCapabilities)),
      (''floor'', JObj [(''minimum'', JStr kMinimumSupportedText)]),
      (''port'', JStr kPort), (''schema'', JStr kSchema),
      (''workarounds'', JArr (map workaround_value kWorkarounds))]"

text \<open>
  The contract of one member of a bracketed group: a step that starts with \<^const>\<open>w_element\<close> and
  leaves the value it printed, at the depth it was given. Arrays and objects both meet it, and a
  group of such members is printed with commas exactly between them.
\<close>

locale member_writer =
  fixes member :: "'a \<Rightarrow> Writer \<Rightarrow> Writer" and shown :: "nat \<Rightarrow> 'a \<Rightarrow> string"
  assumes member: "member x w =
    w\<lparr>w_out := w_out w @ (if w_first w then [] else '','') @ line_at (w_depth w) @ shown (w_depth w) x, w_first := False\<rparr>"
begin

lemma members_later:
  "\<not> w_first w \<Longrightarrow> fold member xs w =
     w\<lparr>w_out := w_out w @ concat (map (\<lambda>x. '','' @ line_at (w_depth w) @ shown (w_depth w) x) xs)\<rparr>"
  by (induction xs arbitrary: w) (simp_all add: member)

lemma separated_Cons: "separated (e # es) = e @ concat (map (\<lambda>x. '','' @ x) es)"
  by (induction es arbitrary: e) auto

lemma group:
  "w_close r (fold member xs (w_open l w)) =
     w\<lparr>w_out := w_out w @ enclosed l r (w_depth w) (map (shown (Suc (w_depth w))) xs), w_first := False\<rparr>"
proof (cases xs)
  case Nil
  then show ?thesis by (simp add: w_open_def w_close_def enclosed_def Let_def)
next
  case (Cons x xs')
  have out: "fold member xs (w_open l w) = (w_open l w)\<lparr>w_out := w_out w @ [l] @
      separated (map (\<lambda>e. line_at (Suc (w_depth w)) @ e) (map (shown (Suc (w_depth w))) xs)), w_first := False\<rparr>"
    unfolding Cons fold_simps comp_apply
    by (subst members_later) (simp_all add: member w_open_def separated_Cons o_def del: separated.simps)
  show ?thesis unfolding out by (simp add: Cons w_close_def w_open_def enclosed_def w_newline_def line_at_def Let_def o_def)
qed

end

text \<open>What a step of the writer adds: a value after whatever it opened, or a whole member.\<close>

definition adds :: "string \<Rightarrow> Writer \<Rightarrow> Writer" where
  "adds s w = w\<lparr>w_out := w_out w @ s, w_first := False\<rparr>"

definition adds_member :: "string \<Rightarrow> Writer \<Rightarrow> Writer" where
  "adds_member s w =
     w\<lparr>w_out := w_out w @ (if w_first w then [] else '','') @ line_at (w_depth w) @ s, w_first := False\<rparr>"

lemma adds_keeps [simp]:
  "w_depth (adds s w) = w_depth w" "w_depth (adds_member s w) = w_depth w"
  "\<not> w_first (adds s w)" "\<not> w_first (adds_member s w)"
  by (simp_all add: adds_def adds_member_def)

lemma w_item_adds [simp]: "adds s (w_item w) = adds_member s w" "w_depth (w_item w) = w_depth w"
  by (simp_all add: adds_def adds_member_def w_item_def w_element_def w_newline_def line_at_def Let_def)

lemma w_key_adds [simp]: "adds s (w_key k w) = adds_member (quote k @ '': '' @ s) w" "w_depth (w_key k w) = w_depth w"
  by (simp_all add: adds_def adds_member_def w_key_def w_string_def w_element_def w_newline_def line_at_def
      quote_def Let_def)

lemma w_string_adds: "w_string s w = adds (quote s) w"
  by (simp add: w_string_def adds_def quote_def)

lemma member_writerI: "(\<And>x w. member x w = adds_member (shown (w_depth w) x) w) \<Longrightarrow> member_writer member shown"
  by unfold_locales (simp add: adds_member_def)

interpretation name_items: member_writer "\<lambda>name w. w_string name (w_item w)" "\<lambda>_. quote"
  by (rule member_writerI) (simp add: w_string_adds)

interpretation release_items: member_writer "\<lambda>r w. w_string (rel_text r) (w_item w)" "\<lambda>_ r. quote (rel_text r)"
  by (rule member_writerI) (simp add: w_string_adds)

lemma render_names: "render d (JArr (map JStr ss)) = enclosed CHR ''['' CHR '']'' d (map quote ss)"
  by (simp add: o_def)

lemma write_names_adds: "write_names ss w = adds (render (w_depth w) (JArr (map JStr ss))) w"
  unfolding write_names_def name_items.group render_names by (simp add: adds_def)

text \<open>An object: members added one after the other between the braces.\<close>

lemma object_group:
  "w_close r (fold adds_member ss (w_open l w)) = adds (enclosed l r (w_depth w) ss) w"
proof -
  have "member_writer adds_member (\<lambda>_ s. s)" by (rule member_writerI) simp
  from member_writer.group [OF this, of r ss l w] show ?thesis by (simp add: adds_def)
qed

lemma w_open_depth [simp]: "w_depth (w_open l w) = Suc (w_depth w)"
  by (simp add: w_open_def)

lemma write_command_adds: "write_command use w = adds_member (render (w_depth w) (command_value use)) w"
proof -
  let ?d = "Suc (w_depth w)"
  let ?ms = "(quote ''command'' @ '': '' @ quote (use_command use)) #
    (if use_flags use \<noteq> [] then [quote ''flags'' @ '': '' @ render ?d (JArr (map JStr (use_flags use)))] else [])"
  have "write_command use w = w_close CHR ''}'' (fold adds_member ?ms (w_open CHR ''{'' (w_item w)))"
    by (simp add: write_command_def w_string_adds write_names_adds Let_def del: render.simps)
  also have "\<dots> = adds_member (enclosed CHR ''{'' CHR ''}'' (w_depth w) ?ms) w"
    by (simp only: object_group w_item_adds)
  also have "enclosed CHR ''{'' CHR ''}'' (w_depth w) ?ms = render (w_depth w) (command_value use)"
    by (simp add: command_value_def)
  finally show ?thesis .
qed

interpretation command_items: member_writer write_command "\<lambda>d use. render d (command_value use)"
  by (rule member_writerI) (rule write_command_adds)

lemma write_commands_adds: "write_commands us w = adds (render (w_depth w) (JArr (map command_value us))) w"
  unfolding write_commands_def command_items.group by (simp add: adds_def o_def)

lemma write_capability_adds: "write_capability c w = adds_member (render (w_depth w) (capability_value c)) w"
proof -
  let ?d = "Suc (w_depth w)"
  let ?m = "\<lambda>k v. quote k @ '': '' @ render ?d v"
  let ?ms = "[?m ''apis'' (JArr (map JStr (cap_apis c))), ?m ''commands'' (JArr (map command_value (cap_commands c)))] @
    (if cap_error c \<noteq> [] then [?m ''error'' (JStr (cap_error c))] else []) @
    [?m ''handling'' (JStr (handling_text (cap_handling c))), ?m ''id'' (JStr (cap_id c)),
     ?m ''name'' (JStr (cap_name c)), ?m ''since'' (JStr (rel_text (cap_since c))), ?m ''summary'' (JStr (cap_summary c))]"
  have "write_capability c w = w_close CHR ''}'' (fold adds_member ?ms (w_open CHR ''{'' (w_item w)))"
    by (simp add: write_capability_def w_string_adds write_names_adds write_commands_adds Let_def
        del: render.simps(2,3))
  also have "\<dots> = adds_member (enclosed CHR ''{'' CHR ''}'' (w_depth w) ?ms) w"
    by (simp only: object_group w_item_adds)
  also have "enclosed CHR ''{'' CHR ''}'' (w_depth w) ?ms = render (w_depth w) (capability_value c)"
    by (simp add: capability_value_def)
  finally show ?thesis .
qed

lemma write_workaround_adds: "write_workaround x w = adds_member (render (w_depth w) (workaround_value x)) w"
proof -
  let ?d = "Suc (w_depth w)"
  let ?m = "\<lambda>k v. quote k @ '': '' @ render ?d v"
  let ?ms = "[?m ''apis'' (JArr (map JStr (wk_apis x))), ?m ''commands'' (JArr (map command_value (wk_commands x))),
    ?m ''handling'' (JStr (handling_text (wk_handling x))), ?m ''id'' (JStr (wk_id x)), ?m ''name'' (JStr (wk_name x)),
    ?m ''releases'' (JArr (map (\<lambda>r. JStr (rel_text r)) (wk_releases x))), ?m ''summary'' (JStr (wk_summary x))]"
  have rel: "w_close CHR '']'' (fold (\<lambda>r w. w_string (rel_text r) (w_item w)) rs (w_open CHR ''['' v)) =
      adds (render (w_depth v) (JArr (map (\<lambda>r. JStr (rel_text r)) rs))) v" for rs v
    unfolding release_items.group by (simp add: adds_def o_def)
  have "write_workaround x w = w_close CHR ''}'' (fold adds_member ?ms (w_open CHR ''{'' (w_item w)))"
    unfolding write_workaround_def Let_def rel
    by (simp add: w_string_adds write_names_adds write_commands_adds del: render.simps(2,3))
  also have "\<dots> = adds_member (enclosed CHR ''{'' CHR ''}'' (w_depth w) ?ms) w"
    by (simp only: object_group w_item_adds)
  also have "enclosed CHR ''{'' CHR ''}'' (w_depth w) ?ms = render (w_depth w) (workaround_value x)"
    by (simp add: workaround_value_def)
  finally show ?thesis .
qed

interpretation capability_items: member_writer write_capability "\<lambda>d c. render d (capability_value c)"
  by (rule member_writerI) (rule write_capability_adds)

interpretation workaround_items: member_writer write_workaround "\<lambda>d x. render d (workaround_value x)"
  by (rule member_writerI) (rule write_workaround_adds)

text \<open>Reading a quoted string back.\<close>

fun unescape_json :: "string \<Rightarrow> string" where
  "unescape_json [] = []"
| "unescape_json [c] = [c]"
| "unescape_json (c # d # s) =
     (if c = CHR 0x5C then (if d = CHR ''n'' then CHR 0x0A else d) # unescape_json s
      else c # unescape_json (d # s))"

lemma unescape_plain: "c \<noteq> CHR 0x5C \<Longrightarrow> unescape_json (c # t) = c # unescape_json t"
  by (cases t) simp_all

lemma unescape_escape: "unescape_json (concat (map escape_json s)) = s"
proof (induction s)
  case (Cons c s)
  have "unescape_json (escape_json c @ t) = c # unescape_json t" for t
    by (simp add: escape_json_def unescape_plain)
  with Cons show ?case by simp
qed simp

section \<open>Properties\<close>

text \<open>
  The manifest is a pretty-printed JSON document: the bytes the streaming writer produces, with
  its comma and indentation flags, are those of the recursive printer applied to the tree of the
  registry, and no name or summary is lost to escaping.
\<close>

theorem manifest_json_pretty:
  "manifest_json = render 0 manifest_value @ [CHR 0x0A] \<and>
   unescape_json (concat (map escape_json s)) = s"
proof -
  let ?w = "\<lparr>w_out = [], w_depth = 0, w_first = True\<rparr>"
  let ?m = "\<lambda>k v. quote k @ '': '' @ render 1 v"
  let ?ms = "[?m ''capabilities'' (JArr (map capability_value kCapabilities)),
    ?m ''floor'' (JObj [(''minimum'', JStr kMinimumSupportedText)]), ?m ''port'' (JStr kPort),
    ?m ''schema'' (JStr kSchema), ?m ''workarounds'' (JArr (map workaround_value kWorkarounds))]"
  have caps: "w_close CHR '']'' (fold write_capability cs (w_open CHR ''['' v)) =
      adds (render (w_depth v) (JArr (map capability_value cs))) v" for cs v
    unfolding capability_items.group by (simp add: adds_def o_def)
  have works: "w_close CHR '']'' (fold write_workaround xs (w_open CHR ''['' v)) =
      adds (render (w_depth v) (JArr (map workaround_value xs))) v" for xs v
    unfolding workaround_items.group by (simp add: adds_def o_def)
  have floor: "w_close CHR ''}'' (w_string t (w_key k (w_open CHR ''{'' v))) =
      adds (render (w_depth v) (JObj [(k, JStr t)])) v" for t k v
    using object_group [of "CHR ''}''" "[quote k @ '': '' @ quote t]" "CHR ''{''" v] by (simp add: w_string_adds)
  have "manifest_json = w_finish (w_close CHR ''}'' (fold adds_member ?ms (w_open CHR ''{'' ?w)))"
    unfolding manifest_json_def Let_def caps works floor
    by (simp add: w_string_adds del: render.simps(2,3))
  also have "\<dots> = enclosed CHR ''{'' CHR ''}'' 0 ?ms @ [CHR 0x0A]"
    by (simp only: object_group) (simp add: w_finish_def adds_def)
  also have "enclosed CHR ''{'' CHR ''}'' 0 ?ms = render 0 manifest_value" by (simp add: manifest_value_def)
  finally show ?thesis using unescape_escape by simp
qed

text \<open>
  The registry is complete and says the same thing twice: every capability and every workaround
  is found (so the dereference of the search result is never of the end iterator), and the text of
  every release a record names is read by the version parser as the version the gate compares.
\<close>

theorem registry_consistent:
  "find_capability key = Some (capability key) \<and> cap_key (capability key) = key \<and>
   find_workaround work = Some (workaround work) \<and> wk_key (workaround work) = work \<and>
   parse_version (''tmux '' @ rel_text (cap_since (capability key))) = Inr (rel_version (cap_since (capability key))) \<and>
   list_all (\<lambda>r. parse_version (''tmux '' @ rel_text r) = Inr (rel_version r)) (wk_releases (workaround work))"
proof -
  have find: "find_capability key \<noteq> None" "find_workaround work \<noteq> None"
    by (cases key; simp add: find_capability_def kCapabilities_def)
      (cases work; simp add: find_workaround_def kWorkarounds_def)
  then obtain c x where c: "find_capability key = Some c" and x: "find_workaround work = Some x" by auto
  have "cap_key c = key" "c \<in> set kCapabilities" "wk_key x = work" "x \<in> set kWorkarounds"
    using find_SomeD [OF c [unfolded find_capability_def]] find_SomeD [OF x [unfolded find_workaround_def]]
    by simp_all
  moreover have "list_all (\<lambda>c. parse_version (''tmux '' @ rel_text (cap_since c)) = Inr (rel_version (cap_since c))) kCapabilities"
    "list_all (\<lambda>x. list_all (\<lambda>r. parse_version (''tmux '' @ rel_text r) = Inr (rel_version r)) (wk_releases x)) kWorkarounds"
    by code_simp+
  ultimately show ?thesis using c x by (simp add: list_all_iff capability_def workaround_def)
qed

text \<open>
  A workaround is applied on tmux 3.7 itself and on nothing else: no patch release, candidate or
  development build of it, and no other version.
\<close>

theorem affects_only_37: "affects work running \<longleftrightarrow> running = release 3 7 0"
  by (cases work)
    (auto simp: affects_def workaround_def find_workaround_def kWorkarounds_def kTmux37_def)

text \<open>
  What a server promises and what it is known to get wrong are never both true of a feature, and
  an unrecognised implementation is neither promised nor refused anything; for a recognised one
  every feature is one or the other.
\<close>

theorem promises_partition:
  "\<not> (supports caps feature \<and> refuses caps feature) \<and>
   ((supports caps feature \<or> refuses caps feature) \<longleftrightarrow> implementation caps \<noteq> impl_unknown) \<and>
   (implementation caps = impl_tmux \<longrightarrow> supports caps feature) \<and>
   (implementation caps = impl_psmux \<longrightarrow> (supports caps feature \<longleftrightarrow> feature \<in> {exact_inspection, server_cleanup}))"
  by (cases feature) (auto simp: supports_def refuses_def)

theorem promises_partition_witness:
  "supports \<lparr>implementation = impl_tmux, backend = backend_control\<rparr> pane_io \<and>
   refuses \<lparr>implementation = impl_psmux, backend = backend_subprocess\<rparr> pane_io"
  using promises_partition [of "\<lparr>implementation = impl_tmux, backend = backend_control\<rparr>" pane_io]
    promises_partition [of "\<lparr>implementation = impl_psmux, backend = backend_subprocess\<rparr>" pane_io]
  by auto

end
