(* ===== verification/Layouts.thy ===== *)
theory Layouts
  imports Commands Capabilities
begin

text \<open>
  Window layouts (\<open>src/layout.cpp\<close>): preset names and their unique prefixes, the checksum and the
  recursive-descent grammar of a saved layout, the JSON form of newer releases, and the checks a
  plan makes before anything is sent.

  The two parsers keep the part of the input not read yet (\<open>input.substr(offset)\<close>) where the
  classes keep an offset. Numbers are 32-bit words with the source's overflow guard; the nesting
  limits are the source's, and the recursion is shown to end because every cell consumes input.
\<close>

section \<open>Preset names\<close>

definition layout_names :: "string list" where
  "layout_names = [''even-horizontal'', ''even-vertical'', ''main-horizontal'', ''main-vertical'',
     ''tiled'', ''main-horizontal-mirrored'', ''main-vertical-mirrored'']"

definition known_names :: "bool \<Rightarrow> string list" where
  "known_names mirrored = take (if mirrored then length layout_names else 5) layout_names"

fun named_loop :: "string \<Rightarrow> string list \<Rightarrow> nat \<Rightarrow> bool" where
  "named_loop layout [] matches = (matches = 1)"
| "named_loop layout (name # names) matches =
     (if layout = name then True
      else named_loop layout names (if starts_with name layout then Suc matches else matches))"

definition named_layout :: "string \<Rightarrow> bool \<Rightarrow> bool" where
  "named_layout layout mirrored = named_loop layout (known_names mirrored) 0"

fun candidates_loop :: "string \<Rightarrow> string list \<Rightarrow> string \<Rightarrow> string" where
  "candidates_loop layout [] candidates = candidates"
| "candidates_loop layout (name # names) candidates =
     candidates_loop layout names
       (if starts_with name layout
        then (if candidates = [] then candidates else candidates @ '', '') @ name else candidates)"

definition invalid_layout_name :: "string \<Rightarrow> bool \<Rightarrow> string" where
  "invalid_layout_name layout mirrored =
     (let candidates = candidates_loop layout (known_names mirrored) [] in
      [CHR 0x22] @ layout @
        (if candidates = [] then [CHR 0x22] @ '' is neither a layout preset nor a saved layout description''
         else [CHR 0x22] @ '' could mean more than one layout preset: '' @ candidates))"

definition layout_space :: "char \<Rightarrow> bool" where
  "layout_space c \<longleftrightarrow> c \<in> {CHR '' '', CHR 0x09, CHR 0x0D, CHR 0x0A, CHR 0x0C, CHR 0x0B}"

definition is_json_layout :: "string \<Rightarrow> bool" where
  "is_json_layout layout = starts_with (dropWhile layout_space layout) ''{''"

definition layout_needs_version :: "string \<Rightarrow> bool" where
  "layout_needs_version layout \<longleftrightarrow>
     is_json_layout layout \<or> named_layout layout False \<noteq> named_layout layout True"

section \<open>The saved-layout grammar\<close>

record LayoutSyntax =
  unread :: string
  leaves :: nat

definition syntax_take :: "char \<Rightarrow> LayoutSyntax \<Rightarrow> LayoutSyntax option" where
  "syntax_take c st = (case unread st of
     [] \<Rightarrow> None
   | x # xs \<Rightarrow> if x = c then Some (st\<lparr>unread := xs\<rparr>) else None)"

fun number_loop :: "32 word \<Rightarrow> string \<Rightarrow> (32 word \<times> string) option" where
  "number_loop v [] = Some (v, [])"
| "number_loop v (c # cs) =
     (if \<not> is_digit c then Some (v, c # cs)
      else let digit = word_of_nat (digit_value c)
           in if (- 1 - digit) div 10 < v then None else number_loop (v * 10 + digit) cs)"

definition syntax_number :: "LayoutSyntax \<Rightarrow> LayoutSyntax option" where
  "syntax_number st = (case number_loop 0 (unread st) of
     None \<Rightarrow> None
   | Some (_, rest) \<Rightarrow> if length rest < length (unread st) then Some (st\<lparr>unread := rest\<rparr>) else None)"

definition syntax_header :: "LayoutSyntax \<Rightarrow> LayoutSyntax option" where
  "syntax_header st =
     Option.bind (syntax_number st) (\<lambda>st. Option.bind (syntax_take CHR ''x'' st) (\<lambda>st.
     Option.bind (syntax_number st) (\<lambda>st. Option.bind (syntax_take CHR '','' st) (\<lambda>st.
     Option.bind (syntax_number st) (\<lambda>st. Option.bind (syntax_take CHR '','' st) (\<lambda>st.
     syntax_number st))))))"

definition syntax_pane_id :: "LayoutSyntax \<Rightarrow> LayoutSyntax" where
  "syntax_pane_id st = (case syntax_take CHR '','' st of
     None \<Rightarrow> st
   | Some after \<Rightarrow>
       (case syntax_number after of
          None \<Rightarrow> st
        | Some st' \<Rightarrow> if unread st' \<noteq> [] \<and> hd (unread st') = CHR ''x'' then st else st'))"

lemma syntax_take_shorter: "syntax_take c st = Some st' \<Longrightarrow> length (unread st') < length (unread st)"
  by (auto simp: syntax_take_def split: list.splits if_splits)

lemma syntax_number_shorter: "syntax_number st = Some st' \<Longrightarrow> length (unread st') < length (unread st)"
  by (auto simp: syntax_number_def split: option.splits if_splits)

lemma syntax_header_shorter: "syntax_header st = Some st' \<Longrightarrow> length (unread st') < length (unread st)"
  unfolding syntax_header_def bind_eq_Some_conv by (auto dest!: syntax_take_shorter syntax_number_shorter)

lemma syntax_pane_id_shorter: "length (unread (syntax_pane_id st)) \<le> length (unread st)"
  by (auto simp: syntax_pane_id_def dest!: syntax_take_shorter syntax_number_shorter split: option.splits)

function cell :: "nat \<Rightarrow> LayoutSyntax \<Rightarrow> LayoutSyntax option"
  and cells :: "char \<Rightarrow> nat \<Rightarrow> LayoutSyntax \<Rightarrow> LayoutSyntax option" where
  "cell depth st =
     (if depth > 256 then None
      else case syntax_header st of
        None \<Rightarrow> None
      | Some st \<Rightarrow>
          let st = syntax_pane_id st in
          (case unread st of
             [] \<Rightarrow> Some (st\<lparr>leaves := leaves st + 1\<rparr>)
           | c # rest \<Rightarrow>
               if c \<noteq> CHR ''['' \<and> c \<noteq> CHR ''{'' then Some (st\<lparr>leaves := leaves st + 1\<rparr>)
               else cells (if c = CHR ''['' then CHR '']'' else CHR ''}'') depth (st\<lparr>unread := rest\<rparr>)))"
| "cells close depth st =
     (case cell (depth + 1) st of
        None \<Rightarrow> None
      | Some st \<Rightarrow>
          (case syntax_take CHR '','' st of
             Some st \<Rightarrow> cells close depth st
           | None \<Rightarrow> syntax_take close st))"
  by pat_completeness auto

lemma cell_shorter:
  "cell_cells_dom (Inl (depth, st)) \<Longrightarrow> cell depth st = Some st' \<Longrightarrow> length (unread st') < length (unread st)"
  "cell_cells_dom (Inr (close, depth, st)) \<Longrightarrow> cells close depth st = Some st' \<Longrightarrow> length (unread st') < length (unread st)"
proof (induction depth st and close depth st arbitrary: st' and st' rule: cell_cells.pinduct)
  case (1 depth st)
  show ?case
  proof (cases "syntax_header st")
    case None
    with 1 show ?thesis by (simp add: cell.psimps split: if_splits)
  next
    case (Some h)
    have "length (unread (syntax_pane_id h)) < length (unread st)"
      using syntax_header_shorter [OF Some] syntax_pane_id_shorter [of h] by linarith
    then show ?thesis
      using 1 Some by (auto simp: cell.psimps Let_def split: if_splits list.splits) fastforce+
  qed
next
  case (2 close depth st)
  show ?case
  proof (cases "cell (depth + 1) st")
    case None
    with 2 show ?thesis by (simp add: cells.psimps)
  next
    case (Some c)
    then have c: "length (unread c) < length (unread st)" using 2(2) by simp
    show ?thesis
    proof (cases "syntax_take CHR '','' c")
      case None
      with 2 Some c show ?thesis by (fastforce simp: cells.psimps dest: syntax_take_shorter)
    next
      case (Some t)
      with 2 \<open>cell (depth + 1) st = Some c\<close> c syntax_take_shorter [OF Some] show ?thesis
        by (fastforce simp: cells.psimps)
    qed
  qed
qed

termination cell
proof (relation "measure (\<lambda>x. case x of Inl (_, st) \<Rightarrow> 2 * length (unread st) | Inr (_, _, st) \<Rightarrow> 2 * length (unread st) + 1)")
  fix depth st h c rest x
  assume "\<not> 256 < (depth :: nat)" "syntax_header st = Some h" "x = syntax_pane_id h" "unread x = c # rest"
  then show "(Inr (if c = CHR ''['' then CHR '']'' else CHR ''}'', depth, x\<lparr>unread := rest\<rparr>), Inl (depth, st))
      \<in> measure (\<lambda>x. case x of Inl (_, st) \<Rightarrow> 2 * length (unread st) | Inr (_, _, st) \<Rightarrow> 2 * length (unread st) + 1)"
    using syntax_header_shorter [of st h] syntax_pane_id_shorter [of h] by simp
qed (auto dest!: cell_shorter syntax_take_shorter)

declare cell.simps [simp del] cells.simps [simp del]

section \<open>The checksum\<close>

fun hex_digit :: "char \<Rightarrow> 32 word option" where
  "hex_digit c =
     (if is_digit c then Some (word_of_nat (byte c - 48))
      else if 97 \<le> byte c \<and> byte c \<le> 102 then Some (word_of_nat (byte c - 97 + 10))
      else if 65 \<le> byte c \<and> byte c \<le> 70 then Some (word_of_nat (byte c - 65 + 10)) else None)"

fun expected_loop :: "32 word \<Rightarrow> string \<Rightarrow> 32 word option" where
  "expected_loop e [] = Some e"
| "expected_loop e (c # cs) = (case hex_digit c of
     None \<Rightarrow> None | Some v \<Rightarrow> expected_loop (e * 16 + v) cs)"

definition checksum_step :: "char \<Rightarrow> 32 word \<Rightarrow> 32 word" where
  "checksum_step c s =
     (let s = or (drop_bit 1 s) (push_bit 15 (and s 1)) in and (s + word_of_nat (byte c)) 0xffff)"

definition layout_checksum :: "string \<Rightarrow> 32 word" where
  "layout_checksum layout = fold checksum_step layout 0"

section \<open>The JSON form\<close>

datatype JsonType = t_absent | t_string | t_number | t_boolean | t_object | t_array

datatype Role = role_root | role_cell | role_ignored

record JsonValue =
  v_type :: JsonType
  v_text :: string
  v_number :: int
  v_count :: nat
  v_boolean :: bool

definition absent :: JsonValue where
  "absent = \<lparr>v_type = t_absent, v_text = [], v_number = 0, v_count = 0, v_boolean = False\<rparr>"

text \<open>\<open>JsonLayoutSyntax\<close>; what a failed parse leaves behind is only its \<open>error\<close>, which is the left
  value of a result.\<close>

record JsonLayoutSyntax =
  json_unread :: string
  json_leaves :: nat
  active :: nat
  indexes :: "int set"
  floating :: "int set"
  last_panes :: "int set"

definition json_malformed :: string where
  "json_malformed = ''malformed JSON saved layout (maximum object depth is 200)''"

definition json_space :: "char \<Rightarrow> bool" where
  "json_space c \<longleftrightarrow> c \<in> {CHR '' '', CHR 0x09, CHR 0x0D, CHR 0x0A}"

definition skip_space :: "JsonLayoutSyntax \<Rightarrow> JsonLayoutSyntax" where
  "skip_space st = st\<lparr>json_unread := dropWhile json_space (json_unread st)\<rparr>"

definition json_take :: "char \<Rightarrow> JsonLayoutSyntax \<Rightarrow> JsonLayoutSyntax option" where
  "json_take c st = (case dropWhile json_space (json_unread st) of
     [] \<Rightarrow> None
   | x # xs \<Rightarrow> if x = c then Some (st\<lparr>json_unread := xs\<rparr>) else None)"

definition is_hex :: "char \<Rightarrow> bool" where
  "is_hex c \<longleftrightarrow> is_digit c \<or> (97 \<le> byte c \<and> byte c \<le> 102) \<or> (65 \<le> byte c \<and> byte c \<le> 70)"

text \<open>The loop of \<open>string\<close>: \<open>read\<close> collects \<open>input.substr(start, offset - start)\<close>.\<close>

function string_loop :: "string \<Rightarrow> string \<Rightarrow> (string \<times> string) option" where
  "string_loop read [] = None"
| "string_loop read (c # cs) =
     (if c = CHR 0x22 then (if read \<noteq> [] then Some (read, cs) else None)
      else if byte c < 0x20 then None
      else if c \<noteq> CHR 0x5C then string_loop (read @ [c]) cs
      else (case cs of
          [] \<Rightarrow> None
        | e # es \<Rightarrow>
            if e = CHR ''u'' then
              (if length es \<ge> 4 \<and> list_all is_hex (take 4 es)
               then string_loop (read @ [c, e] @ take 4 es) (drop 4 es) else None)
            else if e \<in> {CHR 0x22, CHR 0x5C, CHR ''/'', CHR ''b'', CHR ''f'', CHR ''n'', CHR ''r'', CHR ''t''}
              then string_loop (read @ [c, e]) es
            else None))"
  by pat_completeness auto
termination by (relation "measure (\<lambda>(_, cs). length cs)") auto

definition json_string :: "JsonLayoutSyntax \<Rightarrow> (JsonLayoutSyntax \<times> string) option" where
  "json_string st = (case json_take CHR 0x22 st of
     None \<Rightarrow> None
   | Some st \<Rightarrow> map_option (\<lambda>(text, rest). (st\<lparr>json_unread := rest\<rparr>, text)) (string_loop [] (json_unread st)))"

text \<open>\<open>std::from_chars\<close> into a \<open>std::int64_t\<close>.\<close>

definition json_number :: "JsonLayoutSyntax \<Rightarrow> (JsonLayoutSyntax \<times> int) option" where
  "json_number st =
     (let negative = (json_unread st \<noteq> [] \<and> hd (json_unread st) = CHR ''-'');
          after_sign = (if negative then tl (json_unread st) else json_unread st);
          ds = takeWhile is_digit after_sign;
          n = int (dec_value 0 ds); v = (if negative then - n else n) in
      if ds = [] \<or> (hd ds = CHR ''0'' \<and> length ds \<noteq> 1) then None
      else if v < - (2 ^ 63) \<or> v \<ge> 2 ^ 63 then None
      else Some (st\<lparr>json_unread := dropWhile is_digit after_sign\<rparr>, v))"

definition field_of :: "(string \<rightharpoonup> JsonValue) \<Rightarrow> string \<Rightarrow> JsonValue" where
  "field_of fields' key = (case fields' key of None \<Rightarrow> absent | Some v \<Rightarrow> v)"

definition in_range :: "JsonValue \<Rightarrow> int \<Rightarrow> int \<Rightarrow> bool" where
  "in_range v low high \<longleftrightarrow> v_type v = t_number \<and> v_number v \<ge> low \<and> v_number v \<le> high"

definition int32_max :: int where
  "int32_max = 2147483647"

definition pane_marks :: "(string \<rightharpoonup> JsonValue) \<Rightarrow> JsonLayoutSyntax \<Rightarrow> (string, JsonLayoutSyntax) expected" where
  "pane_marks fields' st =
     (let selected = field_of fields' ''a''; previous = field_of fields' ''l'' in
      if v_type selected \<noteq> t_absent then
        (if v_type selected \<noteq> t_boolean \<or> (v_boolean selected \<and> active st + 1 > 1)
         then Inl ''JSON layout permits only one active pane, marked by a boolean''
         else Inr (if v_boolean selected then st\<lparr>active := active st + 1\<rparr> else st))
      else if v_type previous \<noteq> t_absent then
        (if \<not> in_range previous 0 int32_max \<or> v_number previous \<in> last_panes st
         then Inl ''JSON layout last-pane indexes must be unique nonnegative Int32 values''
         else Inr (st\<lparr>last_panes := insert (v_number previous) (last_panes st)\<rparr>))
      else Inr st)"

definition pane_cell :: "(string \<rightharpoonup> JsonValue) \<Rightarrow> JsonLayoutSyntax \<Rightarrow> (string, JsonLayoutSyntax) expected" where
  "pane_cell fields' st =
     (if v_type (field_of fields' ''c'') \<noteq> t_absent then Inl ''JSON layout panes cannot have children''
      else let index = field_of fields' ''i''; z = field_of fields' ''z'' in
        if \<not> in_range index 0 int32_max \<or> v_number index \<in> indexes st
        then Inl ''JSON layout pane indexes must be unique nonnegative Int32 values''
        else (case pane_marks fields' (st\<lparr>indexes := insert (v_number index) (indexes st)\<rparr>) of
            Inl e \<Rightarrow> Inl e
          | Inr st \<Rightarrow>
              if v_type z \<noteq> t_absent \<and> (\<not> in_range z 0 (int32_max - 1) \<or> v_number z \<in> floating st)
              then Inl ''JSON layout floating indexes must be unique and below INT32_MAX''
              else Inr (st\<lparr>floating := (if v_type z \<noteq> t_absent then insert (v_number z) (floating st) else floating st),
                           json_leaves := json_leaves st + 1\<rparr>)))"

definition json_cell :: "(string \<rightharpoonup> JsonValue) \<Rightarrow> JsonLayoutSyntax \<Rightarrow> (string, JsonLayoutSyntax) expected" where
  "json_cell fields' st =
     (let ty = field_of fields' ''t''; children = field_of fields' ''c'' in
      if v_type ty \<noteq> t_string \<or> v_text ty \<notin> {''p'', ''h'', ''v''}
      then Inl ''JSON layout cell type must be p, h or v''
      else if \<not> in_range (field_of fields' ''w'') 1 10000 \<or> \<not> in_range (field_of fields' ''h'') 1 10000
           \<or> \<not> in_range (field_of fields' ''x'') (-10000) 10000 \<or> \<not> in_range (field_of fields' ''y'') (-10000) 10000
      then Inl (''JSON layout cell dimensions or offsets are outside tmux'' @ [CHR 0x27] @ ''s bounds'')
      else if v_text ty \<noteq> ''p'' then
        (if v_type children = t_array \<and> v_count children \<ge> 2 then Inr st
         else Inl ''JSON layout nodes require at least two children'')
      else pane_cell fields' st)"

definition child_role :: "Role \<Rightarrow> string \<Rightarrow> Role" where
  "child_role role key =
     (if (role = role_root \<and> key = ''L'') \<or> (role = role_cell \<and> key = ''c'') then role_cell else role_ignored)"

definition close_object :: "Role \<Rightarrow> (string \<rightharpoonup> JsonValue) \<Rightarrow> JsonLayoutSyntax \<Rightarrow> (string, JsonLayoutSyntax) expected" where
  "close_object role fields' st =
     (case role of
        role_root \<Rightarrow>
          if in_range (field_of fields' ''V'') 2 2 \<and> v_type (field_of fields' ''L'') = t_object then Inr st
          else Inl ''JSON saved layout requires V:2 and an L cell object''
      | role_cell \<Rightarrow> json_cell fields' st
      | role_ignored \<Rightarrow> Inr st)"

definition scalar_value :: "JsonLayoutSyntax \<Rightarrow> (JsonLayoutSyntax \<times> JsonValue) option" where
  "scalar_value st =
     (if starts_with (json_unread st) [CHR 0x22] then
        map_option (\<lambda>(st, text). (st, absent\<lparr>v_type := t_string, v_text := text\<rparr>)) (json_string st)
      else if starts_with (json_unread st) ''true'' then
        Some (st\<lparr>json_unread := drop 4 (json_unread st)\<rparr>, absent\<lparr>v_type := t_boolean, v_boolean := True\<rparr>)
      else if starts_with (json_unread st) ''false'' then
        Some (st\<lparr>json_unread := drop 5 (json_unread st)\<rparr>, absent\<lparr>v_type := t_boolean, v_boolean := False\<rparr>)
      else map_option (\<lambda>(st, n). (st, absent\<lparr>v_type := t_number, v_number := n\<rparr>)) (json_number st))"

function json_value :: "Role \<Rightarrow> nat \<Rightarrow> JsonLayoutSyntax \<Rightarrow> (string, JsonLayoutSyntax \<times> JsonValue) expected"
  and json_items :: "Role \<Rightarrow> nat \<Rightarrow> nat \<Rightarrow> JsonLayoutSyntax \<Rightarrow> (string, JsonLayoutSyntax \<times> nat) expected"
  and json_object :: "Role \<Rightarrow> nat \<Rightarrow> JsonLayoutSyntax \<Rightarrow> (string, JsonLayoutSyntax) expected"
  and json_members :: "Role \<Rightarrow> nat \<Rightarrow> (string \<rightharpoonup> JsonValue) \<Rightarrow> JsonLayoutSyntax \<Rightarrow> (string, JsonLayoutSyntax) expected" where
  "json_value role depth st =
     (if dropWhile json_space (json_unread st) = [] then Inl json_malformed
      else if starts_with (dropWhile json_space (json_unread st)) ''{'' then
        (case json_object role (depth + 1) st of
           Inl e \<Rightarrow> Inl e
         | Inr st \<Rightarrow> Inr (st, absent\<lparr>v_type := t_object\<rparr>))
      else (case json_take CHR ''['' st of
          Some st \<Rightarrow>
            (case json_take CHR '']'' st of
               Some st \<Rightarrow> Inr (st, absent\<lparr>v_type := t_array\<rparr>)
             | None \<Rightarrow>
                 (case json_items role depth 0 st of
                    Inl e \<Rightarrow> Inl e
                  | Inr (st, n) \<Rightarrow> Inr (st, absent\<lparr>v_type := t_array, v_count := n\<rparr>)))
        | None \<Rightarrow>
            (case scalar_value (skip_space st) of
               None \<Rightarrow> Inl json_malformed
             | Some r \<Rightarrow> Inr r)))"
| "json_items role depth n st =
     (case json_object role (depth + 1) st of
        Inl e \<Rightarrow> Inl e
      | Inr st \<Rightarrow>
          (case json_take CHR '','' st of
             Some st \<Rightarrow> json_items role depth (n + 1) st
           | None \<Rightarrow>
               (case json_take CHR '']'' st of None \<Rightarrow> Inl json_malformed | Some st \<Rightarrow> Inr (st, n + 1))))"
| "json_object role depth st =
     (if depth > 200 then Inl json_malformed
      else case json_take CHR ''{'' st of
        None \<Rightarrow> Inl json_malformed
      | Some st \<Rightarrow>
          (case json_take CHR ''}'' st of
             Some st \<Rightarrow> close_object role Map.empty st
           | None \<Rightarrow> json_members role depth Map.empty st))"
| "json_members role depth fields' st =
     (case json_string st of
        None \<Rightarrow> Inl json_malformed
      | Some (st, key) \<Rightarrow>
          if fields' key \<noteq> None then Inl json_malformed
          else (case json_take CHR '':'' st of
              None \<Rightarrow> Inl json_malformed
            | Some st \<Rightarrow>
                (case json_value (child_role role key) depth st of
                   Inl e \<Rightarrow> Inl e
                 | Inr (st, parsed) \<Rightarrow>
                     (case json_take CHR '','' st of
                        Some st \<Rightarrow> json_members role depth (fields'(key \<mapsto> parsed)) st
                      | None \<Rightarrow>
                          (case json_take CHR ''}'' st of
                             None \<Rightarrow> Inl json_malformed
                           | Some st \<Rightarrow> close_object role (fields'(key \<mapsto> parsed)) st)))))"
  by pat_completeness auto

lemma json_take_shorter: "json_take c st = Some st' \<Longrightarrow> length (json_unread st') < length (json_unread st)"
proof -
  assume "json_take c st = Some st'"
  then obtain xs where "dropWhile json_space (json_unread st) = c # xs" "json_unread st' = xs"
    by (auto simp: json_take_def split: list.splits if_splits)
  then show ?thesis using length_dropWhile_le [of json_space "json_unread st"] by simp
qed

lemma string_loop_shorter: "string_loop read cs = Some (text, rest) \<Longrightarrow> length rest < length cs"
  by (induction read cs rule: string_loop.induct) (auto split: if_splits list.splits)

lemma json_string_shorter: "json_string st = Some (st', text) \<Longrightarrow> length (json_unread st') < length (json_unread st)"
  by (auto simp: json_string_def dest!: json_take_shorter string_loop_shorter split: option.splits)

lemma json_number_shorter: "json_number st = Some (st', n) \<Longrightarrow> length (json_unread st') < length (json_unread st)"
proof -
  define s where "s = (if json_unread st \<noteq> [] \<and> hd (json_unread st) = CHR ''-'' then tl (json_unread st) else json_unread st)"
  assume "json_number st = Some (st', n)"
  then have s: "takeWhile is_digit s \<noteq> []" "json_unread st' = dropWhile is_digit s"
    by (auto simp: json_number_def Let_def s_def split: if_splits)
  have "length (takeWhile is_digit s) + length (dropWhile is_digit s) = length s"
    by (metis length_append takeWhile_dropWhile_id)
  moreover have "length s \<le> length (json_unread st)" by (simp add: s_def)
  ultimately show ?thesis using s by (cases "takeWhile is_digit s") auto
qed

lemma scalar_value_shorter: "scalar_value st = Some (st', v) \<Longrightarrow> length (json_unread st') < length (json_unread st)"
  by (auto simp: scalar_value_def dest!: json_string_shorter json_number_shorter elim!: starts_withE split: if_splits)

lemma pane_marks_unread: "pane_marks fields' st = Inr st' \<Longrightarrow> json_unread st' = json_unread st"
  by (auto simp: pane_marks_def Let_def split: if_splits)

lemma json_cell_unread: "json_cell fields' st = Inr st' \<Longrightarrow> json_unread st' = json_unread st"
  by (auto simp: json_cell_def pane_cell_def Let_def dest!: pane_marks_unread split: if_splits sum.splits)

lemma close_object_unread: "close_object role fields' st = Inr st' \<Longrightarrow> json_unread st' = json_unread st"
  by (auto simp: close_object_def dest: json_cell_unread split: Role.splits if_splits)

lemma skip_space_shorter: "length (json_unread (skip_space st)) \<le> length (json_unread st)"
  by (simp add: skip_space_def length_dropWhile_le)

lemmas json_shorter = json_take_shorter json_string_shorter

lemma json_shorter_all:
  "json_value_json_items_json_object_json_members_dom (Inl (Inl (role, depth, st))) \<Longrightarrow>
     json_value role depth st = Inr (st1, v) \<Longrightarrow> length (json_unread st1) < length (json_unread st)"
  "json_value_json_items_json_object_json_members_dom (Inl (Inr (role, depth, n, st))) \<Longrightarrow>
     json_items role depth n st = Inr (st2, m) \<Longrightarrow> length (json_unread st2) < length (json_unread st)"
  "json_value_json_items_json_object_json_members_dom (Inr (Inl (role, depth, st))) \<Longrightarrow>
     json_object role depth st = Inr st3 \<Longrightarrow> length (json_unread st3) < length (json_unread st)"
  "json_value_json_items_json_object_json_members_dom (Inr (Inr (role, depth, fields', st))) \<Longrightarrow>
     json_members role depth fields' st = Inr st4 \<Longrightarrow> length (json_unread st4) < length (json_unread st)"
proof (induction role depth st and role depth n st and role depth st and role depth fields' st
    arbitrary: st1 v and st2 m and st3 and st4
    rule: json_value_json_items_json_object_json_members.pinduct)
  case (1 role depth st)
  show ?case
  proof (cases "starts_with (dropWhile json_space (json_unread st)) ''{''")
    case True
    with 1(1,4) obtain s where "json_object role (depth + 1) st = Inr s" "st1 = s"
      by (auto simp: json_value.psimps split: if_splits sum.splits)
    moreover have "dropWhile json_space (json_unread st) \<noteq> []" using True by (metis starts_with.simps(2))
    ultimately show ?thesis using 1(2) [OF _ True] by blast
  next
    case False
    show ?thesis
    proof (cases "json_take CHR ''['' st")
      case None
      with 1(1,4) False have "scalar_value (skip_space st) = Some (st1, v)"
        by (auto simp: json_value.psimps split: if_splits option.splits)
      then show ?thesis using scalar_value_shorter skip_space_shorter [of st] by fastforce
    next
      case (Some a)
      note a = json_take_shorter [OF Some]
      show ?thesis
      proof (cases "json_take CHR '']'' a")
        case None
        with 1(1,4) False Some obtain n where "json_items role depth 0 a = Inr (st1, n)"
          by (auto simp: json_value.psimps split: if_splits sum.splits)
        then show ?thesis using 1(3) [OF _ False Some None] 1(1,4) a
          by (fastforce simp: json_value.psimps split: if_splits)
      next
        case b: (Some b)
        with 1(1,4) False Some have "st1 = b" by (auto simp: json_value.psimps split: if_splits)
        then show ?thesis using a json_take_shorter [OF b] by simp
      qed
    qed
  qed
next
  case (2 role depth n st)
  then obtain a where a: "json_object role (depth + 1) st = Inr a"
    by (auto simp: json_items.psimps split: sum.splits)
  have sa: "length (json_unread a) < length (json_unread st)" using 2(2) a by simp
  show ?case
  proof (cases "json_take CHR '','' a")
    case None
    with 2(1,4) a have "json_take CHR '']'' a = Some st2" by (auto simp: json_items.psimps split: option.splits)
    then show ?thesis using sa json_take_shorter by fastforce
  next
    case (Some b)
    with 2(1,4) a have "json_items role depth (n + 1) b = Inr (st2, m)" by (simp add: json_items.psimps)
    with 2(3) [OF a Some] sa json_take_shorter [OF Some] show ?thesis by fastforce
  qed
next
  case (3 role depth st)
  then obtain a where d: "\<not> 200 < depth" and a: "json_take CHR ''{'' st = Some a"
    by (auto simp: json_object.psimps split: if_splits option.splits)
  note sa = json_take_shorter [OF a]
  show ?case
  proof (cases "json_take CHR ''}'' a")
    case None
    with 3 d a have "json_members role depth Map.empty a = Inr st3" by (simp add: json_object.psimps)
    with 3(2) [OF d a None] sa show ?thesis by fastforce
  next
    case (Some b)
    with 3 d a have "close_object role Map.empty b = Inr st3" by (simp add: json_object.psimps)
    then show ?thesis using close_object_unread json_take_shorter [OF Some] sa by fastforce
  qed
next
  case (4 role depth fields' st)
  then obtain a key b c parsed where a: "json_string st = Some (a, key)" and f: "\<not> fields' key \<noteq> None"
    and b: "json_take CHR '':'' a = Some b" and c: "json_value (child_role role key) depth b = Inr (c, parsed)"
    by (auto simp: json_members.psimps split: if_splits option.splits sum.splits prod.splits)
  have sc: "length (json_unread c) < length (json_unread st)"
    using 4(2) [OF a refl f b c] json_string_shorter [OF a] json_take_shorter [OF b] by fastforce
  show ?case
  proof (cases "json_take CHR '','' c")
    case None
    with 4(1,4) a f b c obtain d where "json_take CHR ''}'' c = Some d" "close_object role (fields'(key \<mapsto> parsed)) d = Inr st4"
      by (auto simp: json_members.psimps split: option.splits)
    then show ?thesis using close_object_unread json_take_shorter sc by fastforce
  next
    case (Some d)
    with 4(1,4) a f b c have "json_members role depth (fields'(key \<mapsto> parsed)) d = Inr st4"
      by (simp add: json_members.psimps)
    with 4(3) [OF a refl f b c refl Some] sc json_take_shorter [OF Some] show ?thesis by fastforce
  qed
qed

termination json_value
  by (relation "measure (\<lambda>x. case x of
      Inl (Inl (_, _, st)) \<Rightarrow> 2 * length (json_unread st) + 1
    | Inl (Inr (_, _, _, st)) \<Rightarrow> 2 * length (json_unread st) + 1
    | Inr (Inl (_, _, st)) \<Rightarrow> 2 * length (json_unread st)
    | Inr (Inr (_, _, _, st)) \<Rightarrow> 2 * length (json_unread st) + 1)")
    (auto dest!: json_shorter_all json_shorter)

declare json_value.simps [simp del] json_items.simps [simp del]
  json_object.simps [simp del] json_members.simps [simp del]

definition parse_json_layout :: "string \<Rightarrow> (string, JsonLayoutSyntax) expected" where
  "parse_json_layout layout =
     (case json_object role_root 1 \<lparr>json_unread = dropWhile layout_space layout, json_leaves = 0, active = 0,
             indexes = {}, floating = {}, last_panes = {}\<rparr> of
        Inl e \<Rightarrow> Inl e
      | Inr st \<Rightarrow>
          if json_unread (skip_space st) = [] \<and> json_leaves st \<noteq> 0 then Inr (skip_space st)
          else Inl json_malformed)"

section \<open>Checking a layout\<close>

definition fewer_cells :: string where
  "fewer_cells = ''custom layout has fewer cells than requested panes''"

definition custom_layout_error :: "string \<Rightarrow> nat \<Rightarrow> string option" where
  "custom_layout_error layout panes =
     (case expected_loop 0 (take 4 layout) of
        None \<Rightarrow> Some ''a custom layout starts with four hexadecimal checksum digits''
      | Some expected' \<Rightarrow>
          let layout = drop 5 layout in
          if layout_checksum layout \<noteq> expected' then Some ''custom layout checksum does not match''
          else (case cell 0 \<lparr>unread = layout, leaves = 0\<rparr> of
              None \<Rightarrow> Some ''malformed custom layout tree (maximum depth is 256)''
            | Some st \<Rightarrow>
                if unread st \<noteq> [] then Some ''malformed custom layout tree (maximum depth is 256)''
                else if leaves st < panes then Some fewer_cells else None))"

definition layout_error :: "string \<Rightarrow> nat \<Rightarrow> bool option \<Rightarrow> string option" where
  "layout_error layout panes mirrored =
     (if layout = [] then Some ''layout is empty''
      else if is_json_layout layout then
        (case parse_json_layout layout of
           Inl e \<Rightarrow> Some e
         | Inr st \<Rightarrow> if json_leaves st < panes then Some fewer_cells else None)
      else if (case mirrored of Some m \<Rightarrow> named_layout layout m
               | None \<Rightarrow> named_layout layout False \<or> named_layout layout True) then None
      else if length layout < 6 \<or> layout ! 4 \<noteq> CHR '','' then
        Some (invalid_layout_name layout (case mirrored of Some m \<Rightarrow> m | None \<Rightarrow> True))
      else custom_layout_error layout panes)"

definition invalid_layout :: "string \<Rightarrow> CommandFailure" where
  "invalid_layout reason = \<lparr>kind = validation, delivery = not_started, exit_code = 0, diagnostic = reason\<rparr>"

record LayoutRequest =
  layout_text :: string
  minimum_panes :: nat

record LayoutFailure =
  failure_index :: nat
  cause :: CommandFailure

definition validate_layout :: "string \<Rightarrow> nat \<Rightarrow> (CommandFailure, unit) expected" where
  "validate_layout layout panes =
     (case layout_error layout panes None of Some e \<Rightarrow> Inl (invalid_layout e) | None \<Rightarrow> Inr ())"

definition version_refusal :: "Version \<Rightarrow> LayoutRequest \<Rightarrow> CommandFailure option" where
  "version_refusal version request =
     (let mirrored = version_ge version (rel_version (cap_since (capability layout_mirrored_main)));
          json = capability layout_json in
      if is_json_layout (layout_text request) \<and> version_less version (rel_version (cap_since json))
      then Some (invalid_layout (''JSON saved layouts require tmux '' @ rel_text (cap_since json) @ '' or newer''))
      else if layout_needs_version (layout_text request) then
        map_option invalid_layout (layout_error (layout_text request) (minimum_panes request) (Some mirrored))
      else None)"

definition layout_refusal :: "Version \<Rightarrow> string \<Rightarrow> CommandFailure option" where
  "layout_refusal running layout =
     (case validate_layout layout 1 of
        Inl f \<Rightarrow> Some f
      | Inr _ \<Rightarrow> version_refusal running \<lparr>layout_text = layout, minimum_panes = 1\<rparr>)"

fun check_syntax :: "nat \<Rightarrow> LayoutRequest list \<Rightarrow> nat option \<Rightarrow> (LayoutFailure, nat option) expected" where
  "check_syntax index [] marked = Inr marked"
| "check_syntax index (request # requests) marked =
     (case validate_layout (layout_text request) (minimum_panes request) of
        Inl f \<Rightarrow> Inl \<lparr>failure_index = index, cause = f\<rparr>
      | Inr _ \<Rightarrow> check_syntax (Suc index) requests
          (if marked = None \<and> layout_needs_version (layout_text request) then Some index else marked))"

fun check_versions :: "Version \<Rightarrow> nat \<Rightarrow> LayoutRequest list \<Rightarrow> (LayoutFailure, unit) expected" where
  "check_versions running index [] = Inr ()"
| "check_versions running index (request # requests) =
     (case version_refusal running request of
        Some f \<Rightarrow> Inl \<lparr>failure_index = index, cause = f\<rparr>
      | None \<Rightarrow> check_versions running (Suc index) requests)"

text \<open>\<open>backend_version\<close> stands for \<open>backend.version()\<close>: it is called only when a layout needs it.\<close>

definition validate_layouts ::
  "(unit \<Rightarrow> (CommandFailure, Version) expected) \<Rightarrow> LayoutRequest list \<Rightarrow> (LayoutFailure, unit) expected" where
  "validate_layouts backend_version layouts =
     (case check_syntax 0 layouts None of
        Inl f \<Rightarrow> Inl f
      | Inr None \<Rightarrow> Inr ()
      | Inr (Some marked) \<Rightarrow>
          (case backend_version () of
             Inl f \<Rightarrow> Inl \<lparr>failure_index = marked, cause = f\<rparr>
           | Inr running \<Rightarrow> check_versions running 0 layouts))"

section \<open>The grammar the saved-layout parser accepts\<close>

text \<open>A saved layout as a tree. Numbers are kept as the digits they were written with.\<close>

datatype LayoutTree =
  Pane "string \<times> string \<times> string \<times> string" "string option"
| Split "string \<times> string \<times> string \<times> string" "string option" bool "LayoutTree list"

definition number_text :: "string \<Rightarrow> bool" where
  "number_text s \<longleftrightarrow> s \<noteq> [] \<and> list_all is_digit s \<and> dec_value 0 s < 2 ^ 32"

fun header_text :: "string \<times> string \<times> string \<times> string \<Rightarrow> string" where
  "header_text (w, h, x, y) = w @ ''x'' @ h @ '','' @ x @ '','' @ y"

fun header_ok :: "string \<times> string \<times> string \<times> string \<Rightarrow> bool" where
  "header_ok (w, h, x, y) \<longleftrightarrow> number_text w \<and> number_text h \<and> number_text x \<and> number_text y"

definition id_text :: "string option \<Rightarrow> string" where
  "id_text i = (case i of None \<Rightarrow> [] | Some s \<Rightarrow> '','' @ s)"

definition opening_bracket :: "bool \<Rightarrow> char" where "opening_bracket square = (if square then CHR ''['' else CHR ''{'')"
definition closing_bracket :: "bool \<Rightarrow> char" where "closing_bracket square = (if square then CHR '']'' else CHR ''}'')"

fun tree_text :: "LayoutTree \<Rightarrow> string" where
  "tree_text (Pane h i) = header_text h @ id_text i"
| "tree_text (Split h i square ts) =
     header_text h @ id_text i @ [opening_bracket square] @ separated (map tree_text ts) @ [closing_bracket square]"

fun tree_ok :: "LayoutTree \<Rightarrow> bool" where
  "tree_ok (Pane h i) \<longleftrightarrow> header_ok h \<and> pred_option number_text i"
| "tree_ok (Split h i square ts) \<longleftrightarrow> header_ok h \<and> pred_option number_text i \<and> ts \<noteq> [] \<and> list_all tree_ok ts"

fun fits :: "nat \<Rightarrow> LayoutTree \<Rightarrow> bool" where
  "fits depth (Pane h i) \<longleftrightarrow> depth \<le> 256"
| "fits depth (Split h i square ts) \<longleftrightarrow> depth \<le> 256 \<and> list_all (fits (depth + 1)) ts"

fun panes_of :: "LayoutTree \<Rightarrow> nat" where
  "panes_of (Pane h i) = 1"
| "panes_of (Split h i square ts) = sum_list (map panes_of ts)"

definition starts_digit :: "string \<Rightarrow> bool" where
  "starts_digit s \<longleftrightarrow> (case s of [] \<Rightarrow> False | c # _ \<Rightarrow> is_digit c)"

lemma number_loop_digits:
  assumes "list_all is_digit ds" "dec_value (unat v) ds < 2 ^ 32" "\<not> starts_digit r"
  shows "\<exists>w. number_loop v (ds @ r) = Some (w, r)"
  using assms
proof (induction ds arbitrary: v)
  case Nil
  then show ?case by (cases r) (auto simp: starts_digit_def)
next
  case (Cons c ds)
  have "10 * unat v + digit_value c < 2 ^ 32"
    using Cons.prems(2) dec_value_ge [of "10 * unat v + digit_value c" ds] by simp
  with digits_loop_step [of c v] Cons show ?case
    by (auto simp: Let_def not_le)
qed

lemma number_loop_sound:
  assumes "number_loop v s = Some (w, r)"
  shows "\<exists>ds. s = ds @ r \<and> list_all is_digit ds \<and> dec_value (unat v) ds < 2 ^ 32 \<and> \<not> starts_digit r"
  using assms
proof (induction v s rule: number_loop.induct)
  case (1 v)
  then show ?case using unsigned_less [of v, where ?'a = nat] by (auto simp: starts_digit_def)
next
  case (2 v c cs)
  show ?case
  proof (cases "is_digit c")
    case False
    then show ?thesis using 2 unsigned_less [of v, where ?'a = nat] by (auto simp: starts_digit_def)
  next
    case True
    with 2 have step: "\<not> (- 1 - word_of_nat (digit_value c)) div 10 < v"
      and rec: "number_loop (v * 10 + word_of_nat (digit_value c)) cs = Some (w, r)"
      by (auto simp: Let_def split: if_splits)
    then have u: "unat (v * 10 + word_of_nat (digit_value c)) = 10 * unat v + digit_value c"
      using digits_loop_step [OF True, of v] by (simp add: not_le)
    from 2(1) [OF _ refl step rec] True obtain ds where "cs = ds @ r" "list_all is_digit ds"
      "dec_value (10 * unat v + digit_value c) ds < 2 ^ 32" "\<not> starts_digit r" unfolding u by auto
    with True show ?thesis by (intro exI [of _ "c # ds"]) simp
  qed
qed

lemma syntax_number_iff:
  "syntax_number st = Some st' \<longleftrightarrow>
     (\<exists>ds. number_text ds \<and> unread st = ds @ unread st' \<and> \<not> starts_digit (unread st') \<and> st' = st\<lparr>unread := unread st'\<rparr>)"
proof
  assume "syntax_number st = Some st'"
  then obtain w where "number_loop 0 (unread st) = Some (w, unread st')" "st' = st\<lparr>unread := unread st'\<rparr>"
    "length (unread st') < length (unread st)"
    by (auto simp: syntax_number_def split: option.splits if_splits)
  with number_loop_sound [of 0 "unread st" w "unread st'"] show "\<exists>ds. number_text ds \<and> unread st = ds @ unread st'
      \<and> \<not> starts_digit (unread st') \<and> st' = st\<lparr>unread := unread st'\<rparr>"
    by (auto simp: number_text_def)
next
  assume "\<exists>ds. number_text ds \<and> unread st = ds @ unread st' \<and> \<not> starts_digit (unread st') \<and> st' = st\<lparr>unread := unread st'\<rparr>"
  then obtain ds where ds: "number_text ds" "unread st = ds @ unread st'" "\<not> starts_digit (unread st')" "st' = st\<lparr>unread := unread st'\<rparr>"
    by blast
  then obtain w where "number_loop 0 (unread st) = Some (w, unread st')"
    using number_loop_digits [of ds 0 "unread st'"] by (auto simp: number_text_def)
  with ds show "syntax_number st = Some st'" by (simp add: syntax_number_def number_text_def)
qed

lemma syntax_take_iff: "syntax_take c st = Some st' \<longleftrightarrow> unread st = c # unread st' \<and> st' = st\<lparr>unread := unread st'\<rparr>"
  by (cases "unread st") (auto simp: syntax_take_def split: if_splits)

lemma not_digit_layout [simp]: "\<not> is_digit CHR ''x''" "\<not> is_digit CHR '',''" "\<not> is_digit CHR ''[''" "\<not> is_digit CHR ''{''"
  "\<not> is_digit CHR '']''" "\<not> is_digit CHR ''}''"
  by (simp_all add: is_digit_def byte_def)

lemma starts_digit_Cons [simp]: "starts_digit (c # cs) = is_digit c" "\<not> starts_digit []"
  by (simp_all add: starts_digit_def)

lemma number_then:
  "number_text ds \<Longrightarrow> \<not> starts_digit r \<Longrightarrow> syntax_number (st\<lparr>unread := ds @ r\<rparr>) = Some (st\<lparr>unread := r\<rparr>)"
  by (subst syntax_number_iff) auto

lemma take_then: "syntax_take c (st\<lparr>unread := c # r\<rparr>) = Some (st\<lparr>unread := r\<rparr>)"
  by (simp add: syntax_take_def)

lemma header_sound:
  assumes "syntax_header st = Some st'"
  obtains h where "header_ok h" "unread st = header_text h @ unread st'" "\<not> starts_digit (unread st')"
    "st' = st\<lparr>unread := unread st'\<rparr>"
proof -
  from assms obtain a b c d e f where
    s: "syntax_number st = Some a" "syntax_take CHR ''x'' a = Some b" "syntax_number b = Some c"
    "syntax_take CHR '','' c = Some d" "syntax_number d = Some e" "syntax_take CHR '','' e = Some f"
    "syntax_number f = Some st'"
    unfolding syntax_header_def bind_eq_Some_conv by blast
  from s(1,3,5,7) obtain w h x y where
    n: "number_text w" "unread st = w @ unread a" "number_text h" "unread b = h @ unread c"
    "number_text x" "unread d = x @ unread e" "number_text y" "unread f = y @ unread st'" "\<not> starts_digit (unread st')"
    and u: "a = st\<lparr>unread := unread a\<rparr>" "c = b\<lparr>unread := unread c\<rparr>" "e = d\<lparr>unread := unread e\<rparr>"
      "st' = f\<lparr>unread := unread st'\<rparr>"
    unfolding syntax_number_iff by blast
  have t: "unread a = CHR ''x'' # unread b" "unread c = CHR '','' # unread d" "unread e = CHR '','' # unread f"
    "b = a\<lparr>unread := unread b\<rparr>" "d = c\<lparr>unread := unread d\<rparr>" "f = e\<lparr>unread := unread f\<rparr>"
    using s(2,4,6) by (simp_all add: syntax_take_iff)
  have "leaves st' = leaves st" by (metis u t LayoutSyntax.select_convs(2) LayoutSyntax.surjective LayoutSyntax.update_convs(1))
  then have "st' = st\<lparr>unread := unread st'\<rparr>" by simp
  with n t that [of "(w, h, x, y)"] show ?thesis by simp
qed

lemma header_then:
  assumes "header_ok h" "\<not> starts_digit r"
  shows "syntax_header (st\<lparr>unread := header_text h @ r\<rparr>) = Some (st\<lparr>unread := r\<rparr>)"
proof -
  obtain w h' x y where h: "h = (w, h', x, y)" by (cases h)
  with assms show ?thesis by (simp add: syntax_header_def number_then take_then)
qed

lemma pane_id_sound:
  obtains i where "pred_option number_text i" "unread st = id_text i @ unread (syntax_pane_id st)"
    "syntax_pane_id st = st\<lparr>unread := unread (syntax_pane_id st)\<rparr>"
proof (cases "syntax_pane_id st = st")
  case True
  then show ?thesis using that [of None] by (simp add: id_text_def)
next
  case False
  then obtain after st' where s: "syntax_take CHR '','' st = Some after" "syntax_number after = Some st'" "syntax_pane_id st = st'"
    by (auto simp: syntax_pane_id_def split: option.splits if_splits)
  then obtain ds where "number_text ds" "unread after = ds @ unread st'" "st' = after\<lparr>unread := unread st'\<rparr>"
    unfolding syntax_number_iff by blast
  moreover have "unread st = CHR '','' # unread after" "after = st\<lparr>unread := unread after\<rparr>"
    using s(1) by (simp_all add: syntax_take_iff)
  moreover then have "st' = st\<lparr>unread := unread st'\<rparr>"
    using \<open>st' = after\<lparr>unread := unread st'\<rparr>\<close>
    by (metis LayoutSyntax.select_convs(2) LayoutSyntax.surjective LayoutSyntax.update_convs(1))
  ultimately show ?thesis using that [of "Some ds"] s(3) by (simp add: id_text_def)
qed

text \<open>What may come after a cell: nothing, a closing bracket, or a comma and the width of the next.\<close>

definition follows :: "string \<Rightarrow> bool" where
  "follows r \<longleftrightarrow> (case r of [] \<Rightarrow> True
     | c # r' \<Rightarrow> c = CHR '']'' \<or> c = CHR ''}'' \<or> (c = CHR '','' \<and> (\<exists>ds r''. number_text ds \<and> r' = ds @ CHR ''x'' # r'')))"

definition opens :: "string \<Rightarrow> bool" where
  "opens r \<longleftrightarrow> (case r of [] \<Rightarrow> False | c # _ \<Rightarrow> c = CHR ''['' \<or> c = CHR ''{'')"

lemma follows_facts: "follows r \<or> opens r \<Longrightarrow> \<not> starts_digit r \<and> (r \<noteq> [] \<longrightarrow> hd r \<noteq> CHR ''x'')"
  by (cases r) (auto simp: follows_def opens_def)

lemma id_text_not_digit: "follows r \<or> opens r \<Longrightarrow> \<not> starts_digit (id_text i @ r)"
  using follows_facts [of r] by (cases i) (simp_all add: id_text_def)

lemma pane_id_then:
  assumes "pred_option number_text i" "follows r \<or> opens r"
  shows "syntax_pane_id (st\<lparr>unread := id_text i @ r\<rparr>) = st\<lparr>unread := r\<rparr>"
proof (cases i)
  case (Some ds)
  with assms follows_facts [OF assms(2)] show ?thesis
    by (auto simp: syntax_pane_id_def id_text_def take_then number_then)
next
  case None
  show ?thesis
  proof (cases "\<exists>ds r''. number_text ds \<and> r = CHR '','' # ds @ CHR ''x'' # r''")
    case True
    with None show ?thesis by (auto simp: syntax_pane_id_def id_text_def take_then number_then)
  next
    case False
    with assms(2) None show ?thesis
      by (cases r) (auto simp: syntax_pane_id_def id_text_def syntax_take_def follows_def opens_def)
  qed
qed

lemma separated_Cons2: "ts \<noteq> [] \<Longrightarrow> separated (t # ts) = t @ '','' @ separated ts"
  by (cases ts) auto

lemma cell_sound:
  "cell depth st = Some st' \<Longrightarrow> \<exists>t. tree_ok t \<and> fits depth t \<and> unread st = tree_text t @ unread st'
     \<and> leaves st' = leaves st + panes_of t"
  "cells close depth st = Some st' \<Longrightarrow> \<exists>ts. ts \<noteq> [] \<and> list_all tree_ok ts \<and> list_all (fits (depth + 1)) ts
     \<and> unread st = separated (map tree_text ts) @ close # unread st' \<and> leaves st' = leaves st + sum_list (map panes_of ts)"
proof (induction depth st and close depth st arbitrary: st' and st' rule: cell_cells.induct)
  case (1 depth st)
  then obtain a where d: "depth \<le> 256" and a: "syntax_header st = Some a"
    by (auto simp: cell.simps [of depth st] split: if_splits option.splits)
  obtain h where h: "header_ok h" "unread st = header_text h @ unread a" "leaves a = leaves st"
    using header_sound [OF a] by (metis LayoutSyntax.select_convs(2) LayoutSyntax.surjective LayoutSyntax.update_convs(1))
  define b where "b = syntax_pane_id a"
  obtain i where i: "pred_option number_text i" "unread a = id_text i @ unread b" "leaves b = leaves a"
    using pane_id_sound [of a] unfolding b_def
    by (metis LayoutSyntax.select_convs(2) LayoutSyntax.surjective LayoutSyntax.update_convs(1))
  show ?case
  proof (cases "opens (unread b)")
    case False
    with "1.prems" d a have "st' = b\<lparr>leaves := leaves b + 1\<rparr>"
      by (auto simp: cell.simps [of depth st] b_def Let_def opens_def split: list.splits if_splits)
    with h i d show ?thesis by (intro exI [of _ "Pane h i"]) simp
  next
    case True
    then obtain square r where r: "unread b = opening_bracket square # r"
      by (cases "unread b") (auto simp: opens_def opening_bracket_def intro: that [of True] that [of False])
    have "cells (closing_bracket square) depth (b\<lparr>unread := r\<rparr>) = Some st'"
      using "1.prems" d a r by (auto simp: cell.simps [of depth st] b_def Let_def opening_bracket_def closing_bracket_def split: if_splits)
    moreover have "(if opening_bracket square = CHR ''['' then CHR '']'' else CHR ''}'') = closing_bracket square"
      "opening_bracket square = CHR ''['' \<or> opening_bracket square = CHR ''{''"
      by (simp_all add: opening_bracket_def closing_bracket_def)
    ultimately obtain ts where "ts \<noteq> []" "list_all tree_ok ts" "list_all (fits (depth + 1)) ts"
      "r = separated (map tree_text ts) @ closing_bracket square # unread st'"
      "leaves st' = leaves b + sum_list (map panes_of ts)"
      using "1.IH" [OF _ a b_def r] d by auto
    with h i d r show ?thesis by (intro exI [of _ "Split h i square ts"]) simp
  qed
next
  case (2 close depth st)
  then obtain a where a: "cell (depth + 1) st = Some a" by (auto simp: cells.simps [of close depth st] split: option.splits)
  obtain t where t: "tree_ok t" "fits (depth + 1) t" "unread st = tree_text t @ unread a" "leaves a = leaves st + panes_of t"
    using "2.IH"(1) [OF a] by blast
  show ?case
  proof (cases "syntax_take CHR '','' a")
    case None
    with "2.prems" a have "syntax_take close a = Some st'" by (simp add: cells.simps [of close depth st])
    then have "unread a = close # unread st'" "leaves st' = leaves a"
      by (auto simp: syntax_take_iff) (metis LayoutSyntax.select_convs(2) LayoutSyntax.surjective LayoutSyntax.update_convs(1))
    with t show ?thesis by (intro exI [of _ "[t]"]) simp
  next
    case (Some b)
    with "2.prems" a have "cells close depth b = Some st'" by (simp add: cells.simps [of close depth st])
    then obtain ts where ts: "ts \<noteq> []" "list_all tree_ok ts" "list_all (fits (depth + 1)) ts"
      "unread b = separated (map tree_text ts) @ close # unread st'" "leaves st' = leaves b + sum_list (map panes_of ts)"
      using "2.IH"(2) [OF a Some] by blast
    have "unread a = CHR '','' # unread b" "leaves b = leaves a"
      using Some by (auto simp: syntax_take_iff) (metis LayoutSyntax.select_convs(2) LayoutSyntax.surjective LayoutSyntax.update_convs(1))
    with t ts show ?thesis by (intro exI [of _ "t # ts"]) (simp add: separated_Cons2)
  qed
qed

lemma tree_text_width: "tree_ok t \<Longrightarrow> \<exists>w r. number_text w \<and> tree_text t = w @ CHR ''x'' # r"
  by (cases t) auto

lemma cells_complete:
  assumes "\<And>t d r st. t \<in> set ts \<Longrightarrow> tree_ok t \<Longrightarrow> fits d t \<Longrightarrow> follows r \<Longrightarrow>
      cell d (st\<lparr>unread := tree_text t @ r\<rparr>) = Some (st\<lparr>unread := r, leaves := leaves st + panes_of t\<rparr>)"
    and "ts \<noteq> []" "list_all tree_ok ts" "list_all (fits (depth + 1)) ts" "close = CHR '']'' \<or> close = CHR ''}''"
  shows "cells close depth (st\<lparr>unread := separated (map tree_text ts) @ close # r\<rparr>) =
    Some (st\<lparr>unread := r, leaves := leaves st + sum_list (map panes_of ts)\<rparr>)"
  using assms
proof (induction ts arbitrary: st)
  case (Cons t ts)
  show ?case
  proof (cases "ts = []")
    case True
    have "follows (close # r)" using Cons.prems(5) by (auto simp: follows_def)
    then have "cell (depth + 1) (st\<lparr>unread := tree_text t @ close # r\<rparr>) = Some (st\<lparr>unread := close # r, leaves := leaves st + panes_of t\<rparr>)"
      using Cons.prems by simp
    then show ?thesis using True Cons.prems(5)
      by (auto simp: cells.simps [of close depth] syntax_take_def)
  next
    case False
    let ?rest = "separated (map tree_text ts) @ close # r"
    obtain t' ts' where ts: "ts = t' # ts'" using False by (cases ts) auto
    obtain w r' where w: "number_text w" "tree_text t' = w @ CHR ''x'' # r'"
      using tree_text_width [of t'] Cons.prems(3) ts by auto
    have "\<exists>r''. ?rest = w @ CHR ''x'' # r''"
      using w ts by (cases ts') auto
    then have "follows (CHR '','' # ?rest)" using w(1) by (auto simp: follows_def)
    then have "cell (depth + 1) (st\<lparr>unread := tree_text t @ CHR '','' # ?rest\<rparr>)
        = Some (st\<lparr>unread := CHR '','' # ?rest, leaves := leaves st + panes_of t\<rparr>)"
      using Cons.prems by simp
    moreover have "cells close depth ((st\<lparr>leaves := leaves st + panes_of t\<rparr>)\<lparr>unread := ?rest\<rparr>) =
        Some (st\<lparr>unread := r, leaves := leaves st + panes_of t + sum_list (map panes_of ts)\<rparr>)"
      using Cons.IH [of "st\<lparr>leaves := leaves st + panes_of t\<rparr>"] Cons.prems False by simp
    ultimately show ?thesis using False
      by (simp add: cells.simps [of close depth "st\<lparr>unread := tree_text t @ CHR '','' # ?rest\<rparr>"] separated_Cons2
          syntax_take_def add.assoc)
  qed
qed simp

lemma cell_complete:
  "tree_ok t \<Longrightarrow> fits depth t \<Longrightarrow> follows r \<Longrightarrow>
   cell depth (st\<lparr>unread := tree_text t @ r\<rparr>) = Some (st\<lparr>unread := r, leaves := leaves st + panes_of t\<rparr>)"
proof (induction t arbitrary: depth r st)
  case (Pane h i)
  have id: "\<not> starts_digit (id_text i @ r)" using Pane.prems(3) by (simp add: id_text_not_digit)
  have "\<not> opens r" using Pane.prems(3) by (cases r) (auto simp: follows_def opens_def)
  moreover have "syntax_header (st\<lparr>unread := header_text h @ id_text i @ r\<rparr>) = Some (st\<lparr>unread := id_text i @ r\<rparr>)"
    "syntax_pane_id (st\<lparr>unread := id_text i @ r\<rparr>) = st\<lparr>unread := r\<rparr>"
    using Pane.prems id by (simp_all add: header_then pane_id_then)
  ultimately show ?case using Pane.prems(2)
    by (simp add: cell.simps Let_def opens_def split: list.splits)
next
  case (Split h i square ts)
  let ?r = "opening_bracket square # separated (map tree_text ts) @ closing_bracket square # r"
  have open': "opens ?r" by (simp add: opens_def opening_bracket_def)
  then have id: "\<not> starts_digit (id_text i @ ?r)" by (simp add: id_text_not_digit)
  have "cell depth (st\<lparr>unread := tree_text (Split h i square ts) @ r\<rparr>) =
      cells (closing_bracket square) depth (st\<lparr>unread := separated (map tree_text ts) @ closing_bracket square # r\<rparr>)"
    using Split.prems header_then [OF _ id] pane_id_then [of i ?r] open'
    by (simp add: cell.simps Let_def opening_bracket_def closing_bracket_def)
  also have "\<dots> = Some (st\<lparr>unread := r, leaves := leaves st + sum_list (map panes_of ts)\<rparr>)"
    using Split.prems Split.IH by (intro cells_complete) (auto simp: closing_bracket_def)
  finally show ?case by simp
qed

section \<open>The checksum\<close>

text \<open>The rotating sum as a 16-bit operation.\<close>

definition rotate_add :: "char \<Rightarrow> 16 word \<Rightarrow> 16 word" where
  "rotate_add c s = word_rotr 1 s + word_of_nat (byte c)"

lemma rotate_in_32:
  "or (drop_bit 1 (ucast (s :: 16 word) :: 32 word)) (push_bit 15 (and (ucast s) 1)) = ucast (word_rotr 1 s)"
proof (rule bit_word_eqI)
  fix n assume "n < LENGTH(32)"
  have "n < 15 \<or> n = 15 \<or> n \<ge> 16" by arith
  moreover have "bit (push_bit 15 (and (ucast s) (1 :: 32 word))) n \<longleftrightarrow> n = 15 \<and> bit s 0"
    using \<open>n < LENGTH(32)\<close> by (auto simp: bit_push_bit_iff bit_and_iff bit_1_iff bit_ucast_iff simp del: push_bit_and)
  moreover have "\<not> bit s k" if "16 \<le> k" for k using that bit_imp_le_length [of s k] by auto
  ultimately show "bit (or (drop_bit 1 (ucast s :: 32 word)) (push_bit 15 (and (ucast s) 1))) n = bit (ucast (word_rotr 1 s) :: 32 word) n"
    by (elim disjE) (auto simp: bit_or_iff bit_drop_bit_eq bit_ucast_iff bit_word_rotr_iff simp del: push_bit_and)
qed

lemma mask_add_32:
  "and (ucast (r :: 16 word) + word_of_nat b) 0xffff = (ucast (r + word_of_nat b) :: 32 word)"
  if "b < 256"
proof -
  have r: "unat r < 65536" by (rule u16_bound)
  have mask: "(0xffff :: 32 word) = mask 16" by (simp add: mask_eq_exp_minus_1)
  have "unat (and (ucast r + word_of_nat b) 0xffff :: 32 word) = unat (ucast r + word_of_nat b :: 32 word) mod 65536"
    unfolding mask take_bit_eq_mask [symmetric] unsigned_take_bit_eq by (simp add: take_bit_eq_mod)
  also have "\<dots> = (unat r + b) mod 65536"
    using r that by (simp add: unat_word_ariths unat_of_nat unsigned_ucast_eq take_bit_nat_eq_self)
  also have "\<dots> = unat (ucast (r + word_of_nat b) :: 32 word)"
    using that by (simp add: unat_word_ariths unat_of_nat unsigned_ucast_eq take_bit_nat_eq_self)
  finally show ?thesis by (simp add: word_unat_eq_iff)
qed

lemma checksum_step_rotate: "checksum_step c (ucast s) = ucast (rotate_add c s)"
  using rotate_in_32 [of s] mask_add_32 [of "byte c" "word_rotr 1 s"]
  by (simp add: checksum_step_def rotate_add_def)

lemma layout_checksum_rotate: "layout_checksum s = ucast (fold rotate_add s 0)"
proof -
  have "fold checksum_step s (ucast w) = ucast (fold rotate_add s w)" for w
    by (induction s arbitrary: w) (simp_all add: checksum_step_rotate)
  from this [of 0] show ?thesis by (simp add: layout_checksum_def)
qed

lemma rotr_inj: "word_rotr 1 (a :: 16 word) = word_rotr 1 b \<Longrightarrow> a = b"
proof (rule bit_word_eqI)
  fix n assume eq: "word_rotr 1 a = word_rotr 1 b" and n: "n < LENGTH(16)"
  let ?m = "(n + 15) mod 16"
  have "bit (word_rotr 1 a) ?m = bit (word_rotr 1 b) ?m" using eq by simp
  moreover have "(?m + 1) mod 16 = n" using n by (simp add: mod_Suc_eq)
  ultimately show "bit a n = bit b n" by (simp add: bit_word_rotr_iff)
qed

lemma fold_rotate_inj: "fold rotate_add s a = fold rotate_add s b \<Longrightarrow> a = b"
proof (induction s arbitrary: a b)
  case (Cons c s)
  then have "rotate_add c a = rotate_add c b" by simp
  then show ?case by (simp add: rotate_add_def rotr_inj)
qed simp

lemma checksum_detects:
  assumes "layout_checksum (a @ c # b) = layout_checksum (a @ d # b)"
  shows "c = d"
proof -
  have "unat (ucast w :: 32 word) = unat w" for w :: "16 word"
    using u16_bound [of w] by (simp add: unsigned_ucast_eq take_bit_nat_eq_self)
  then have "fold rotate_add (a @ c # b) 0 = fold rotate_add (a @ d # b) (0 :: 16 word)"
    using assms unfolding layout_checksum_rotate by (metis word_unat_eq_iff)
  then have "rotate_add c (fold rotate_add a 0) = rotate_add d (fold rotate_add a 0)"
    by (simp add: fold_rotate_inj)
  then have "(word_of_nat (byte c) :: 16 word) = word_of_nat (byte d)" by (simp add: rotate_add_def)
  moreover have "unat (word_of_nat (byte e) :: 16 word) = byte e" for e
    using less_trans [OF byte_less [of e], of 65536] by (simp add: unat_of_nat)
  ultimately show ?thesis by (metis byte_inject)
qed

section \<open>Preset names\<close>

lemma named_loop_iff:
  "named_loop s names k \<longleftrightarrow> s \<in> set names \<or> k + length (filter (\<lambda>n. starts_with n s) names) = 1"
  by (induction s names k rule: named_loop.induct) auto

lemma named_layout_iff:
  "named_layout s m \<longleftrightarrow> s \<in> set (known_names m) \<or> length (filter (\<lambda>n. starts_with n s) (known_names m)) = 1"
  by (simp add: named_layout_def named_loop_iff)

lemma known_names_subset: "set (known_names m) \<subseteq> set layout_names"
  by (simp add: known_names_def set_take_subset)

lemma named_prefix:
  assumes "named_layout s m"
  obtains n where "n \<in> set layout_names" "starts_with n s" "s \<noteq> []"
proof -
  have "\<not> named_layout [] b" for b
    by (cases b) (simp_all add: named_layout_def known_names_def layout_names_def)
  then have ne: "s \<noteq> []" using assms by auto
  have "\<exists>n \<in> set (known_names m). starts_with n s"
  proof (cases "s \<in> set (known_names m)")
    case True
    then show ?thesis using starts_with_append [of s "[]"] by auto
  next
    case False
    with assms have "filter (\<lambda>n. starts_with n s) (known_names m) \<noteq> []" by (auto simp: named_layout_iff)
    then show ?thesis by (auto simp: filter_empty_conv)
  qed
  with ne known_names_subset that show ?thesis by blast
qed

lemma named_not_other:
  assumes "named_layout s m"
  shows "\<not> is_json_layout s" "length s < 6 \<or> s ! 4 \<noteq> CHR '',''"
proof -
  obtain n where n: "n \<in> set layout_names" "starts_with n s" "s \<noteq> []" using named_prefix [OF assms] .
  then obtain t where t: "n = s @ t" by (auto elim: starts_withE)
  have "list_all (\<lambda>n. n \<noteq> [] \<and> \<not> layout_space (hd n) \<and> hd n \<noteq> CHR ''{'' \<and> CHR '','' \<notin> set n) layout_names" by code_simp
  with n(1) have "\<not> layout_space (hd n)" "hd n \<noteq> CHR ''{''" "CHR '','' \<notin> set n" by (auto simp: list_all_iff)
  moreover have "hd n = hd s" "set s \<subseteq> set n" using t n(3) by auto
  ultimately have c: "\<not> layout_space (hd s)" "hd s \<noteq> CHR ''{''" "CHR '','' \<notin> set s" by auto
  from c(1,2) n(3) show "\<not> is_json_layout s" by (cases s) (simp_all add: is_json_layout_def)
  show "length s < 6 \<or> s ! 4 \<noteq> CHR '',''"
  proof (rule ccontr)
    assume "\<not> ?thesis"
    then have "4 < length s" "s ! 4 = CHR '',''" by auto
    with nth_mem [of 4 s] c(3) show False by simp
  qed
qed

section \<open>What the JSON reader establishes\<close>

definition json_inv :: "JsonLayoutSyntax \<Rightarrow> bool" where
  "json_inv st \<longleftrightarrow> finite (indexes st) \<and> card (indexes st) = json_leaves st \<and> indexes st \<subseteq> {0..int32_max}
     \<and> active st \<le> 1 \<and> last_panes st \<subseteq> {0..int32_max} \<and> floating st \<subseteq> {0..int32_max - 1}"

lemma json_inv_unread [simp]: "json_inv (st\<lparr>json_unread := u\<rparr>) = json_inv st"
  by (simp add: json_inv_def)

lemma json_take_inv: "json_take c st = Some st' \<Longrightarrow> json_inv st' = json_inv st"
  by (auto simp: json_take_def split: list.splits if_splits)

lemma json_take_keeps: "json_take c st = Some st' \<Longrightarrow> json_inv st \<Longrightarrow> json_inv st'"
  by (simp add: json_take_inv)

lemma json_string_inv: "json_string st = Some (st', text') \<Longrightarrow> json_inv st' = json_inv st"
  by (auto simp: json_string_def dest!: json_take_inv split: option.splits)

lemma scalar_inv: "scalar_value st = Some (st', v) \<Longrightarrow> json_inv st' = json_inv st"
  by (auto simp: scalar_value_def json_number_def Let_def dest!: json_string_inv split: if_splits)

lemma skip_space_inv [simp]: "json_inv (skip_space st) = json_inv st"
  by (simp add: skip_space_def)

lemma pane_marks_fields:
  "pane_marks fields' st = Inr st' \<Longrightarrow> indexes st' = indexes st \<and> json_leaves st' = json_leaves st \<and> floating st' = floating st
     \<and> (active st \<le> 1 \<longrightarrow> active st' \<le> 1) \<and> (last_panes st \<subseteq> {0..int32_max} \<longrightarrow> last_panes st' \<subseteq> {0..int32_max})"
  by (auto simp: pane_marks_def in_range_def Let_def split: if_splits)

lemma pane_cell_inv: "pane_cell fields' st = Inr st' \<Longrightarrow> json_inv st \<Longrightarrow> json_inv st'"
  by (auto simp: pane_cell_def json_inv_def in_range_def Let_def dest!: pane_marks_fields split: if_splits sum.splits)

lemma close_object_inv: "close_object role fields' st = Inr st' \<Longrightarrow> json_inv st \<Longrightarrow> json_inv st'"
  by (auto simp: close_object_def json_cell_def Let_def dest: pane_cell_inv split: Role.splits if_splits)

lemma json_inv_all:
  "json_value role depth st = Inr (st1, v) \<Longrightarrow> json_inv st \<Longrightarrow> json_inv st1"
  "json_items role depth n st = Inr (st2, m) \<Longrightarrow> json_inv st \<Longrightarrow> json_inv st2"
  "json_object role depth st = Inr st3 \<Longrightarrow> json_inv st \<Longrightarrow> json_inv st3"
  "json_members role depth fields' st = Inr st4 \<Longrightarrow> json_inv st \<Longrightarrow> json_inv st4"
proof (induction role depth st and role depth n st and role depth st and role depth fields' st
    arbitrary: st1 v and st2 m and st3 and st4
    rule: json_value_json_items_json_object_json_members.induct)
  case (1 role depth st)
  show ?case
    using "1.prems" "1.IH"
    by (auto simp: json_value.simps [of role depth st] dest: scalar_inv [THEN iffD2] json_take_keeps split: if_splits sum.splits option.splits)
next
  case (2 role depth n st)
  then show ?case
    by (fastforce simp: json_items.simps [of role depth n st] dest: json_take_keeps split: if_splits sum.splits option.splits)
next
  case (3 role depth st)
  then show ?case
    by (auto simp: json_object.simps [of role depth st] dest: json_take_keeps close_object_inv split: if_splits sum.splits option.splits)
next
  case (4 role depth fields' st)
  from "4.prems"(1) obtain a key b c parsed where a: "json_string st = Some (a, key)" and f: "\<not> fields' key \<noteq> None"
    and b: "json_take CHR '':'' a = Some b" and c: "json_value (child_role role key) depth b = Inr (c, parsed)"
    by (auto simp: json_members.simps [of role depth fields' st] split: if_splits option.splits sum.splits prod.splits)
  have inv: "json_inv c"
    using "4.IH"(1) [OF a refl f b c] "4.prems"(2) json_string_inv [OF a] json_take_inv [OF b] by simp
  show ?case
  proof (cases "json_take CHR '','' c")
    case None
    with "4.prems"(1) a f b c obtain d where "json_take CHR ''}'' c = Some d" "close_object role (fields'(key \<mapsto> parsed)) d = Inr st4"
      by (auto simp: json_members.simps [of role depth fields' st] split: option.splits)
    then show ?thesis using close_object_inv json_take_inv inv by blast
  next
    case (Some d)
    with "4.prems"(1) a f b c have "json_members role depth (fields'(key \<mapsto> parsed)) d = Inr st4"
      by (simp add: json_members.simps [of role depth fields' st])
    with "4.IH"(2) [OF a refl f b c refl Some] inv json_take_inv [OF Some] show ?thesis by blast
  qed
qed

section \<open>Properties\<close>

text \<open>
  C26. The saved-layout check accepts exactly the layouts of the grammar: for a text that is neither
  JSON nor a preset name, no error is reported iff it is four hexadecimal digits that are the
  checksum of the rest, a comma, and the text of a layout tree (32-bit numbers, at least one child
  per split, nesting at most 256) with at least as many panes as asked for.
\<close>

theorem saved_layout_grammar:
  assumes "\<not> is_json_layout s" "\<not> named_layout s False" "\<not> named_layout s True"
  shows "layout_error s panes None = None \<longleftrightarrow>
    (\<exists>sum t. s = sum @ '','' @ tree_text t \<and> length sum = 4 \<and>
       expected_loop 0 sum = Some (layout_checksum (tree_text t)) \<and>
       tree_ok t \<and> fits 0 t \<and> panes \<le> panes_of t)"
proof
  assume ok: "layout_error s panes None = None"
  with assms have long: "length s \<ge> 6" "s ! 4 = CHR '',''" and err: "custom_layout_error s panes = None"
    by (auto simp: layout_error_def split: if_splits)
  from err obtain st where e: "expected_loop 0 (take 4 s) = Some (layout_checksum (drop 5 s))"
    and c: "cell 0 \<lparr>unread = drop 5 s, leaves = 0\<rparr> = Some st" and "unread st = []" "panes \<le> leaves st"
    by (auto simp: custom_layout_error_def Let_def split: option.splits if_splits)
  with cell_sound(1) [OF c] obtain t where "tree_ok t" "fits 0 t" "drop 5 s = tree_text t" "panes \<le> panes_of t" by auto
  moreover have "s = take 4 s @ '','' @ drop 5 s"
    using long id_take_nth_drop [of 4 s] by simp
  ultimately show "\<exists>sum t. s = sum @ '','' @ tree_text t \<and> length sum = 4 \<and>
       expected_loop 0 sum = Some (layout_checksum (tree_text t)) \<and> tree_ok t \<and> fits 0 t \<and> panes \<le> panes_of t"
    using e long by (intro exI [of _ "take 4 s"] exI [of _ t]) simp
next
  assume "\<exists>sum t. s = sum @ '','' @ tree_text t \<and> length sum = 4 \<and>
       expected_loop 0 sum = Some (layout_checksum (tree_text t)) \<and> tree_ok t \<and> fits 0 t \<and> panes \<le> panes_of t"
  then obtain sum t where s: "s = sum @ '','' @ tree_text t" "length sum = 4"
    and e: "expected_loop 0 sum = Some (layout_checksum (tree_text t))" and t: "tree_ok t" "fits 0 t" "panes \<le> panes_of t"
    by blast
  have "tree_text t \<noteq> []" using tree_text_width [OF t(1)] by auto
  then have "s \<noteq> []" "length s \<ge> 6" "s ! 4 = CHR '',''" "take 4 s = sum" "drop 5 s = tree_text t"
    using s by (auto simp: nth_append Suc_le_eq)
  moreover have "cell 0 \<lparr>unread = tree_text t, leaves = 0\<rparr> = Some \<lparr>unread = [], leaves = panes_of t\<rparr>"
    using cell_complete [OF t(1,2), of "[]" "\<lparr>unread = [], leaves = 0\<rparr>"] by (simp add: follows_def)
  ultimately show "layout_error s panes None = None"
    using assms e t(3) by (simp add: layout_error_def custom_layout_error_def Let_def)
qed

theorem saved_layout_grammar_witness:
  "layout_error ''bb62,159x48,0,0{79x48,0,0,79x48,80,0}'' 2 None = None"
proof -
  have *: "\<not> is_json_layout ''bb62,159x48,0,0{79x48,0,0,79x48,80,0}''"
    "\<not> named_layout ''bb62,159x48,0,0{79x48,0,0,79x48,80,0}'' False"
    "\<not> named_layout ''bb62,159x48,0,0{79x48,0,0,79x48,80,0}'' True" by code_simp+
  let ?t = "Split (''159'', ''48'', ''0'', ''0'') None False
    [Pane (''79'', ''48'', ''0'', ''0'') None, Pane (''79'', ''48'', ''80'', ''0'') None]"
  have "expected_loop 0 ''bb62'' = Some (layout_checksum (tree_text ?t))" by code_simp
  moreover have "tree_ok ?t" "fits 0 ?t"
    by (simp_all add: number_text_def is_digit_def digit_value_def byte_def)
  moreover have "tree_text ?t = ''159x48,0,0{79x48,0,0,79x48,80,0}''" by code_simp
  ultimately show ?thesis
    unfolding saved_layout_grammar [OF *, of 2] by (intro exI [of _ "''bb62''"] exI [of _ ?t]) simp
qed

text \<open>
  The checksum is the rotating 16-bit sum tmux documents, computed in 32 bits without losing or
  gaining a bit, and it notices every change of a single byte of the layout.
\<close>

theorem layout_checksum_detects:
  "layout_checksum s = ucast (fold rotate_add s 0) \<and>
   (layout_checksum (a @ c # b) = layout_checksum (a @ d # b) \<longleftrightarrow> c = d)"
  using layout_checksum_rotate checksum_detects by auto

text \<open>
  A JSON layout that is accepted describes distinct panes: it was read to its end, it has at
  least one pane and as many pane indexes as panes, at most one active pane, and every index is in
  the range tmux stores it in.
\<close>

theorem json_layout_panes:
  assumes "parse_json_layout layout = Inr st"
  shows "json_unread st = [] \<and> 1 \<le> json_leaves st \<and> card (indexes st) = json_leaves st \<and> active st \<le> 1 \<and>
    indexes st \<subseteq> {0..int32_max} \<and> last_panes st \<subseteq> {0..int32_max} \<and> floating st \<subseteq> {0..int32_max - 1}"
proof -
  let ?st0 = "\<lparr>json_unread = dropWhile layout_space layout, json_leaves = 0, active = 0,
             indexes = {}, floating = {}, last_panes = {}\<rparr>"
  from assms obtain st' where st': "json_object role_root 1 ?st0 = Inr st'" "json_unread (skip_space st') = []"
    "json_leaves st' \<noteq> 0" "st = skip_space st'"
    by (auto simp: parse_json_layout_def split: sum.splits if_splits)
  moreover have "json_inv ?st0" by (simp add: json_inv_def)
  then have "json_inv st'" by (rule json_inv_all(3) [OF st'(1)])
  ultimately show ?thesis by (auto simp: json_inv_def skip_space_def)
qed

theorem json_layout_panes_witness:
  "\<exists>st. parse_json_layout
      (''{'' @ quote ''V'' @ '':2,'' @ quote ''L'' @ '': {'' @ quote ''t'' @ '':'' @ quote ''p'' @ '','' @ quote ''w'' @ '':80,''
       @ quote ''h'' @ '':24,'' @ quote ''x'' @ '':0,'' @ quote ''y'' @ '':-3,'' @ quote ''i'' @ '':7}}'') = Inr st \<and>
    json_leaves st = 1 \<and> card (indexes st) = 1"
proof -
  let ?s = "''{'' @ quote ''V'' @ '':2,'' @ quote ''L'' @ '': {'' @ quote ''t'' @ '':'' @ quote ''p'' @ '','' @ quote ''w'' @ '':80,''
       @ quote ''h'' @ '':24,'' @ quote ''x'' @ '':0,'' @ quote ''y'' @ '':-3,'' @ quote ''i'' @ '':7}}''"
  have "map_sum id json_leaves (parse_json_layout ?s) = Inr 1" by code_simp
  then obtain st where st: "parse_json_layout ?s = Inr st" "json_leaves st = 1"
    by (cases "parse_json_layout ?s") auto
  from json_layout_panes [OF st(1)] st show ?thesis by auto
qed

text \<open>
  A preset name, or a prefix that is unique among the presets of some release, is refused on a
  tmux exactly when it does not name one preset there: the mirrored presets exist from 3.5 on, which
  also makes some prefixes ambiguous.
\<close>

theorem preset_by_version:
  assumes "named_layout s False \<or> named_layout s True"
  shows "layout_refusal v s = None \<longleftrightarrow> named_layout s (version_ge v (release 3 5 0))"
proof -
  let ?m = "version_ge v (release 3 5 0)"
  have since: "rel_version (cap_since (capability layout_mirrored_main)) = release 3 5 0"
    by (simp add: capability_def find_capability_def kCapabilities_def kTmux35_def)
  have not: "\<not> is_json_layout s" "length s < 6 \<or> s ! 4 \<noteq> CHR '',''" "s \<noteq> []"
    using assms named_not_other named_prefix by metis+
  then have "validate_layout s 1 = Inr ()" using assms by (simp add: validate_layout_def layout_error_def)
  moreover have "layout_error s 1 (Some ?m) = None \<longleftrightarrow> named_layout s ?m"
    using not by (auto simp: layout_error_def)
  moreover have "named_layout s ?m" if "named_layout s False = named_layout s True"
    using that assms by (cases ?m) auto
  ultimately show ?thesis
    using not by (auto simp: layout_refusal_def version_refusal_def since layout_needs_version_def Let_def)
qed

theorem preset_by_version_witness:
  "layout_refusal (release 3 4 0) ''main-v'' = None \<and> layout_refusal (release 3 5 0) ''main-v'' \<noteq> None"
proof -
  have "named_layout ''main-v'' False" "\<not> named_layout ''main-v'' True"
    "\<not> version_ge (release 3 4 0) (release 3 5 0)" "version_ge (release 3 5 0) (release 3 5 0)" by code_simp+
  then show ?thesis using preset_by_version [of "''main-v''"] by simp
qed

text \<open>
  A batch of layouts is accepted iff each layout is valid by itself and, when at least one of them
  depends on the release, the release is known and refuses none of them.
\<close>

theorem validate_layouts_iff:
  "validate_layouts backend_version layouts = Inr () \<longleftrightarrow>
     (\<forall>r \<in> set layouts. validate_layout (layout_text r) (minimum_panes r) = Inr ()) \<and>
     ((\<exists>r \<in> set layouts. layout_needs_version (layout_text r)) \<longrightarrow>
       (\<exists>v. backend_version () = Inr v \<and> (\<forall>r \<in> set layouts. version_refusal v r = None)))"
proof -
  have checked: "(\<exists>m. check_syntax i rs marked = Inr m) \<longleftrightarrow>
      (\<forall>r \<in> set rs. validate_layout (layout_text r) (minimum_panes r) = Inr ())" for i rs marked
    by (induction i rs marked rule: check_syntax.induct) (auto split: sum.splits)
  have marks: "check_syntax i rs marked = Inr m \<Longrightarrow>
      m = None \<longleftrightarrow> marked = None \<and> (\<forall>r \<in> set rs. \<not> layout_needs_version (layout_text r))" for i rs marked m
    by (induction i rs marked rule: check_syntax.induct) (auto split: sum.splits if_splits)
  have versions: "check_versions v i rs = Inr () \<longleftrightarrow> (\<forall>r \<in> set rs. version_refusal v r = None)" for v i rs
    by (induction v i rs rule: check_versions.induct) (auto split: option.splits)
  show ?thesis
  proof (cases "check_syntax 0 layouts None")
    case (Inl f)
    then have "\<not> (\<forall>r \<in> set layouts. validate_layout (layout_text r) (minimum_panes r) = Inr ())"
      using checked [of 0 layouts None] by auto
    with Inl show ?thesis by (simp add: validate_layouts_def)
  next
    case (Inr m)
    with checked [of 0 layouts None] marks [OF Inr] versions show ?thesis
      by (cases m) (auto simp: validate_layouts_def split: sum.splits)
  qed
qed

theorem validate_layouts_iff_witness:
  "validate_layouts (\<lambda>_. Inr (release 3 6 0))
     [\<lparr>layout_text = ''tiled'', minimum_panes = 4\<rparr>, \<lparr>layout_text = ''main-vertical-mirrored'', minimum_panes = 2\<rparr>] = Inr ()"
proof -
  have "validate_layout ''tiled'' 4 = Inr ()" "validate_layout ''main-vertical-mirrored'' 2 = Inr ()"
    "version_refusal (release 3 6 0) \<lparr>layout_text = ''tiled'', minimum_panes = 4\<rparr> = None"
    "version_refusal (release 3 6 0) \<lparr>layout_text = ''main-vertical-mirrored'', minimum_panes = 2\<rparr> = None"
    by code_simp+
  then show ?thesis by (simp add: validate_layouts_iff)
qed

end
