(* ===== verification/Chains.thy ===== *)
theory Chains
  imports Commands
begin

text \<open>
  Targets (\<open>include/libtmux/target.hpp\<close>), key names (\<open>include/libtmux/keys.hpp\<close>), batches
  (\<open>include/libtmux/batch.hpp\<close>) and the fluent builder over them (\<open>include/libtmux/chain.hpp\<close>).

  A chain is a record of its batch and its first error; every step returns the chain it leaves.
\<close>

section \<open>Targets\<close>

datatype TargetError = empty_name | separator_in_name

definition is_pane_id :: "string \<Rightarrow> bool" where
  "is_pane_id s \<longleftrightarrow> length s > 1 \<and> hd s = CHR ''%''"

definition is_window_id :: "string \<Rightarrow> bool" where
  "is_window_id s \<longleftrightarrow> length s > 1 \<and> hd s = CHR ''@''"

definition is_session_id :: "string \<Rightarrow> bool" where
  "is_session_id s \<longleftrightarrow> length s > 1 \<and> hd s = CHR ''$''"

definition path_component :: "string \<Rightarrow> (TargetError, string) expected" where
  "path_component name =
     (if name = [] then Inl empty_name
      else if list_ex (\<lambda>c. c = CHR '':'' \<or> c = CHR ''.'') name then Inl separator_in_name
      else Inr name)"

definition session_target :: "string \<Rightarrow> (TargetError, string) expected" where
  "session_target session = (if is_session_id session then Inr session else path_component session)"

definition window_target :: "string \<Rightarrow> string \<Rightarrow> (TargetError, string) expected" where
  "window_target session window =
     (if is_window_id window then Inr window
      else case session_target session of
        Inl e \<Rightarrow> Inl e
      | Inr left \<Rightarrow> (case path_component window of Inl e \<Rightarrow> Inl e | Inr right \<Rightarrow> Inr (left @ '':'' @ right)))"

definition pane_target :: "string \<Rightarrow> string \<Rightarrow> string \<Rightarrow> (TargetError, string) expected" where
  "pane_target session window pane =
     (if is_pane_id pane then Inr pane
      else case window_target session window of
        Inl e \<Rightarrow> Inl e
      | Inr left \<Rightarrow> (case path_component pane of Inl e \<Rightarrow> Inl e | Inr right \<Rightarrow> Inr (left @ ''.'' @ right)))"

section \<open>Keys\<close>

datatype KeyError = key_empty | key_unknown_name

definition kNamedKeys :: "string list" where
  "kNamedKeys = [''BSpace'', ''BTab'', ''DC'', ''Delete'', ''Down'', ''End'', ''Enter'', ''Escape'', ''Home'',
     ''IC'', ''Insert'', ''KP*'', ''KP+'', ''KP-'', ''KP.'', ''KP/'', ''KP0'', ''KP1'', ''KP2'', ''KP3'',
     ''KP4'', ''KP5'', ''KP6'', ''KP7'', ''KP8'', ''KP9'', ''KPEnter'', ''Left'', ''NPage'', ''PPage'',
     ''PageDown'', ''PageUp'', ''PgDn'', ''PgUp'', ''Right'', ''Space'', ''Tab'', ''Up'']"

fun function_digits :: "32 word \<Rightarrow> string \<Rightarrow> 32 word option" where
  "function_digits v [] = Some v"
| "function_digits v (c # cs) =
     (if \<not> is_digit c then None else function_digits (v * 10 + word_of_nat (digit_value c)) cs)"

definition is_function_key :: "string \<Rightarrow> bool" where
  "is_function_key name =
     (if length name < 2 \<or> hd name \<noteq> CHR ''F'' then False
      else if length (tl name) > 2 then False
      else case function_digits 0 (tl name) of
        None \<Rightarrow> False
      | Some v \<Rightarrow> v \<ge> 1 \<and> v \<le> 12)"

fun strip_modifiers :: "string \<Rightarrow> string" where
  "strip_modifiers (m # d # c # key) =
     (if d = CHR ''-'' \<and> (m = CHR ''C'' \<or> m = CHR ''M'' \<or> m = CHR ''S'')
      then strip_modifiers (c # key) else m # d # c # key)"
| "strip_modifiers key = key"

definition base_key :: "string \<Rightarrow> bool" where
  "base_key key =
     (if key = [] then False
      else if length key = 1 then byte (hd key) \<ge> 0x20
      else if is_function_key key then True
      else key \<in> set kNamedKeys)"

definition is_key_name :: "string \<Rightarrow> bool" where
  "is_key_name key = base_key (strip_modifiers key)"

definition literal_arguments :: "string \<Rightarrow> (KeyError, string list) expected" where
  "literal_arguments s = (if s = [] then Inl key_empty else Inr [''-l'', ''--'', s])"

section \<open>Batches\<close>

type_synonym CommandBatch = "CommandRequest list"

definition batch_add :: "CommandBatch \<Rightarrow> CommandRequest \<Rightarrow> CommandBatch \<times> bool" where
  "batch_add b command = (if command = [] then (b, False) else (b @ [command], True))"

fun batch_loop :: "CommandRequest \<Rightarrow> CommandBatch \<Rightarrow> CommandRequest" where
  "batch_loop result [] = result"
| "batch_loop result (command # commands) =
     batch_loop ((if result \<noteq> [] then result @ [plain_argument kCommandSeparator] else result) @ command) commands"

definition batch_request :: "CommandBatch \<Rightarrow> CommandRequest" where
  "batch_request b = batch_loop [] b"

definition batch_argv :: "CommandBatch \<Rightarrow> string list" where
  "batch_argv b = argv (batch_request b)"

section \<open>Chains\<close>

record Chain =
  batch :: CommandBatch
  chain_error :: string

definition empty_chain :: Chain where
  "empty_chain = \<lparr>batch = [], chain_error = []\<rparr>"

definition valid_chain :: "Chain \<Rightarrow> bool" where
  "valid_chain c \<longleftrightarrow> chain_error c = []"

definition chain_add :: "string list \<Rightarrow> Chain \<Rightarrow> Chain" where
  "chain_add command c =
     (if chain_error c = [] then
        (let (b, ok) = batch_add (batch c) (request_of command) in
         if ok then c\<lparr>batch := b\<rparr> else c\<lparr>chain_error := ''empty command''\<rparr>)
      else c)"

definition chain_fail :: "string \<Rightarrow> Chain \<Rightarrow> Chain" where
  "chain_fail reason c = (if chain_error c = [] then c\<lparr>chain_error := reason\<rparr> else c)"

definition new_session :: "string \<Rightarrow> bool \<Rightarrow> Chain \<Rightarrow> Chain" where
  "new_session name detached c = (case session_target name of
     Inl _ \<Rightarrow> chain_fail ''session name cannot address itself'' c
   | Inr target \<Rightarrow> chain_add ([''new-session'', ''-s'', target] @ (if detached then [''-d''] else [])) c)"

definition new_window :: "string \<Rightarrow> string \<Rightarrow> Chain \<Rightarrow> Chain" where
  "new_window session name c = (case session_target session of
     Inl _ \<Rightarrow> chain_fail ''session name cannot address itself'' c
   | Inr target \<Rightarrow> (case path_component name of
       Inl _ \<Rightarrow> chain_fail ''window name cannot address itself'' c
     | Inr _ \<Rightarrow> chain_add [''new-window'', ''-t'', target, ''-n'', name] c))"

definition split_window :: "string \<Rightarrow> string \<Rightarrow> Chain \<Rightarrow> Chain" where
  "split_window session window c = (case window_target session window of
     Inl _ \<Rightarrow> chain_fail ''window target cannot be addressed'' c
   | Inr target \<Rightarrow> chain_add [''split-window'', ''-t'', target] c)"

definition send_text :: "string \<Rightarrow> string \<Rightarrow> Chain \<Rightarrow> Chain" where
  "send_text target s c = (case literal_arguments s of
     Inl _ \<Rightarrow> chain_fail ''text to send is empty'' c
   | Inr arguments \<Rightarrow> chain_add ([''send-keys'', ''-t'', target] @ arguments) c)"

definition send_key :: "string \<Rightarrow> string \<Rightarrow> Chain \<Rightarrow> Chain" where
  "send_key target key c =
     (if \<not> is_key_name key then chain_fail (''unknown key name: '' @ key) c
      else chain_add [''send-keys'', ''-t'', target, key] c)"

definition chain_command :: "string list \<Rightarrow> Chain \<Rightarrow> Chain" where
  "chain_command command c = chain_add command c"

section \<open>Targets read back\<close>

text \<open>A target as tmux splits it: the session up to the first colon, the window up to the first dot
  after it, the rest the pane.\<close>

definition split_target :: "string \<Rightarrow> (string \<times> string \<times> string) option" where
  "split_target t = (case str_find CHR '':'' t of
     None \<Rightarrow> None
   | Some i \<Rightarrow> (case str_find CHR ''.'' (drop (Suc i) t) of
       None \<Rightarrow> None
     | Some j \<Rightarrow> Some (take i t, take j (drop (Suc i) t), drop (Suc j) (drop (Suc i) t))))"

definition separator_free :: "string \<Rightarrow> bool" where
  "separator_free s \<longleftrightarrow> s \<noteq> [] \<and> CHR '':'' \<notin> set s \<and> CHR ''.'' \<notin> set s"

lemma path_component_iff: "path_component s = Inr t \<longleftrightarrow> separator_free s \<and> t = s"
  by (auto simp: path_component_def separator_free_def list_ex_iff)

lemma path_component_cases: "path_component s = (if separator_free s then Inr s
    else Inl (if s = [] then empty_name else TargetError.separator_in_name))"
  by (auto simp: path_component_def separator_free_def list_ex_iff)

lemma split_target_parts:
  assumes "separator_free s" "separator_free w" "separator_free p"
  shows "split_target (s @ '':'' @ w @ ''.'' @ p) = Some (s, w, p)"
proof -
  have "str_find CHR '':'' (s @ CHR '':'' # w @ CHR ''.'' # p) = Some (length s)"
    "str_find CHR ''.'' (w @ CHR ''.'' # p) = Some (length w)"
    using assms by (simp_all add: separator_free_def str_find_append)
  then show ?thesis by (simp add: split_target_def)
qed

section \<open>The builder\<close>

text \<open>
  The contract every step of a chain meets: on a chain that has failed it does nothing; on a valid
  one it either appends exactly one non-empty command or records a reason and appends none.
\<close>

locale chain_step =
  fixes step :: "Chain \<Rightarrow> Chain" and command :: "string list option"
  assumes failed: "\<not> valid_chain c \<Longrightarrow> step c = c"
    and appends: "valid_chain c \<Longrightarrow> command = Some a \<Longrightarrow> a \<noteq> [] \<and> step c = c\<lparr>batch := batch c @ [request_of a]\<rparr>"
    and refuses: "valid_chain c \<Longrightarrow> command = None \<Longrightarrow> batch (step c) = batch c \<and> \<not> valid_chain (step c)"
begin

lemma batch_grows: "batch (step c) = batch c @ (if valid_chain c then map request_of (case command of None \<Rightarrow> [] | Some a \<Rightarrow> [a]) else [])"
  using failed appends refuses by (cases "valid_chain c"; cases command) auto

lemma stays_valid: "valid_chain (step c) \<longleftrightarrow> valid_chain c \<and> command \<noteq> None"
  using failed [of c] appends [of c] refuses [of c] by (cases "valid_chain c"; cases command) (auto simp: valid_chain_def)

end

lemma request_of_Nil [simp]: "request_of a = [] \<longleftrightarrow> a = []"
  by (simp add: request_of_def)

lemma chain_add_step: "a \<noteq> [] \<Longrightarrow> chain_step (chain_add a) (Some a)"
  by unfold_locales (auto simp: chain_add_def valid_chain_def batch_add_def)

lemma chain_fail_step: "r \<noteq> [] \<Longrightarrow> chain_step (chain_fail r) None"
  by unfold_locales (auto simp: chain_fail_def valid_chain_def)

definition session_command :: "string \<Rightarrow> bool \<Rightarrow> string list option" where
  "session_command name detached = (if is_session_id name \<or> separator_free name
     then Some ([''new-session'', ''-s'', name] @ (if detached then [''-d''] else [])) else None)"

definition window_command :: "string \<Rightarrow> string \<Rightarrow> string list option" where
  "window_command session name = (if (is_session_id session \<or> separator_free session) \<and> separator_free name
     then Some [''new-window'', ''-t'', session, ''-n'', name] else None)"

definition split_command :: "string \<Rightarrow> string \<Rightarrow> string list option" where
  "split_command session window = (if is_window_id window then Some [''split-window'', ''-t'', window]
     else if (is_session_id session \<or> separator_free session) \<and> separator_free window
     then Some [''split-window'', ''-t'', session @ '':'' @ window] else None)"

definition text_command :: "string \<Rightarrow> string \<Rightarrow> string list option" where
  "text_command target s = (if s \<noteq> [] then Some [''send-keys'', ''-t'', target, ''-l'', ''--'', s] else None)"

definition key_command :: "string \<Rightarrow> string \<Rightarrow> string list option" where
  "key_command target key = (if is_key_name key then Some [''send-keys'', ''-t'', target, key] else None)"

lemmas step_rules = chain_add_step chain_fail_step

interpretation new_session: chain_step "new_session name detached" "session_command name detached"
proof -
  have "new_session name detached = (case session_command name detached of
      None \<Rightarrow> chain_fail ''session name cannot address itself'' | Some a \<Rightarrow> chain_add a)"
    by (auto simp: fun_eq_iff new_session_def session_command_def session_target_def path_component_cases)
  then show "chain_step (new_session name detached) (session_command name detached)"
    by (auto simp: session_command_def intro!: step_rules)
qed

interpretation new_window: chain_step "new_window session name" "window_command session name"
proof -
  have "new_window session name = (case window_command session name of
      None \<Rightarrow> chain_fail (if is_session_id session \<or> separator_free session
        then ''window name cannot address itself'' else ''session name cannot address itself'') | Some a \<Rightarrow> chain_add a)"
    by (auto simp: fun_eq_iff new_window_def window_command_def session_target_def path_component_cases)
  then show "chain_step (new_window session name) (window_command session name)"
    by (auto simp: window_command_def intro!: step_rules)
qed

interpretation split_window: chain_step "split_window session window" "split_command session window"
proof -
  have "split_window session window = (case split_command session window of
      None \<Rightarrow> chain_fail ''window target cannot be addressed'' | Some a \<Rightarrow> chain_add a)"
    by (auto simp: fun_eq_iff split_window_def split_command_def window_target_def session_target_def path_component_cases)
  then show "chain_step (split_window session window) (split_command session window)"
    by (auto simp: split_command_def intro!: step_rules)
qed

interpretation send_text: chain_step "send_text target s" "text_command target s"
proof -
  have "send_text target s = (case text_command target s of
      None \<Rightarrow> chain_fail ''text to send is empty'' | Some a \<Rightarrow> chain_add a)"
    by (auto simp: fun_eq_iff send_text_def text_command_def literal_arguments_def)
  then show "chain_step (send_text target s) (text_command target s)"
    by (auto simp: text_command_def intro!: step_rules)
qed

interpretation send_key: chain_step "send_key target key" "key_command target key"
proof -
  have "send_key target key = (case key_command target key of
      None \<Rightarrow> chain_fail (''unknown key name: '' @ key) | Some a \<Rightarrow> chain_add a)"
    by (auto simp: fun_eq_iff send_key_def key_command_def)
  then show "chain_step (send_key target key) (key_command target key)"
    by (auto simp: key_command_def intro!: step_rules)
qed

text \<open>A chain as the list of steps a caller wrote.\<close>

datatype Step = NewSession string bool | NewWindow string string | SplitWindow string string
  | SendText string string | SendKey string string | Literal "string list"

fun apply_step :: "Step \<Rightarrow> Chain \<Rightarrow> Chain" where
  "apply_step (NewSession name detached) = new_session name detached"
| "apply_step (NewWindow session name) = new_window session name"
| "apply_step (SplitWindow session window) = split_window session window"
| "apply_step (SendText target s) = send_text target s"
| "apply_step (SendKey target key) = send_key target key"
| "apply_step (Literal a) = chain_command a"

fun step_command :: "Step \<Rightarrow> string list option" where
  "step_command (NewSession name detached) = session_command name detached"
| "step_command (NewWindow session name) = window_command session name"
| "step_command (SplitWindow session window) = split_command session window"
| "step_command (SendText target s) = text_command target s"
| "step_command (SendKey target key) = key_command target key"
| "step_command (Literal a) = (if a = [] then None else Some a)"

interpretation literal: chain_step "chain_command a" "if a = [] then None else Some a"
proof -
  have "chain_command a = (if a = [] then chain_fail ''empty command'' else chain_add a)"
    by (auto simp: fun_eq_iff chain_command_def chain_add_def batch_add_def chain_fail_def)
  then show "chain_step (chain_command a) (if a = [] then None else Some a)"
    by (auto intro!: step_rules)
qed

interpretation any_step: chain_step "apply_step s" "step_command s"
  by (cases s) (simp_all add: new_session.chain_step_axioms new_window.chain_step_axioms
    split_window.chain_step_axioms send_text.chain_step_axioms send_key.chain_step_axioms literal.chain_step_axioms)

lemma fold_steps:
  "valid_chain (fold apply_step steps c) \<longleftrightarrow> valid_chain c \<and> (\<forall>s \<in> set steps. step_command s \<noteq> None)"
  "batch (fold apply_step steps c) = batch c @ (if valid_chain c
     then map (\<lambda>s. request_of (the (step_command s))) (takeWhile (\<lambda>s. step_command s \<noteq> None) steps) else [])"
  by (induction steps arbitrary: c)
    (auto simp: any_step.stays_valid any_step.batch_grows split: option.splits)

section \<open>Key names\<close>

lemma strip_modifiers_id: "base_key b \<Longrightarrow> strip_modifiers b = b"
proof -
  assume b: "base_key b"
  have "\<not> (\<exists>m k. b = m # CHR ''-'' # k \<and> length b > 2 \<and> (m = CHR ''C'' \<or> m = CHR ''M'' \<or> m = CHR ''S''))"
  proof
    assume "\<exists>m k. b = m # CHR ''-'' # k \<and> length b > 2 \<and> (m = CHR ''C'' \<or> m = CHR ''M'' \<or> m = CHR ''S'')"
    then obtain m k where mk: "b = m # CHR ''-'' # k" "length b > 2" "m = CHR ''C'' \<or> m = CHR ''M'' \<or> m = CHR ''S''" by blast
    then have "\<not> is_function_key b" by (auto simp: is_function_key_def)
    with b mk have "b \<in> set kNamedKeys" by (auto simp: base_key_def)
    moreover have "list_all (\<lambda>n. length n > 2 \<longrightarrow> n ! 1 \<noteq> CHR ''-'') kNamedKeys" by code_simp
    ultimately show False using mk by (auto simp: list_all_iff)
  qed
  then show ?thesis by (cases b rule: strip_modifiers.cases) auto
qed

lemma strip_modifiers_modifier:
  "m \<in> {CHR ''C'', CHR ''M'', CHR ''S''} \<Longrightarrow> k \<noteq> [] \<Longrightarrow> strip_modifiers (m # CHR ''-'' # k) = strip_modifiers k"
  by (cases k) auto

lemma strip_modifiers_prefix:
  "\<exists>ms. set ms \<subseteq> {CHR ''C'', CHR ''M'', CHR ''S''} \<and> k = concat (map (\<lambda>m. [m, CHR ''-'']) ms) @ strip_modifiers k"
proof (induction k rule: strip_modifiers.induct)
  case (1 m d c key)
  show ?case
  proof (cases "d = CHR ''-'' \<and> (m = CHR ''C'' \<or> m = CHR ''M'' \<or> m = CHR ''S'')")
    case True
    with 1 obtain ms where "set ms \<subseteq> {CHR ''C'', CHR ''M'', CHR ''S''}"
      "c # key = concat (map (\<lambda>m. [m, CHR ''-'']) ms) @ strip_modifiers (c # key)" by blast
    with True show ?thesis by (intro exI [of _ "m # ms"]) auto
  qed (auto intro: exI [of _ "[]"])
qed (auto intro: exI [of _ "[]"])

section \<open>Properties\<close>

text \<open>
  A composed target addresses what it was composed from: a pane target built from names is split
  by tmux into exactly those names, and it is refused exactly when a name is empty or holds one of
  the separators it would be re-read at.
\<close>

theorem pane_target_roundtrip:
  assumes "\<not> is_session_id s" "\<not> is_window_id w" "\<not> is_pane_id p"
  shows "(pane_target s w p = Inr t \<longrightarrow> split_target t = Some (s, w, p)) \<and>
    (has_value (pane_target s w p) \<longleftrightarrow> separator_free s \<and> separator_free w \<and> separator_free p)"
  using assms split_target_parts [of s w p]
  by (auto simp: pane_target_def window_target_def session_target_def path_component_cases split: if_splits)

theorem pane_target_roundtrip_witness:
  "pane_target ''work'' ''editor'' ''2'' = Inr ''work:editor.2'' \<and>
   split_target ''work:editor.2'' = Some (''work'', ''editor'', ''2'')"
proof -
  have "pane_target ''work'' ''editor'' ''2'' = Inr ''work:editor.2''" by code_simp
  then show ?thesis
    using pane_target_roundtrip [of "''work''" "''editor''" "''2''" "''work:editor.2''"]
    by (simp add: is_session_id_def is_window_id_def is_pane_id_def)
qed

text \<open>
  A key name is any run of \<open>C-\<close>, \<open>M-\<close> and \<open>S-\<close> modifiers before a base key, and nothing else: a
  base key is one byte that is not a control byte, a function key from 1 to 12, or a name of the
  table.
\<close>

theorem is_key_name_iff:
  "is_key_name k \<longleftrightarrow>
     (\<exists>ms b. set ms \<subseteq> {CHR ''C'', CHR ''M'', CHR ''S''} \<and> k = concat (map (\<lambda>m. [m, CHR ''-'']) ms) @ b \<and> base_key b)"
proof
  assume "is_key_name k"
  then show "\<exists>ms b. set ms \<subseteq> {CHR ''C'', CHR ''M'', CHR ''S''} \<and> k = concat (map (\<lambda>m. [m, CHR ''-'']) ms) @ b \<and> base_key b"
    using strip_modifiers_prefix [of k] by (auto simp: is_key_name_def)
next
  assume "\<exists>ms b. set ms \<subseteq> {CHR ''C'', CHR ''M'', CHR ''S''} \<and> k = concat (map (\<lambda>m. [m, CHR ''-'']) ms) @ b \<and> base_key b"
  then obtain ms b where ms: "set ms \<subseteq> {CHR ''C'', CHR ''M'', CHR ''S''}" and k: "k = concat (map (\<lambda>m. [m, CHR ''-'']) ms) @ b"
    and b: "base_key b" by blast
  have "strip_modifiers (concat (map (\<lambda>m. [m, CHR ''-'']) ms) @ b) = b"
    using ms
  proof (induction ms)
    case Nil
    then show ?case using strip_modifiers_id [OF b] by simp
  next
    case (Cons m ms)
    have "b \<noteq> []" using b by (auto simp: base_key_def)
    with Cons strip_modifiers_modifier [of m "concat (map (\<lambda>m. [m, CHR ''-'']) ms) @ b"] show ?case by simp
  qed
  then show "is_key_name k" using b k by (simp add: is_key_name_def)
qed

text \<open>
  A chain is all or nothing for its caller: it is valid iff every step written could be expressed,
  its batch then holds one command per step in order, and from the first step that could not be
  expressed on, nothing more is added.
\<close>

theorem chain_batch:
  "(valid_chain (fold apply_step steps empty_chain) \<longleftrightarrow> (\<forall>s \<in> set steps. step_command s \<noteq> None)) \<and>
   batch (fold apply_step steps empty_chain) =
     map (\<lambda>s. request_of (the (step_command s))) (takeWhile (\<lambda>s. step_command s \<noteq> None) steps)"
  by (simp add: fold_steps) (simp add: empty_chain_def valid_chain_def)

theorem chain_batch_witness:
  "batch (fold apply_step [NewSession ''a'' True, SendKey ''a'' ''Nope'', SendText ''a'' ''x''] empty_chain) =
     [request_of [''new-session'', ''-s'', ''a'', ''-d'']]"
proof -
  have "step_command (NewSession ''a'' True) = Some [''new-session'', ''-s'', ''a'', ''-d'']"
    "step_command (SendKey ''a'' ''Nope'') = None" by code_simp+
  then show ?thesis
    unfolding chain_batch [THEN conjunct2] by simp
qed

end
