(* ===== verification/Literal_Commands.thy ===== *)
theory Literal_Commands
  imports Layouts Chains
begin

text \<open>
  The check on commands a caller writes by hand (\<open>src/support_commands.cpp\<close>): tmux's command table
  and the resolution of a word against it, the splitting of an argv into the commands tmux would
  run, the splitting of a command into flags and operands, and the refusals the registry asks for
  on the release that is running.
\<close>

section \<open>The command table\<close>

type_synonym Entry = "string \<times> string"

definition kTable :: "Entry list" where
  "kTable = [
     (''attach-session'', ''attach''),
     (''bind-key'', ''bind''),
     (''break-pane'', ''breakp''),
     (''capture-pane'', ''capturep''),
     (''choose-buffer'', []),
     (''choose-client'', []),
     (''choose-tree'', []),
     (''clear-history'', ''clearhist''),
     (''clear-prompt-history'', ''clearphist''),
     (''clock-mode'', []),
     (''command-prompt'', []),
     (''confirm-before'', ''confirm''),
     (''copy-mode'', []),
     (''customize-mode'', []),
     (''delete-buffer'', ''deleteb''),
     (''detach-client'', ''detach''),
     (''display-menu'', ''menu''),
     (''display-message'', ''display''),
     (''display-popup'', ''popup''),
     (''display-panes'', ''displayp''),
     (''find-window'', ''findw''),
     (''has-session'', ''has''),
     (''if-shell'', ''if''),
     (''join-pane'', ''joinp''),
     (''kill-pane'', ''killp''),
     (''kill-server'', []),
     (''kill-session'', []),
     (''kill-window'', ''killw''),
     (''last-pane'', ''lastp''),
     (''last-window'', ''last''),
     (''link-window'', ''linkw''),
     (''list-buffers'', ''lsb''),
     (''list-clients'', ''lsc''),
     (''list-commands'', ''lscm''),
     (''list-keys'', ''lsk''),
     (''list-panes'', ''lsp''),
     (''list-sessions'', ''ls''),
     (''list-windows'', ''lsw''),
     (''load-buffer'', ''loadb''),
     (''lock-client'', ''lockc''),
     (''lock-server'', ''lock''),
     (''lock-session'', ''locks''),
     (''move-pane'', ''movep''),
     (''move-window'', ''movew''),
     (''new-pane'', ''newp''),
     (''new-session'', ''new''),
     (''new-window'', ''neww''),
     (''next-layout'', ''nextl''),
     (''next-window'', ''next''),
     (''paste-buffer'', ''pasteb''),
     (''pipe-pane'', ''pipep''),
     (''previous-layout'', ''prevl''),
     (''previous-window'', ''prev''),
     (''refresh-client'', ''refresh''),
     (''rename-session'', ''rename''),
     (''rename-window'', ''renamew''),
     (''resize-pane'', ''resizep''),
     (''resize-window'', ''resizew''),
     (''respawn-pane'', ''respawnp''),
     (''respawn-window'', ''respawnw''),
     (''rotate-window'', ''rotatew''),
     (''run-shell'', ''run''),
     (''save-buffer'', ''saveb''),
     (''select-layout'', ''selectl''),
     (''select-pane'', ''selectp''),
     (''select-window'', ''selectw''),
     (''send-keys'', ''send''),
     (''send-prefix'', []),
     (''server-access'', []),
     (''set-buffer'', ''setb''),
     (''set-environment'', ''setenv''),
     (''set-hook'', []),
     (''set-option'', ''set''),
     (''set-window-option'', ''setw''),
     (''show-buffer'', ''showb''),
     (''show-environment'', ''showenv''),
     (''show-hooks'', []),
     (''show-messages'', ''showmsgs''),
     (''show-options'', ''show''),
     (''show-prompt-history'', ''showphist''),
     (''show-window-options'', ''showw''),
     (''source-file'', ''source''),
     (''split-window'', ''splitw''),
     (''start-server'', ''start''),
     (''suspend-client'', ''suspendc''),
     (''swap-pane'', ''swapp''),
     (''swap-window'', ''swapw''),
     (''switch-client'', ''switchc''),
     (''switch-mode'', []),
     (''unbind-key'', ''unbind''),
     (''unlink-window'', ''unlinkw''),
     (''wait-for'', ''wait'')]"

definition kValued :: "(string \<times> string) list" where
  "kValued = [
     (''break-pane'', ''FnstxXyY''),
     (''delete-buffer'', ''b''),
     (''new-session'', ''cefFnstxy''),
     (''new-window'', ''cenFt''),
     (''refresh-client'', ''ABCFfrt''),
     (''rename-session'', ''t''),
     (''rename-window'', ''t''),
     (''select-layout'', ''t''),
     (''set-buffer'', ''btn'')]"

text \<open>\<open>resolve\<close>: \<open>found\<close> and \<open>ambiguous\<close> are the two variables of the loop, and the two \<open>break\<close>s
  leave it.\<close>

fun resolve_loop :: "string \<Rightarrow> Entry list \<Rightarrow> Entry option \<Rightarrow> bool \<Rightarrow> Entry option \<times> bool" where
  "resolve_loop word [] found ambiguous = (found, ambiguous)"
| "resolve_loop word (entry # entries) found ambiguous =
     (if snd entry \<noteq> [] \<and> snd entry = word then (Some entry, False)
      else if \<not> starts_with (fst entry) word then resolve_loop word entries found ambiguous
      else let ambiguous = (if found \<noteq> None then True else ambiguous) in
        if fst entry = word then (Some entry, ambiguous)
        else resolve_loop word entries (Some entry) ambiguous)"

definition resolve_in :: "Entry list \<Rightarrow> string \<Rightarrow> string option" where
  "resolve_in table word = (case resolve_loop word table None False of
     (None, _) \<Rightarrow> None
   | (Some entry, ambiguous) \<Rightarrow> if ambiguous then None else Some (fst entry))"

definition resolve :: "string \<Rightarrow> string option" where
  "resolve word = resolve_in kTable word"

section \<open>Commands of an argv\<close>

record Invocation =
  inv_name :: string
  inv_arguments :: "string list"

definition read_word :: "string \<Rightarrow> string \<times> bool" where
  "read_word a =
     (if a \<noteq> [] \<and> last a = CHR '';'' then
        (let word = butlast a in
         if word \<noteq> [] \<and> last word = CHR 0x5C then (butlast word @ '';'', False) else (word, True))
      else (a, False))"

fun split_commands :: "string list list \<Rightarrow> string list \<Rightarrow> string list list" where
  "split_commands commands [] = commands"
| "split_commands commands (a # as) =
     (let (word, ends) = read_word a;
          commands = (if \<not> ends \<or> word \<noteq> [] then butlast commands @ [last commands @ [word]] else commands);
          commands = (if ends then commands @ [[]] else commands)
      in split_commands commands as)"

fun resolve_commands :: "string list list \<Rightarrow> Invocation list" where
  "resolve_commands [] = []"
| "resolve_commands (command # commands) =
     (case command of
        [] \<Rightarrow> resolve_commands commands
      | word # arguments \<Rightarrow>
          (case resolve word of
             None \<Rightarrow> resolve_commands commands
           | Some name \<Rightarrow> \<lparr>inv_name = name, inv_arguments = arguments\<rparr> # resolve_commands commands))"

definition invocations :: "string list \<Rightarrow> Invocation list" where
  "invocations as = resolve_commands (split_commands [[]] as)"

section \<open>Flags\<close>

record Flags =
  flag_set :: "(char \<times> string) list"
  operands :: "string list"

definition has_flag :: "Flags \<Rightarrow> char \<Rightarrow> bool" where
  "has_flag f c = list_ex (\<lambda>each. fst each = c) (flag_set f)"

definition flag_value :: "Flags \<Rightarrow> char \<Rightarrow> string option" where
  "flag_value f c = fold (\<lambda>each found. if fst each = c then Some (snd each) else found) (flag_set f) None"

text \<open>One cluster of flags: the flags it sets and the arguments left after it.\<close>

fun read_cluster :: "string \<Rightarrow> string \<Rightarrow> string list \<Rightarrow> (char \<times> string) list \<Rightarrow> (char \<times> string) list \<times> string list" where
  "read_cluster valued [] rest set' = (set', rest)"
| "read_cluster valued (flag # cluster) rest set' =
     (if str_find flag valued = None then read_cluster valued cluster rest (set' @ [(flag, [])])
      else if cluster = [] \<and> rest \<noteq> [] then (set' @ [(flag, hd rest)], tl rest)
      else (set' @ [(flag, cluster)], rest))"

lemma read_cluster_rest: "length (snd (read_cluster valued cluster rest set')) \<le> length rest"
  by (induction valued cluster rest set' rule: read_cluster.induct) (auto simp: Let_def)

function flags_loop :: "string \<Rightarrow> string list \<Rightarrow> (char \<times> string) list \<Rightarrow> Flags" where
  "flags_loop valued [] set' = \<lparr>flag_set = set', operands = []\<rparr>"
| "flags_loop valued (a # as) set' =
     (if length a < 2 \<or> hd a \<noteq> CHR ''-'' then \<lparr>flag_set = set', operands = a # as\<rparr>
      else if a = ''--'' then \<lparr>flag_set = set', operands = as\<rparr>
      else let (set'', rest) = read_cluster valued (tl a) as set' in flags_loop valued rest set'')"
  by pat_completeness auto
termination
  by (relation "measure (\<lambda>(_, as, _). length as)") (simp_all, metis le_imp_less_Suc read_cluster_rest snd_conv)

definition parse_flags :: "string list \<Rightarrow> string \<Rightarrow> Flags" where
  "parse_flags arguments valued = flags_loop valued arguments []"

definition flags_of :: "Invocation \<Rightarrow> Flags" where
  "flags_of command = (case find (\<lambda>each. fst each = inv_name command) kValued of
     Some each \<Rightarrow> parse_flags (inv_arguments command) (snd each)
   | None \<Rightarrow> parse_flags (inv_arguments command) [])"

section \<open>Refusals\<close>

definition lists_command :: "CommandUse list \<Rightarrow> string \<Rightarrow> bool" where
  "lists_command uses command = list_ex (\<lambda>use. use_command use = command) uses"

definition older_daemon :: "string \<Rightarrow> string \<Rightarrow> CommandFailure" where
  "older_daemon operation needed = \<lparr>kind = unsupported, delivery = not_started, exit_code = 0,
     diagnostic = operation @ '' needs tmux '' @ needed @ '' or newer; the daemon is older''\<rparr>"

definition separator_failure :: "string \<Rightarrow> CommandFailure" where
  "separator_failure what = \<lparr>kind = validation, delivery = not_started, exit_code = 0,
     diagnostic = ''tmux 3.7 refuses a '' @ what @ '' name containing '' @ [CHR 0x27] @ '':'' @ [CHR 0x27]
       @ '' or '' @ [CHR 0x27] @ ''.'' @ [CHR 0x27]\<rparr>"

definition named_buffer :: "Invocation \<Rightarrow> Flags \<Rightarrow> Version \<Rightarrow> CommandFailure option" where
  "named_buffer command flags running =
     (let named = capability buffer_delete_named in
      if version_ge running (rel_version (cap_since named)) \<or> \<not> lists_command (cap_commands named) (inv_name command)
      then None
      else if inv_name command = ''delete-buffer'' \<and> has_flag flags CHR ''b''
      then Some (older_daemon ''deleting a named buffer'' (rel_text (cap_since named)))
      else if inv_name command = ''set-buffer'' \<and> has_flag flags CHR ''b'' \<and> has_flag flags CHR ''n''
      then Some (older_daemon ''renaming a named buffer'' (rel_text (cap_since named)))
      else None)"

definition clipboard_refusal :: "Invocation \<Rightarrow> Flags \<Rightarrow> Version \<Rightarrow> CommandFailure option" where
  "clipboard_refusal command flags running =
     (let query = capability clipboard_query in
      if version_ge running (rel_version (cap_since query)) \<or> \<not> lists_command (cap_commands query) (inv_name command)
         \<or> \<not> has_flag flags CHR ''l''
      then None else Some (older_daemon ''a clipboard query'' (rel_text (cap_since query))))"

definition layout_check :: "Invocation \<Rightarrow> Flags \<Rightarrow> Version \<Rightarrow> CommandFailure option" where
  "layout_check command flags running =
     (let mirrored = capability layout_mirrored_main in
      if \<not> lists_command (cap_commands mirrored) (inv_name command) \<or> length (operands flags) \<noteq> 1 then None
      else layout_refusal running (hd (operands flags)))"

definition has_separator :: "string \<Rightarrow> bool" where
  "has_separator name = list_ex (\<lambda>c. c = CHR ''.'' \<or> c = CHR '':'') name"

definition names_of :: "CommandUse \<Rightarrow> Flags \<Rightarrow> (string \<times> char) list" where
  "names_of use flags =
     concat (map (\<lambda>flag. case flag_value flags (last flag) of None \<Rightarrow> [] | Some v \<Rightarrow> [(v, last flag)]) (use_flags use))
     @ (if use_flags use = [] \<and> length (operands flags) = 1 then [(hd (operands flags), CHR '' '')] else [])"

fun separator_names :: "string \<Rightarrow> (string \<times> char) list \<Rightarrow> CommandFailure option" where
  "separator_names command [] = None"
| "separator_names command ((name, flag) # names) =
     (if \<not> has_separator name then separator_names command names
      else Some (separator_failure
        (if command = ''rename-session'' \<or> (command = ''new-session'' \<and> flag \<noteq> CHR ''n'') then ''session'' else ''window'')))"

fun separator_uses :: "string \<Rightarrow> Flags \<Rightarrow> CommandUse list \<Rightarrow> CommandFailure option" where
  "separator_uses command flags [] = None"
| "separator_uses command flags (use # uses) =
     (if use_command use \<noteq> command then separator_uses command flags uses
      else case separator_names command (names_of use flags) of
        Some f \<Rightarrow> Some f
      | None \<Rightarrow> separator_uses command flags uses)"

definition separators :: "Invocation \<Rightarrow> Flags \<Rightarrow> Version \<Rightarrow> CommandFailure option" where
  "separators command flags running =
     (let work = workaround name_separators_rejected in
      if \<not> affects (wk_key work) running then None
      else separator_uses (inv_name command) flags (wk_commands work))"

definition unnamed_break :: "Invocation \<Rightarrow> Flags \<Rightarrow> Version \<Rightarrow> bool \<Rightarrow> CommandFailure option" where
  "unnamed_break command flags running live =
     (let work = workaround break_pane_misnames_windows in
      if \<not> live \<or> \<not> affects (wk_key work) running \<or> \<not> lists_command (wk_commands work) (inv_name command)
         \<or> has_flag flags CHR ''n''
      then None
      else Some \<lparr>kind = validation, delivery = not_started, exit_code = 0,
        diagnostic = ''tmux 3.7 crashes on a break-pane that names no window; use Pane::break_out''\<rparr>)"

definition refuse_command :: "Invocation \<Rightarrow> Version \<Rightarrow> bool \<Rightarrow> CommandFailure option" where
  "refuse_command command running live =
     (let flags = flags_of command in
      case named_buffer command flags running of Some f \<Rightarrow> Some f | None \<Rightarrow>
      (case clipboard_refusal command flags running of Some f \<Rightarrow> Some f | None \<Rightarrow>
      (case layout_check command flags running of Some f \<Rightarrow> Some f | None \<Rightarrow>
      (case separators command flags running of Some f \<Rightarrow> Some f | None \<Rightarrow>
       unnamed_break command flags running live))))"

fun refuse_loop :: "Invocation list \<Rightarrow> Version \<Rightarrow> bool \<Rightarrow> CommandFailure option" where
  "refuse_loop [] running live = None"
| "refuse_loop (command # commands) running live =
     (case refuse_command command running live of Some f \<Rightarrow> Some f | None \<Rightarrow> refuse_loop commands running live)"

definition refuse_literal :: "string list \<Rightarrow> Version \<Rightarrow> bool \<Rightarrow> CommandFailure option" where
  "refuse_literal as running live = refuse_loop (invocations as) running live"

section \<open>Resolution\<close>

definition resolved :: "Entry list \<Rightarrow> string option" where
  "resolved ms = (case ms of [e] \<Rightarrow> Some (fst e) | _ \<Rightarrow> None)"

definition found_of :: "Entry list \<Rightarrow> Entry option" where
  "found_of ms = (if ms = [] then None else Some (last ms))"

definition ambiguous_of :: "Entry list \<Rightarrow> bool" where
  "ambiguous_of ms \<longleftrightarrow> length ms \<ge> 2"

lemma resolve_loop_prefixes:
  assumes "\<forall>e \<in> set es. fst e \<noteq> word \<and> (snd e = [] \<or> snd e \<noteq> word)"
  shows "resolve_loop word es (found_of ms) (ambiguous_of ms) =
    (found_of (ms @ filter (\<lambda>e. starts_with (fst e) word) es), ambiguous_of (ms @ filter (\<lambda>e. starts_with (fst e) word) es))"
  using assms
proof (induction es arbitrary: ms)
  case (Cons e es)
  have amb: "(if found_of ms \<noteq> None then True else ambiguous_of ms) = ambiguous_of (ms @ [e])"
    and found: "Some e = found_of (ms @ [e])"
    by (cases ms; simp add: found_of_def ambiguous_of_def)+
  have e: "fst e \<noteq> word" "\<not> (snd e \<noteq> [] \<and> snd e = word)" using Cons.prems by auto
  show ?case
  proof (cases "starts_with (fst e) word")
    case True
    have "resolve_loop word (e # es) (found_of ms) (ambiguous_of ms) =
        resolve_loop word es (Some e) (if found_of ms \<noteq> None then True else ambiguous_of ms)"
      using True e by (auto simp: Let_def)
    then show ?thesis unfolding amb found using True Cons by simp
  next
    case False
    then show ?thesis using e Cons by auto
  qed
qed simp

lemma resolve_in_prefixes:
  assumes "\<forall>e \<in> set es. fst e \<noteq> word \<and> (snd e = [] \<or> snd e \<noteq> word)"
  shows "resolve_in es word = resolved (filter (\<lambda>e. starts_with (fst e) word) es)"
  using resolve_loop_prefixes [OF assms, of "[]"]
  by (auto simp: resolve_in_def resolved_def found_of_def ambiguous_of_def split: list.splits)

lemma resolve_loop_alias:
  assumes "e \<in> set es" "snd e = word" "word \<noteq> []"
    and "\<forall>e' \<in> set es. fst e' \<noteq> word" "distinct (map snd (filter (\<lambda>e. snd e \<noteq> []) es))"
  shows "resolve_loop word es found ambiguous = (Some e, False)"
  using assms
proof (induction es arbitrary: found ambiguous)
  case (Cons a es)
  show ?case
  proof (cases "snd a = word")
    case True
    have "e = a"
    proof (rule ccontr)
      assume "e \<noteq> a"
      with Cons.prems have "e \<in> set (filter (\<lambda>e. snd e \<noteq> []) es)" by auto
      then have "word \<in> snd ` set (filter (\<lambda>e. snd e \<noteq> []) es)" using Cons.prems(2) by force
      with True Cons.prems(3,5) show False by auto
    qed
    with True Cons.prems(3) show ?thesis by simp
  next
    case False
    with Cons show ?thesis by (auto simp: Let_def split: if_splits)
  qed
qed simp

lemma resolve_loop_name:
  assumes "e \<in> set es" "fst e = word"
    and "\<forall>e' \<in> set es. (snd e' = [] \<or> snd e' \<noteq> word) \<and> (starts_with (fst e') word \<longrightarrow> e' = e)"
  shows "resolve_loop word es None False = (Some e, False)"
  using assms
proof (induction es)
  case (Cons a es)
  have self: "starts_with (fst e) word" using starts_with_append [of word "[]"] Cons.prems(2) by simp
  show ?case
  proof (cases "a = e")
    case True
    have "\<not> (snd e \<noteq> [] \<and> snd e = word)" using Cons.prems(1,3) by auto
    then show ?thesis using True self Cons.prems(2) by (simp add: Let_def)
  next
    case False
    then have "\<not> starts_with (fst a) word" using Cons.prems by auto
    with False Cons show ?thesis by auto
  qed
qed simp

fun prefix_free :: "string list \<Rightarrow> bool" where
  "prefix_free [] = True"
| "prefix_free (n # ns) = (list_all (\<lambda>m. \<not> starts_with n m \<and> \<not> starts_with m n) ns \<and> prefix_free ns)"

lemma prefix_free_entries:
  assumes "prefix_free (map fst es)" "e \<in> set es" "e' \<in> set es" "starts_with (fst e') (fst e)"
  shows "e' = e"
  using assms by (induction es) (auto simp: list_all_iff)

text \<open>No name begins another, no alias occurs twice, and a name has a dash while an alias has none.\<close>

lemma kTable_facts:
  "prefix_free (map fst kTable)"
  "distinct (map snd (filter (\<lambda>e. snd e \<noteq> []) kTable))"
  "list_all (\<lambda>e. str_find CHR ''-'' (fst e) \<noteq> None \<and> str_find CHR ''-'' (snd e) = None) kTable"
  by code_simp+

lemma kTable_ok:
  assumes "e \<in> set kTable" "e' \<in> set kTable"
  shows "(snd e' = [] \<or> snd e' \<noteq> fst e) \<and> (starts_with (fst e') (fst e) \<longrightarrow> e' = e)"
proof -
  have "str_find CHR ''-'' (fst e) \<noteq> None" "str_find CHR ''-'' (snd e') = None"
    using assms kTable_facts(3) by (auto simp: list_all_iff)
  then have "snd e' \<noteq> fst e" by metis
  then show ?thesis using prefix_free_entries [OF kTable_facts(1) assms] by blast
qed

section \<open>Reading an argv\<close>

lemma read_escaped: "a \<noteq> kCommandSeparator \<Longrightarrow> read_word (escaped_argument a) = (a, False)"
proof (cases "a = [] \<or> last a \<noteq> CHR '';''")
  case True
  then show ?thesis by (auto simp: escaped_argument_def read_word_def)
next
  case False
  assume "a \<noteq> kCommandSeparator"
  from False obtain b where b: "a = b @ '';''" by (metis append_butlast_last_id)
  with \<open>a \<noteq> kCommandSeparator\<close> have "escaped_argument a = b @ [CHR 0x5C] @ '';''"
    by (simp add: escaped_argument_def kCommandSeparator_def)
  with b show ?thesis by (simp add: read_word_def butlast_append)
qed

lemma read_separator: "read_word (escaped_argument kCommandSeparator) = ([], True)"
  by (simp add: escaped_argument_def kCommandSeparator_def read_word_def)

lemma split_commands_word:
  assumes "\<forall>a \<in> set c. a \<noteq> kCommandSeparator"
  shows "split_commands (cs @ [p]) (map escaped_argument c @ as) = split_commands (cs @ [p @ c]) as"
  using assms by (induction c arbitrary: p) (simp_all add: read_escaped)

lemma split_commands_separator:
  "split_commands cs (escaped_argument kCommandSeparator # as) = split_commands (cs @ [[]]) as"
  by (simp add: read_separator)

lemma batch_loop_argv:
  assumes "result \<noteq> []"
  shows "argv (batch_loop result b) = argv result @ concat (map (\<lambda>c. kCommandSeparator # argv c) b)"
  using assms by (induction result b rule: batch_loop.induct) (simp_all add: argv_def plain_argument_def)

lemma batch_argv_Cons:
  "c \<noteq> [] \<Longrightarrow> batch_argv (c # b) = argv c @ concat (map (\<lambda>c. kCommandSeparator # argv c) b)"
  by (simp add: batch_argv_def batch_request_def batch_loop_argv)

lemma split_commands_rest:
  assumes "\<forall>c \<in> set b. kCommandSeparator \<notin> set (argv c)"
  shows "split_commands cs (map escaped_argument (concat (map (\<lambda>c. kCommandSeparator # argv c) b))) = cs @ map argv b"
  using assms
proof (induction b arbitrary: cs)
  case (Cons c b)
  then show ?case
    using split_commands_word [of "argv c" cs "[]" "map escaped_argument (concat (map (\<lambda>c. kCommandSeparator # argv c) b))"]
    by (simp add: split_commands_separator del: split_commands.simps) (auto simp del: split_commands.simps)
qed simp

section \<open>What is refused\<close>

definition unsafe_name :: "Invocation \<Rightarrow> bool" where
  "unsafe_name c = (let f = flags_of c; bad = (\<lambda>k. pred_option has_separator (flag_value f k) \<and> flag_value f k \<noteq> None) in
     (inv_name c = ''new-session'' \<and> (bad CHR ''s'' \<or> bad CHR ''n'')) \<or>
     (inv_name c = ''new-window'' \<and> bad CHR ''n'') \<or>
     ((inv_name c = ''rename-session'' \<or> inv_name c = ''rename-window'') \<and>
       length (operands f) = 1 \<and> has_separator (hd (operands f))))"

text \<open>The commands that must not reach a release, spelled out.\<close>

definition unsafe_command :: "Version \<Rightarrow> bool \<Rightarrow> Invocation \<Rightarrow> bool" where
  "unsafe_command v live c = (let f = flags_of c in
     (version_less v (release 3 4 0) \<and> inv_name c = ''delete-buffer'' \<and> has_flag f CHR ''b'') \<or>
     (version_less v (release 3 4 0) \<and> inv_name c = ''set-buffer'' \<and> has_flag f CHR ''b'' \<and> has_flag f CHR ''n'') \<or>
     (version_less v (release 3 6 1) \<and> inv_name c = ''refresh-client'' \<and> has_flag f CHR ''l'') \<or>
     (inv_name c = ''select-layout'' \<and> length (operands f) = 1 \<and> layout_refusal v (hd (operands f)) \<noteq> None) \<or>
     (v = release 3 7 0 \<and> unsafe_name c) \<or>
     (live \<and> v = release 3 7 0 \<and> inv_name c = ''break-pane'' \<and> \<not> has_flag f CHR ''n''))"

lemma separator_names_None: "separator_names command names = None \<longleftrightarrow> (\<forall>(n, _) \<in> set names. \<not> has_separator n)"
  by (induction command names rule: separator_names.induct) auto

lemma registry_commands:
  "cap_commands (capability buffer_delete_named) = [\<lparr>use_command = ''delete-buffer'', use_flags = [''-b'']\<rparr>,
     \<lparr>use_command = ''set-buffer'', use_flags = [''-b'', ''-n'']\<rparr>]"
  "rel_version (cap_since (capability buffer_delete_named)) = release 3 4 0"
  "cap_commands (capability clipboard_query) = [\<lparr>use_command = ''refresh-client'', use_flags = [''-l'']\<rparr>]"
  "rel_version (cap_since (capability clipboard_query)) = release 3 6 1"
  "cap_commands (capability layout_mirrored_main) = [\<lparr>use_command = ''select-layout'', use_flags = []\<rparr>]"
  "wk_commands (workaround break_pane_misnames_windows) = [\<lparr>use_command = ''break-pane'', use_flags = []\<rparr>]"
  "wk_commands (workaround name_separators_rejected) = [\<lparr>use_command = ''new-session'', use_flags = [''-s'', ''-n'']\<rparr>,
        \<lparr>use_command = ''new-window'', use_flags = [''-n'']\<rparr>, \<lparr>use_command = ''rename-session'', use_flags = []\<rparr>,
        \<lparr>use_command = ''rename-window'', use_flags = []\<rparr>]"
  by (simp_all add: capability_def find_capability_def kCapabilities_def workaround_def find_workaround_def kWorkarounds_def
      kTmux34_def kTmux36a_def kLayoutCommands_def)

lemma version_ge_less: "version_ge v w \<longleftrightarrow> \<not> version_less v w"
  by (simp add: version_ge_def version_less_def)

lemma affects_37: "affects work running \<longleftrightarrow> running = release 3 7 0"
  by (cases work) (auto simp: affects_def workaround_def find_workaround_def kWorkarounds_def kTmux37_def)

lemma separators_None: "separators c (flags_of c) v = None \<longleftrightarrow> \<not> (v = release 3 7 0 \<and> unsafe_name c)"
  by (cases "flag_value (flags_of c) CHR ''s''"; cases "flag_value (flags_of c) CHR ''n''")
    (auto simp: separators_def affects_37 registry_commands unsafe_name_def names_of_def separator_names_None Let_def
      split: option.splits)

lemma refuse_command_gates:
  "refuse_command c v live = None \<longleftrightarrow>
     named_buffer c (flags_of c) v = None \<and> clipboard_refusal c (flags_of c) v = None \<and>
     layout_check c (flags_of c) v = None \<and> separators c (flags_of c) v = None \<and>
     unnamed_break c (flags_of c) v live = None"
  by (simp add: refuse_command_def Let_def split: option.splits)

lemma refuse_command_None: "refuse_command c v live = None \<longleftrightarrow> \<not> unsafe_command v live c"
proof -
  have "named_buffer c (flags_of c) v = None \<longleftrightarrow>
      \<not> (version_less v (release 3 4 0) \<and> inv_name c = ''delete-buffer'' \<and> has_flag (flags_of c) CHR ''b'') \<and>
      \<not> (version_less v (release 3 4 0) \<and> inv_name c = ''set-buffer'' \<and> has_flag (flags_of c) CHR ''b'' \<and> has_flag (flags_of c) CHR ''n'')"
    by (auto simp: named_buffer_def registry_commands lists_command_def version_ge_less Let_def)
  moreover have "clipboard_refusal c (flags_of c) v = None \<longleftrightarrow>
      \<not> (version_less v (release 3 6 1) \<and> inv_name c = ''refresh-client'' \<and> has_flag (flags_of c) CHR ''l'')"
    by (auto simp: clipboard_refusal_def registry_commands lists_command_def version_ge_less Let_def)
  moreover have "layout_check c (flags_of c) v = None \<longleftrightarrow>
      \<not> (inv_name c = ''select-layout'' \<and> length (operands (flags_of c)) = 1 \<and> layout_refusal v (hd (operands (flags_of c))) \<noteq> None)"
    by (auto simp: layout_check_def registry_commands lists_command_def Let_def)
  moreover have "unnamed_break c (flags_of c) v live = None \<longleftrightarrow>
      \<not> (live \<and> v = release 3 7 0 \<and> inv_name c = ''break-pane'' \<and> \<not> has_flag (flags_of c) CHR ''n'')"
    by (auto simp: unnamed_break_def registry_commands lists_command_def affects_37 Let_def)
  ultimately show ?thesis
    unfolding refuse_command_gates unsafe_command_def Let_def separators_None by simp
qed

lemma layout_refusal_delivery: "layout_refusal v s = Some f \<Longrightarrow> delivery f = not_started"
  by (auto simp: layout_refusal_def validate_layout_def version_refusal_def invalid_layout_def Let_def
      split: option.splits sum.splits if_splits)

lemma separators_delivery: "separators c fl v = Some f \<Longrightarrow> delivery f = not_started"
proof -
  have names: "separator_names command names = Some f \<Longrightarrow> delivery f = not_started" for command names
    by (induction command names rule: separator_names.induct) (auto simp: separator_failure_def split: if_splits)
  have "separator_uses command fl uses = Some f \<Longrightarrow> delivery f = not_started" for command uses
    by (induction command fl uses rule: separator_uses.induct) (auto dest: names split: if_splits option.splits)
  then show "separators c fl v = Some f \<Longrightarrow> delivery f = not_started"
    by (auto simp: separators_def Let_def split: if_splits)
qed

lemma refuse_command_delivery: "refuse_command c v live = Some f \<Longrightarrow> delivery f = not_started"
  by (auto simp: refuse_command_def named_buffer_def clipboard_refusal_def layout_check_def unnamed_break_def
      older_daemon_def Let_def dest: layout_refusal_delivery separators_delivery split: option.splits if_splits)

lemma refuse_loop_unsafe:
  "(refuse_loop cs v live \<noteq> None \<longleftrightarrow> list_ex (unsafe_command v live) cs) \<and>
   (refuse_loop cs v live = Some f \<longrightarrow> delivery f = not_started)"
proof (induction cs)
  case (Cons c cs)
  then show ?case
    using refuse_command_None [of c v live] refuse_command_delivery [of c v live] by (auto split: option.splits)
qed simp

section \<open>Properties\<close>

text \<open>
  A word names the command tmux would run: a full name or an alias always resolves to its own
  command, whatever else it is a prefix of, and any other word resolves exactly when one single
  command name begins with it.
\<close>

theorem resolve_word:
  "(\<forall>e \<in> set kTable. resolve (fst e) = Some (fst e) \<and> (snd e \<noteq> [] \<longrightarrow> resolve (snd e) = Some (fst e))) \<and>
   (word \<notin> fst ` set kTable \<and> (word = [] \<or> word \<notin> snd ` set kTable) \<longrightarrow>
     resolve word = resolved (filter (\<lambda>e. starts_with (fst e) word) kTable))"
proof (intro conjI ballI impI)
  fix e assume e: "e \<in> set kTable"
  note ok = kTable_facts(2) kTable_ok
  show "resolve (fst e) = Some (fst e)"
    using resolve_loop_name [OF e refl] ok(2) [OF e] by (simp add: resolve_def resolve_in_def)
  assume "snd e \<noteq> []"
  moreover have "\<forall>e' \<in> set kTable. fst e' \<noteq> snd e" using ok(2) [OF _ e] \<open>snd e \<noteq> []\<close> by metis
  ultimately show "resolve (snd e) = Some (fst e)"
    using resolve_loop_alias [OF e refl _ _ ok(1)] by (simp add: resolve_def resolve_in_def)
next
  assume "word \<notin> fst ` set kTable \<and> (word = [] \<or> word \<notin> snd ` set kTable)"
  then have "\<forall>e \<in> set kTable. fst e \<noteq> word \<and> (snd e = [] \<or> snd e \<noteq> word)" by force
  then show "resolve word = resolved (filter (\<lambda>e. starts_with (fst e) word) kTable)"
    by (simp add: resolve_def resolve_in_prefixes)
qed

theorem resolve_word_witness:
  "resolve ''set'' = Some ''set-option'' \<and> resolve ''deleteb'' = Some ''delete-buffer'' \<and> resolve ''delete'' = Some ''delete-buffer''"
proof -
  have "resolve (snd (''delete-buffer'', ''deleteb'')) = Some ''delete-buffer''" "resolve (snd (''set-option'', ''set'')) = Some ''set-option''"
    using resolve_word [THEN conjunct1] by (force simp: kTable_def)+
  moreover have "resolved (filter (\<lambda>e. starts_with (fst e) ''delete'') kTable) = Some ''delete-buffer''" by code_simp
  moreover have "''delete'' \<notin> fst ` set kTable" "''delete'' \<notin> snd ` set kTable" by code_simp+
  ultimately show ?thesis using resolve_word [THEN conjunct2, of "''delete''"] by simp
qed

text \<open>
  C5. Arguments reach tmux as they were written: whatever bytes the arguments of a batch hold
  (trailing semicolons and backslashes included; the separator itself excepted), the escaped argv
  the backend sends is read as exactly the batch's commands, each with its own arguments.
\<close>

theorem batch_read_back:
  assumes "b \<noteq> []" "\<forall>c \<in> set b. c \<noteq> [] \<and> kCommandSeparator \<notin> set (argv c)"
  shows "split_commands [[]] (map escaped_argument (batch_argv b)) = map argv b"
proof -
  obtain c b' where b: "b = c # b'" using assms(1) by (cases b) auto
  let ?rest = "concat (map (\<lambda>c. kCommandSeparator # argv c) b')"
  have "split_commands ([] @ [[]]) (map escaped_argument (argv c) @ map escaped_argument ?rest) =
      split_commands ([] @ [[] @ argv c]) (map escaped_argument ?rest)"
    using assms(2) b by (intro split_commands_word) auto
  then show ?thesis
    using assms(2) b split_commands_rest [of b' "[argv c]"] by (simp add: batch_argv_Cons)
qed

theorem batch_read_back_witness:
  "split_commands [[]] (map escaped_argument (batch_argv [request_of [''send-keys'', ''ls;''], request_of [''display'', [CHR 0x5C] @ '';'']]))
   = [[''send-keys'', ''ls;''], [''display'', [CHR 0x5C] @ '';'']]"
proof -
  have "argv (request_of a) = a" for a by (induction a) (simp_all add: argv_def request_of_def plain_argument_def)
  then show ?thesis
    using batch_read_back [of "[request_of [''send-keys'', ''ls;''], request_of [''display'', [CHR 0x5C] @ '';'']]"]
    by (simp add: kCommandSeparator_def)
qed

text \<open>
  C27. A literal command list is refused exactly when one of its commands, under whatever alias or
  prefix it was written, is unsafe on the running release: a named buffer deletion or rename before
  3.4, a clipboard query before 3.6a, a layout the release cannot apply, and on 3.7 a name with a
  separator or (against a live daemon) an unnamed break-pane. A refusal is always reported as not
  started.
\<close>

theorem refuse_literal_iff:
  "(refuse_literal as v live \<noteq> None \<longleftrightarrow> list_ex (unsafe_command v live) (invocations as)) \<and>
   (refuse_literal as v live = Some f \<longrightarrow> delivery f = not_started)"
  using refuse_loop_unsafe by (simp add: refuse_literal_def)

theorem refuse_literal_iff_witness:
  "refuse_literal [''ls'', '';'', ''deleteb'', ''-b'', ''x''] (release 3 3 1) True \<noteq> None \<and>
   refuse_literal [''ls'', '';'', ''deleteb'', ''-b'', ''x''] (release 3 4 0) True = None"
proof -
  have "invocations [''ls'', '';'', ''deleteb'', ''-b'', ''x''] =
      [\<lparr>inv_name = ''list-sessions'', inv_arguments = []\<rparr>, \<lparr>inv_name = ''delete-buffer'', inv_arguments = [''-b'', ''x'']\<rparr>]"
    by code_simp
  moreover have "unsafe_command (release 3 3 1) True \<lparr>inv_name = ''delete-buffer'', inv_arguments = [''-b'', ''x'']\<rparr>"
    "\<not> unsafe_command (release 3 4 0) True \<lparr>inv_name = ''delete-buffer'', inv_arguments = [''-b'', ''x'']\<rparr>"
    "\<not> unsafe_command (release 3 4 0) True \<lparr>inv_name = ''list-sessions'', inv_arguments = []\<rparr>"
    by code_simp+
  ultimately show ?thesis
    using refuse_literal_iff [of "[''ls'', '';'', ''deleteb'', ''-b'', ''x'']" "release 3 3 1" True]
      refuse_literal_iff [of "[''ls'', '';'', ''deleteb'', ''-b'', ''x'']" "release 3 4 0" True]
    by auto
qed

end
