(* ===== verification/Backends.thy ===== *)
theory Backends
  imports Version_Gate Sockets Literal_Commands
begin

text \<open>
  The subprocess backend (\<open>src/backend.cpp\<close>, \<open>src/backend.hpp\<close>, POSIX branches): how a command is
  gated, assembled, run and interpreted, what is remembered between commands, and what the command
  observer is told.

  A \<open>SubprocessBackend\<close> is a record of the members of the class. Two ghost fields follow it: the
  processes launched so far, in order, and the reports the observer received. Operations take the
  host (processes, entropy, file system), return the backend they leave and their answer. Locks are
  not modelled: an operation is one step. A clock is not modelled either: a report only says whether
  it carries a duration, which depends on whether the call is inside a \<open>Dispatching\<close> scope.

  \<open>redact\<close> and \<open>rendered_command\<close> return an option because their loops are modelled with
  non-termination; on the parts a command can hold they always return, so \<open>the\<close> is applied to a
  \<open>Some\<close>.
\<close>

section \<open>State\<close>

record ExecutionPolicy =
  policy_timeout :: "int option"
  policy_output_limit :: "nat option"
  tmux_binary :: string

record PublishedEndpoint =
  pe_connection :: "string list"
  pe_socket_path :: string
  pe_identity :: string
  pe_alias :: "string option"

record CommandReport =
  report_command :: string
  report_argv :: "string list"
  report_failure_of :: "CommandFailure option"
  report_timed :: bool

record SubprocessBackend =
  own_connection :: "string list"
  own_identity :: string
  own_socket_path :: string
  selected_socket_path :: string
  own_alias :: "string option"
  socket_missing :: bool
  started_endpoint :: "PublishedEndpoint option"
  startable :: bool
  startup_configuration :: "string option"
  fence_marker :: string
  version_cache :: "EndpointVersion option"
  observer :: bool
  policy :: ExecutionPolicy
  launched :: "ProcessRequest list"
  reports :: "CommandReport list"

record Host =
  platform :: Platform
  files :: "ProcessRequest list \<Rightarrow> Files"

definition published_endpoint :: "SubprocessBackend \<Rightarrow> PublishedEndpoint option" where
  "published_endpoint b = (if socket_missing b then None else started_endpoint b)"

definition connection :: "SubprocessBackend \<Rightarrow> string list" where
  "connection b = (case published_endpoint b of Some e \<Rightarrow> pe_connection e | None \<Rightarrow> own_connection b)"

definition identity :: "SubprocessBackend \<Rightarrow> string" where
  "identity b = (case published_endpoint b of Some e \<Rightarrow> pe_identity e | None \<Rightarrow> own_identity b)"

definition socket_path :: "SubprocessBackend \<Rightarrow> string" where
  "socket_path b =
     (if socket_missing b then (if startable b then own_socket_path b else [])
      else case published_endpoint b of Some e \<Rightarrow> pe_socket_path e | None \<Rightarrow> own_socket_path b)"

definition socket_alias :: "SubprocessBackend \<Rightarrow> string option" where
  "socket_alias b = (case published_endpoint b of Some e \<Rightarrow> pe_alias e | None \<Rightarrow> own_alias b)"

definition same_server :: "SubprocessBackend \<Rightarrow> SubprocessBackend \<Rightarrow> bool" where
  "same_server l r \<longleftrightarrow> l = r \<or> identity l \<noteq> [] \<and> identity l = identity r"

definition single :: "CommandRequest \<Rightarrow> string \<Rightarrow> bool" where
  "single command name \<longleftrightarrow> (case command of [a] \<Rightarrow> arg_value a = name | _ \<Rightarrow> False)"

section \<open>The observer\<close>

definition observe :: "bool \<Rightarrow> CommandRequest \<Rightarrow> CommandFailure option \<Rightarrow> SubprocessBackend \<Rightarrow> SubprocessBackend" where
  "observe dispatching command failed b =
     (if \<not> observer b then b
      else let ran = (case failed of None \<Rightarrow> True | Some f \<Rightarrow> delivery f \<noteq> not_started) in
        b\<lparr>reports := reports b @ [\<lparr>report_command = the (rendered_command command),
            report_argv = argv command, report_failure_of = failed, report_timed = (ran \<and> dispatching)\<rparr>]\<rparr>)"

definition report_failure :: "bool \<Rightarrow> CommandRequest \<Rightarrow> CommandFailure \<Rightarrow> SubprocessBackend
    \<Rightarrow> SubprocessBackend \<times> (CommandFailure, string) expected" where
  "report_failure dispatching command f b =
     (let f = the (redact f command) in (observe dispatching command (Some f) b, Inl f))"

definition interpret_failure_unobserved :: "CommandRequest \<Rightarrow> CommandFailure \<Rightarrow> (CommandFailure, string) expected" where
  "interpret_failure_unobserved command f = Inl (the (redact f command))"

definition predates :: CommandFailure where
  "predates = \<lparr>kind = missing, delivery = not_started, exit_code = 0,
     diagnostic = ''this handle predates the socket; reopen it after the server starts''\<rparr>"

section \<open>Opening\<close>

definition new_backend :: "SocketEndpoint \<Rightarrow> string \<Rightarrow> bool \<Rightarrow> string option \<Rightarrow> bool \<Rightarrow> ExecutionPolicy
    \<Rightarrow> 32 word list \<Rightarrow> ProcessRequest list \<Rightarrow> SubprocessBackend" where
  "new_backend e selected starts configuration observed chosen words before =
     \<lparr>own_connection = ep_connection e, own_identity = ep_identity e, own_socket_path = ep_socket_path e,
      selected_socket_path = selected, own_alias = ep_alias e, socket_missing = ep_missing e,
      started_endpoint = None, startable = starts, startup_configuration = configuration,
      fence_marker = version_marker words, version_cache = None, observer = observed,
      policy = chosen, launched = before, reports = []\<rparr>"

definition endpoint_failure :: "string \<Rightarrow> CommandFailure" where
  "endpoint_failure d = \<lparr>kind = pipe, delivery = not_started, exit_code = 0, diagnostic = d\<rparr>"

definition open_backend :: "Host \<Rightarrow> string list \<Rightarrow> bool \<Rightarrow> ExecutionPolicy \<Rightarrow> ProcessRequest list
    \<Rightarrow> (CommandFailure, SubprocessBackend) expected" where
  "open_backend host selector observed chosen before =
     (let fs = files host before;
          selected = (case resolved_socket_path fs selector of Some p \<Rightarrow> p | None \<Rightarrow> []) in
      case bind_socket_endpoint fs selector of
        Inl d \<Rightarrow> Inl (endpoint_failure d)
      | Inr e \<Rightarrow> Inr (new_backend e selected False None observed chosen (entropy (platform host) before) before))"

definition open_startable :: "Host \<Rightarrow> string list \<Rightarrow> string option \<Rightarrow> bool \<Rightarrow> ExecutionPolicy \<Rightarrow> ProcessRequest list
    \<Rightarrow> (CommandFailure, SubprocessBackend) expected" where
  "open_startable host selector configuration observed chosen before =
     (let fs = files host before; resolved = resolved_socket_path fs selector;
          selected = (case resolved of Some p \<Rightarrow> p | None \<Rightarrow> []);
          started = (\<lambda>e. Inr (new_backend e selected True configuration observed chosen (entropy (platform host) before) before)) in
      case bind_socket_endpoint fs selector of
        Inl d \<Rightarrow> Inl (endpoint_failure d)
      | Inr e \<Rightarrow>
          if ep_missing e then
            (case resolved of
               None \<Rightarrow> Inl \<lparr>kind = validation, delivery = not_started, exit_code = 0,
                   diagnostic = ''the startable tmux socket path could not be resolved''\<rparr>
             | Some path \<Rightarrow> started (e\<lparr>ep_connection := selector, ep_socket_path := path,
                   ep_identity := ''pending:'' @ path, ep_alias := None\<rparr>))
          else started e)"

section \<open>Attaching\<close>

record PreparedAttach =
  attach_argv :: "string list"
  attach_route :: string

definition prepare_attach :: "SubprocessBackend \<Rightarrow> string \<Rightarrow> (CommandFailure, PreparedAttach) expected" where
  "prepare_attach b target =
     (if socket_missing b then Inl predates
      else case socket_alias b of
        None \<Rightarrow> Inl \<lparr>kind = unsupported, delivery = not_started, exit_code = 0,
            diagnostic = ''this backend cannot retain an exact attach route''\<rparr>
      | Some route \<Rightarrow> Inr \<lparr>attach_argv = [tmux_binary (policy b)] @ connection b
            @ [''-N'', ''attach-session'', ''-t'', target], attach_route = route\<rparr>)"

definition async_preflight :: "SubprocessBackend \<Rightarrow> (CommandFailure, unit) expected" where
  "async_preflight b = (if \<not> socket_missing b then Inr () else Inl predates)"

section \<open>Preparing a request\<close>

definition build_request :: "SubprocessBackend \<Rightarrow> CommandRequest \<Rightarrow> int option \<Rightarrow> nat option
    \<Rightarrow> EndpointVersion option \<Rightarrow> ProcessRequest" where
  "build_request b command limit output_limit checked =
     empty_request\<lparr>executable := tmux_binary (policy b), time_limit := limit,
       capture_limit := (case output_limit of Some n \<Rightarrow> n | None \<Rightarrow> default_capture_limit),
       arguments :=
         [public_argument ''-u'']
         @ (case startup_configuration b of
              Some configuration \<Rightarrow>
                if socket_missing b \<and> startable b
                then [public_argument ''-f'', public_argument configuration] else []
            | None \<Rightarrow> [])
         @ map public_argument (connection b)
         @ (case checked of
              None \<Rightarrow> []
            | Some e \<Rightarrow>
                (if live e \<or> \<not> startable b then [public_argument ''-N''] else [])
                @ (if live e then version_fence (token e) (fence_marker b) else []))
         @ map (\<lambda>a. \<lparr>argument_value = escaped_argument (arg_value a),
                      argument_sensitivity = sensitivity a\<rparr>) command\<rparr>"

definition check_version :: "Host \<Rightarrow> int option \<Rightarrow> SubprocessBackend
    \<Rightarrow> SubprocessBackend \<times> (CommandFailure, EndpointVersion) expected" where
  "check_version host limit b =
     (case version_cache b of
        Some e \<Rightarrow> (b, Inr e)
      | None \<Rightarrow>
          let (after, endpoint) = query_endpoint (platform host) (tmux_binary (policy b)) (connection b)
                (Some (case limit of Some t \<Rightarrow> t | None \<Rightarrow> 30000)) (launched b);
              b = b\<lparr>launched := after\<rparr> in
          case endpoint of
            Inl f \<Rightarrow> (b, Inl f)
          | Inr e \<Rightarrow>
              (case require_supported e kMinimumSupported of
                 Inl f \<Rightarrow> (b, Inl f)
               | Inr _ \<Rightarrow> (if live e then b\<lparr>version_cache := Some e\<rparr> else b, Inr e)))"

definition check_command :: "Host \<Rightarrow> CommandRequest \<Rightarrow> int option \<Rightarrow> SubprocessBackend
    \<Rightarrow> SubprocessBackend \<times> (CommandFailure, EndpointVersion option) expected" where
  "check_command host command limit b =
     (case command of
        [] \<Rightarrow> (b, Inl (version_check_failure validation ''a tmux command needs at least a command name''))
      | first # _ \<Rightarrow>
          let name = arg_value first in
          if single command ''-V'' \<or> single command ''-h'' then (b, Inr None)
          else if starts_with name ''-'' then
            (b, Inl (version_check_failure validation
               ([CHR 0x27] @ name @ [CHR 0x27] @ '' is a tmux client flag; commands are dispatched by name'')))
          else let (b, checked) = check_version host limit b in
            case checked of
              Inl f \<Rightarrow> (b, Inl f)
            | Inr e \<Rightarrow>
                (case refuse_literal (argv command) (version e) (live e) of
                   Some refusal \<Rightarrow> (b, Inl refusal)
                 | None \<Rightarrow> (b, Inr (Some e))))"

text \<open>A \<open>PreparedRequest\<close> is the request, or the no-op that stopping an absent server is.\<close>

datatype PreparedRequest = Prepared ProcessRequest | AbsentNoop

definition assemble_request :: "SubprocessBackend \<Rightarrow> CommandRequest \<Rightarrow> int option \<Rightarrow> nat option
    \<Rightarrow> EndpointVersion option \<Rightarrow> bool \<Rightarrow> PreparedRequest" where
  "assemble_request b command limit output_limit checked allow_noop =
     (case checked of
        None \<Rightarrow> Prepared (build_request b command limit output_limit None)
      | Some e \<Rightarrow>
          if allow_noop \<and> \<not> live e \<and> single command ''kill-server'' then AbsentNoop
          else Prepared (build_request b command limit output_limit (Some e)))"

definition prepare_request :: "Host \<Rightarrow> CommandRequest \<Rightarrow> int option \<Rightarrow> nat option \<Rightarrow> bool \<Rightarrow> SubprocessBackend
    \<Rightarrow> SubprocessBackend \<times> (CommandFailure, PreparedRequest) expected" where
  "prepare_request host command limit output_limit allow_noop b =
     (let (b, checked) = check_command host command limit b in
      (b, case checked of
            Inl f \<Rightarrow> Inl f
          | Inr c \<Rightarrow> Inr (assemble_request b command limit output_limit c allow_noop)))"

section \<open>Interpreting a reply\<close>

definition strip_newlines :: "string \<Rightarrow> string" where
  "strip_newlines s = rev (dropWhile (\<lambda>c. c = CHR 0x0A \<or> c = CHR 0x0D) (rev s))"

text \<open>The loop that names the operator's path where tmux named the private alias.\<close>

function name_path :: "string \<Rightarrow> string \<Rightarrow> string \<Rightarrow> string" where
  "name_path old new s =
     (if old = [] then s
      else case sub_find old s of
        None \<Rightarrow> s
      | Some n \<Rightarrow> take n s @ new @ name_path old new (drop (n + length old) s))"
  by pat_completeness auto
termination
proof (relation "measure (\<lambda>(_, _, s). length s)")
  fix old new s :: string and n
  assume "old \<noteq> []" "sub_find old s = Some n"
  with sub_find_Some [of old s n] show "((old, new, drop (n + length old) s), (old, new, s)) \<in> measure (\<lambda>(_, _, s). length s)"
    by (cases s) auto
qed simp

declare name_path.simps [simp del]

definition refusal_diagnostic :: "SubprocessBackend \<Rightarrow> CommandRequest \<Rightarrow> ProcessReply \<Rightarrow> string" where
  "refusal_diagnostic b command reply =
     (let d = (if stderr_bytes reply = [] then stdout_bytes reply else stderr_bytes reply);
          d = strip_newlines d;
          d = (if socket_path b \<noteq> [] \<and> selected_socket_path b \<noteq> [] \<and> socket_path b \<noteq> selected_socket_path b
               then name_path (socket_path b) (selected_socket_path b) d else d) in
      d @ '' (running: '' @ the (rendered_command command) @ '')'')"

definition conclude :: "bool \<Rightarrow> bool \<Rightarrow> CommandRequest \<Rightarrow> SubprocessBackend \<Rightarrow> (CommandFailure, string) expected
    \<Rightarrow> SubprocessBackend \<times> (CommandFailure, string) expected" where
  "conclude dispatching notify command b outcome =
     (case outcome of
        Inl f \<Rightarrow> if notify then report_failure dispatching command f b else (b, interpret_failure_unobserved command f)
      | Inr out \<Rightarrow> (if notify then observe dispatching command None b else b, Inr out))"

definition interpret_reply :: "bool \<Rightarrow> CommandRequest \<Rightarrow> nat \<Rightarrow> ProcessReply \<Rightarrow> bool \<Rightarrow> SubprocessBackend
    \<Rightarrow> SubprocessBackend \<times> (CommandFailure, string) expected" where
  "interpret_reply dispatching command allowed reply notify b =
     (let exited_badly = (case termination_of reply of Exited code \<Rightarrow> code \<noteq> 0 | Signaled _ \<Rightarrow> False) in
      if output_truncated reply then
        conclude dispatching notify command b (Inl \<lparr>kind = truncated, delivery = replied, exit_code = 0,
          diagnostic = ''tmux produced more output than the '' @ dec_string allowed
            @ '' byte limit this call allowed for''\<rparr>)
      else if exited_badly \<and> fence_fired (stderr_bytes reply) (fence_marker b) then
        conclude dispatching notify command (b\<lparr>version_cache := None\<rparr>) (Inl replaced_daemon)
      else
        let absent = (exited_badly \<and> endpoint_is_absent (stderr_bytes reply));
            b = (if absent then b\<lparr>version_cache := None\<rparr> else b) in
        if absent \<and> single command ''kill-server'' then conclude dispatching notify command b (Inr [])
        else case termination_of reply of
          Exited code \<Rightarrow>
            if code \<noteq> 0 then
              conclude dispatching notify command b (Inl \<lparr>kind = refused, delivery = replied, exit_code = code,
                diagnostic = refusal_diagnostic b command reply\<rparr>)
            else conclude dispatching notify command b (Inr (stdout_bytes reply))
        | Signaled _ \<Rightarrow>
            conclude dispatching notify command b (Inl \<lparr>kind = refused, delivery = replied, exit_code = - 1,
              diagnostic = refusal_diagnostic b command reply\<rparr>))"

definition transport_failure :: "ProcessError \<Rightarrow> CommandFailure" where
  "transport_failure e = \<lparr>kind = kind_of (error_kind e), delivery = error_started e, exit_code = - 1,
     diagnostic = error_diagnostic e\<rparr>"

section \<open>Running\<close>

definition publish_started_endpoint :: "Host \<Rightarrow> string \<Rightarrow> SubprocessBackend
    \<Rightarrow> SubprocessBackend \<times> (CommandFailure, unit) expected" where
  "publish_started_endpoint host start_stderr b =
     (case bind_socket_endpoint (files host (launched b)) (own_connection b) of
        Inl d \<Rightarrow> (b, Inl \<lparr>kind = pipe, delivery = replied, exit_code = 0,
            diagnostic = ''tmux started but its exact endpoint could not be retained: '' @ d\<rparr>)
      | Inr e \<Rightarrow>
          if ep_missing e \<or> ep_identity e = [] then
            (b, Inl \<lparr>kind = missing, delivery = replied, exit_code = 0,
               diagnostic = ''tmux started but its exact endpoint was not available to retain''
                 @ (if start_stderr = [] then '': tmux gave no reason'' else '': '' @ start_stderr)\<rparr>)
          else (b\<lparr>started_endpoint := Some \<lparr>pe_connection = ep_connection e, pe_socket_path = ep_socket_path e,
                   pe_identity = ep_identity e, pe_alias = ep_alias e\<rparr>, socket_missing := False\<rparr>, Inr ()))"

definition dispatch :: "Host \<Rightarrow> ProcessRequest \<Rightarrow> SubprocessBackend
    \<Rightarrow> SubprocessBackend \<times> (ProcessError, ProcessReply) expected" where
  "dispatch host request b =
     (let (after, reply) = run_process (platform host) (launched b) request in (b\<lparr>launched := after\<rparr>, reply))"

definition starts_server :: "CommandRequest \<Rightarrow> bool" where
  "starts_server command \<longleftrightarrow> (case command of
     a # _ \<Rightarrow> arg_value a = ''new-session'' \<or> arg_value a = ''start-server'' | [] \<Rightarrow> False)"

definition run_prepared :: "Host \<Rightarrow> CommandRequest \<Rightarrow> bool \<Rightarrow> ProcessRequest \<Rightarrow> SubprocessBackend
    \<Rightarrow> SubprocessBackend \<times> (CommandFailure, string) expected" where
  "run_prepared host command publishes request b =
     (let (b, reply) = dispatch host request b in
      case reply of
        Inl e \<Rightarrow> report_failure True command (transport_failure e) b
      | Inr reply \<Rightarrow>
          if \<not> publishes then interpret_reply True command (capture_limit request) reply True b
          else
            let (b, interpreted) = interpret_reply True command (capture_limit request) reply False b in
            case interpreted of
              Inl f \<Rightarrow> (observe True command (Some f) b, Inl f)
            | Inr out \<Rightarrow>
                let (b, published) = publish_started_endpoint host (strip_newlines (stderr_bytes reply)) b in
                (case published of
                   Inl f \<Rightarrow> report_failure True command f b
                 | Inr _ \<Rightarrow> (observe True command None b, Inr out)))"

definition run_scoped :: "Host \<Rightarrow> CommandRequest \<Rightarrow> int option \<Rightarrow> nat option \<Rightarrow> SubprocessBackend
    \<Rightarrow> SubprocessBackend \<times> (CommandFailure, string) expected" where
  "run_scoped host command limit output_limit b =
     (let publishes = (socket_missing b \<and> startable b \<and> starts_server command) in
      if socket_missing b \<and> \<not> single command ''-V'' \<and> (\<not> startable b \<or> \<not> starts_server command)
      then report_failure False command predates b
      else
        let (b, prepared) = prepare_request host command limit output_limit True b in
        case prepared of
          Inl f \<Rightarrow> report_failure False command f b
        | Inr AbsentNoop \<Rightarrow> (observe False command None b, Inr [])
        | Inr (Prepared request) \<Rightarrow> run_prepared host command publishes request b)"

definition run_unobserved :: "Host \<Rightarrow> CommandRequest \<Rightarrow> int option \<Rightarrow> nat option \<Rightarrow> SubprocessBackend
    \<Rightarrow> SubprocessBackend \<times> (CommandFailure, string) expected" where
  "run_unobserved host command limit output_limit b =
     (if socket_missing b \<and> \<not> single command ''-V'' then (b, interpret_failure_unobserved command predates)
      else
        let (b, prepared) = prepare_request host command limit output_limit True b in
        case prepared of
          Inl f \<Rightarrow> (b, interpret_failure_unobserved command f)
        | Inr AbsentNoop \<Rightarrow> (b, Inr [])
        | Inr (Prepared request) \<Rightarrow>
            let (b, reply) = dispatch host request b in
            (case reply of
               Inl e \<Rightarrow> (b, interpret_failure_unobserved command (transport_failure e))
             | Inr reply \<Rightarrow> interpret_reply False command (capture_limit request) reply False b))"

definition check_release :: "Host \<Rightarrow> SubprocessBackend \<Rightarrow> SubprocessBackend \<times> (CommandFailure, unit) expected" where
  "check_release host b =
     (let (b, checked) = check_version host (Some (case policy_timeout (policy b) of Some t \<Rightarrow> t | None \<Rightarrow> 30000)) b in
      (b, case checked of Inl f \<Rightarrow> Inl f | Inr _ \<Rightarrow> Inr ()))"

definition backend_version :: "Host \<Rightarrow> SubprocessBackend \<Rightarrow> SubprocessBackend \<times> (CommandFailure, Version) expected" where
  "backend_version host b =
     (case version_cache b of
        Some e \<Rightarrow> (b, Inr (version e))
      | None \<Rightarrow>
          let (after, endpoint) = query_endpoint (platform host) (tmux_binary (policy b)) (connection b)
                (Some (case policy_timeout (policy b) of Some t \<Rightarrow> t | None \<Rightarrow> 30000)) (launched b);
              b = b\<lparr>launched := after\<rparr> in
          case endpoint of
            Inl f \<Rightarrow> (b, Inl f)
          | Inr e \<Rightarrow>
              (if live e \<and> has_value (require_supported e kMinimumSupported) then b\<lparr>version_cache := Some e\<rparr> else b,
               Inr (version e)))"

section \<open>What a check leaves behind\<close>

definition harmless :: "SubprocessBackend \<Rightarrow> ProcessRequest \<Rightarrow> bool" where
  "harmless b q \<longleftrightarrow> (\<exists>limit m. q = probe_request (tmux_binary (policy b)) (connection b) limit m)
     \<or> (\<exists>limit. q = version_request (tmux_binary (policy b)) limit)"

definition supported :: "EndpointVersion \<Rightarrow> bool" where
  "supported e \<longleftrightarrow> established (Inr e) \<and> is_supported (version e)"

definition backend_ok :: "SubprocessBackend \<Rightarrow> bool" where
  "backend_ok b \<longleftrightarrow> (\<forall>e. version_cache b = Some e \<longrightarrow> live e \<and> supported e)"

text \<open>The backend after checks: more has been launched and the remembered version may be another.\<close>

definition after_checks :: "SubprocessBackend \<Rightarrow> ProcessRequest list \<Rightarrow> EndpointVersion option \<Rightarrow> SubprocessBackend" where
  "after_checks b checks cache = b\<lparr>launched := launched b @ checks, version_cache := cache\<rparr>"

lemma after_checks_simps [simp]:
  "connection (after_checks b cs v) = connection b" "policy (after_checks b cs v) = policy b"
  "reports (after_checks b cs v) = reports b" "observer (after_checks b cs v) = observer b"
  "socket_missing (after_checks b cs v) = socket_missing b" "startable (after_checks b cs v) = startable b"
  "fence_marker (after_checks b cs v) = fence_marker b" "version_cache (after_checks b cs v) = v"
  "launched (after_checks b cs v) = launched b @ cs" "own_connection (after_checks b cs v) = own_connection b"
  "build_request (after_checks b cs v) = build_request b"
  "backend_ok (after_checks b cs v) \<longleftrightarrow> (\<forall>e. v = Some e \<longrightarrow> live e \<and> supported e)"
  by (simp_all add: after_checks_def connection_def published_endpoint_def build_request_def fun_eq_iff backend_ok_def
      cong: option.case_cong if_cong)

lemma after_checks_cache [simp]: "(after_checks b cs w)\<lparr>version_cache := v\<rparr> = after_checks b cs v"
  by (simp add: after_checks_def)

lemma after_no_checks: "after_checks b [] (version_cache b) = b"
  by (simp add: after_checks_def)

lemma require_supported_iff:
  "established (Inr e) \<Longrightarrow> require_supported e kMinimumSupported = Inr u \<longleftrightarrow> supported e"
  using parse_version_parsed [of "''tmux '' @ token e" "version e"]
  by (auto simp: require_supported_def supported_def established_def parsed_version_def is_supported_def
      version_ge_def version_less_def)

lemma query_harmless:
  assumes "query_endpoint os (tmux_binary (policy b)) (connection b) limit h = (h', r)"
  shows "\<exists>cs. h' = h @ cs \<and> (\<forall>q \<in> set cs. harmless b q)"
proof -
  have "harmless b (probe_request (tmux_binary (policy b)) (connection b) l m)"
    "harmless b (version_request (tmux_binary (policy b)) l)" for l m
    unfolding harmless_def by blast+
  then show ?thesis using query_launches [OF assms] by auto
qed

lemma check_version_frame:
  assumes "check_version host limit b = (b', r)" "backend_ok b"
  shows "\<exists>cs v. b' = after_checks b cs v \<and> (\<forall>q \<in> set cs. harmless b q) \<and> backend_ok b'
    \<and> (case r of Inl f \<Rightarrow> delivery f = not_started | Inr e \<Rightarrow> supported e)"
proof (cases "version_cache b")
  case (Some e)
  with assms have "b' = b" "r = Inr e" "live e \<and> supported e" by (auto simp: check_version_def backend_ok_def)
  with assms(2) after_no_checks [of b] show ?thesis
    by (intro exI [of _ "[]"] exI [of _ "version_cache b"]) auto
next
  case None
  obtain h q where hq: "query_endpoint (platform host) (tmux_binary (policy b)) (connection b)
      (Some (case limit of Some t \<Rightarrow> t | None \<Rightarrow> 30000)) (launched b) = (h, q)" by fastforce
  obtain cs where cs: "h = launched b @ cs" "\<forall>q \<in> set cs. harmless b q" using query_harmless [OF hq] by blast
  have est: "established q"
    using query_endpoint_established [of "platform host" "tmux_binary (policy b)" "connection b"] hq by (metis snd_conv)
  note hq = hq [unfolded cs(1)]
  have frame: "b\<lparr>launched := launched b @ cs\<rparr> = after_checks b cs None"
      "b\<lparr>launched := launched b @ cs, version_cache := v\<rparr> = after_checks b cs v" for v
    using None by (simp_all add: after_checks_def)
  have fl: "require_supported e kMinimumSupported = Inl f \<Longrightarrow> delivery f = not_started" for e f
    by (auto simp: require_supported_def version_check_failure_def split: if_splits)
  show ?thesis
  proof (cases q)
    case (Inl f)
    with assms None hq est show ?thesis
      by (intro exI [of _ cs] exI [of _ None]) (auto simp: check_version_def frame cs established_def)
  next
    case (Inr e)
    then have "require_supported e kMinimumSupported = Inr u \<longleftrightarrow> supported e" for u
      using est by (intro require_supported_iff) simp
    with Inr assms None hq cs show ?thesis
      by (intro exI [of _ cs] exI [of _ "version_cache b'"])
        (auto simp: check_version_def Let_def frame dest: fl split: sum.splits if_splits)
  qed
qed

text \<open>What \<open>prepare_request\<close> may hand over for a command.\<close>

definition authorized :: "SubprocessBackend \<Rightarrow> CommandRequest \<Rightarrow> int option \<Rightarrow> nat option \<Rightarrow> ProcessRequest \<Rightarrow> bool" where
  "authorized b c limit output_limit q \<longleftrightarrow>
     (single c ''-V'' \<or> single c ''-h'') \<and> q = build_request b c limit output_limit None
   \<or> (\<exists>e. supported e \<and> refuse_literal (argv c) (version e) (live e) = None
        \<and> q = build_request b c limit output_limit (Some e))"

lemma refuse_literal_delivery: "refuse_literal as v l = Some f \<Longrightarrow> delivery f = not_started"
proof -
  have "refuse_loop cs v l = Some f \<Longrightarrow> delivery f = not_started" for cs
    by (induction cs) (auto dest: refuse_command_delivery split: option.splits)
  then show "refuse_literal as v l = Some f \<Longrightarrow> delivery f = not_started" by (simp add: refuse_literal_def)
qed

lemma prepare_request_frame:
  assumes "prepare_request host c limit output_limit noop b = (b', r)" "backend_ok b"
  shows "\<exists>cs v. b' = after_checks b cs v \<and> (\<forall>q \<in> set cs. harmless b q) \<and> backend_ok b'
    \<and> (case r of Inl f \<Rightarrow> delivery f = not_started
       | Inr (Prepared q) \<Rightarrow> authorized b c limit output_limit q
       | Inr AbsentNoop \<Rightarrow> single c ''kill-server'')"
proof -
  obtain b1 k where k: "check_command host c limit b = (b1, k)" by fastforce
  then have r: "b' = b1" "r = (case k of Inl f \<Rightarrow> Inl f | Inr e \<Rightarrow> Inr (assemble_request b1 c limit output_limit e noop))"
    using assms(1) by (auto simp: prepare_request_def)
  have same: ?thesis if "b1 = b" "case k of Inl f \<Rightarrow> delivery f = not_started | Inr e \<Rightarrow> e = None \<and> (single c ''-V'' \<or> single c ''-h'')"
    using that r assms(2) after_no_checks [of b]
    by (intro exI [of _ "[]"] exI [of _ "version_cache b"])
      (auto simp: assemble_request_def authorized_def split: sum.splits)
  show ?thesis
  proof (cases "c = [] \<or> single c ''-V'' \<or> single c ''-h'' \<or> starts_with (arg_value (hd c)) ''-''")
    case True
    with k have "b1 = b" "case k of Inl f \<Rightarrow> delivery f = not_started | Inr e \<Rightarrow> e = None \<and> (single c ''-V'' \<or> single c ''-h'')"
      by (auto simp: check_command_def version_check_failure_def Let_def split: list.splits if_splits)
    then show ?thesis by (rule same)
  next
    case False
    obtain b2 w where w: "check_version host limit b = (b2, w)" by fastforce
    obtain cs v where cs: "b2 = after_checks b cs v" "\<forall>q \<in> set cs. harmless b q" "backend_ok b2"
        "case w of Inl f \<Rightarrow> delivery f = not_started | Inr e \<Rightarrow> supported e"
      using check_version_frame [OF w assms(2)] by blast
    obtain a as where "c = a # as" using False by (cases c) auto
    then have kw: "b1 = b2" "k = (case w of Inl f \<Rightarrow> Inl f | Inr e \<Rightarrow>
        (case refuse_literal (argv c) (version e) (live e) of Some f \<Rightarrow> Inl f | None \<Rightarrow> Inr (Some e)))"
      using k w False by (auto simp: check_command_def Let_def split: sum.splits option.splits)
    show ?thesis using cs kw r
      by (intro exI [of _ cs] exI [of _ v])
        (auto simp: assemble_request_def authorized_def dest: refuse_literal_delivery split: sum.splits option.splits)
  qed
qed

section \<open>What a run does\<close>

definition failure_of :: "(CommandFailure, 'a) expected \<Rightarrow> CommandFailure option" where
  "failure_of r = (case r of Inl f \<Rightarrow> Some f | Inr _ \<Rightarrow> None)"

definition hidden :: "CommandRequest \<Rightarrow> CommandFailure \<Rightarrow> bool" where
  "hidden c f \<longleftrightarrow> (\<forall>p \<in> set (sensitive_parts c). \<not> contains_sub (diagnostic f) p)"

definition settled :: "CommandRequest \<Rightarrow> (CommandFailure, string) expected \<Rightarrow> (CommandFailure, string) expected" where
  "settled c outcome = (case outcome of Inl f \<Rightarrow> Inl (the (redact f c)) | Inr s \<Rightarrow> Inr s)"

lemma failure_of_simps [simp]: "failure_of (Inl f) = Some f" "failure_of (Inr s) = None"
  by (simp_all add: failure_of_def)

lemma settled_simps [simp]: "settled c (Inr s) = Inr s" "settled c (Inl f) = Inl (the (redact f c))"
  by (simp_all add: settled_def)

lemma redact_hidden: "hidden c (the (redact f c)) \<and> delivery (the (redact f c)) = delivery f"
proof -
  obtain d where "redacted_text (diagnostic f) (sensitive_parts c) = Some d"
    using redacted_text_returns [OF sensitive_parts_nonempty] by blast
  moreover from this have "\<forall>p \<in> set (sensitive_parts c). \<not> contains_sub d p"
    using redacted_text_hides sensitive_parts_nonempty by blast
  ultimately show ?thesis by (simp add: redact_def hidden_def)
qed

lemma settled_hidden: "settled c o' = Inl f \<Longrightarrow> hidden c f"
  using redact_hidden by (auto simp: settled_def split: sum.splits)

lemma conclude_settled:
  "conclude d n c b o' = (if n then observe d c (failure_of (settled c o')) b else b, settled c o')"
  by (auto simp: conclude_def report_failure_def interpret_failure_unobserved_def Let_def split: sum.splits)

lemma report_failure_settled: "report_failure d c f b = (observe d c (failure_of (settled c (Inl f))) b, settled c (Inl f))"
  by (simp add: report_failure_def Let_def)

text \<open>Interpreting a reply forgets at most the remembered version, and says that nothing started
  only when the fence fired.\<close>

lemma interpret_reply_conclude:
  "\<exists>v outcome. (\<forall>d n. interpret_reply d c a reply n b = conclude d n c (b\<lparr>version_cache := v\<rparr>) outcome)
     \<and> (v = version_cache b \<or> v = None)
     \<and> (\<forall>f. outcome = Inl f \<longrightarrow> delivery f = not_started \<longrightarrow> fence_fired (stderr_bytes reply) (fence_marker b))"
proof -
  have same: "b = b\<lparr>version_cache := version_cache b\<rparr>" by simp
  show ?thesis
  proof (cases "output_truncated reply")
    case True
    then show ?thesis
      by (intro exI [of _ "version_cache b"] exI) (auto simp: interpret_reply_def same [symmetric])
  next
    case False
    let ?bad = "case termination_of reply of Exited code \<Rightarrow> code \<noteq> 0 | Signaled _ \<Rightarrow> False"
    let ?absent = "?bad \<and> endpoint_is_absent (stderr_bytes reply)"
    show ?thesis
    proof (cases "?bad \<and> fence_fired (stderr_bytes reply) (fence_marker b)")
      case True
      with False show ?thesis
        by (intro exI [of _ None] exI) (auto simp: interpret_reply_def Let_def)
    next
      case nf: False
      have "\<forall>d n. interpret_reply d c a reply n b = conclude d n c (b\<lparr>version_cache := if ?absent then None else version_cache b\<rparr>)
         (if ?absent \<and> single c ''kill-server'' then Inr []
          else case termination_of reply of
            Exited code \<Rightarrow> if code \<noteq> 0 then Inl \<lparr>kind = refused, delivery = replied, exit_code = code,
                diagnostic = refusal_diagnostic (b\<lparr>version_cache := if ?absent then None else version_cache b\<rparr>) c reply\<rparr>
              else Inr (stdout_bytes reply)
          | Signaled _ \<Rightarrow> Inl \<lparr>kind = refused, delivery = replied, exit_code = - 1,
              diagnostic = refusal_diagnostic (b\<lparr>version_cache := if ?absent then None else version_cache b\<rparr>) c reply\<rparr>)"
        using nf False by (cases "termination_of reply") (auto simp: interpret_reply_def Let_def)
      then show ?thesis
        by (intro exI conjI, assumption) (auto split: Termination.splits if_splits)
    qed
  qed
qed

lemma dispatch_eq: "dispatch host q b = (b\<lparr>launched := launched b @ [q]\<rparr>, launch (platform host) (launched b) q)"
  by (simp add: dispatch_def run_process_def)

text \<open>A dispatched request that did not take effect: the runner says it was not started, or the fence
  stopped the command list.\<close>

definition without_effect :: "Host \<Rightarrow> ProcessRequest list \<Rightarrow> SubprocessBackend \<Rightarrow> ProcessRequest \<Rightarrow> bool" where
  "without_effect host h b q \<longleftrightarrow> (case launch (platform host) h q of
     Inl e \<Rightarrow> error_started e = not_started
   | Inr reply \<Rightarrow> fence_fired (stderr_bytes reply) (fence_marker b))"

definition run_shape :: "Host \<Rightarrow> CommandRequest \<Rightarrow> int option \<Rightarrow> nat option \<Rightarrow> SubprocessBackend
    \<Rightarrow> SubprocessBackend \<Rightarrow> bool \<Rightarrow> (CommandFailure, string) expected \<Rightarrow> bool" where
  "run_shape host c limit output_limit b b1 timed r \<longleftrightarrow>
     reports b1 = reports b \<and> observer b1 = observer b \<and> backend_ok b1 \<and> (\<forall>f. r = Inl f \<longrightarrow> hidden c f)
     \<and> (\<exists>cs. (\<forall>q \<in> set cs. harmless b q)
       \<and> (launched b1 = launched b @ cs \<and> \<not> timed \<and> (\<forall>f. r = Inl f \<longrightarrow> delivery f = not_started)
        \<or> (\<exists>q. launched b1 = launched b @ cs @ [q] \<and> authorized b c limit output_limit q \<and> timed
            \<and> (\<forall>f. r = Inl f \<longrightarrow> delivery f = not_started \<longrightarrow> without_effect host (launched b @ cs) b q))))"

lemma backend_ok_cache: "backend_ok b \<Longrightarrow> v = version_cache b \<or> v = None \<Longrightarrow> backend_ok (b\<lparr>version_cache := v, launched := h\<rparr>)"
  by (auto simp: backend_ok_def)

lemma publish_frame:
  assumes "publish_started_endpoint host err b = (b', r)"
  shows "reports b' = reports b \<and> observer b' = observer b \<and> launched b' = launched b \<and> version_cache b' = version_cache b
    \<and> (\<forall>f. r = Inl f \<longrightarrow> delivery f = replied)"
  using assms by (auto simp: publish_started_endpoint_def split: sum.splits if_splits)

lemma run_shape_refused:
  assumes "b1 = after_checks b cs v" "backend_ok b1" "\<forall>q \<in> set cs. harmless b q" "delivery f = not_started"
  shows "run_shape host c limit output_limit b b1 False (settled c (Inl f))"
  using assms redact_hidden [of c f] by (auto simp: run_shape_def)

lemma run_shape_sent:
  assumes "reports b1 = reports b" "observer b1 = observer b" "backend_ok b1" "\<forall>q \<in> set cs. harmless b q"
    "launched b1 = launched b @ cs @ [q]" "authorized b c limit output_limit q"
    "\<forall>f. outcome = Inl f \<longrightarrow> delivery f = not_started \<longrightarrow> without_effect host (launched b @ cs) b q"
  shows "run_shape host c limit output_limit b b1 True (settled c outcome)"
proof -
  have "hidden c f" if "settled c outcome = Inl f" for f using settled_hidden [OF that] .
  moreover have "without_effect host (launched b @ cs) b q" if "settled c outcome = Inl f" "delivery f = not_started" for f
    using that assms(7) redact_hidden by (cases outcome) auto
  ultimately show ?thesis using assms unfolding run_shape_def by blast
qed

lemma run_prepared_shape:
  assumes b1: "b1 = after_checks b cs v" "backend_ok b1" and cs: "\<forall>q \<in> set cs. harmless b q"
    and q: "authorized b c limit output_limit q" and run: "run_prepared host c publishes q b1 = (b', r)"
  shows "\<exists>b2. b' = observe True c (failure_of r) b2 \<and> run_shape host c limit output_limit b b2 True r"
proof -
  let ?h = "launched b @ cs"
  let ?b2 = "b1\<lparr>launched := ?h @ [q]\<rparr>"
  have d: "dispatch host q b1 = (?b2, launch (platform host) ?h q)" using b1 by (simp add: dispatch_eq)
  have shape: "run_shape host c limit output_limit b b3 True (settled c outcome)"
    if "reports b3 = reports b" "observer b3 = observer b" "launched b3 = ?h @ [q]"
       "version_cache b3 = version_cache b1 \<or> version_cache b3 = None"
       "\<forall>f. outcome = Inl f \<longrightarrow> delivery f = not_started \<longrightarrow> without_effect host ?h b q" for b3 outcome
    using that b1 cs q by (intro run_shape_sent) (auto simp: backend_ok_def)
  show ?thesis
  proof (cases "launch (platform host) ?h q")
    case (Inl e)
    then have "b' = observe True c (failure_of r) ?b2" "r = settled c (Inl (transport_failure e))"
      using run d by (auto simp: run_prepared_def report_failure_settled)
    moreover have "run_shape host c limit output_limit b ?b2 True (settled c (Inl (transport_failure e)))"
      using b1 Inl by (intro shape) (auto simp: without_effect_def transport_failure_def)
    ultimately show ?thesis by blast
  next
    case (Inr reply)
    obtain v' outcome where i: "\<And>d n. interpret_reply d c (capture_limit q) reply n ?b2 = conclude d n c (?b2\<lparr>version_cache := v'\<rparr>) outcome"
        "v' = version_cache ?b2 \<or> v' = None"
        "\<forall>f. outcome = Inl f \<longrightarrow> delivery f = not_started \<longrightarrow> fence_fired (stderr_bytes reply) (fence_marker ?b2)"
      using interpret_reply_conclude [of c "capture_limit q" reply ?b2] by blast
    let ?b3 = "?b2\<lparr>version_cache := v'\<rparr>"
    have b3: "run_shape host c limit output_limit b ?b3 True (settled c outcome)"
      using i(2,3) Inr b1 by (intro shape) (auto simp: without_effect_def)
    obtain b4 w where w: "publish_started_endpoint host (strip_newlines (stderr_bytes reply)) ?b3 = (b4, w)" by fastforce
    define final where "final = (case outcome of Inl f \<Rightarrow> Inl f | Inr out \<Rightarrow> (case w of Inl f \<Rightarrow> Inl f | Inr _ \<Rightarrow> Inr out))"
    have b4: "run_shape host c limit output_limit b b4 True (settled c final)" if "failure_of outcome = None"
      using that publish_frame [OF w] i(2) b1 by (intro shape) (auto simp: final_def failure_of_def split: sum.splits)
    have "run_prepared host c publishes q b1 =
       (if \<not> publishes \<or> failure_of outcome \<noteq> None
        then (observe True c (failure_of (settled c outcome)) ?b3, settled c outcome)
        else (observe True c (failure_of (settled c final)) b4, settled c final))"
      using d Inr i(1) w
      by (auto simp: run_prepared_def conclude_settled final_def report_failure_settled split: sum.split)
    with run b3 b4 show ?thesis by (auto split: if_splits)
  qed
qed

lemma run_scoped_shape:
  assumes ok: "backend_ok b" and run: "run_scoped host c limit output_limit b = (b', r)"
  shows "\<exists>b1 timed. b' = observe timed c (failure_of r) b1 \<and> run_shape host c limit output_limit b b1 timed r"
proof (cases "socket_missing b \<and> \<not> single c ''-V'' \<and> (\<not> startable b \<or> \<not> starts_server c)")
  case True
  then have "run_scoped host c limit output_limit b = report_failure False c predates b" by (simp add: run_scoped_def)
  with run have "b' = observe False c (failure_of r) b" "r = settled c (Inl predates)"
    by (auto simp: report_failure_settled)
  moreover have "run_shape host c limit output_limit b b False (settled c (Inl predates))"
    using ok after_no_checks [of b] by (intro run_shape_refused [of _ _ "[]" "version_cache b"]) (auto simp: predates_def)
  ultimately show ?thesis by blast
next
  case False
  obtain b1 p where p: "prepare_request host c limit output_limit True b = (b1, p)" by fastforce
  obtain cs v where cs: "b1 = after_checks b cs v" "backend_ok b1" "\<forall>q \<in> set cs. harmless b q"
      "case p of Inl f \<Rightarrow> delivery f = not_started
       | Inr (Prepared q) \<Rightarrow> authorized b c limit output_limit q
       | Inr AbsentNoop \<Rightarrow> single c ''kill-server''"
    using prepare_request_frame [OF p ok] by blast
  consider (refusal) f where "p = Inl f" | (noop) "p = Inr AbsentNoop" | (sent) q where "p = Inr (Prepared q)"
    by (metis PreparedRequest.exhaust sum.exhaust)
  then show ?thesis
  proof cases
    case refusal
    then have "b' = observe False c (failure_of r) b1" "r = settled c (Inl f)"
      using False run p by (auto simp: run_scoped_def report_failure_settled)
    moreover have "run_shape host c limit output_limit b b1 False (settled c (Inl f))"
      using cs refusal by (intro run_shape_refused [OF cs(1,2,3)]) simp
    ultimately show ?thesis by blast
  next
    case noop
    then have "b' = observe False c (failure_of r) b1" "r = Inr []" using False run p by (auto simp: run_scoped_def)
    moreover have "run_shape host c limit output_limit b b1 False (Inr [])" using cs by (auto simp: run_shape_def)
    ultimately show ?thesis by blast
  next
    case sent
    then have "run_prepared host c (socket_missing b \<and> startable b \<and> starts_server c) q b1 = (b', r)"
      using False run p by (auto simp: run_scoped_def Let_def)
    moreover have "authorized b c limit output_limit q" using cs(4) sent by simp
    ultimately show ?thesis using run_prepared_shape [OF cs(1-3)] by blast
  qed
qed

lemma observe_simps [simp]:
  "launched (observe d c f b) = launched b" "version_cache (observe d c f b) = version_cache b"
  "backend_ok (observe d c f b) = backend_ok b" "observer (observe d c f b) = observer b"
  by (simp_all add: observe_def backend_ok_def Let_def)

section \<open>Reachable backends\<close>

inductive reachable :: "Host \<Rightarrow> SubprocessBackend \<Rightarrow> bool" for host where
  opened: "open_backend host selector observed chosen h = Inr b \<Longrightarrow> reachable host b"
| startable_opened: "open_startable host selector configuration observed chosen h = Inr b \<Longrightarrow> reachable host b"
| ran: "reachable host b \<Longrightarrow> run_scoped host c limit output_limit b = (b', r) \<Longrightarrow> reachable host b'"
| ran_unobserved: "reachable host b \<Longrightarrow> run_unobserved host c limit output_limit b = (b', r) \<Longrightarrow> reachable host b'"
| release_checked: "reachable host b \<Longrightarrow> check_release host b = (b', r') \<Longrightarrow> reachable host b'"
| version_asked: "reachable host b \<Longrightarrow> backend_version host b = (b', r'') \<Longrightarrow> reachable host b'"

lemma new_backend_ok: "backend_ok (new_backend e s st cfg ob p w h)"
  by (simp add: backend_ok_def new_backend_def)

lemma opened_ok:
  "open_backend host selector observed chosen h = Inr b \<Longrightarrow> backend_ok b"
  "open_startable host selector configuration observed chosen h = Inr b \<Longrightarrow> backend_ok b"
  by (auto simp: open_backend_def open_startable_def Let_def new_backend_ok split: sum.splits option.splits if_splits)

lemma run_unobserved_ok:
  assumes "backend_ok b" "run_unobserved host c limit output_limit b = (b', r)"
  shows "backend_ok b'"
proof (cases "socket_missing b \<and> \<not> single c ''-V''")
  case True
  with assms show ?thesis by (simp add: run_unobserved_def)
next
  case False
  obtain b1 p where p: "prepare_request host c limit output_limit True b = (b1, p)" by fastforce
  have ok: "backend_ok b1" using prepare_request_frame [OF p assms(1)] by blast
  show ?thesis
  proof (cases "\<exists>q reply. p = Inr (Prepared q) \<and> launch (platform host) (launched b1) q = Inr reply")
    case True
    then obtain q reply where q: "p = Inr (Prepared q)" "launch (platform host) (launched b1) q = Inr reply" by blast
    let ?b2 = "b1\<lparr>launched := launched b1 @ [q]\<rparr>"
    obtain v' outcome where i: "interpret_reply False c (capture_limit q) reply False ?b2 = conclude False False c (?b2\<lparr>version_cache := v'\<rparr>) outcome"
        "v' = version_cache ?b2 \<or> v' = None"
      using interpret_reply_conclude [of c "capture_limit q" reply ?b2] by blast
    then have "b' = ?b2\<lparr>version_cache := v'\<rparr>"
      using assms(2) [unfolded run_unobserved_def if_not_P [OF False]] p q by (simp add: dispatch_eq conclude_settled)
    with ok i(2) show ?thesis by (auto simp: backend_ok_def)
  next
    case nr: False
    with False assms(2) p ok show ?thesis
      by (auto simp: run_unobserved_def dispatch_eq backend_ok_def split: sum.splits PreparedRequest.splits)
  qed
qed

lemma backend_version_ok:
  assumes "backend_ok b" "backend_version host b = (b', r)"
  shows "backend_ok b'"
proof (cases "version_cache b")
  case None
  let ?q = "query_endpoint (platform host) (tmux_binary (policy b)) (connection b)
                (Some (case policy_timeout (policy b) of Some t \<Rightarrow> t | None \<Rightarrow> 30000)) (launched b)"
  have est: "established (snd ?q)" by (rule query_endpoint_established)
  have "supported e" if "snd ?q = Inr e" "has_value (require_supported e kMinimumSupported)" for e
    using that est require_supported_iff [of e "()"] by (cases "require_supported e kMinimumSupported") auto
  then show ?thesis using assms None
    by (auto simp: backend_version_def backend_ok_def Let_def split: sum.splits prod.splits if_splits)
qed (use assms in \<open>auto simp: backend_version_def\<close>)

lemma reachable_ok: "reachable host b \<Longrightarrow> backend_ok b"
proof (induction rule: reachable.induct)
  case (ran b c limit output_limit b' r)
  then obtain b1 timed where "b' = observe timed c (failure_of r) b1" "run_shape host c limit output_limit b b1 timed r"
    using run_scoped_shape by blast
  then show ?case by (simp add: run_shape_def)
next
  case (release_checked b b' r')
  then obtain b1 w where "check_version host (Some (case policy_timeout (policy b) of Some t \<Rightarrow> t | None \<Rightarrow> 30000)) b = (b1, w)"
      "b' = b1" by (auto simp: check_release_def split: prod.splits)
  with check_version_frame release_checked show ?case by blast
qed (auto intro: opened_ok run_unobserved_ok backend_version_ok)

section \<open>Properties\<close>

text \<open>
  C6.
  No command reaches tmux past the gates. From any backend that opening and using it can produce,
  running a command launches, besides side-effect free version checks, at most one process, and that
  one is the command's own request: either one of the executable's own queries (\<open>-V\<close>, \<open>-h\<close>), or a
  request built for a version that was established, is supported and refuses none of the commands in
  the list; against a live daemon the request carries \<open>-N\<close> and, before the command, the fence that
  compares the daemon's version with the one that was checked.
\<close>

theorem dispatch_gated:
  assumes "reachable host b" "run_scoped host c limit output_limit b = (b', r)"
  shows "\<exists>checks sent. launched b' = launched b @ checks @ sent \<and> length sent \<le> 1
    \<and> (\<forall>q \<in> set checks. harmless b q)
    \<and> (\<forall>q \<in> set sent.
         (single c ''-V'' \<or> single c ''-h'') \<and> q = build_request b c limit output_limit None
       \<or> (\<exists>e. is_supported (version e) \<and> parse_version (''tmux '' @ token e) = Inr (version e)
            \<and> \<not> list_ex (unsafe_command (version e) (live e)) (invocations (argv c))
            \<and> q = build_request b c limit output_limit (Some e)
            \<and> (live e \<longrightarrow> (\<exists>front. map argument_value (arguments q) = front @ [''-N'']
                 @ [''if-shell'', ''-F'', ''#{==:#{version},'' @ token e @ ''}'', [], fence_marker b, '';'']
                 @ map escaped_argument (argv c)))))"
proof -
  obtain b1 timed where "b' = observe timed c (failure_of r) b1" "run_shape host c limit output_limit b b1 timed r"
    using run_scoped_shape [OF reachable_ok [OF assms(1)] assms(2)] by blast
  then obtain checks sent where s: "launched b' = launched b @ checks @ sent" "length sent \<le> 1"
      "\<forall>q \<in> set checks. harmless b q" "\<forall>q \<in> set sent. authorized b c limit output_limit q"
    unfolding run_shape_def by (metis (no_types, lifting) append_Nil2 empty_iff empty_set le_numeral_extra(1,4)
        length_Cons list.size(3) observe_simps(1) set_ConsD One_nat_def zero_le)
  have safe: "\<not> list_ex (unsafe_command v l) cs" if "refuse_loop cs v l = None" for cs v l
    using that by (induction cs) (auto simp: refuse_command_None split: option.splits)
  have fence: "\<exists>front. map argument_value (arguments (build_request b c limit output_limit (Some e))) = front @ [''-N'']
                 @ [''if-shell'', ''-F'', ''#{==:#{version},'' @ token e @ ''}'', [], fence_marker b, '';'']
                 @ map escaped_argument (argv c)" if "live e" for e
    using that
    by (intro exI [of _ "map argument_value ([public_argument ''-u''] @ (case startup_configuration b of
              Some configuration \<Rightarrow> if socket_missing b \<and> startable b
                then [public_argument ''-f'', public_argument configuration] else []
            | None \<Rightarrow> []) @ map public_argument (connection b))"])
      (simp add: build_request_def version_fence_def public_argument_def argv_def o_def)
  show ?thesis
  proof (rule exI [of _ checks], rule exI [of _ sent], intro conjI s(1-3) ballI)
    fix q assume "q \<in> set sent"
    then have "authorized b c limit output_limit q" using s(4) by blast
    then show "(single c ''-V'' \<or> single c ''-h'') \<and> q = build_request b c limit output_limit None
       \<or> (\<exists>e. is_supported (version e) \<and> parse_version (''tmux '' @ token e) = Inr (version e)
            \<and> \<not> list_ex (unsafe_command (version e) (live e)) (invocations (argv c))
            \<and> q = build_request b c limit output_limit (Some e)
            \<and> (live e \<longrightarrow> (\<exists>front. map argument_value (arguments q) = front @ [''-N'']
                 @ [''if-shell'', ''-F'', ''#{==:#{version},'' @ token e @ ''}'', [], fence_marker b, '';'']
                 @ map escaped_argument (argv c))))"
      unfolding authorized_def supported_def established_def refuse_literal_def
      using safe fence by (simp del: append.simps) blast
  qed
qed

text \<open>A host with no server and an executable that says it is tmux 3.5a.\<close>

definition quiet_host :: Host where
  "quiet_host = \<lparr>platform = \<lparr>launch = (\<lambda>h q. if arguments q = [public_argument ''-V'']
       then Inr \<lparr>termination_of = Exited 0, stdout_bytes = ''tmux 3.5a'', stderr_bytes = [], output_truncated = False\<rparr>
       else Inr \<lparr>termination_of = Exited 1, stdout_bytes = [], stderr_bytes = ''no server running on /s'', output_truncated = False\<rparr>),
     entropy = (\<lambda>h. [1, 2, 3, 4])\<rparr>,
     files = (\<lambda>h. \<lparr>env_tmux = None, env_tmpdir = None, canonical = Some, weakly_canonical = Some, user_id = 0,
       mkdtemp = (\<lambda>t. Inr t), link = (\<lambda>s a. link_ok), lstat = (\<lambda>p. Inr \<lparr>is_sock = True, st_dev = 1, st_ino = 7\<rparr>)\<rparr>)\<rparr>"

definition quiet_backend :: SubprocessBackend where
  "quiet_backend = projr (open_backend quiet_host [''-S'', ''/run/t''] True \<lparr>policy_timeout = Some 30000, policy_output_limit = None, tmux_binary = ''tmux''\<rparr> [])"

lemma quiet_reachable: "reachable quiet_host quiet_backend"
proof -
  have "\<exists>b. open_backend quiet_host [''-S'', ''/run/t''] True \<lparr>policy_timeout = Some 30000, policy_output_limit = None, tmux_binary = ''tmux''\<rparr> [] = Inr b"
    by (simp add: open_backend_def quiet_host_def bind_socket_endpoint_def pin_under_def path_join_def kSocketPathLimit_def Let_def)
  then show ?thesis unfolding quiet_backend_def by (metis reachable.opened sum.sel(2))
qed

theorem dispatch_gated_witness:
  "\<exists>checks sent. launched (fst (run_scoped quiet_host [plain_argument ''new-window''] None None quiet_backend)) = launched quiet_backend @ checks @ sent
     \<and> length sent \<le> 1 \<and> list_all (harmless quiet_backend) checks"
  using dispatch_gated [OF quiet_reachable surjective_pairing] unfolding list_all_iff by blast

text \<open>
  The observer hears of every command exactly once, and hears what the caller is told: one report with
  the rendered command, its arguments and the failure that is returned (none for a success), timed only
  if the command's own request was launched; with no observer installed nothing is recorded.
  Neither the returned failure nor the reported one shows a secret part of the command.
\<close>

theorem observed_once:
  assumes "reachable host b" "run_scoped host c limit output_limit b = (b', r)"
  shows "(\<exists>timed. reports b' = reports b @ (if observer b then
        [\<lparr>report_command = the (rendered_command c), report_argv = argv c,
          report_failure_of = (case r of Inl f \<Rightarrow> Some f | Inr _ \<Rightarrow> None), report_timed = timed\<rparr>] else [])
      \<and> (timed \<longrightarrow> (\<exists>q. q \<in> set (drop (length (launched b)) (launched b')) \<and> authorized b c limit output_limit q)))
    \<and> (\<forall>f p. r = Inl f \<longrightarrow> p \<in> set (sensitive_parts c) \<longrightarrow> \<not> contains_sub (diagnostic f) p)"
proof -
  obtain b1 timed where b1: "b' = observe timed c (failure_of r) b1" "run_shape host c limit output_limit b b1 timed r"
    using run_scoped_shape [OF reachable_ok [OF assms(1)] assms(2)] by blast
  let ?timed = "(case failure_of r of None \<Rightarrow> True | Some f \<Rightarrow> delivery f \<noteq> not_started) \<and> timed"
  have "reports b' = reports b @ (if observer b then
        [\<lparr>report_command = the (rendered_command c), report_argv = argv c,
          report_failure_of = (case r of Inl f \<Rightarrow> Some f | Inr _ \<Rightarrow> None), report_timed = ?timed\<rparr>] else [])"
    using b1 by (auto simp: observe_def run_shape_def failure_of_def Let_def)
  moreover have "\<exists>q. q \<in> set (drop (length (launched b)) (launched b')) \<and> authorized b c limit output_limit q" if timed
    using b1 that unfolding run_shape_def by auto
  moreover have "\<forall>f p. r = Inl f \<longrightarrow> p \<in> set (sensitive_parts c) \<longrightarrow> \<not> contains_sub (diagnostic f) p"
    using b1(2) unfolding run_shape_def hidden_def by blast
  ultimately show ?thesis by blast
qed

lemma quiet_refuses_flag:
  assumes "c = plain_argument ''--x'' # rest"
  shows "\<exists>b' f. run_scoped quiet_host c None None quiet_backend = (b', Inl f) \<and> delivery f = not_started"
proof -
  have "\<not> socket_missing quiet_backend"
    by (simp add: quiet_backend_def open_backend_def quiet_host_def bind_socket_endpoint_def pin_under_def path_join_def
        kSocketPathLimit_def Let_def new_backend_def)
  then show ?thesis using redact_hidden
    by (auto simp: assms run_scoped_def prepare_request_def check_command_def single_def plain_argument_def
        report_failure_settled version_check_failure_def split: list.splits)
qed

theorem observed_once_witness:
  "\<exists>f. snd (run_scoped quiet_host [plain_argument ''--x'', sensitive ''hunter2''] None None quiet_backend) = Inl f
     \<and> \<not> contains_sub (diagnostic f) ''hunter2''"
proof -
  let ?c = "[plain_argument ''--x'', sensitive ''hunter2'']"
  obtain b' f where f: "run_scoped quiet_host ?c None None quiet_backend = (b', Inl f)" using quiet_refuses_flag by blast
  have "''hunter2'' \<in> set (sensitive_parts ?c)"
    by (simp add: sensitive_parts_def plain_argument_def sensitive_def)
  then show ?thesis using observed_once [OF quiet_reachable f] f by auto
qed

text \<open>
  ``Not started'' is never said of a command that ran: when a run fails with that delivery, either
  nothing but version checks was launched, or the one request that was launched is one the process
  runner itself reports as not started, or one that the fence stopped before the command.
\<close>

theorem not_started_honest:
  assumes "reachable host b" "run_scoped host c limit output_limit b = (b', Inl f)" "delivery f = not_started"
  shows "\<exists>checks. (\<forall>q \<in> set checks. harmless b q) \<and> (launched b' = launched b @ checks
     \<or> (\<exists>q. launched b' = launched b @ checks @ [q]
          \<and> (case launch (platform host) (launched b @ checks) q of
               Inl e \<Rightarrow> error_started e = not_started
             | Inr reply \<Rightarrow> fence_fired (stderr_bytes reply) (fence_marker b))))"
proof -
  obtain b1 timed where "b' = observe timed c (failure_of (Inl f :: (CommandFailure, string) expected)) b1"
      "run_shape host c limit output_limit b b1 timed (Inl f)"
    using run_scoped_shape [OF reachable_ok [OF assms(1)] assms(2)] by blast
  with assms(3) show ?thesis unfolding run_shape_def without_effect_def by auto
qed

theorem not_started_honest_witness:
  "\<exists>f checks. snd (run_scoped quiet_host [plain_argument ''--x''] None None quiet_backend) = Inl f
     \<and> delivery f = not_started \<and> list_all (harmless quiet_backend) checks"
  using quiet_refuses_flag [OF refl] not_started_honest [OF quiet_reachable, of "[plain_argument ''--x'']" None None]
  unfolding list_all_iff by fastforce

end
