(* ===== verification/Option_Text.thy ===== *)
theory Option_Text
  imports Prelude
begin

text \<open>
  Text tmux reads and prints: format strings (\<open>include/libtmux/format.hpp\<close>) and option listings
  (\<open>include/libtmux/options.hpp\<close>). The printer \<open>args_escape\<close> and the expansion \<open>expand\<close> are tmux's
  side, which the library inverts and feeds.
\<close>

section \<open>Format strings\<close>

fun escape_literal :: "string \<Rightarrow> string" where
  "escape_literal [] = []"
| "escape_literal (c # cs) = (if c = CHR ''#'' then CHR ''#'' # c # escape_literal cs else c # escape_literal cs)"

definition variable :: "string \<Rightarrow> string" where
  "variable name = ''#{'' @ name @ ''}''"

type_synonym FormatBuilder = string

definition format_literal :: "FormatBuilder \<Rightarrow> string \<Rightarrow> FormatBuilder" where
  "format_literal f s = f @ escape_literal s"

definition format_field :: "FormatBuilder \<Rightarrow> string \<Rightarrow> FormatBuilder" where
  "format_field f name = f @ variable name"

section \<open>Option listings\<close>

record EnvironmentEntry =
  env_name :: string
  env_value :: "string option"

record OptionEntry =
  option_name :: string
  option_index :: "64 word option"
  option_value :: string
  option_inherited :: bool

definition is_octal :: "char \<Rightarrow> bool" where
  "is_octal c \<longleftrightarrow> 48 \<le> byte c \<and> byte c \<le> 55"

fun octal_value :: "nat \<Rightarrow> string \<Rightarrow> nat" where
  "octal_value n [] = n"
| "octal_value n (d # ds) = octal_value (n * 8 + (byte d - 48)) ds"

definition simple_escape :: "char \<Rightarrow> char option" where
  "simple_escape c = map_of
     [(CHR ''n'', CHR 0x0A), (CHR ''t'', CHR 0x09), (CHR ''r'', CHR 0x0D), (CHR ''a'', CHR 0x07),
      (CHR ''b'', CHR 0x08), (CHR ''f'', CHR 0x0C), (CHR ''v'', CHR 0x0B)] c"

text \<open>The loop of \<open>unquote\<close> over what is left of the value; an escape consumes at least one character
  after the backslash, and a backslash at the very end is itself.\<close>

function unquote_body :: "string \<Rightarrow> string" where
  "unquote_body [] = []"
| "unquote_body (c # cs) =
     (if c \<noteq> CHR 0x5C \<or> cs = [] then c # unquote_body cs
      else case simple_escape (hd cs) of
        Some e \<Rightarrow> e # unquote_body (tl cs)
      | None \<Rightarrow>
          if is_octal (hd cs) then
            let digits = takeWhile is_octal (take 3 cs) in
            char_of (octal_value 0 digits mod 256) # unquote_body (drop (length digits) cs)
          else hd cs # unquote_body (tl cs))"
  by pat_completeness auto
termination
proof (relation "measure length")
  fix c cs digits
  assume "\<not> (c \<noteq> CHR 0x5C \<or> cs = [])" "is_octal (hd cs)" "digits = takeWhile is_octal (take 3 cs)"
  then show "(drop (length digits) cs, c # cs) \<in> measure length" by simp
qed (auto simp: less_Suc_eq_le)

definition quoted_with :: "char \<Rightarrow> string \<Rightarrow> bool" where
  "quoted_with q v \<longleftrightarrow> length v \<ge> 2 \<and> hd v = q \<and> last v = q"

definition unquote :: "string \<Rightarrow> string" where
  "unquote v =
     (if v = [CHR 0x27, CHR 0x27] then []
      else if quoted_with (CHR 0x22) v \<or> quoted_with (CHR 0x27) v then unquote_body (butlast (tl v))
      else unquote_body v)"

fun str_rfind :: "char \<Rightarrow> string \<Rightarrow> nat option" where
  "str_rfind c s = map_option (\<lambda>k. length s - 1 - k) (str_find c (rev s))"

definition bracket_index :: "string \<Rightarrow> (string \<times> 64 word) option" where
  "bracket_index key =
     (if \<not> ends_with key '']'' then None
      else case str_rfind CHR ''['' key of
        None \<Rightarrow> None
      | Some open' \<Rightarrow>
          let digits = take (length key - open' - 2) (drop (open' + 1) key) in
          if digits \<noteq> [] \<and> list_all is_digit digits
          then Some (take open' key, fold (\<lambda>d i. i * 10 + of_nat (digit_value d)) digits 0) else None)"

definition parse_option :: "string \<Rightarrow> OptionEntry option" where
  "parse_option line =
     (if line = [] then None
      else
        let space = str_find CHR '' '' line;
            key = (case space of None \<Rightarrow> line | Some n \<Rightarrow> take n line);
            v = (case space of None \<Rightarrow> [] | Some n \<Rightarrow> drop (n + 1) line);
            inherits = ends_with key ''*'';
            key = (if inherits then butlast key else key) in
        Some (case bracket_index key of
           Some (name, i) \<Rightarrow> \<lparr>option_name = name, option_index = Some i, option_value = unquote v, option_inherited = inherits\<rparr>
         | None \<Rightarrow> \<lparr>option_name = key, option_index = None, option_value = unquote v, option_inherited = inherits\<rparr>))"

function parse_options :: "string \<Rightarrow> OptionEntry list" where
  "parse_options output =
     (case str_find (CHR 0x0A) output of
        None \<Rightarrow> (case parse_option output of Some e \<Rightarrow> [e] | None \<Rightarrow> [])
      | Some n \<Rightarrow> (case parse_option (take n output) of Some e \<Rightarrow> [e] | None \<Rightarrow> []) @ parse_options (drop (n + 1) output))"
  by pat_completeness auto
termination
  by (relation "measure length") (auto dest!: str_find_Some(1))

declare parse_options.simps [simp del] unquote_body.simps(2) [simp del]

section \<open>How tmux prints a value\<close>

text \<open>\<open>args_escape\<close>, as the comment on \<open>unquote\<close> describes it; not part of the library.\<close>

definition vis :: "char \<Rightarrow> string" where
  "vis c =
     (if c = CHR 0x0A then [CHR 0x5C, CHR ''n''] else if c = CHR 0x09 then [CHR 0x5C, CHR ''t'']
      else if c = CHR 0x5C then [CHR 0x5C, CHR 0x5C] else if c = CHR 0x22 then [CHR 0x5C, CHR 0x22]
      else if byte c < 32 \<or> byte c \<ge> 127
      then [CHR 0x5C, char_of (48 + byte c div 64), char_of (48 + byte c div 8 mod 8), char_of (48 + byte c mod 8)]
      else [c])"

definition vis_single :: "char \<Rightarrow> string" where
  "vis_single c = (if c = CHR 0x22 then [c] else vis c)"

definition args_escape :: "string \<Rightarrow> string" where
  "args_escape v =
     (if v = [] then [CHR 0x27, CHR 0x27]
      else if \<exists>c \<in> set v. c \<in> set (CHR 0x27 # '' #;${}%'') then [CHR 0x22] @ concat (map vis v) @ [CHR 0x22]
      else if CHR 0x22 \<in> set v then [CHR 0x27] @ concat (map vis_single v) @ [CHR 0x27]
      else if hd v = CHR ''~'' then CHR 0x5C # concat (map vis v)
      else concat (map vis v))"

lemma octal_digit_facts:
  assumes "k < 8"
  shows "is_octal (char_of (48 + k :: nat))" "byte (char_of (48 + k :: nat)) = 48 + k" "simple_escape (char_of (48 + k :: nat)) = None"
proof -
  show b: "byte (char_of (48 + k :: nat)) = 48 + k" using assms by (simp add: byte_def)
  then show "is_octal (char_of (48 + k :: nat))" using assms by (simp add: is_octal_def)
  have "char_of (48 + k) \<noteq> d" if "byte d > 90 \<or> byte d < 48" for d using b assms that by auto
  then show "simple_escape (char_of (48 + k :: nat)) = None" by (simp add: simple_escape_def byte_def)
qed

lemma unquote_octal:
  "unquote_body ([CHR 0x5C, char_of (48 + byte c div 64), char_of (48 + byte c div 8 mod 8), char_of (48 + byte c mod 8)] @ rest)
    = c # unquote_body rest"
proof -
  have k: "byte c div 64 < 8" "byte c div 8 mod 8 < 8" "byte c mod 8 < 8" using byte_less [of c] by linarith+
  have "byte c div 64 * 8 + byte c div 8 mod 8 = byte c div 8"
    using div_mult_mod_eq [of "byte c div 8" 8] by (simp add: div_mult2_eq [symmetric])
  then have v: "(byte c div 64 * 8 + byte c div 8 mod 8) * 8 + byte c mod 8 = byte c"
    using div_mult_mod_eq [of "byte c" 8] by simp
  have "char_of (byte c mod 256) = c" using byte_less [of c] by (simp add: byte_def)
  then show ?thesis
    using k [THEN octal_digit_facts(1)] k [THEN octal_digit_facts(2)] octal_digit_facts(3) [OF k(1)] v
    by (simp add: unquote_body.simps(2))
qed

lemma unquote_plain: "c \<noteq> CHR 0x5C \<Longrightarrow> unquote_body (c # rest) = c # unquote_body rest"
  by (simp add: unquote_body.simps(2))

lemma unquote_escape:
  "simple_escape d = Some e \<Longrightarrow> unquote_body (CHR 0x5C # d # rest) = e # unquote_body rest"
  "simple_escape d = None \<Longrightarrow> \<not> is_octal d \<Longrightarrow> unquote_body (CHR 0x5C # d # rest) = d # unquote_body rest"
  by (subst unquote_body.simps(2), simp)+

lemma escape_chars:
  "simple_escape CHR ''n'' = Some CHR 0x0A" "simple_escape CHR ''t'' = Some CHR 0x09"
  "simple_escape CHR 0x5C = None" "simple_escape CHR 0x22 = None" "simple_escape CHR ''~'' = None"
  "\<not> is_octal CHR 0x5C" "\<not> is_octal CHR 0x22" "\<not> is_octal CHR ''~''"
  by (simp_all add: simple_escape_def is_octal_def byte_def)

lemma unquote_vis: "unquote_body (vis c @ rest) = c # unquote_body rest"
proof -
  consider "c \<in> {CHR 0x0A, CHR 0x09, CHR 0x5C, CHR 0x22}"
    | (octal) "c \<notin> {CHR 0x0A, CHR 0x09, CHR 0x5C, CHR 0x22}" "byte c < 32 \<or> byte c \<ge> 127"
    | (printed) "c \<notin> {CHR 0x0A, CHR 0x09, CHR 0x5C, CHR 0x22}" "\<not> (byte c < 32 \<or> byte c \<ge> 127)" by blast
  then show ?thesis
  proof cases
    case 1
    then show ?thesis by (elim insertE emptyE) (simp_all add: vis_def unquote_escape escape_chars)
  next
    case octal
    then have "vis c = [CHR 0x5C, char_of (48 + byte c div 64), char_of (48 + byte c div 8 mod 8), char_of (48 + byte c mod 8)]"
      by (simp add: vis_def)
    with unquote_octal [of c rest] show ?thesis by (simp only:)
  next
    case printed
    then show ?thesis by (simp add: vis_def unquote_plain)
  qed
qed

lemma unquote_vis_single: "unquote_body (vis_single c @ rest) = c # unquote_body rest"
  using unquote_vis [of c rest] by (auto simp: vis_single_def unquote_plain)

lemma unquote_body_vis: "unquote_body (concat (map vis v)) = v" "unquote_body (concat (map vis_single v)) = v"
  by (induction v) (simp_all add: unquote_vis unquote_vis_single)

lemma vis_shape: "vis c \<noteq> []" "hd (vis c) = c \<or> hd (vis c) = CHR 0x5C"
  by (simp_all add: vis_def)

lemma concat_vis_hd: "v \<noteq> [] \<Longrightarrow> concat (map vis v) \<noteq> [] \<and> hd (concat (map vis v)) = hd (vis (hd v))"
  using vis_shape(1) by (cases v) auto

lemma vis_no_newline: "CHR 0x0A \<notin> set (vis c)"
proof -
  have "byte c div 64 < 8" "byte c div 8 mod 8 < 8" "byte c mod 8 < 8" using byte_less [of c] by linarith+
  from this [THEN octal_digit_not_newline] show ?thesis by (simp add: vis_def)
qed

lemma args_escape_no_newline: "CHR 0x0A \<notin> set (args_escape v)"
  using vis_no_newline by (auto simp: args_escape_def vis_single_def split: if_splits)

lemma unquote_args_escape: "unquote (args_escape v) = v"
proof -
  consider (empty) "v = []"
    | (double) "v \<noteq> []" "\<exists>c \<in> set v. c \<in> set (CHR 0x27 # '' #;${}%'')"
    | (single) "v \<noteq> []" "\<not> (\<exists>c \<in> set v. c \<in> set (CHR 0x27 # '' #;${}%''))" "CHR 0x22 \<in> set v"
    | (bare) "v \<noteq> []" "\<not> (\<exists>c \<in> set v. c \<in> set (CHR 0x27 # '' #;${}%''))" "CHR 0x22 \<notin> set v" by blast
  then show ?thesis
  proof cases
    case empty
    then show ?thesis by (simp add: args_escape_def unquote_def)
  next
    case double
    then have "args_escape v = [CHR 0x22] @ concat (map vis v) @ [CHR 0x22]" by (simp only: args_escape_def if_True if_False)
    then show ?thesis by (simp add: unquote_def quoted_with_def unquote_body_vis)
  next
    case single
    then have "args_escape v = [CHR 0x27] @ concat (map vis_single v) @ [CHR 0x27]" by (simp only: args_escape_def if_True if_False)
    moreover have "concat (map vis_single v) \<noteq> []" using single(1) vis_shape(1) by (cases v) (auto simp: vis_single_def)
    ultimately show ?thesis by (auto simp: unquote_def quoted_with_def unquote_body_vis)
  next
    case bare
    then have e: "args_escape v = (if hd v = CHR ''~'' then CHR 0x5C # concat (map vis v) else concat (map vis v))"
      by (simp only: args_escape_def if_False)
    have "hd v \<in> set v" using bare(1) by simp
    with bare(2,3) have hv: "hd v \<noteq> CHR 0x22" "hd v \<noteq> CHR 0x27" by (metis, metis list.set_intros(1))
    have "hd (args_escape v) = CHR 0x5C \<or> hd (args_escape v) = hd v"
      using vis_shape(2) [of "hd v"] concat_vis_hd [OF bare(1)] by (auto simp: e)
    with hv have ne: "hd (args_escape v) \<noteq> CHR 0x22" "hd (args_escape v) \<noteq> CHR 0x27" by (elim disjE; simp)+
    then have "unquote (args_escape v) = unquote_body (args_escape v)"
      by (auto simp: unquote_def quoted_with_def)
    moreover have "unquote_body (CHR 0x5C # concat (map vis v)) = v" if tilde: "hd v = CHR ''~''"
    proof -
      obtain w where "v = CHR ''~'' # w" using bare(1) tilde by (cases v) auto
      moreover have "vis CHR ''~'' = ''~''" by (simp add: vis_def byte_def)
      ultimately show ?thesis by (simp add: unquote_escape escape_chars unquote_body_vis)
    qed
    ultimately show ?thesis by (simp add: e unquote_body_vis)
  qed
qed

section \<open>How tmux prints an option\<close>

definition index_text :: "64 word option \<Rightarrow> string" where
  "index_text i = (case i of None \<Rightarrow> [] | Some n \<Rightarrow> ''['' @ dec_string (unat n) @ '']'')"

definition option_key :: "OptionEntry \<Rightarrow> string" where
  "option_key e = option_name e @ index_text (option_index e)"

definition option_line :: "OptionEntry \<Rightarrow> string" where
  "option_line e = option_key e @ (if option_inherited e then ''*'' else []) @ '' '' @ args_escape (option_value e)"

text \<open>The names that a listing can show unambiguously.\<close>

definition option_ok :: "OptionEntry \<Rightarrow> bool" where
  "option_ok e \<longleftrightarrow> CHR '' '' \<notin> set (option_name e) \<and> CHR 0x0A \<notin> set (option_name e)
     \<and> (option_index e = None \<longrightarrow> bracket_index (option_name e) = None
          \<and> (\<not> option_inherited e \<longrightarrow> \<not> ends_with (option_name e) ''*''))"

lemma fold_index: "fold (\<lambda>d i. i * 10 + of_nat (digit_value d)) ds (of_nat n :: 64 word) = of_nat (dec_value n ds)"
proof (induction ds arbitrary: n)
  case (Cons d ds)
  then show ?case using Cons [of "n * 10 + digit_value d"] by (simp add: mult.commute)
qed simp

lemma str_rfind_append: "c \<notin> set b \<Longrightarrow> str_rfind c (a @ c # b) = Some (length a)"
  using str_find_append [of c "rev b" "rev a"] by simp

lemma bracket_index_text: "bracket_index (name @ ''['' @ dec_string (unat i) @ '']'') = Some (name, i)"
proof -
  have "CHR ''['' \<notin> set (dec_string (unat i) @ '']'')" by (simp add: is_digit_def byte_def)
  then have r: "str_rfind CHR ''['' (name @ CHR ''['' # dec_string (unat i) @ '']'') = Some (length name)"
    by (rule str_rfind_append)
  have "list_all is_digit (dec_string (unat i))" using dec_string_digits by (simp add: list_all_iff)
  moreover have "fold (\<lambda>d i. i * 10 + of_nat (digit_value d)) (dec_string (unat i)) 0 = i"
    using fold_index [of "dec_string (unat i)" 0] by simp
  ultimately show ?thesis
    using r by (simp add: bracket_index_def ends_with_iff del: str_rfind.simps)
qed

lemma ends_with_star: "ends_with (k @ ''*'') ''*''" "\<not> ends_with (k @ '']'') ''*''"
  by (auto simp: ends_with_iff)

lemma parse_option_split:
  assumes "CHR '' '' \<notin> set key"
  shows "parse_option (key @ CHR '' '' # v) =
    (let inherits = ends_with key ''*''; k = (if inherits then butlast key else key) in
     Some (case bracket_index k of
           Some (name, i) \<Rightarrow> \<lparr>option_name = name, option_index = Some i, option_value = unquote v, option_inherited = inherits\<rparr>
         | None \<Rightarrow> \<lparr>option_name = k, option_index = None, option_value = unquote v, option_inherited = inherits\<rparr>))"
  using str_find_append [OF assms, of v] by (simp add: parse_option_def Let_def cong: option.case_cong)

lemma parse_option_line:
  assumes "option_ok e"
  shows "parse_option (option_line e) = Some e"
proof -
  let ?star = "if option_inherited e then ''*'' else []"
  let ?key = "option_key e @ ?star"
  have "CHR '' '' \<notin> set (option_key e)" using assms
    by (auto simp: option_ok_def option_key_def index_text_def is_digit_def byte_def split: option.splits)
  then have sp: "CHR '' '' \<notin> set ?key" by auto
  have star: "ends_with ?key ''*'' \<longleftrightarrow> option_inherited e"
  proof (cases "option_index e")
    case None
    with assms show ?thesis by (auto simp: option_ok_def option_key_def index_text_def ends_with_star)
  next
    case (Some i)
    then have "option_key e = (option_name e @ ''['' @ dec_string (unat i)) @ '']''" by (simp add: option_key_def index_text_def)
    with ends_with_star(2) [of "option_name e @ ''['' @ dec_string (unat i)"] ends_with_star(1) [of "option_key e"]
    show ?thesis by simp
  qed
  have "bracket_index (option_key e) = (case option_index e of None \<Rightarrow> None | Some i \<Rightarrow> Some (option_name e, i))"
    using assms bracket_index_text by (auto simp: option_ok_def option_key_def index_text_def split: option.splits)
  moreover have "option_line e = ?key @ CHR '' '' # args_escape (option_value e)" by (simp add: option_line_def)
  moreover have "option_key e = option_name e" if "option_index e = None" using that by (simp add: option_key_def index_text_def)
  ultimately show ?thesis
    using parse_option_split [OF sp] star
    by (cases "option_index e"; cases "option_inherited e") (simp_all add: Let_def unquote_args_escape)
qed



section \<open>What tmux makes of a format\<close>

text \<open>Expansion of the two forms the builder emits, over an environment of variables.\<close>

function expand :: "(string \<Rightarrow> string) \<Rightarrow> string \<Rightarrow> string" where
  "expand env [] = []"
| "expand env (c # cs) =
     (if c \<noteq> CHR ''#'' \<or> cs = [] then c # expand env cs
      else if hd cs = CHR ''#'' then CHR ''#'' # expand env (tl cs)
      else if hd cs = CHR ''{'' then
        (case str_find CHR ''}'' cs of
           None \<Rightarrow> []
         | Some n \<Rightarrow> env (drop 1 (take n cs)) @ expand env (drop (n + 1) cs))
      else c # expand env cs)"
  by pat_completeness auto
termination by (relation "measure (\<lambda>(_, s). length s)") (auto simp: less_Suc_eq_le)

declare expand.simps(2) [simp del]

datatype Piece = Literal string | Field string

fun add_piece :: "FormatBuilder \<Rightarrow> Piece \<Rightarrow> FormatBuilder" where
  "add_piece f (Literal s) = format_literal f s"
| "add_piece f (Field n) = format_field f n"

fun piece_value :: "(string \<Rightarrow> string) \<Rightarrow> Piece \<Rightarrow> string" where
  "piece_value env (Literal s) = s"
| "piece_value env (Field n) = env n"

definition piece_ok :: "Piece \<Rightarrow> bool" where
  "piece_ok p \<longleftrightarrow> (case p of Literal _ \<Rightarrow> True | Field n \<Rightarrow> CHR ''}'' \<notin> set n)"

lemma expand_literal: "expand env (escape_literal s @ rest) = s @ expand env rest"
  by (induction s) (simp_all add: expand.simps(2))

lemma expand_variable:
  assumes "CHR ''}'' \<notin> set n"
  shows "expand env (variable n @ rest) = env n @ expand env rest"
proof -
  have "str_find CHR ''}'' (CHR ''{'' # n @ CHR ''}'' # rest) = Some (length (CHR ''{'' # n))"
    using assms str_find_append [of "CHR ''}''" "CHR ''{'' # n" rest] by simp
  then show ?thesis by (simp add: variable_def expand.simps(2))
qed

lemma foldl_pieces: "foldl add_piece f ps = f @ concat (map (add_piece []) ps)"
proof (induction ps arbitrary: f)
  case (Cons p ps)
  have "add_piece f p = f @ add_piece [] p" by (cases p) (simp_all add: format_literal_def format_field_def)
  then show ?case using Cons [of "add_piece f p"] by simp
qed simp

text \<open>
  Literal text cannot turn into a substitution: a format built from literal and field pieces expands
  to the literals, every byte as given, with the values of the fields between them, however the
  literals use \<open>#\<close>, braces or parentheses.
\<close>

theorem format_expands:
  assumes "\<forall>p \<in> set ps. piece_ok p"
  shows "expand env (foldl add_piece [] ps) = concat (map (piece_value env) ps)"
proof -
  have "expand env (concat (map (add_piece []) ps)) = concat (map (piece_value env) ps)"
    using assms
  proof (induction ps)
    case (Cons p ps)
    then show ?case
      by (cases p) (simp_all add: format_literal_def format_field_def expand_literal expand_variable piece_ok_def)
  qed simp
  then show ?thesis by (simp add: foldl_pieces [of "[]"])
qed

theorem format_expands_witness:
  "expand (\<lambda>n. n) (foldl add_piece [] [Literal ''#{x}#'', Field ''pane_id'']) = ''#{x}#pane_id''"
  using format_expands [of "[Literal ''#{x}#'', Field ''pane_id'']" "\<lambda>n. n"] by (simp add: piece_ok_def)

end
