(* ===== verification/Captures.thy ===== *)
theory Captures
  imports Prelude
begin

text \<open>
  Reading a pane (\<open>include/libtmux/capture.hpp\<close>, \<open>src/wait_capture.hpp\<close>): splitting captured text into
  rows, masking what the caller typed, and deciding whether text on the screen was printed by the pane.
\<close>

section \<open>Lines\<close>

function capture_loop :: "string \<Rightarrow> string list" where
  "capture_loop rest =
     (case str_find (CHR 0x0A) rest of
        None \<Rightarrow> [rest]
      | Some n \<Rightarrow> take n rest # (if drop (n + 1) rest = [] then [] else capture_loop (drop (n + 1) rest)))"
  by pat_completeness auto
termination by (relation "measure length") (auto dest!: str_find_Some(1))

declare capture_loop.simps [simp del]

definition capture_lines :: "string \<Rightarrow> string list" where
  "capture_lines output = (if output = [] then [] else capture_loop output)"

definition without_trailing_blanks :: "string list \<Rightarrow> string list" where
  "without_trailing_blanks ls = rev (dropWhile (\<lambda>l. l = []) (rev ls))"

section \<open>Masking what was typed\<close>

definition is_word_byte :: "char \<Rightarrow> bool" where
  "is_word_byte c \<longleftrightarrow> 97 \<le> byte c \<and> byte c \<le> 122 \<or> 65 \<le> byte c \<and> byte c \<le> 90 \<or> is_digit c \<or> c = CHR ''_''"

definition stands_alone :: "string \<Rightarrow> string \<Rightarrow> nat \<Rightarrow> bool" where
  "stands_alone s echo i \<longleftrightarrow>
     (i = 0 \<or> \<not> is_word_byte (s ! (i - 1)) \<or> \<not> is_word_byte (hd echo))
     \<and> (i + length echo = length s \<or> \<not> is_word_byte (s ! (i + length echo)) \<or> \<not> is_word_byte (last echo))"

function mask_loop :: "string \<Rightarrow> string \<Rightarrow> string \<Rightarrow> nat \<Rightarrow> nat \<Rightarrow> string" where
  "mask_loop s echo result cursor from' =
     (case sub_find_from echo s from' of
        None \<Rightarrow> result @ drop cursor s
      | Some i \<Rightarrow>
          if echo = [] then result @ drop cursor s
          else if stands_alone s echo i
          then mask_loop s echo (result @ take (i - cursor) (drop cursor s)) (i + length echo) (i + length echo)
          else mask_loop s echo result cursor (i + 1))"
  by pat_completeness auto
termination
proof (relation "measure (\<lambda>(s, echo, _, _, k). Suc (length s) - k)")
  fix s echo :: string and result :: string and cursor k i
  assume f: "sub_find_from echo s k = Some i" and ne: "echo \<noteq> []"
  then obtain z where "i = k + z" "starts_with (drop z (drop k s)) echo"
    by (auto simp: sub_find_from_def dest: sub_find_Some(2))
  then have i: "k \<le> i" "starts_with (drop i s) echo" by (simp_all add: add.commute)
  then obtain t where "drop i s = echo @ t" by (auto simp: starts_with_iff)
  then have "i < length s" using ne by (metis append_is_Nil_conv drop_eq_Nil2 not_le_imp_less)
  with i ne show "((s, echo, result @ take (i - cursor) (drop cursor s), i + length echo, i + length echo), (s, echo, result, cursor, k))
      \<in> measure (\<lambda>(s, echo, _, _, k). Suc (length s) - k)"
    "((s, echo, result, cursor, i + 1), (s, echo, result, cursor, k)) \<in> measure (\<lambda>(s, echo, _, _, k). Suc (length s) - k)"
    by (cases echo; auto)+
qed simp

declare mask_loop.simps [simp del]

definition mask_whole_occurrences :: "string \<Rightarrow> string \<Rightarrow> string" where
  "mask_whole_occurrences s echo = (if echo = [] \<or> s = [] then s else mask_loop s echo [] 0 0)"

definition last_row :: "string \<Rightarrow> string \<times> string" where
  "last_row settled = (let row = rev (takeWhile (\<lambda>c. c \<noteq> CHR 0x0A) (rev settled)) in
     (row, take (length settled - length row - 1) settled))"

definition output_confirms :: "string \<Rightarrow> string \<Rightarrow> string list \<Rightarrow> bool" where
  "output_confirms captured wanted sent =
     (if wanted = [] then False
      else
        let settled = rev (dropWhile (\<lambda>c. c = CHR 0x0A) (rev captured));
            (active_row, above) = last_row settled in
        if contains_sub active_row wanted \<and> \<not> contains_sub above wanted then False
        else contains_sub (fold (\<lambda>entry masked. mask_whole_occurrences masked entry) sent captured) wanted)"

record PaneCursor =
  cursor_row :: nat
  pane_height :: nat

text \<open>The rows of a capture with the bytes before each, which is what
  \<open>lines[row].data() - captured.data()\<close> measures.\<close>

definition row_at :: "string \<Rightarrow> PaneCursor \<Rightarrow> string \<times> string" where
  "row_at captured cursor =
     (let ls = capture_lines captured;
          index = int (length ls) - int (pane_height cursor) + int (cursor_row cursor) in
      if 0 \<le> index \<and> index < int (length ls)
      then (ls ! nat index, take (length (concat (map (\<lambda>l. l @ [CHR 0x0A]) (take (nat index) ls)))) captured)
      else ([], []))"

definition confirms_at :: "string \<Rightarrow> string \<Rightarrow> string list \<Rightarrow> PaneCursor option \<Rightarrow> bool \<Rightarrow> bool" where
  "confirms_at captured wanted sent cursor input_pending =
     (if wanted = [] then False
      else case cursor of
        None \<Rightarrow> output_confirms captured wanted sent
      | Some cu \<Rightarrow>
          let (active_row, above) = (if sent \<noteq> [] \<and> input_pending then row_at captured cu else ([], [])) in
          if contains_sub active_row wanted \<and> \<not> contains_sub above wanted then False
          else contains_sub (fold (\<lambda>entry masked. if entry \<noteq> [] then mask_whole_occurrences masked entry else masked) sent captured) wanted)"

section \<open>Lines and their terminators\<close>

lemma capture_loop_line: "CHR 0x0A \<notin> set l \<Longrightarrow>
    capture_loop (l @ CHR 0x0A # rest) = l # (if rest = [] then [] else capture_loop rest)"
  by (subst capture_loop.simps) (simp add: str_find_append)

lemma capture_lines_Cons:
  "CHR 0x0A \<notin> set l \<Longrightarrow> capture_lines (l @ CHR 0x0A # rest) = l # capture_lines rest"
  by (simp add: capture_lines_def capture_loop_line)

section \<open>Echoes between gaps\<close>

fun woven :: "string \<Rightarrow> string list \<Rightarrow> string" where
  "woven echo [] = []"
| "woven echo [g] = g"
| "woven echo (g # gs) = g @ echo @ woven echo gs"

text \<open>What may surround an echo: no gap holds the first byte of the echo, and no gap touches it with a
  word byte.\<close>

fun gaps_ok :: "string \<Rightarrow> bool \<Rightarrow> string list \<Rightarrow> bool" where
  "gaps_ok echo first [] = False"
| "gaps_ok echo first (g # gs) =
     (hd echo \<notin> set g \<and> (first \<or> g = [] \<and> gs = [] \<or> g \<noteq> [] \<and> \<not> is_word_byte (hd g))
      \<and> (gs \<noteq> [] \<longrightarrow> (first \<and> g = [] \<or> g \<noteq> [] \<and> \<not> is_word_byte (last g)) \<and> gaps_ok echo False gs))"

lemma starts_with_sub_find: "starts_with s p \<Longrightarrow> sub_find p s = Some 0"
  by (cases s) (auto simp: starts_with_iff)

lemma sub_find_skip:
  assumes "c \<notin> set a"
  shows "sub_find (c # p) (a @ b) = map_option (\<lambda>k. length a + k) (sub_find (c # p) b)"
  using assms by (cases "sub_find (c # p) b"; induction a) auto

lemma woven_step:
  assumes "gs \<noteq> []"
  shows "woven echo (g # gs) = g @ echo @ woven echo gs"
  using assms by (cases gs) auto

lemma gap_after_echo:
  assumes "gaps_ok echo False gs"
  shows "woven echo gs = [] \<or> \<not> is_word_byte (hd (woven echo gs))"
proof (cases gs)
  case (Cons g gs')
  then show ?thesis using assms by (cases gs') auto
qed simp

lemma mask_loop_gaps:
  assumes "gaps_ok echo first gs" "echo \<noteq> []" "first \<longrightarrow> pre = []" "s = pre @ woven echo gs"
  shows "mask_loop s echo result (length pre) (length pre) = result @ concat gs"
  using assms
proof (induction gs arbitrary: pre first result)
  case (Cons g gs)
  obtain e es where echo: "echo = e # es" using Cons.prems(2) by (cases echo) auto
  have g: "e \<notin> set g" using Cons.prems(1) echo by simp
  show ?case
  proof (cases "gs = []")
    case True
    then have "sub_find_from echo s (length pre) = None"
      using Cons.prems(4) sub_find_skip [OF g, of es "[]"] by (simp add: sub_find_from_def echo)
    then show ?thesis using True Cons.prems(4) by (subst mask_loop.simps) simp
  next
    case False
    let ?i = "length pre + length g"
    let ?tail = "woven echo gs"
    have s: "s = pre @ g @ echo @ ?tail" using Cons.prems(4) woven_step [OF False] by simp
    have "sub_find echo (g @ echo @ ?tail) = Some (length g)"
      using sub_find_skip [OF g, of es "echo @ ?tail"] starts_with_sub_find [of "echo @ ?tail" echo] by (simp add: echo)
    then have f: "sub_find_from echo s (length pre) = Some ?i" by (simp add: s sub_find_from_def)
    have front: "?i = 0 \<or> \<not> is_word_byte (s ! (?i - 1))"
      using Cons.prems(1,3) False by (cases g rule: rev_cases) (auto simp: s nth_append)
    have rear: "?i + length echo = length s \<or> \<not> is_word_byte (s ! (?i + length echo))"
      using gap_after_echo [of echo gs] Cons.prems(1) False by (cases ?tail) (auto simp: s nth_append)
    have "stands_alone s echo ?i" using front rear by (auto simp: stands_alone_def)
    then have "mask_loop s echo result (length pre) (length pre)
        = mask_loop s echo (result @ g) (length (pre @ g @ echo)) (length (pre @ g @ echo))"
      using f Cons.prems(2) by (subst mask_loop.simps) (simp add: s add.assoc)
    also have "\<dots> = (result @ g) @ concat gs"
      using Cons.prems(1,2) False by (intro Cons.IH [of False]) (auto simp: s)
    finally show ?thesis by simp
  qed
qed simp

lemma mask_woven: "gaps_ok echo True gs \<Longrightarrow> echo \<noteq> [] \<Longrightarrow> mask_whole_occurrences (woven echo gs) echo = concat gs"
proof -
  assume a: "gaps_ok echo True gs" "echo \<noteq> []"
  have "concat gs = []" if "woven echo gs = []"
    using that a by (induction echo gs rule: woven.induct) auto
  then show ?thesis using mask_loop_gaps [OF a, of "[]" "woven echo gs" "[]"] a(2)
    by (auto simp: mask_whole_occurrences_def)
qed

lemma rows_woven:
  "concat (replicate (Suc m) (prompt @ echo @ [CHR 0x0A])) = woven echo (prompt # replicate m (CHR 0x0A # prompt) @ [[CHR 0x0A]])"
proof (induction m)
  case (Suc m)
  have "woven echo ((x @ y) # gs) = x @ woven echo (y # gs)" for x y gs by (cases gs) auto
  from this [of "[CHR 0x0A]" prompt] have
    "woven echo ((CHR 0x0A # prompt) # gs) = CHR 0x0A # woven echo (prompt # gs)" for gs by simp
  then show ?case using Suc by simp
qed simp

lemma rows_gaps_ok:
  assumes "hd echo \<notin> set prompt" "hd echo \<noteq> CHR 0x0A" "prompt = [] \<or> \<not> is_word_byte (last prompt)"
  shows "gaps_ok echo True (prompt # replicate m (CHR 0x0A # prompt) @ [[CHR 0x0A]])"
proof -
  have nl: "\<not> is_word_byte (CHR 0x0A)" by (simp add: is_word_byte_def is_digit_def byte_def)
  have "gaps_ok echo False (replicate m (CHR 0x0A # prompt) @ [[CHR 0x0A]])"
    using assms nl by (induction m) auto
  then show ?thesis using assms by auto
qed

section \<open>Properties\<close>



text \<open>
  Captured text is framed exactly: the lines of a capture are the rows tmux printed, blank rows
  included, the final terminator opens no further line, and a row cut off before its terminator is still
  a line; dropping the padding removes the blank rows after the last row with content and no other.
\<close>

theorem capture_lines_rows:
  assumes "\<forall>l \<in> set (row # rows). CHR 0x0A \<notin> set l" "row \<noteq> []"
  shows "capture_lines (concat (map (\<lambda>l. l @ [CHR 0x0A]) rows)) = rows
    \<and> capture_lines (concat (map (\<lambda>l. l @ [CHR 0x0A]) rows) @ row) = rows @ [row]
    \<and> without_trailing_blanks (rows @ [row] @ replicate k []) = rows @ [row]"
proof -
  have "capture_lines (concat (map (\<lambda>l. l @ [CHR 0x0A]) rows) @ rest) = rows @ capture_lines rest" for rest
    using assms(1) by (induction rows) (simp_all add: capture_lines_Cons)
  moreover have "capture_lines [] = []" "capture_lines row = [row]"
    using assms by (simp_all add: capture_lines_def capture_loop.simps [of row] str_find_None [THEN iffD2])
  moreover have "without_trailing_blanks (rows @ [row] @ replicate k []) = rows @ [row]"
    using assms(2) by (simp add: without_trailing_blanks_def dropWhile_append)
  ultimately show ?thesis by (metis append_Nil2)
qed

theorem capture_lines_rows_witness:
  "capture_lines (''a'' @ [CHR 0x0A, CHR 0x0A] @ ''b'') = [''a'', [], ''b'']"
  using capture_lines_rows [of "''b''" "[''a'', []]"] by simp


end
