(* ===== verification/Notification_Stream.thy ===== *)
theory Notification_Stream
  imports Prelude "HOL-Library.Sublist"
begin

text \<open>
  The retained log of notifications that several watches read at their own pace
  (\<open>src/src/notification_stream.cpp\<close>, \<open>src/src/notification_stream.hpp\<close>). Each definition is one critical section of
  the class, so an execution is a sequence of them; \<open>stream_reachable\<close> is the set of states such sequences reach,
  beside the list of everything pushed so far. A cursor lives in \<open>heap\<close> while some owner holds it, and \<open>cursors\<close>
  is the list of weak references the stream keeps. A notification is its body. Sequence numbers are natural
  numbers: the counter has 64 bits and is advanced once per push. A wake pipe that exists takes and gives its byte.

  The lemmas show that the log is bounded and exact, that a take accounts for every push, that a consumer that
  keeps up loses nothing, and that a descriptor is readable exactly when there is something to report.
\<close>

section \<open>State\<close>

record Cursor =
  cursor_next :: nat
  cursor_dropped :: nat
  has_pipe :: bool
  wake_armed :: bool

type_synonym Entry = "nat \<times> string"

record Stream =
  entries :: "Entry list"
  heap :: "nat \<Rightarrow> Cursor option"
  cursors :: "nat list"
  maximum_count :: nat
  maximum_bytes :: nat
  held_bytes :: nat
  next_sequence :: nat
  closed :: bool

definition kMaximumNotifications :: nat where
  "kMaximumNotifications = 4096"

definition kMaximumNotificationBytes :: nat where
  "kMaximumNotificationBytes = 16 * 1024 * 1024"

definition new_stream :: "nat \<Rightarrow> nat \<Rightarrow> Stream" where
  "new_stream count bytes = \<lparr>entries = [], heap = (\<lambda>_. None), cursors = [], maximum_count = count,
     maximum_bytes = bytes, held_bytes = 0, next_sequence = 0, closed = False\<rparr>"

section \<open>Operations\<close>

definition arm_locked :: "Cursor \<Rightarrow> Cursor" where
  "arm_locked c = (if wake_armed c \<or> \<not> has_pipe c then c else c\<lparr>wake_armed := True\<rparr>)"

definition disarm_locked :: "Cursor \<Rightarrow> Cursor" where
  "disarm_locked c = (if \<not> wake_armed c \<or> \<not> has_pipe c then c else c\<lparr>wake_armed := False\<rparr>)"

definition wants_wake :: "Stream \<Rightarrow> Cursor \<Rightarrow> bool" where
  "wants_wake s c \<longleftrightarrow> closed s \<or> cursor_next c < next_sequence s"

definition live_cursors :: "Stream \<Rightarrow> nat list" where
  "live_cursors s = filter (\<lambda>i. heap s i \<noteq> None) (cursors s)"

definition sweep_cursors_locked :: "Stream \<Rightarrow> Stream" where
  "sweep_cursors_locked s = s\<lparr>cursors := live_cursors s,
     heap := (\<lambda>i. if i \<in> set (cursors s)
        then map_option (\<lambda>c. if wants_wake s c then arm_locked c else c) (heap s i) else heap s i)\<rparr>"

definition first_needed :: "Stream \<Rightarrow> nat" where
  "first_needed s = fold (\<lambda>i m. min m (cursor_next (the (heap s i)))) (live_cursors s) (next_sequence s)"

fun pop_before :: "nat \<Rightarrow> Entry list \<Rightarrow> nat \<Rightarrow> Entry list \<times> nat" where
  "pop_before k [] b = ([], b)"
| "pop_before k (e # es) b = (if fst e < k then pop_before k es (b - length (snd e)) else (e # es, b))"

definition prune_consumed_locked :: "Stream \<Rightarrow> Stream" where
  "prune_consumed_locked s =
     (let (es, b) = pop_before (first_needed s) (entries s) (held_bytes s) in
      s\<lparr>cursors := live_cursors s, entries := es, held_bytes := b\<rparr>)"

definition subscribe :: "bool \<Rightarrow> bool \<Rightarrow> nat \<Rightarrow> Stream \<Rightarrow> Stream" where
  "subscribe replay pipe_made i s =
     (let c = \<lparr>cursor_next = (if replay \<and> entries s \<noteq> [] then fst (hd (entries s)) else next_sequence s),
               cursor_dropped = 0, has_pipe = pipe_made, wake_armed = False\<rparr>;
          c = (if wants_wake s c then arm_locked c else c) in
      s\<lparr>heap := (heap s)(i \<mapsto> c), cursors := cursors s @ [i]\<rparr>)"

definition unsubscribe :: "nat \<Rightarrow> Stream \<Rightarrow> Stream" where
  "unsubscribe i s = prune_consumed_locked (s\<lparr>cursors := filter (\<lambda>j. heap s j \<noteq> None \<and> j \<noteq> i) (cursors s)\<rparr>)"

text \<open>The last owner of a cursor letting go, which closes its pipe.\<close>

definition release_cursor :: "nat \<Rightarrow> Stream \<Rightarrow> Stream" where
  "release_cursor i s = s\<lparr>heap := (heap s)(i := None)\<rparr>"

fun evict :: "nat \<Rightarrow> nat \<Rightarrow> nat \<Rightarrow> Entry list \<Rightarrow> nat \<Rightarrow> Entry list \<times> nat" where
  "evict count bytes arriving [] b = ([], b)"
| "evict count bytes arriving (e # es) b =
     (if length (e # es) \<ge> count \<or> b > bytes - arriving
      then evict count bytes arriving es (b - length (snd e)) else (e # es, b))"

definition push :: "string \<Rightarrow> Stream \<Rightarrow> Stream" where
  "push body s =
     (let q = next_sequence s; s = s\<lparr>next_sequence := q + 1\<rparr>; arriving = length body;
          s = (if maximum_count s \<noteq> 0 \<and> arriving \<le> maximum_bytes s
               then let (es, b) = evict (maximum_count s) (maximum_bytes s) arriving (entries s) (held_bytes s) in
                 s\<lparr>entries := es @ [(q, body)], held_bytes := b + arriving\<rparr>
               else s) in
      sweep_cursors_locked s)"

definition close_stream :: "Stream \<Rightarrow> Stream" where
  "close_stream s = (if closed s then s else sweep_cursors_locked (s\<lparr>closed := True\<rparr>))"

text \<open>The loop that \<open>collect_locked\<close> and \<open>pending_drops_locked\<close> share: what is held from \<open>expected\<close> on,
  how many entries were skipped, and the next sequence expected.\<close>

fun gather :: "Entry list \<Rightarrow> nat \<Rightarrow> nat \<Rightarrow> string list \<Rightarrow> string list \<times> nat \<times> nat" where
  "gather [] expected drops held = (held, drops, expected)"
| "gather (e # es) expected drops held =
     (if fst e < expected then gather es expected drops held
      else gather es (fst e + 1) (drops + (fst e - expected)) (held @ [snd e]))"

definition collect_locked :: "nat \<Rightarrow> Stream \<Rightarrow> Stream \<times> string list" where
  "collect_locked i s =
     (case heap s i of
        None \<Rightarrow> (s, [])
      | Some c \<Rightarrow>
          let (held, drops, expected) = gather (entries s) (cursor_next c) (cursor_dropped c) [];
              c = c\<lparr>cursor_dropped := drops + (next_sequence s - expected), cursor_next := next_sequence s\<rparr>;
              c = (if closed s then c else disarm_locked c) in
          (prune_consumed_locked (s\<lparr>heap := (heap s)(i \<mapsto> c)\<rparr>), held))"

definition pending_drops :: "nat \<Rightarrow> Stream \<Rightarrow> nat" where
  "pending_drops i s =
     (case heap s i of
        None \<Rightarrow> 0
      | Some c \<Rightarrow>
          let (held, drops, expected) = gather (entries s) (cursor_next c) (cursor_dropped c) [] in
          drops + (next_sequence s - expected))"


text \<open>The entry points, which accept a watch that holds no cursor.\<close>

definition stream_take :: "nat option \<Rightarrow> Stream \<Rightarrow> Stream \<times> string list" where
  "stream_take cursor s = (case cursor of None \<Rightarrow> (s, []) | Some i \<Rightarrow> collect_locked i s)"

definition stream_dropped :: "nat option \<Rightarrow> Stream \<Rightarrow> nat" where
  "stream_dropped cursor s = (case cursor of None \<Rightarrow> 0 | Some i \<Rightarrow> pending_drops i s)"

text \<open>A watch going away: it unsubscribes its cursor and lets go of it.\<close>

definition watch_destroyed :: "nat option \<Rightarrow> Stream \<Rightarrow> Stream" where
  "watch_destroyed cursor s = (case cursor of None \<Rightarrow> s | Some i \<Rightarrow> release_cursor i (unsubscribe i s))"

section \<open>The states a stream can reach\<close>

text \<open>A stream together with the bodies pushed so far. Every step is one critical section of the class;
  a cursor is a fresh allocation, so its identity is neither owned nor listed when it is created.\<close>

inductive stream_reachable :: "nat \<Rightarrow> nat \<Rightarrow> string list \<Rightarrow> Stream \<Rightarrow> bool" for count bytes where
  start: "stream_reachable count bytes [] (new_stream count bytes)"
| subscribe: "stream_reachable count bytes pushed s \<Longrightarrow> heap s i = None \<Longrightarrow> i \<notin> set (cursors s) \<Longrightarrow>
    stream_reachable count bytes pushed (subscribe replay pipe_made i s)"
| unsubscribe: "stream_reachable count bytes pushed s \<Longrightarrow> heap s i \<noteq> None \<Longrightarrow>
    stream_reachable count bytes pushed (unsubscribe i s)"
| release: "stream_reachable count bytes pushed s \<Longrightarrow> stream_reachable count bytes pushed (release_cursor i s)"
| push: "stream_reachable count bytes pushed s \<Longrightarrow> stream_reachable count bytes (pushed @ [body]) (push body s)"
| close: "stream_reachable count bytes pushed s \<Longrightarrow> stream_reachable count bytes pushed (close_stream s)"
| collect: "stream_reachable count bytes pushed s \<Longrightarrow> heap s i \<noteq> None \<Longrightarrow>
    stream_reachable count bytes pushed (fst (collect_locked i s))"

inductive_cases reachable_elims: "stream_reachable count bytes pushed s"

definition byte_total :: "string list \<Rightarrow> nat" where
  "byte_total bodies = sum_list (map length bodies)"

definition log_of :: "string list \<Rightarrow> Entry list \<Rightarrow> bool" where
  "log_of pushed es \<longleftrightarrow> sorted_wrt (<) (map fst es) \<and>
     (\<forall>e \<in> set es. fst e < length pushed \<and> pushed ! fst e = snd e)"

text \<open>Pushes from the \<open>q\<close>-th on fit the two bounds together.\<close>

definition fits_bounds :: "nat \<Rightarrow> nat \<Rightarrow> string list \<Rightarrow> nat \<Rightarrow> bool" where
  "fits_bounds count bytes pushed q \<longleftrightarrow> length pushed - q \<le> count \<and> byte_total (drop q pushed) \<le> bytes"

definition subscribed :: "Stream \<Rightarrow> nat \<Rightarrow> Cursor \<Rightarrow> bool" where
  "subscribed s i c \<longleftrightarrow> i \<in> set (cursors s) \<and> heap s i = Some c"

text \<open>Past the first entry held, only a body that exceeds the byte bound alone is missing.\<close>

definition gapless :: "nat \<Rightarrow> string list \<Rightarrow> Entry list \<Rightarrow> bool" where
  "gapless bytes pushed es \<longleftrightarrow> (\<forall>q \<in> fst ` set es. \<forall>k. q \<le> k \<longrightarrow> k < length pushed \<longrightarrow>
     length (pushed ! k) \<le> bytes \<longrightarrow> k \<in> fst ` set es)"

definition bounded_log :: "nat \<Rightarrow> nat \<Rightarrow> string list \<Rightarrow> Stream \<Rightarrow> bool" where
  "bounded_log count bytes pushed s \<longleftrightarrow>
     maximum_count s = count \<and> maximum_bytes s = bytes \<and> next_sequence s = length pushed \<and>
     log_of pushed (entries s) \<and> held_bytes s = byte_total (map snd (entries s)) \<and>
     length (entries s) \<le> count \<and> held_bytes s \<le> bytes \<and> gapless bytes pushed (entries s)"

definition cursors_ok :: "Stream \<Rightarrow> bool" where
  "cursors_ok s \<longleftrightarrow> (\<forall>i c. heap s i = Some c \<longrightarrow> cursor_next c \<le> next_sequence s) \<and>
     (\<forall>i c. subscribed s i c \<longrightarrow> has_pipe c \<longrightarrow> wake_armed c = wants_wake s c)"

definition retained :: "nat \<Rightarrow> nat \<Rightarrow> string list \<Rightarrow> Stream \<Rightarrow> bool" where
  "retained count bytes pushed s \<longleftrightarrow>
     (\<forall>i c q. subscribed s i c \<longrightarrow> cursor_next c \<le> q \<longrightarrow> q < length pushed \<longrightarrow>
        fits_bounds count bytes pushed q \<longrightarrow> q \<in> fst ` set (entries s))"

lemma log_of_Nil [simp]: "log_of pushed []"
  by (simp add: log_of_def)

lemma log_of_Cons: "log_of pushed (e # es) \<longleftrightarrow>
    fst e < length pushed \<and> snd e = pushed ! fst e \<and> (\<forall>d \<in> set es. fst e < fst d) \<and> log_of pushed es"
  by (auto simp: log_of_def)

lemma log_of_push: "log_of pushed es \<Longrightarrow> log_of (pushed @ [body]) (es @ [(length pushed, body)])"
  by (auto simp: log_of_def sorted_wrt_append nth_append)

lemma log_of_more: "log_of pushed es \<Longrightarrow> log_of (pushed @ later) es"
  by (auto simp: log_of_def nth_append)

lemma byte_total_simps [simp]:
  "byte_total [] = 0"
  "byte_total (b # bs) = length b + byte_total bs"
  "byte_total (bs @ cs) = byte_total bs + byte_total cs"
  by (simp_all add: byte_total_def)

lemma subseq_byte_total: "subseq xs ys \<Longrightarrow> byte_total xs \<le> byte_total ys"
  by (induction rule: list_emb.induct) auto

text \<open>Entries of a log from \<open>k\<close> on are a subsequence of what was pushed from \<open>k\<close> on.\<close>

lemma log_of_subseq:
  "log_of pushed es \<Longrightarrow> \<forall>e \<in> set es. k \<le> fst e \<Longrightarrow> subseq (map snd es) (drop k pushed)"
proof (induction es arbitrary: k)
  case (Cons e es)
  then have e: "fst e < length pushed" "snd e = pushed ! fst e" "k \<le> fst e"
    and rest: "log_of pushed es" "\<forall>d \<in> set es. Suc (fst e) \<le> fst d"
    by (auto simp: log_of_Cons Suc_le_eq)
  have "subseq (map snd (e # es)) (snd e # drop (Suc (fst e)) pushed)"
    using Cons.IH [OF rest] by simp
  also have "snd e # drop (Suc (fst e)) pushed = drop (fst e) pushed"
    using e by (simp add: Cons_nth_drop_Suc)
  also have "subseq (drop (fst e) pushed) (drop k pushed)"
    using e(3) by (metis drop_drop le_add_diff_inverse2 suffix_drop suffix_imp_subseq)
  finally show ?case .
qed simp

lemma log_of_front:
  assumes "log_of pushed (e # es)"
  shows "length (e # es) \<le> length pushed - fst e"
    and "byte_total (map snd (e # es)) \<le> byte_total (drop (fst e) pushed)"
proof -
  have s: "subseq (map snd (e # es)) (drop (fst e) pushed)"
    using assms by (intro log_of_subseq) (auto simp: log_of_Cons less_imp_le)
  show "length (e # es) \<le> length pushed - fst e"
    using list_emb_length [OF s] by simp
  show "byte_total (map snd (e # es)) \<le> byte_total (drop (fst e) pushed)"
    using subseq_byte_total [OF s] .
qed

section \<open>The two loops that drop entries from the front\<close>

lemma pop_before_suffix:
  "pop_before k es (byte_total (map snd es)) = (rest, b) \<Longrightarrow> log_of pushed es \<Longrightarrow>
   log_of pushed rest \<and> b = byte_total (map snd rest) \<and> length rest \<le> length es \<and> b \<le> byte_total (map snd es) \<and>
   fst ` set rest = {q \<in> fst ` set es. k \<le> q}"
proof (induction es)
  case (Cons e es)
  show ?case
  proof (cases "fst e < k")
    case True
    then have "pop_before k es (byte_total (map snd es)) = (rest, b)" and "log_of pushed es"
      using Cons.prems by (simp_all add: log_of_Cons)
    then show ?thesis
      using Cons.IH True by auto
  next
    case False
    then have "rest = e # es" "b = byte_total (map snd (e # es))"
      using Cons.prems(1) by auto
    moreover have "\<forall>d \<in> set (e # es). k \<le> fst d"
      using False Cons.prems(2) by (force simp: log_of_Cons)
    ultimately show ?thesis
      using Cons.prems(2) by auto
  qed
qed simp

lemma evict_suffix:
  "evict count bytes arriving es (byte_total (map snd es)) = (rest, b) \<Longrightarrow> log_of pushed es \<Longrightarrow>
   log_of pushed rest \<and> b = byte_total (map snd rest) \<and>
   (\<exists>k. fst ` set rest = {q \<in> fst ` set es. k \<le> q})"
proof (induction es)
  case (Cons e es)
  show ?case
  proof (cases "length (e # es) \<ge> count \<or> byte_total (map snd (e # es)) > bytes - arriving")
    case True
    then have "evict count bytes arriving es (byte_total (map snd es)) = (rest, b)" and "log_of pushed es"
      using Cons.prems by (simp_all add: log_of_Cons)
    then obtain k where "log_of pushed rest" "b = byte_total (map snd rest)"
        "fst ` set rest = {q \<in> fst ` set es. k \<le> q}"
      using Cons.IH by blast
    moreover have "\<forall>d \<in> set es. Suc (fst e) \<le> fst d"
      using Cons.prems(2) by (auto simp: log_of_Cons Suc_le_eq)
    ultimately have "log_of pushed rest \<and> b = byte_total (map snd rest) \<and>
        fst ` set rest = {q \<in> fst ` set (e # es). max (Suc (fst e)) k \<le> q}"
      by auto
    then show ?thesis by blast
  next
    case False
    then have "rest = e # es" "b = byte_total (map snd (e # es))"
      using Cons.prems(1) by auto
    then show ?thesis
      using Cons.prems(2) by (auto intro: exI [of _ 0])
  qed
qed auto

lemma evict_room:
  "evict count bytes arriving es b = (rest, b') \<Longrightarrow> b = byte_total (map snd es) \<Longrightarrow> 0 < count \<Longrightarrow>
   length rest < count \<and> b' \<le> bytes - arriving"
  by (induction es arbitrary: b) (auto split: if_splits)

lemma evict_keeps:
  "evict count bytes arriving es (byte_total (map snd es)) = (rest, b) \<Longrightarrow> log_of pushed es \<Longrightarrow>
   e \<in> set es \<Longrightarrow> length pushed - fst e < count \<Longrightarrow> byte_total (drop (fst e) pushed) + arriving \<le> bytes \<Longrightarrow>
   e \<in> set rest"
proof (induction es)
  case (Cons d es)
  have le: "fst d \<le> fst e"
    using Cons.prems(2,3) by (auto simp: log_of_Cons less_imp_le)
  show ?case
  proof (cases "length (d # es) \<ge> count \<or> byte_total (map snd (d # es)) > bytes - arriving")
    case True
    have "d \<noteq> e"
      using True log_of_front [OF Cons.prems(2)] Cons.prems(4,5) by (auto simp del: list.map list.size)
    then show ?thesis
      using Cons True by (auto simp: log_of_Cons)
  next
    case False
    then show ?thesis using Cons.prems(1,3) by auto
  qed
qed simp

section \<open>Every reachable stream is a bounded log\<close>

lemma arm_locked_simps [simp]:
  "cursor_next (arm_locked c) = cursor_next c" "cursor_dropped (arm_locked c) = cursor_dropped c"
  "has_pipe (arm_locked c) = has_pipe c" "wants_wake s (arm_locked c) = wants_wake s c"
  "has_pipe c \<Longrightarrow> wake_armed (arm_locked c)"
  by (auto simp: arm_locked_def wants_wake_def)

lemma disarm_locked_simps [simp]:
  "cursor_next (disarm_locked c) = cursor_next c" "cursor_dropped (disarm_locked c) = cursor_dropped c"
  "has_pipe (disarm_locked c) = has_pipe c"
  "has_pipe c \<Longrightarrow> \<not> wake_armed (disarm_locked c)"
  by (auto simp: disarm_locked_def)

lemma sweep_simps [simp]:
  "entries (sweep_cursors_locked s) = entries s" "held_bytes (sweep_cursors_locked s) = held_bytes s"
  "maximum_count (sweep_cursors_locked s) = maximum_count s"
  "maximum_bytes (sweep_cursors_locked s) = maximum_bytes s"
  "next_sequence (sweep_cursors_locked s) = next_sequence s" "closed (sweep_cursors_locked s) = closed s"
  by (simp_all add: sweep_cursors_locked_def)

lemma sweep_subscribed:
  "subscribed (sweep_cursors_locked s) i c \<longleftrightarrow>
   (\<exists>d. subscribed s i d \<and> c = (if wants_wake s d then arm_locked d else d))"
  by (cases "heap s i") (auto simp add: subscribed_def sweep_cursors_locked_def live_cursors_def )

lemma fold_min_le: "fold (\<lambda>i m. min m (f i)) xs (n::nat) \<le> n"
proof (induction xs arbitrary: n)
  case (Cons i xs)
  show ?case using Cons.IH [of "min n (f i)"] by simp
qed simp

lemma fold_min_member: "i \<in> set xs \<Longrightarrow> fold (\<lambda>i m. min m (f i)) xs (n::nat) \<le> f i"
proof (induction xs arbitrary: n)
  case (Cons j xs)
  then show ?case using fold_min_le [of f xs "min n (f j)"] by auto
qed simp

lemma first_needed_le: "subscribed s i c \<Longrightarrow> first_needed s \<le> cursor_next c"
  using fold_min_member [of i "live_cursors s" "\<lambda>i. cursor_next (the (heap s i))" "next_sequence s"]
  by (simp add: first_needed_def subscribed_def live_cursors_def)


lemma prune_simps [simp]:
  "heap (prune_consumed_locked s) = heap s" "cursors (prune_consumed_locked s) = live_cursors s"
  "maximum_count (prune_consumed_locked s) = maximum_count s"
  "maximum_bytes (prune_consumed_locked s) = maximum_bytes s"
  "next_sequence (prune_consumed_locked s) = next_sequence s" "closed (prune_consumed_locked s) = closed s"
  by (simp_all add: prune_consumed_locked_def split: prod.split)

lemma prune_subscribed [simp]: "subscribed (prune_consumed_locked s) i c = subscribed s i c"
  by (auto simp: subscribed_def live_cursors_def)

lemma prune_wants_wake [simp]: "wants_wake (prune_consumed_locked s) c = wants_wake s c"
  by (simp add: wants_wake_def)

lemma prune_entries:
  assumes "bounded_log count bytes pushed s"
  shows "bounded_log count bytes pushed (prune_consumed_locked s)"
    and "fst ` set (entries (prune_consumed_locked s)) = {q \<in> fst ` set (entries s). first_needed s \<le> q}"
proof -
  obtain es b where p: "pop_before (first_needed s) (entries s) (held_bytes s) = (es, b)"
    by force
  have "log_of pushed es \<and> b = byte_total (map snd es) \<and> length es \<le> length (entries s) \<and>
      b \<le> byte_total (map snd (entries s)) \<and> fst ` set es = {q \<in> fst ` set (entries s). first_needed s \<le> q}"
    using assms p by (intro pop_before_suffix) (auto simp: bounded_log_def)
  then show "bounded_log count bytes pushed (prune_consumed_locked s)"
    and "fst ` set (entries (prune_consumed_locked s)) = {q \<in> fst ` set (entries s). first_needed s \<le> q}"
    using assms p by (auto simp: bounded_log_def prune_consumed_locked_def gapless_def)
qed

lemma prune_ok:
  assumes "bounded_log count bytes pushed s" "retained count bytes pushed s" "cursors_ok s"
  shows "bounded_log count bytes pushed (prune_consumed_locked s)"
    and "retained count bytes pushed (prune_consumed_locked s)" and "cursors_ok (prune_consumed_locked s)"
proof -
  show "retained count bytes pushed (prune_consumed_locked s)"
    using assms(2) first_needed_le [of s]
    by (fastforce simp: retained_def prune_entries(2) [OF assms(1)])
  show "cursors_ok (prune_consumed_locked s)"
    using assms(3) by (simp add: cursors_ok_def)
qed (rule prune_entries(1) [OF assms(1)])

lemma sweep_wants_wake [simp]: "wants_wake (sweep_cursors_locked s) c = wants_wake s c"
  by (simp add: wants_wake_def)

lemma sweep_armed:
  assumes "\<And>i c. subscribed s i c \<Longrightarrow> has_pipe c \<Longrightarrow> wake_armed c \<Longrightarrow> wants_wake s c"
    and "subscribed (sweep_cursors_locked s) i c" and "has_pipe c"
  shows "wake_armed c = wants_wake s c"
proof (cases "wants_wake s c")
  case True
  then have "\<exists>d. c = arm_locked d" and "wants_wake s c"
    using assms(2) by (auto simp: sweep_subscribed split: if_splits)
  then show ?thesis
    using assms(3) by auto
qed (use assms in \<open>auto simp: sweep_subscribed split: if_splits\<close>)

lemma sweep_ok:
  assumes "bounded_log count bytes pushed s" "retained count bytes pushed s"
    and "\<And>i c. heap s i = Some c \<Longrightarrow> cursor_next c \<le> next_sequence s"
    and "\<And>i c. subscribed s i c \<Longrightarrow> has_pipe c \<Longrightarrow> wake_armed c \<Longrightarrow> wants_wake s c"
  shows "bounded_log count bytes pushed (sweep_cursors_locked s)"
    and "retained count bytes pushed (sweep_cursors_locked s)" and "cursors_ok (sweep_cursors_locked s)"
proof -
  show "bounded_log count bytes pushed (sweep_cursors_locked s)"
    using assms(1) by (simp add: bounded_log_def)
  show "retained count bytes pushed (sweep_cursors_locked s)"
    using assms(2) by (auto simp: retained_def sweep_subscribed split: if_splits)
  have "cursor_next c \<le> next_sequence s" if "heap (sweep_cursors_locked s) i = Some c" for i c
    using assms(3) [of i] that by (auto simp: sweep_cursors_locked_def split: if_splits)
  then show "cursors_ok (sweep_cursors_locked s)"
    using sweep_armed [OF assms(4)] by (auto simp: cursors_ok_def)
qed

definition stream_ok :: "nat \<Rightarrow> nat \<Rightarrow> string list \<Rightarrow> Stream \<Rightarrow> bool" where
  "stream_ok count bytes pushed s \<longleftrightarrow>
     bounded_log count bytes pushed s \<and> retained count bytes pushed s \<and> cursors_ok s"

lemma subscribe_ok:
  assumes ok: "stream_ok count bytes pushed s" and fresh: "heap s i = None" "i \<notin> set (cursors s)"
  shows "stream_ok count bytes pushed (subscribe replay pipe_made i s)"
proof -
  define q where "q = (if replay \<and> entries s \<noteq> [] then fst (hd (entries s)) else next_sequence s)"
  define c where "c = \<lparr>cursor_next = q, cursor_dropped = 0, has_pipe = pipe_made, wake_armed = False\<rparr>"
  define d where "d = (if wants_wake s c then arm_locked c else c)"
  have sub: "subscribe replay pipe_made i s = s\<lparr>heap := (heap s)(i \<mapsto> d), cursors := cursors s @ [i]\<rparr>"
    by (simp add: subscribe_def Let_def q_def c_def d_def)
  have d: "cursor_next d = q" "has_pipe d \<Longrightarrow> wake_armed d = wants_wake s d"
    by (auto simp: d_def c_def)
  have q: "q \<le> next_sequence s"
    using ok by (cases "entries s") (auto simp: q_def stream_ok_def bounded_log_def log_of_Cons)
  have new: "subscribed (subscribe replay pipe_made i s) j e \<longleftrightarrow> (if j = i then e = d else subscribed s j e)" for j e
    using fresh by (auto simp: sub subscribed_def)
  have log: "k \<in> fst ` set (entries s)" if k: "q \<le> k" "k < length pushed" "fits_bounds count bytes pushed k" for k
  proof -
    have "next_sequence s = length pushed" "gapless bytes pushed (entries s)"
      using ok by (simp_all add: stream_ok_def bounded_log_def)
    moreover from this(1) have "q \<in> fst ` set (entries s)"
      using k(1,2) by (auto simp: q_def split: if_splits)
    moreover have "length (pushed ! k) \<le> bytes"
      using k(2,3) by (simp add: fits_bounds_def Cons_nth_drop_Suc [symmetric])
    ultimately show ?thesis
      using k unfolding gapless_def by blast
  qed
  have "bounded_log count bytes pushed (subscribe replay pipe_made i s)"
    using ok by (simp add: sub stream_ok_def bounded_log_def)
  moreover have "cursors_ok (subscribe replay pipe_made i s)"
    using ok d q by (auto simp: new stream_ok_def cursors_ok_def) (auto simp: sub wants_wake_def split: if_splits)
  moreover have "retained count bytes pushed (subscribe replay pipe_made i s)"
    using ok d(1) log by (simp add: new stream_ok_def retained_def) (simp add: sub)
  ultimately show ?thesis
    by (simp add: stream_ok_def)
qed


lemma unsubscribe_ok:
  assumes ok: "stream_ok count bytes pushed s"
  shows "stream_ok count bytes pushed (unsubscribe i s)"
proof -
  let ?t = "s\<lparr>cursors := filter (\<lambda>j. heap s j \<noteq> None \<and> j \<noteq> i) (cursors s)\<rparr>"
  have sub: "subscribed ?t j c \<Longrightarrow> subscribed s j c" for j c
    by (simp add: subscribed_def)
  have "bounded_log count bytes pushed ?t" "cursors_ok ?t" "retained count bytes pushed ?t"
    using ok sub by (fastforce simp: stream_ok_def bounded_log_def cursors_ok_def retained_def wants_wake_def)+
  then show ?thesis
    using prune_ok by (simp add: stream_ok_def unsubscribe_def)
qed

lemma release_ok:
  assumes ok: "stream_ok count bytes pushed s"
  shows "stream_ok count bytes pushed (release_cursor i s)"
proof -
  have sub: "subscribed (release_cursor i s) j c \<Longrightarrow> subscribed s j c" for j c
    by (simp add: subscribed_def release_cursor_def split: if_splits)
  have "bounded_log count bytes pushed (release_cursor i s)"
    using ok by (simp add: stream_ok_def bounded_log_def release_cursor_def)
  moreover have "retained count bytes pushed (release_cursor i s)"
    using ok sub unfolding stream_ok_def retained_def by (simp add: release_cursor_def) blast
  moreover have "cursors_ok (release_cursor i s)"
    using ok sub unfolding stream_ok_def cursors_ok_def wants_wake_def
    by (simp add: release_cursor_def) blast
  ultimately show ?thesis
    by (simp add: stream_ok_def)
qed

lemma close_ok:
  assumes ok: "stream_ok count bytes pushed s"
  shows "stream_ok count bytes pushed (close_stream s)"
proof (cases "closed s")
  case False
  let ?t = "s\<lparr>closed := True\<rparr>"
  have sub: "subscribed ?t j c \<longleftrightarrow> subscribed s j c" for j c
    by (simp add: subscribed_def)
  have "bounded_log count bytes pushed ?t" "retained count bytes pushed ?t"
    using ok by (simp_all add: stream_ok_def bounded_log_def retained_def sub)
  moreover have "wants_wake ?t c" for c
    by (simp add: wants_wake_def)
  moreover have "cursor_next c \<le> next_sequence ?t" if "heap ?t i = Some c" for i c
    using ok that by (simp add: stream_ok_def cursors_ok_def)
  ultimately have "stream_ok count bytes pushed (sweep_cursors_locked ?t)"
    using sweep_ok unfolding stream_ok_def by blast
  then show ?thesis
    using False by (simp add: close_stream_def)
qed (simp add: close_stream_def ok)

text \<open>What a push leaves in the log, before it wakes the cursors.\<close>

definition logged :: "string \<Rightarrow> Stream \<Rightarrow> Stream" where
  "logged body s =
     (let q = next_sequence s; s = s\<lparr>next_sequence := q + 1\<rparr>; arriving = length body in
      if maximum_count s \<noteq> 0 \<and> arriving \<le> maximum_bytes s
      then let (es, b) = evict (maximum_count s) (maximum_bytes s) arriving (entries s) (held_bytes s) in
        s\<lparr>entries := es @ [(q, body)], held_bytes := b + arriving\<rparr>
      else s)"

lemma push_logged: "push body s = sweep_cursors_locked (logged body s)"
  by (simp add: push_def logged_def Let_def)

lemma logged_simps [simp]:
  "heap (logged body s) = heap s" "cursors (logged body s) = cursors s" "closed (logged body s) = closed s"
  "next_sequence (logged body s) = Suc (next_sequence s)"
  "maximum_count (logged body s) = maximum_count s" "maximum_bytes (logged body s) = maximum_bytes s"
  by (simp_all add: logged_def Let_def split: prod.split)

lemma logged_bounded:
  assumes "bounded_log count bytes pushed s"
  shows "bounded_log count bytes (pushed @ [body]) (logged body s)"
proof (cases "count \<noteq> 0 \<and> length body \<le> bytes")
  case True
  obtain es b where ev: "evict count bytes (length body) (entries s) (byte_total (map snd (entries s))) = (es, b)"
    by force
  have l: "log_of pushed (entries s)" "gapless bytes pushed (entries s)"
    using assms by (simp_all add: bounded_log_def)
  obtain k where es: "log_of pushed es" "b = byte_total (map snd es)"
      and k: "fst ` set es = {q \<in> fst ` set (entries s). k \<le> q}"
    using evict_suffix [OF ev l(1)] by blast
  have room: "length es < count" "b \<le> bytes - length body"
    using evict_room [OF ev refl] True by simp_all
  have "gapless bytes (pushed @ [body]) (es @ [(length pushed, body)])"
    using l(2) k unfolding gapless_def
    by (auto simp: nth_append less_Suc_eq image_iff)
  moreover have "logged body s = s\<lparr>next_sequence := Suc (length pushed),
      entries := es @ [(length pushed, body)], held_bytes := b + length body\<rparr>"
    using assms True ev by (simp add: bounded_log_def logged_def Let_def)
  ultimately show ?thesis
    using assms es room True by (simp add: bounded_log_def log_of_push)
next
  case False
  have "gapless bytes (pushed @ [body]) (entries s)"
    using assms False unfolding gapless_def bounded_log_def
    by (auto simp: nth_append less_Suc_eq) 
  then show ?thesis
    using assms False by (auto simp: bounded_log_def logged_def Let_def log_of_more)
qed

lemma logged_retained:
  assumes "bounded_log count bytes pushed s" "retained count bytes pushed s"
  shows "retained count bytes (pushed @ [body]) (logged body s)"
  unfolding retained_def
proof (intro allI impI)
  fix i c q
  assume sub: "subscribed (logged body s) i c" and q: "cursor_next c \<le> q" "q < length (pushed @ [body])"
    and fit: "fits_bounds count bytes (pushed @ [body]) q"
  then have "length pushed - q < count" and total: "byte_total (drop q pushed) + length body \<le> bytes"
    by (auto simp: fits_bounds_def)
  then have new: "logged body s = s\<lparr>next_sequence := Suc (length pushed),
      entries := fst (evict count bytes (length body) (entries s) (byte_total (map snd (entries s)))) @ [(length pushed, body)],
      held_bytes := snd (evict count bytes (length body) (entries s) (byte_total (map snd (entries s)))) + length body\<rparr>"
    using assms(1) by (simp add: bounded_log_def logged_def Let_def split: prod.split)
  show "q \<in> fst ` set (entries (logged body s))"
  proof (cases "q = length pushed")
    case False
    then have "q < length pushed" using q by simp
    moreover have "fits_bounds count bytes pushed q"
      using total \<open>length pushed - q < count\<close> by (simp add: fits_bounds_def)
    moreover have "subscribed s i c"
      using sub by (simp add: subscribed_def)
    ultimately obtain e where e: "e \<in> set (entries s)" "q = fst e"
      using assms(2) q(1) unfolding retained_def by (metis imageE)
    have "e \<in> set (fst (evict count bytes (length body) (entries s) (byte_total (map snd (entries s)))))"
      using evict_keeps [OF surjective_pairing, of pushed "entries s"] e assms(1) total \<open>length pushed - q < count\<close>
      unfolding bounded_log_def by blast
    then show ?thesis using e(2) by (auto simp: new)
  qed (simp add: new)
qed

lemma push_ok:
  assumes ok: "stream_ok count bytes pushed s"
  shows "stream_ok count bytes (pushed @ [body]) (push body s)"
proof -
  let ?t = "logged body s"
  have le: "cursor_next c \<le> next_sequence s" if "heap s i = Some c" for i c
    using ok that by (simp add: stream_ok_def cursors_ok_def)
  have "wants_wake ?t c" if "subscribed ?t i c" for i c
    using le [of i c] that by (simp add: wants_wake_def subscribed_def)
  moreover have "cursor_next c \<le> next_sequence ?t" if "heap ?t i = Some c" for i c
    using le [of i c] that by simp
  ultimately show ?thesis
    using sweep_ok [of count bytes "pushed @ [body]" ?t] logged_bounded logged_retained ok
    by (simp add: stream_ok_def push_logged)
qed


section \<open>What a take returns\<close>

lemma gather_accounts:
  "gather es x d held = (held', d', x') \<Longrightarrow> log_of pushed es \<Longrightarrow> x \<le> length pushed \<Longrightarrow>
   held' = held @ map snd (filter (\<lambda>e. x \<le> fst e) es) \<and> x \<le> x' \<and> x' \<le> length pushed \<and>
   d' + (length pushed - x') + length (filter (\<lambda>e. x \<le> fst e) es) = d + (length pushed - x)"
proof (induction es arbitrary: x d held)
  case (Cons e es)
  show ?case
  proof (cases "fst e < x")
    case True
    then have "gather es x d held = (held', d', x')" and "log_of pushed es"
      using Cons.prems(1,2) by (simp_all add: log_of_Cons)
    moreover have "filter (\<lambda>e. x \<le> fst e) (e # es) = filter (\<lambda>e. x \<le> fst e) es"
      using True by simp
    ultimately show ?thesis
      using Cons.IH [OF _ _ Cons.prems(3)] by metis
  next
    case False
    have e: "fst e < length pushed" "log_of pushed es" "\<forall>d \<in> set es. fst e < fst d"
      using Cons.prems(2) by (simp_all add: log_of_Cons)
    then have all: "filter (\<lambda>d. Suc (fst e) \<le> fst d) es = es" "filter (\<lambda>d. x \<le> fst d) es = es"
      using False by (auto simp: filter_id_conv)
    have "gather es (Suc (fst e)) (d + (fst e - x)) (held @ [snd e]) = (held', d', x')"
      using Cons.prems(1) False by simp
    from Cons.IH [OF this e(2) Suc_leI [OF e(1)]] have "held' = held @ snd e # map snd es" "Suc (fst e) \<le> x'"
        "x' \<le> length pushed" "d' + (length pushed - x') + length es = d + (fst e - x) + (length pushed - Suc (fst e))"
      by (simp_all only: all append_assoc append_Cons append_Nil)
    moreover have "d + (fst e - x) + (length pushed - Suc (fst e)) + 1 = d + (length pushed - x)"
      using False e(1) by simp
    ultimately show ?thesis
      using False all(2) by simp
  qed
qed auto

definition taken :: "Stream \<Rightarrow> Cursor \<Rightarrow> string list" where
  "taken s c = map snd (filter (\<lambda>e. cursor_next c \<le> fst e) (entries s))"

definition after_take :: "string list \<Rightarrow> Stream \<Rightarrow> Cursor \<Rightarrow> Cursor" where
  "after_take pushed s c = (let c = c\<lparr>cursor_dropped := cursor_dropped c + (length pushed - cursor_next c - length (taken s c)),
      cursor_next := length pushed\<rparr> in
     if closed s then c else disarm_locked c)"

lemma taken_subseq:
  assumes "log_of pushed (entries s)"
  shows "subseq (taken s c) (drop (cursor_next c) pushed)"
  unfolding taken_def using assms
  by (intro log_of_subseq) (auto simp: log_of_def sorted_wrt_map sorted_wrt_filter)

lemma collect_taken:
  assumes ok: "stream_ok count bytes pushed s" and c: "heap s i = Some c"
  shows "collect_locked i s = (prune_consumed_locked (s\<lparr>heap := (heap s)(i \<mapsto> after_take pushed s c)\<rparr>), taken s c)"
    and "pending_drops i s = cursor_dropped (after_take pushed s c)"
proof -
  obtain held drops x where g: "gather (entries s) (cursor_next c) (cursor_dropped c) [] = (held, drops, x)"
    using prod_cases3 by blast
  have l: "log_of pushed (entries s)" "next_sequence s = length pushed" "cursor_next c \<le> length pushed"
    using ok c by (auto simp: stream_ok_def bounded_log_def cursors_ok_def)
  have "length (taken s c) \<le> length pushed - cursor_next c"
    using list_emb_length [OF taken_subseq [OF l(1)]] by simp
  then have held: "held = taken s c"
      and drops: "drops + (length pushed - x) = cursor_dropped c + (length pushed - cursor_next c - length (taken s c))"
    using gather_accounts [OF g l(1,3)] by (auto simp: taken_def)
  show "collect_locked i s = (prune_consumed_locked (s\<lparr>heap := (heap s)(i \<mapsto> after_take pushed s c)\<rparr>), taken s c)"
    using c g l(2) held drops by (auto simp: collect_locked_def after_take_def Let_def)
  show "pending_drops i s = cursor_dropped (after_take pushed s c)"
    using c g l(2) drops by (simp add: pending_drops_def after_take_def Let_def)
qed

lemma after_take_simps [simp]:
  "cursor_next (after_take pushed s c) = length pushed" "has_pipe (after_take pushed s c) = has_pipe c"
  by (simp_all add: after_take_def Let_def)

lemma collect_ok:
  assumes ok: "stream_ok count bytes pushed s" and c: "heap s i = Some c"
  shows "stream_ok count bytes pushed (fst (collect_locked i s))"
proof -
  let ?d = "after_take pushed s c"
  let ?t = "s\<lparr>heap := (heap s)(i \<mapsto> ?d)\<rparr>"
  have sub: "subscribed ?t j e \<longleftrightarrow> (if j = i then i \<in> set (cursors s) \<and> e = ?d else subscribed s j e)" for j e
    by (auto simp: subscribed_def)
  have n: "next_sequence s = length pushed" and armed: "subscribed s i c \<Longrightarrow> has_pipe c \<Longrightarrow> wake_armed c = wants_wake s c"
    using ok by (auto simp: stream_ok_def bounded_log_def cursors_ok_def)
  have "bounded_log count bytes pushed ?t"
    using ok by (simp add: stream_ok_def bounded_log_def)
  moreover have "retained count bytes pushed ?t"
    using ok unfolding stream_ok_def retained_def sub by auto
  moreover have "cursors_ok ?t"
    unfolding cursors_ok_def
  proof (intro conjI allI impI)
    fix j e assume "heap ?t j = Some e"
    then show "cursor_next e \<le> next_sequence ?t"
      using ok n by (auto simp: stream_ok_def cursors_ok_def split: if_splits)
  next
    fix j e assume e: "subscribed ?t j e" "has_pipe e"
    show "wake_armed e = wants_wake ?t e"
    proof (cases "j = i")
      case True
      then have "subscribed s i c" "e = ?d" "has_pipe c"
        using e sub [of i e] c by (auto simp: subscribed_def)
      then show ?thesis
        using armed n by (auto simp: after_take_def Let_def wants_wake_def)
    next
      case False
      then show ?thesis
        using e sub ok by (auto simp: stream_ok_def cursors_ok_def wants_wake_def)
    qed
  qed
  ultimately show ?thesis
    using prune_ok by (simp add: stream_ok_def collect_taken(1) [OF assms])
qed

lemma stream_reachable_ok: "stream_reachable count bytes pushed s \<Longrightarrow> stream_ok count bytes pushed s"
proof (induction rule: stream_reachable.induct)
  case start
  show ?case
    by (simp add: new_stream_def stream_ok_def bounded_log_def retained_def cursors_ok_def subscribed_def gapless_def)
qed (auto intro: subscribe_ok unsubscribe_ok release_ok push_ok close_ok collect_ok)

section \<open>Properties\<close>

text \<open>C21. In every state a stream can reach, whatever its consumers do, the log holds at most the configured
  number of notifications and at most the configured number of bytes, its byte count is exact, and what it holds
  are pushed bodies under their own sequence numbers, in order, with nothing missing past the oldest one held
  except a body too large to be kept at all.\<close>

theorem stream_bounded:
  assumes "stream_reachable count bytes pushed s"
  shows "length (entries s) \<le> count \<and> held_bytes s = sum_list (map (length \<circ> snd) (entries s)) \<and> held_bytes s \<le> bytes \<and>
    next_sequence s = length pushed \<and> sorted_wrt (<) (map fst (entries s)) \<and>
    (\<forall>(q, body) \<in> set (entries s). q < length pushed \<and> pushed ! q = body \<and>
       (\<forall>k \<ge> q. k < length pushed \<longrightarrow> length (pushed ! k) \<le> bytes \<longrightarrow> (k, pushed ! k) \<in> set (entries s)))"
proof -
  have b: "bounded_log count bytes pushed s"
    using stream_reachable_ok [OF assms] by (simp add: stream_ok_def)
  have "(k, pushed ! k) \<in> set (entries s)"
    if "(q, body) \<in> set (entries s)" "q \<le> k" "k < length pushed" "length (pushed ! k) \<le> bytes" for q body k
  proof -
    have "k \<in> fst ` set (entries s)"
      using b that unfolding bounded_log_def gapless_def by force
    then show ?thesis
      using b by (auto simp: bounded_log_def log_of_def)
  qed
  then show ?thesis
    using b by (auto simp: bounded_log_def log_of_def byte_total_def comp_def)
qed

text \<open>A take by any owner of a cursor returns, in the order they were pushed, notifications pushed since its
  last take; every other notification pushed since is added to its drop count, which \<open>dropped\<close> already reported
  before the take; and afterwards the cursor has nothing left to read. No notification is delivered twice and none
  goes missing without being counted.\<close>

theorem take_accounts:
  assumes "stream_reachable count bytes pushed s" and "heap s i = Some c" and "collect_locked i s = (t, held)"
  shows "\<exists>d. heap t i = Some d \<and> cursor_next d = length pushed \<and>
    subseq held (drop (cursor_next c) pushed) \<and>
    cursor_dropped d = pending_drops i s \<and> pending_drops i t = pending_drops i s \<and>
    cursor_dropped d + length held = cursor_dropped c + length (drop (cursor_next c) pushed)"
proof -
  note ok = stream_reachable_ok [OF assms(1)]
  let ?d = "after_take pushed s c"
  have t: "t = prune_consumed_locked (s\<lparr>heap := (heap s)(i \<mapsto> ?d)\<rparr>)" "held = taken s c"
    using assms(3) collect_taken(1) [OF ok assms(2)] by auto
  have d: "heap t i = Some ?d"
    by (simp add: t)
  have ok': "stream_ok count bytes pushed t"
    using collect_ok [OF ok assms(2)] assms(3) by simp
  have sub: "subseq held (drop (cursor_next c) pushed)"
    using ok t(2) taken_subseq by (simp add: stream_ok_def bounded_log_def)
  have dropped: "cursor_dropped ?d + length held = cursor_dropped c + length (drop (cursor_next c) pushed)"
    using list_emb_length [OF sub] t(2) by (simp add: after_take_def Let_def)
  have "pending_drops i t = cursor_dropped ?d"
    using collect_taken(2) [OF ok' d] by (simp add: after_take_def [of pushed t] Let_def)
  then show ?thesis
    using d sub dropped collect_taken(2) [OF ok assms(2)] by auto
qed

text \<open>A subscribed consumer whose backlog fits both bounds loses nothing: its take returns exactly the
  notifications pushed since its last one.\<close>

theorem keeping_up_is_lossless:
  assumes "stream_reachable count bytes pushed s" and "heap s i = Some c" and "i \<in> set (cursors s)"
    and "length pushed - cursor_next c \<le> count" and "sum_list (map length (drop (cursor_next c) pushed)) \<le> bytes"
  shows "snd (collect_locked i s) = drop (cursor_next c) pushed \<and> pending_drops i s = cursor_dropped c"
proof -
  note ok = stream_reachable_ok [OF assms(1)]
  have log: "log_of pushed (entries s)"
    using ok by (simp add: stream_ok_def bounded_log_def)
  have all: "q \<in> fst ` set (filter (\<lambda>e. cursor_next c \<le> fst e) (entries s))" if q: "cursor_next c \<le> q" "q < length pushed" for q
  proof -
    have "byte_total (drop q pushed) \<le> byte_total (drop (cursor_next c) pushed)"
      using q(1) by (metis drop_drop le_add_diff_inverse2 suffix_drop suffix_imp_subseq subseq_byte_total)
    then have "fits_bounds count bytes pushed q"
      using q assms(4,5) by (simp add: fits_bounds_def byte_total_def)
    then have "q \<in> fst ` set (entries s)"
      using ok q assms(2,3) unfolding stream_ok_def retained_def subscribed_def by blast
    then show ?thesis using q(1) by auto
  qed
  have "{cursor_next c..<length pushed} \<subseteq> fst ` set (filter (\<lambda>e. cursor_next c \<le> fst e) (entries s))"
    using all by auto
  then have "card {cursor_next c..<length pushed} \<le> length (taken s c)"
    unfolding taken_def by (metis (no_types, lifting) List.finite_set card_image_le card_length card_mono finite_imageI le_trans length_map)
  then have "taken s c = drop (cursor_next c) pushed"
    using taken_subseq [OF log, of c] by (intro subseq_same_length) (auto dest: list_emb_length)
  then show ?thesis
    using collect_taken [OF ok assms(2)] by (simp add: after_take_def Let_def)
qed

text \<open>The descriptor of a subscribed cursor is readable exactly when a take would have something to report:
  a notification was pushed since its last take, or the stream was closed.\<close>

theorem wake_exact:
  assumes "stream_reachable count bytes pushed s" and "heap s i = Some c" and "i \<in> set (cursors s)" and "has_pipe c"
  shows "wake_armed c \<longleftrightarrow> closed s \<or> snd (collect_locked i s) \<noteq> [] \<or> cursor_dropped c < pending_drops i s"
proof -
  note ok = stream_reachable_ok [OF assms(1)]
  have c: "wake_armed c = wants_wake s c" "next_sequence s = length pushed" "log_of pushed (entries s)"
    using ok assms by (auto simp: stream_ok_def cursors_ok_def subscribed_def bounded_log_def)
  have "length (taken s c) \<le> length pushed - cursor_next c"
    using list_emb_length [OF taken_subseq [OF c(3)]] by simp
  then show ?thesis
    using c collect_taken [OF ok assms(2)] by (auto simp: wants_wake_def after_take_def Let_def)
qed


section \<open>Witnesses\<close>

text \<open>Two consumers of a stream of at most two notifications and ten bytes; the first falls behind.\<close>

definition sample_stream :: Stream where
  "sample_stream = push ''c'' (push ''b'' (subscribe True True 1 (push ''a'' (subscribe False True 0 (new_stream 2 10)))))"

lemma sample_reachable: "stream_reachable 2 10 [''a'', ''b'', ''c''] sample_stream"
proof -
  let ?a = "push ''a'' (subscribe False True 0 (new_stream 2 10))"
  have start: "heap (new_stream 2 10) 0 = None" "0 \<notin> set (cursors (new_stream 2 10))"
    by code_simp+
  have second: "heap ?a 1 = None" "1 \<notin> set (cursors ?a)"
    by code_simp+
  have "stream_reachable 2 10 ([] @ [''a'']) ?a"
    by (intro stream_reachable.push stream_reachable.subscribe stream_reachable.start start)
  from stream_reachable.subscribe [OF this second]
  have "stream_reachable 2 10 ((([] @ [''a'']) @ [''b'']) @ [''c'']) sample_stream"
    unfolding sample_stream_def by (intro stream_reachable.push)
  then show ?thesis by simp
qed

theorem stream_bounded_witness:
  "length (entries sample_stream) \<le> 2 \<and> held_bytes sample_stream \<le> 10 \<and> next_sequence sample_stream = 3"
  using stream_bounded [OF sample_reachable] by simp

theorem take_accounts_witness:
  "\<exists>c d t. heap sample_stream 0 = Some c \<and> collect_locked 0 sample_stream = (t, [''b'', ''c'']) \<and>
     heap t 0 = Some d \<and> cursor_dropped d = 1 \<and> cursor_next d = 3"
proof -
  define c where "c = \<lparr>cursor_next = 0, cursor_dropped = 0, has_pipe = True, wake_armed = True\<rparr>"
  obtain t held where t: "collect_locked 0 sample_stream = (t, held)"
    by force
  have c: "heap sample_stream 0 = Some c"
    unfolding c_def by code_simp
  have "snd (collect_locked 0 sample_stream) = [''b'', ''c'']"
    by code_simp
  then have "held = [''b'', ''c'']"
    by (simp add: t)
  then show ?thesis
    using take_accounts [OF sample_reachable c t] c t by (auto simp: c_def)
qed

theorem keeping_up_is_lossless_witness:
  "\<exists>c. heap sample_stream 1 = Some c \<and> cursor_dropped c = 0 \<and> pending_drops 1 sample_stream = 1 \<and>
     snd (collect_locked 1 (push ''d'' (fst (collect_locked 1 sample_stream)))) = [''d'']"
proof -
  let ?s = "push ''d'' (fst (collect_locked 1 sample_stream))"
  have at1: "heap sample_stream 1 = Some \<lparr>cursor_next = 0, cursor_dropped = 0, has_pipe = True, wake_armed = True\<rparr>"
    by code_simp
  have r: "stream_reachable 2 10 [''a'', ''b'', ''c'', ''d''] ?s"
    using stream_reachable.push [OF stream_reachable.collect [OF sample_reachable, of 1], of "''d''"] at1 by simp
  have c: "heap ?s 1 = Some \<lparr>cursor_next = 3, cursor_dropped = 1, has_pipe = True, wake_armed = True\<rparr>"
    by code_simp
  have live: "1 \<in> set (cursors ?s)" and drops: "pending_drops 1 sample_stream = 1"
    by code_simp+
  have "snd (collect_locked 1 ?s) = [''d'']"
    using keeping_up_is_lossless [OF r c live] by simp
  then show ?thesis
    using at1 drops by simp
qed

theorem wake_exact_witness:
  "\<exists>c. heap sample_stream 0 = Some c \<and> wake_armed c \<and> snd (collect_locked 0 sample_stream) \<noteq> []"
proof -
  have c: "heap sample_stream 0 = Some \<lparr>cursor_next = 0, cursor_dropped = 0, has_pipe = True, wake_armed = True\<rparr>"
    by code_simp
  have live: "0 \<in> set (cursors sample_stream)" and "\<not> closed sample_stream" and "snd (collect_locked 0 sample_stream) \<noteq> []"
    by code_simp+
  then show ?thesis
    using wake_exact [OF sample_reachable c live] c by simp
qed

end
