(* ===== verification/Completion_Queue.thy ===== *)
theory Completion_Queue
  imports Prelude "HOL-Library.Sublist"
begin

text \<open>
  The queue through which finished operations reach the thread that runs their callbacks
  (\<open>src/src/completion_queue.cpp\<close>). \<open>QueueCore\<close> is the state under the mutex, with the intrusive doubly linked list of
  ready records as links between tokens, and each operation is one critical section. \<open>run_one\<close>, \<open>run_ready\<close> and
  \<open>discard_ready\<close> take as a parameter what happens to the core while a callback runs outside the lock: any list of
  critical sections, by the callback or by other threads. Tokens and generations are natural numbers (64-bit
  counters, advanced once per call), and a wake pipe that exists takes and gives its byte.

  The lemmas show that the links always represent one list (\<open>queue_ok\<close>), that the core refines the plain queue a
  client sees (\<open>abstract\<close>), and what a batch dispatches. \<open>drained_queue\<close> states what emptying a queue relies on.
\<close>

section \<open>State\<close>

record 'c Record =
  callback :: 'c
  enqueued :: bool
  ready_generation :: nat
  previous_ready :: "nat option"
  next_ready :: "nat option"

definition new_record :: "'c \<Rightarrow> 'c Record" where
  "new_record c = \<lparr>callback = c, enqueued = False, ready_generation = 0, previous_ready = None, next_ready = None\<rparr>"

record 'c QueueCore =
  records :: "nat \<Rightarrow> 'c Record option"
  ready_head :: "nat option"
  ready_tail :: "nat option"
  ready_count :: nat
  last_ready_generation :: nat
  next_token :: nat
  queue_closed :: bool
  finished :: bool
  dispatching :: bool
  has_wake :: bool
  queue_armed :: bool

definition new_queue :: "bool \<Rightarrow> 'c QueueCore" where
  "new_queue pipe_made = \<lparr>records = (\<lambda>_. None), ready_head = None, ready_tail = None, ready_count = 0,
     last_ready_generation = 0, next_token = 1, queue_closed = False, finished = False, dispatching = False,
     has_wake = pipe_made, queue_armed = False\<rparr>"

section \<open>The linked list of ready records\<close>

definition ready_locked :: "'c QueueCore \<Rightarrow> bool" where
  "ready_locked q \<longleftrightarrow> ready_count q \<noteq> 0 \<or> finished q \<or> queue_closed q"

definition refresh_wake_locked :: "'c QueueCore \<Rightarrow> 'c QueueCore" where
  "refresh_wake_locked q =
     (if ready_locked q \<and> \<not> queue_armed q \<and> has_wake q then q\<lparr>queue_armed := True\<rparr>
      else if \<not> ready_locked q \<and> queue_armed q \<and> has_wake q then q\<lparr>queue_armed := False\<rparr>
      else q)"

definition update_record :: "nat \<Rightarrow> ('c Record \<Rightarrow> 'c Record) \<Rightarrow> 'c QueueCore \<Rightarrow> 'c QueueCore" where
  "update_record t f q = q\<lparr>records := (records q)(t := map_option f (records q t))\<rparr>"

definition link_ready :: "nat \<Rightarrow> 'c QueueCore \<Rightarrow> 'c QueueCore" where
  "link_ready token q =
     (let g = last_ready_generation q + 1;
          q = (update_record token (\<lambda>r. r\<lparr>enqueued := True, ready_generation := g, previous_ready := ready_tail q\<rparr>) q)
                \<lparr>last_ready_generation := g\<rparr>;
          q = (case ready_tail q of
                 Some previous \<Rightarrow> update_record previous (\<lambda>r. r\<lparr>next_ready := Some token\<rparr>) q
               | None \<Rightarrow> q\<lparr>ready_head := Some token\<rparr>) in
      refresh_wake_locked (q\<lparr>ready_tail := Some token, ready_count := ready_count q + 1\<rparr>))"

definition unlink_ready :: "nat \<Rightarrow> 'c Record \<Rightarrow> 'c QueueCore \<Rightarrow> 'c QueueCore" where
  "unlink_ready token r q =
     (let q = (case previous_ready r of
                 Some previous \<Rightarrow> update_record previous (\<lambda>p. p\<lparr>next_ready := next_ready r\<rparr>) q
               | None \<Rightarrow> q\<lparr>ready_head := next_ready r\<rparr>);
          q = (case next_ready r of
                 Some following \<Rightarrow> update_record following (\<lambda>n. n\<lparr>previous_ready := previous_ready r\<rparr>) q
               | None \<Rightarrow> q\<lparr>ready_tail := previous_ready r\<rparr>);
          q = update_record token (\<lambda>r. r\<lparr>enqueued := False, previous_ready := None, next_ready := None\<rparr>) q in
      refresh_wake_locked (q\<lparr>ready_count := ready_count q - 1\<rparr>))"

definition extract_record :: "nat \<Rightarrow> 'c QueueCore \<Rightarrow> 'c QueueCore" where
  "extract_record token q = q\<lparr>records := (records q)(token := None)\<rparr>"

definition claim_ready :: "'c QueueCore \<Rightarrow> 'c QueueCore \<times> (nat \<times> 'c) option" where
  "claim_ready q =
     (case ready_head q of
        None \<Rightarrow> (q, None)
      | Some token \<Rightarrow>
          (case records q token of
             None \<Rightarrow> (q, None)
           | Some r \<Rightarrow> (extract_record token (unlink_ready token r q), Some (token, callback r))))"

section \<open>Operations\<close>

definition enqueue :: "nat \<Rightarrow> 'c QueueCore \<Rightarrow> 'c QueueCore \<times> bool" where
  "enqueue token q =
     (case records q token of
        None \<Rightarrow> (q, False)
      | Some r \<Rightarrow> if queue_closed q \<or> enqueued r then (q, False) else (link_ready token q, True))"

definition detach :: "nat \<Rightarrow> 'c QueueCore \<Rightarrow> 'c QueueCore" where
  "detach token q =
     (case records q token of
        None \<Rightarrow> q
      | Some r \<Rightarrow> extract_record token (if enqueued r then unlink_ready token r q else q))"

definition take_token :: "'c QueueCore \<Rightarrow> 'c QueueCore \<times> nat" where
  "take_token q = (q\<lparr>next_token := next_token q + 1\<rparr>, next_token q)"

definition register_record :: "nat \<Rightarrow> 'c \<Rightarrow> 'c QueueCore \<Rightarrow> 'c QueueCore \<times> bool" where
  "register_record token c q =
     (if queue_closed q \<or> records q token \<noteq> None then (q, False)
      else (q\<lparr>records := (records q)(token \<mapsto> new_record c)\<rparr>, True))"

definition push_ready :: "'c \<Rightarrow> 'c QueueCore \<Rightarrow> 'c QueueCore \<times> bool" where
  "push_ready c q =
     (if queue_closed q then (q, False)
      else let token = next_token q; q = q\<lparr>next_token := token + 1\<rparr> in
        if records q token \<noteq> None then (q, False)
        else (link_ready token (q\<lparr>records := (records q)(token \<mapsto> new_record c)\<rparr>), True))"

definition finish_queue :: "'c QueueCore \<Rightarrow> 'c QueueCore" where
  "finish_queue q = refresh_wake_locked (q\<lparr>finished := True\<rparr>)"

definition close_queue :: "'c QueueCore \<Rightarrow> 'c QueueCore" where
  "close_queue q =
     (if queue_closed q then q
      else (refresh_wake_locked (q\<lparr>queue_closed := True, ready_head := None, ready_tail := None, ready_count := 0\<rparr>))
             \<lparr>records := (\<lambda>_. None)\<rparr>)"

text \<open>What can happen in the core while a callback runs outside the lock: the critical sections of other
  threads and of the callback itself. A nested dispatch finds the claim taken.\<close>

datatype 'c Action =
    Enqueue nat | Detach nat | NextToken | Register nat 'c | PushReady 'c | Finish | Close | Dispatch

fun act :: "'c Action \<Rightarrow> 'c QueueCore \<Rightarrow> 'c QueueCore" where
  "act (Enqueue t) q = fst (enqueue t q)"
| "act (Detach t) q = detach t q"
| "act NextToken q = fst (take_token q)"
| "act (Register t c) q = fst (register_record t c q)"
| "act (PushReady c) q = fst (push_ready c q)"
| "act Finish q = finish_queue q"
| "act Close q = close_queue q"
| "act Dispatch q = q"

definition run_callback :: "('c \<Rightarrow> 'c Action list) \<Rightarrow> 'c \<Rightarrow> 'c QueueCore \<Rightarrow> 'c QueueCore" where
  "run_callback during c q = fold act (during c) q"

text \<open>\<open>run_one\<close> blocks while nothing is ready and the queue is neither finished nor closed; \<open>None\<close> is that.\<close>

definition run_one :: "('c \<Rightarrow> 'c Action list) \<Rightarrow> 'c QueueCore \<Rightarrow> ('c QueueCore \<times> (nat \<times> 'c) option) option" where
  "run_one during q =
     (if dispatching q then Some (q, None)
      else if \<not> (queue_closed q \<or> finished q \<or> ready_count q \<noteq> 0) then None
      else let (q, claimed) = (if ready_count q \<noteq> 0 then claim_ready q else (q, None)) in
        case claimed of
          None \<Rightarrow> Some (q, None)
        | Some (t, c) \<Rightarrow>
            Some ((run_callback during c (q\<lparr>dispatching := True\<rparr>))\<lparr>dispatching := False\<rparr>, Some (t, c)))"

fun run_ready_loop :: "('c \<Rightarrow> 'c Action list) \<Rightarrow> nat \<Rightarrow> nat \<Rightarrow> 'c QueueCore \<Rightarrow> 'c QueueCore \<times> (nat \<times> 'c) list" where
  "run_ready_loop during cutoff 0 q = (q, [])"
| "run_ready_loop during cutoff (Suc n) q =
     (if ready_count q = 0 then (q, [])
      else case ready_head q of
        None \<Rightarrow> (q, [])
      | Some token \<Rightarrow>
          (case records q token of
             None \<Rightarrow> (q, [])
           | Some r \<Rightarrow>
               if ready_generation r > cutoff then (q, [])
               else case claim_ready q of
                 (q, None) \<Rightarrow> (q, [])
               | (q, Some (t, c)) \<Rightarrow>
                   let (q, ran) = run_ready_loop during cutoff n (run_callback during c q) in (q, (t, c) # ran)))"

definition run_ready :: "('c \<Rightarrow> 'c Action list) \<Rightarrow> 'c QueueCore \<Rightarrow> 'c QueueCore \<times> (nat \<times> 'c) list" where
  "run_ready during q =
     (if dispatching q then (q, [])
      else let (q, ran) = run_ready_loop during (last_ready_generation q) (ready_count q) (q\<lparr>dispatching := True\<rparr>) in
        (q\<lparr>dispatching := False\<rparr>, ran))"

fun discard_loop :: "nat \<Rightarrow> 'c QueueCore \<Rightarrow> 'c QueueCore \<times> (nat \<times> 'c) list" where
  "discard_loop 0 q = (q, [])"
| "discard_loop (Suc n) q =
     (if ready_count q = 0 then (q, [])
      else case claim_ready q of
        (q, None) \<Rightarrow> (q, [])
      | (q, Some claimed) \<Rightarrow> let (q, discarded) = discard_loop n q in (q, claimed # discarded))"

definition discard_ready :: "'c QueueCore \<Rightarrow> 'c QueueCore \<times> (nat \<times> 'c) list" where
  "discard_ready q = (if dispatching q then (q, []) else discard_loop (ready_count q) q)"

datatype QueueReadyStatus = status_ready | status_timeout | status_closed

text \<open>What \<open>wait_ready\<close> answers in the state in which its wait ended.\<close>

definition wait_ready :: "'c QueueCore \<Rightarrow> QueueReadyStatus" where
  "wait_ready q = (if ready_count q \<noteq> 0 then status_ready
     else if finished q \<or> queue_closed q then status_closed else status_timeout)"


section \<open>The list the links represent\<close>

definition first_of :: "nat list \<Rightarrow> nat option \<Rightarrow> nat option" where
  "first_of xs n = (case xs of [] \<Rightarrow> n | x # _ \<Rightarrow> Some x)"

definition last_of :: "nat option \<Rightarrow> nat list \<Rightarrow> nat option" where
  "last_of p xs = (if xs = [] then p else Some (last xs))"

fun chained :: "(nat \<Rightarrow> 'c Record option) \<Rightarrow> nat option \<Rightarrow> nat list \<Rightarrow> nat option \<Rightarrow> bool" where
  "chained m p [] n \<longleftrightarrow> True"
| "chained m p (x # xs) n \<longleftrightarrow>
     (case m x of None \<Rightarrow> False
      | Some r \<Rightarrow> enqueued r \<and> previous_ready r = p \<and> next_ready r = first_of xs n) \<and> chained m (Some x) xs n"

fun follow :: "(nat \<Rightarrow> 'c Record option) \<Rightarrow> nat \<Rightarrow> nat option \<Rightarrow> nat list" where
  "follow m 0 p = []"
| "follow m (Suc k) None = []"
| "follow m (Suc k) (Some t) = t # (case m t of None \<Rightarrow> [] | Some r \<Rightarrow> follow m k (next_ready r))"

text \<open>The ready tokens, read off the links from the head.\<close>

definition ready_tokens :: "'c QueueCore \<Rightarrow> nat list" where
  "ready_tokens q = follow (records q) (ready_count q) (ready_head q)"

definition generation_of :: "'c QueueCore \<Rightarrow> nat \<Rightarrow> nat" where
  "generation_of q t = (case records q t of None \<Rightarrow> 0 | Some r \<Rightarrow> ready_generation r)"

definition queue_ok :: "'c QueueCore \<Rightarrow> nat list \<Rightarrow> bool" where
  "queue_ok q xs \<longleftrightarrow> distinct xs \<and> chained (records q) None xs None \<and>
     ready_head q = first_of xs None \<and> ready_tail q = last_of None xs \<and> ready_count q = length xs \<and>
     (\<forall>t r. records q t = Some r \<longrightarrow> t \<notin> set xs \<longrightarrow> \<not> enqueued r \<and> previous_ready r = None \<and> next_ready r = None) \<and>
     sorted_wrt (<) (map (generation_of q) xs) \<and> (\<forall>t \<in> set xs. generation_of q t \<le> last_ready_generation q) \<and>
     (queue_closed q \<longrightarrow> records q = (\<lambda>_. None)) \<and> (has_wake q \<longrightarrow> queue_armed q = ready_locked q)"

lemma first_of_simps [simp]:
  "first_of [] n = n" "first_of (x # xs) n = Some x" "first_of (xs @ ys) n = first_of xs (first_of ys n)"
  by (simp_all add: first_of_def split: list.split)

lemma last_of_simps [simp]:
  "last_of p [] = p" "last_of p (x # xs) = last_of (Some x) xs" "last_of p (xs @ ys) = last_of (last_of p xs) ys"
  "last_of p (xs @ [x]) = Some x"
  by (simp_all add: last_of_def)

lemma chained_Cons [simp]:
  "chained m p (x # xs) n \<longleftrightarrow>
   (\<exists>r. m x = Some r \<and> enqueued r \<and> previous_ready r = p \<and> next_ready r = first_of xs n) \<and> chained m (Some x) xs n"
  by (auto split: option.splits)

declare chained.simps(2) [simp del]

lemma chained_append:
  "chained m p (xs @ ys) n \<longleftrightarrow> chained m p xs (first_of ys n) \<and> chained m (last_of p xs) ys n"
  by (induction xs arbitrary: p) auto

lemma chained_frame: "(\<And>x. x \<in> set xs \<Longrightarrow> m x = m' x) \<Longrightarrow> chained m p xs n = chained m' p xs n"
  by (induction xs arbitrary: p) auto

lemma chained_upd [simp]: "t \<notin> set xs \<Longrightarrow> chained (m(t := v)) p xs n = chained m p xs n"
  by (rule chained_frame) auto

lemma chained_follow: "chained m p xs None \<Longrightarrow> follow m (length xs) (first_of xs None) = xs"
proof (induction xs arbitrary: p)
  case (Cons x xs)
  then show ?case by (cases "m x") auto
qed simp

lemma queue_ok_tokens: "queue_ok q xs \<Longrightarrow> ready_tokens q = xs"
  by (auto simp: queue_ok_def ready_tokens_def dest: chained_follow)

lemma refresh_simps [simp]:
  "records (refresh_wake_locked q) = records q" "ready_head (refresh_wake_locked q) = ready_head q"
  "ready_tail (refresh_wake_locked q) = ready_tail q" "ready_count (refresh_wake_locked q) = ready_count q"
  "last_ready_generation (refresh_wake_locked q) = last_ready_generation q"
  "next_token (refresh_wake_locked q) = next_token q" "queue_closed (refresh_wake_locked q) = queue_closed q"
  "finished (refresh_wake_locked q) = finished q" "dispatching (refresh_wake_locked q) = dispatching q"
  "has_wake (refresh_wake_locked q) = has_wake q" "ready_locked (refresh_wake_locked q) = ready_locked q"
  "generation_of (refresh_wake_locked q) = generation_of q"
  by (auto simp: refresh_wake_locked_def ready_locked_def generation_of_def fun_eq_iff)

lemma refresh_armed [simp]: "has_wake q \<Longrightarrow> queue_armed (refresh_wake_locked q) = ready_locked q"
  by (auto simp: refresh_wake_locked_def)

lemma update_record_simps [simp]:
  "ready_head (update_record t f q) = ready_head q" "ready_tail (update_record t f q) = ready_tail q"
  "ready_count (update_record t f q) = ready_count q"
  "last_ready_generation (update_record t f q) = last_ready_generation q"
  "next_token (update_record t f q) = next_token q" "queue_closed (update_record t f q) = queue_closed q"
  "finished (update_record t f q) = finished q" "dispatching (update_record t f q) = dispatching q"
  "has_wake (update_record t f q) = has_wake q"
  "records (update_record t f q) = (records q)(t := map_option f (records q t))"
  by (simp_all add: update_record_def)


lemma chained_set_next:
  "chained m p (xs @ [z]) n \<Longrightarrow> z \<notin> set xs \<Longrightarrow>
   chained (m(z := map_option (\<lambda>r. r\<lparr>next_ready := n'\<rparr>) (m z))) p (xs @ [z]) n'"
  by (auto simp: chained_append)

lemma chained_set_previous:
  "chained m p (z # xs) n \<Longrightarrow> z \<notin> set xs \<Longrightarrow>
   chained (m(z := map_option (\<lambda>r. r\<lparr>previous_ready := p'\<rparr>) (m z))) p' (z # xs) n"
  by auto

lemma generation_upd:
  "(\<And>r. ready_generation (f r) = ready_generation r) \<Longrightarrow> generation_of (update_record t f q) = generation_of q"
  by (auto simp: generation_of_def fun_eq_iff split: option.splits)

text \<open>The links after a record has been linked and after one has been unlinked.\<close>

lemma link_records:
  "records (link_ready t q) =
     (let m = (records q)(t := map_option (\<lambda>r. r\<lparr>enqueued := True,
            ready_generation := Suc (last_ready_generation q), previous_ready := ready_tail q\<rparr>) (records q t)) in
      case ready_tail q of None \<Rightarrow> m | Some z \<Rightarrow> m(z := map_option (\<lambda>r. r\<lparr>next_ready := Some t\<rparr>) (m z)))"
  by (simp add: link_ready_def Let_def split: option.split)

lemma link_simps [simp]:
  "ready_head (link_ready t q) = (if ready_tail q = None then Some t else ready_head q)"
  "ready_tail (link_ready t q) = Some t" "ready_count (link_ready t q) = Suc (ready_count q)"
  "last_ready_generation (link_ready t q) = Suc (last_ready_generation q)"
  "next_token (link_ready t q) = next_token q" "queue_closed (link_ready t q) = queue_closed q"
  "finished (link_ready t q) = finished q" "dispatching (link_ready t q) = dispatching q"
  "has_wake (link_ready t q) = has_wake q"
  "has_wake q \<Longrightarrow> queue_armed (link_ready t q) = ready_locked (link_ready t q)"
  by (auto simp: link_ready_def Let_def split: option.split)

lemma link_chained:
  assumes "chained m None xs None" and "distinct xs" and "m t = Some r" "next_ready r = None" "t \<notin> set xs"
    and "m1 = m(t \<mapsto> r\<lparr>enqueued := True, ready_generation := g, previous_ready := last_of None xs\<rparr>)"
  shows "chained (case last_of None xs of None \<Rightarrow> m1
      | Some z \<Rightarrow> m1(z := map_option (\<lambda>r. r\<lparr>next_ready := Some t\<rparr>) (m1 z))) None (xs @ [t]) None"
proof (cases xs rule: rev_cases)
  case Nil
  then show ?thesis using assms by simp
next
  case (snoc ys z)
  have "chained (m1(z := map_option (\<lambda>r. r\<lparr>next_ready := Some t\<rparr>) (m1 z))) None (ys @ [z]) (Some t)"
    using assms snoc by (intro chained_set_next [where n = None]) auto
  then show ?thesis
    using assms snoc by (auto simp: chained_append)
qed

lemma link_ok:
  assumes ok: "queue_ok q xs" and r: "records q t = Some r" and t: "t \<notin> set xs" and open': "\<not> queue_closed q"
  shows "queue_ok (link_ready t q) (xs @ [t])"
proof -
  let ?m = "records (link_ready t q)"
  let ?z = "last_of None xs"
  let ?m1 = "(records q)(t \<mapsto> r\<lparr>enqueued := True, ready_generation := Suc (last_ready_generation q), previous_ready := ?z\<rparr>)"
  have tail: "ready_tail q = ?z" "chained (records q) None xs None" "distinct xs" "next_ready r = None"
    using ok r t by (auto simp: queue_ok_def)
  have m: "?m = (case ?z of None \<Rightarrow> ?m1 | Some z \<Rightarrow> ?m1(z := map_option (\<lambda>r. r\<lparr>next_ready := Some t\<rparr>) (?m1 z)))"
    using r tail(1) by (simp add: link_records Let_def)
  have ch: "chained ?m None (xs @ [t]) None"
    unfolding m using tail r t by (intro link_chained) auto
  have z: "z \<in> set xs" if "?z = Some z" for z
    using that by (auto simp: last_of_def split: if_splits)
  have other: "?m u = records q u" if "u \<notin> set xs" "u \<noteq> t" for u
    using that z by (auto simp: m split: option.split)
  have gen: "generation_of (link_ready t q) u = (if u = t then Suc (last_ready_generation q) else generation_of q u)" for u
    using z t r by (auto simp: generation_of_def m split: option.split)
  have sorted: "sorted_wrt (<) (map (generation_of (link_ready t q)) (xs @ [t]))"
  proof -
    have same: "map (generation_of (link_ready t q)) xs = map (generation_of q) xs"
      using t by (auto simp: gen)
    show ?thesis
      unfolding map_append sorted_wrt_append same
      using ok t by (auto simp: queue_ok_def gen le_imp_less_Suc)
  qed
  show ?thesis
    unfolding queue_ok_def
    using ok ch sorted other t open' by (auto simp: queue_ok_def gen last_of_def first_of_def le_SucI split: list.split)
qed


lemma unlink_chained_left:
  assumes "chained m None ys (Some t)" and "distinct ys"
  shows "chained (case last_of None ys of None \<Rightarrow> m | Some z \<Rightarrow> m(z := map_option (\<lambda>r. r\<lparr>next_ready := n\<rparr>) (m z))) None ys n"
  using assms by (cases ys rule: rev_cases) (auto intro: chained_set_next)

lemma unlink_chained_right:
  assumes "chained m (Some t) zs None" and "distinct zs"
  shows "chained (case first_of zs None of None \<Rightarrow> m | Some w \<Rightarrow> m(w := map_option (\<lambda>r. r\<lparr>previous_ready := p\<rparr>) (m w))) p zs None"
  using assms by (cases zs) auto

lemma option_upd_frame:
  "(\<And>z. o' = Some z \<Longrightarrow> z \<noteq> x) \<Longrightarrow> (case o' of None \<Rightarrow> m | Some z \<Rightarrow> m(z := f z)) x = m x"
  by (auto split: option.split)

lemma last_of_member: "last_of None ys = Some z \<Longrightarrow> z \<in> set ys"
  by (auto simp: last_of_def split: if_splits)

lemma first_of_member: "first_of zs None = Some w \<Longrightarrow> w \<in> set zs"
  by (auto simp: first_of_def split: list.splits)

lemma unlink_records:
  "records (unlink_ready t r q) =
     (let m1 = (case previous_ready r of None \<Rightarrow> records q
                | Some z \<Rightarrow> (records q)(z := map_option (\<lambda>p. p\<lparr>next_ready := next_ready r\<rparr>) (records q z)));
          m2 = (case next_ready r of None \<Rightarrow> m1
                | Some w \<Rightarrow> m1(w := map_option (\<lambda>p. p\<lparr>previous_ready := previous_ready r\<rparr>) (m1 w))) in
      m2(t := map_option (\<lambda>r. r\<lparr>enqueued := False, previous_ready := None, next_ready := None\<rparr>) (m2 t)))"
  by (simp add: unlink_ready_def Let_def split: option.split)

lemma unlink_simps [simp]:
  "ready_head (unlink_ready t r q) = (if previous_ready r = None then next_ready r else ready_head q)"
  "ready_tail (unlink_ready t r q) = (if next_ready r = None then previous_ready r else ready_tail q)"
  "ready_count (unlink_ready t r q) = ready_count q - 1"
  "last_ready_generation (unlink_ready t r q) = last_ready_generation q"
  "next_token (unlink_ready t r q) = next_token q" "queue_closed (unlink_ready t r q) = queue_closed q"
  "finished (unlink_ready t r q) = finished q" "dispatching (unlink_ready t r q) = dispatching q"
  "has_wake (unlink_ready t r q) = has_wake q"
  "has_wake q \<Longrightarrow> queue_armed (unlink_ready t r q) = ready_locked (unlink_ready t r q)"
  by (auto simp: unlink_ready_def Let_def split: option.split)

lemma unlink_generation: "generation_of (unlink_ready t r q) = generation_of q"
  by (rule ext) (auto simp: unlink_records Let_def generation_of_def split: option.split)

lemma unlink_ok:
  assumes ok: "queue_ok q (ys @ t # zs)" and r: "records q t = Some r"
  shows "queue_ok (unlink_ready t r q) (ys @ zs)"
    and "records (unlink_ready t r q) t = Some (r\<lparr>enqueued := False, previous_ready := None, next_ready := None\<rparr>)"
    and "\<And>u. u \<notin> set (ys @ t # zs) \<Longrightarrow> records (unlink_ready t r q) u = records q u"
    and "\<And>u. map_option callback (records (unlink_ready t r q) u) = map_option callback (records q u)"
proof -
  let ?m = "records q" and ?p = "last_of None ys" and ?n = "first_of zs None"
  let ?m1 = "case ?p of None \<Rightarrow> ?m | Some z \<Rightarrow> ?m(z := map_option (\<lambda>r. r\<lparr>next_ready := ?n\<rparr>) (?m z))"
  let ?m2 = "case ?n of None \<Rightarrow> ?m1 | Some w \<Rightarrow> ?m1(w := map_option (\<lambda>r. r\<lparr>previous_ready := ?p\<rparr>) (?m1 w))"
  have d: "distinct (ys @ t # zs)" and ch: "chained ?m None ys (Some t)" "chained ?m (Some t) zs None"
    and l: "previous_ready r = ?p" "next_ready r = ?n"
    using ok r by (auto simp: queue_ok_def chained_append)
  have m: "records (unlink_ready t r q) = ?m2(t := map_option (\<lambda>r. r\<lparr>enqueued := False, previous_ready := None, next_ready := None\<rparr>) (?m2 t))"
    by (simp only: unlink_records Let_def l)
  have m1: "?m1 u = ?m u" if "u \<notin> set ys" for u
    using that by (intro option_upd_frame) (auto dest: last_of_member)
  have m2: "?m2 u = ?m1 u" if "u \<notin> set zs" for u
    using that by (intro option_upd_frame) (auto dest: first_of_member)
  have "chained ?m1 None ys ?n"
    using unlink_chained_left [OF ch(1)] d by simp
  then have left: "chained ?m2 None ys ?n"
    using d m2 chained_frame [of ys ?m2 ?m1] by fastforce
  have "chained ?m1 (Some t) zs None"
    using d m1 chained_frame [of zs ?m1 ?m] ch(2) by fastforce
  then have right: "chained ?m2 ?p zs None"
    by (rule unlink_chained_right) (use d in simp)
  have both: "chained (records (unlink_ready t r q)) None (ys @ zs) None"
    using left right d by (simp add: m chained_append)
  show mt: "records (unlink_ready t r q) t = Some (r\<lparr>enqueued := False, previous_ready := None, next_ready := None\<rparr>)"
    using d m1 [of t] m2 [of t] r by (simp add: m)
  show other: "records (unlink_ready t r q) u = records q u" if "u \<notin> set (ys @ t # zs)" for u
    using that m1 [of u] m2 [of u] by (simp add: m)
  show "map_option callback (records (unlink_ready t r q) u) = map_option callback (records q u)" for u
    by (auto simp: unlink_records Let_def option.map_comp comp_def split: option.split)
  show "queue_ok (unlink_ready t r q) (ys @ zs)"
    unfolding queue_ok_def
  proof (intro conjI)
    show "ready_head (unlink_ready t r q) = first_of (ys @ zs) None"
      using ok l by (cases ys rule: rev_cases) (auto simp: queue_ok_def)
    show "ready_tail (unlink_ready t r q) = last_of None (ys @ zs)"
      using ok l by (cases zs) (auto simp: queue_ok_def)
    show "sorted_wrt (<) (map (generation_of (unlink_ready t r q)) (ys @ zs))"
      using ok by (auto simp: queue_ok_def sorted_wrt_append unlink_generation)
    show "\<forall>u s. records (unlink_ready t r q) u = Some s \<longrightarrow> u \<notin> set (ys @ zs) \<longrightarrow>
        \<not> enqueued s \<and> previous_ready s = None \<and> next_ready s = None"
    proof (intro allI impI)
      fix u s assume "records (unlink_ready t r q) u = Some s" "u \<notin> set (ys @ zs)"
      then show "\<not> enqueued s \<and> previous_ready s = None \<and> next_ready s = None"
        using ok mt other [of u] by (cases "u = t") (auto simp: queue_ok_def)
    qed
  qed (use ok both r in \<open>auto simp: queue_ok_def unlink_generation\<close>)
qed


lemma extract_simps [simp]:
  "ready_head (extract_record t q) = ready_head q" "ready_tail (extract_record t q) = ready_tail q"
  "ready_count (extract_record t q) = ready_count q"
  "last_ready_generation (extract_record t q) = last_ready_generation q"
  "next_token (extract_record t q) = next_token q" "queue_closed (extract_record t q) = queue_closed q"
  "finished (extract_record t q) = finished q" "dispatching (extract_record t q) = dispatching q"
  "has_wake (extract_record t q) = has_wake q" "queue_armed (extract_record t q) = queue_armed q"
  "records (extract_record t q) = (records q)(t := None)" "ready_locked (extract_record t q) = ready_locked q"
  by (simp_all add: extract_record_def ready_locked_def)

lemma extract_ok:
  assumes "queue_ok q xs" "t \<notin> set xs"
  shows "queue_ok (extract_record t q) xs"
proof -
  have same: "generation_of (extract_record t q) u = generation_of q u" if "u \<in> set xs" for u
    using that assms(2) by (auto simp: generation_of_def)
  have eq: "map (generation_of (extract_record t q)) xs = map (generation_of q) xs"
    using same by (rule map_cong [OF refl])
  show ?thesis
    using assms same unfolding queue_ok_def eq by simp
qed

section \<open>How the list of ready work evolves\<close>

definition same_record :: "'c QueueCore \<Rightarrow> 'c QueueCore \<Rightarrow> nat \<Rightarrow> bool" where
  "same_record q q' t \<longleftrightarrow> map_option callback (records q' t) = map_option callback (records q t) \<and>
     generation_of q' t = generation_of q t"

text \<open>From \<open>q\<close> to \<open>q'\<close> some ready records may have left the list, none of them if \<open>keeps\<close>, and those that
  joined it did so at its end and in a later generation.\<close>

definition evolves :: "bool \<Rightarrow> 'c QueueCore \<Rightarrow> nat list \<Rightarrow> 'c QueueCore \<Rightarrow> nat list \<Rightarrow> bool" where
  "evolves keeps q xs q' ys \<longleftrightarrow> queue_ok q' ys \<and> last_ready_generation q \<le> last_ready_generation q' \<and>
     dispatching q' = dispatching q \<and>
     (\<exists>ks ns. ys = ks @ ns \<and> subseq ks xs \<and> (keeps \<longrightarrow> ks = xs) \<and> (\<forall>t \<in> set ks. same_record q q' t) \<and>
        (\<forall>t \<in> set ns. last_ready_generation q < generation_of q' t))"

lemma evolvesI:
  assumes "queue_ok q' ys" "ys = ks @ ns" "subseq ks xs" "keeps \<Longrightarrow> ks = xs"
    and "\<And>t. t \<in> set ks \<Longrightarrow> same_record q q' t" "\<And>t. t \<in> set ns \<Longrightarrow> last_ready_generation q < generation_of q' t"
    and "last_ready_generation q \<le> last_ready_generation q'" "dispatching q' = dispatching q"
  shows "evolves keeps q xs q' ys"
  using assms unfolding evolves_def by blast

lemma evolves_ok: "evolves keeps q xs q' ys \<Longrightarrow> queue_ok q' ys"
  by (simp add: evolves_def)

lemma evolves_any: "evolves keeps q xs q' ys \<Longrightarrow> evolves False q xs q' ys"
  unfolding evolves_def by blast

lemma evolves_refl: "queue_ok q xs \<Longrightarrow> evolves keeps q xs q xs"
  by (rule evolvesI [where ks = xs and ns = "[]"]) (auto simp: same_record_def)

lemma subseq_set: "subseq xs ys \<Longrightarrow> set xs \<subseteq> set ys"
  by (induction rule: list_emb.induct) auto

lemma distinct_subseq: "subseq xs ys \<Longrightarrow> distinct ys \<Longrightarrow> distinct xs"
  by (induction rule: list_emb.induct) (auto dest: subseq_set)

lemma evolves_trans:
  assumes "evolves keeps q xs q1 ys" "evolves keeps q1 ys q2 zs"
  shows "evolves keeps q xs q2 zs"
proof -
  obtain ks ns where a: "ys = ks @ ns" "subseq ks xs" "keeps \<longrightarrow> ks = xs" "\<forall>t \<in> set ks. same_record q q1 t"
      "\<forall>t \<in> set ns. last_ready_generation q < generation_of q1 t" "last_ready_generation q \<le> last_ready_generation q1"
    using assms(1) by (auto simp: evolves_def)
  obtain ks' ns' where b: "zs = ks' @ ns'" "subseq ks' (ks @ ns)" "keeps \<longrightarrow> ks' = ks @ ns"
      "\<forall>t \<in> set ks'. same_record q1 q2 t" "\<forall>t \<in> set ns'. last_ready_generation q1 < generation_of q2 t"
    using assms(2) a(1) by (auto simp: evolves_def)
  obtain us vs where uv: "ks' = us @ vs" "subseq us ks" "subseq vs ns" "keeps \<longrightarrow> us = ks"
  proof (cases keeps)
    case True
    then show thesis using that [of ks ns] b(3) by simp
  next
    case False
    show thesis
      using b(2) by (rule subseq_appendE) (use False that in blast)
  qed
  have "\<forall>t \<in> set us. same_record q q2 t"
    using uv subseq_set [OF uv(2)] a(4) b(4) by (auto simp: same_record_def)
  moreover have "last_ready_generation q < generation_of q2 t" if "t \<in> set (vs @ ns')" for t
  proof (cases "t \<in> set vs")
    case True
    then have "t \<in> set ns" "same_record q1 q2 t"
      using uv(1) subseq_set [OF uv(3)] b(4) by auto
    then show ?thesis using a(5) by (simp add: same_record_def)
  next
    case False
    then have "last_ready_generation q1 < generation_of q2 t"
      using that b(5) by simp
    then show ?thesis using a(6) by simp
  qed
  moreover have "subseq us xs"
    using uv(2) a(2) by (rule subseq_order.order_trans)
  moreover have "queue_ok q2 zs" "last_ready_generation q \<le> last_ready_generation q2" "dispatching q2 = dispatching q"
    using assms by (auto simp: evolves_def)
  moreover have "zs = us @ vs @ ns'" "keeps \<Longrightarrow> us = xs"
    using a(3) b(1) uv(1,4) by simp_all
  ultimately show ?thesis
    by (intro evolvesI [where ks = us and ns = "vs @ ns'"]) simp_all
qed

lemma link_evolves:
  assumes "queue_ok q xs" "records q t = Some r" "t \<notin> set xs" "\<not> queue_closed q"
  shows "evolves True q xs (link_ready t q) (xs @ [t])"
proof -
  have same: "same_record q (link_ready t q) u" if "u \<noteq> t" for u
    using that by (auto simp: same_record_def generation_of_def link_records Let_def option.map_comp comp_def split: option.split)
  have "generation_of (link_ready t q) t = Suc (last_ready_generation q)"
    using assms by (auto simp: generation_of_def link_records Let_def split: option.split)
  then show ?thesis
    using link_ok [OF assms] assms(3) same by (intro evolvesI [where ks = xs and ns = "[t]"]) fastforce+
qed

lemma unlink_evolves:
  assumes "queue_ok q (ys @ t # zs)" "records q t = Some r"
  shows "evolves False q (ys @ t # zs) (extract_record t (unlink_ready t r q)) (ys @ zs)"
proof -
  have d: "t \<notin> set (ys @ zs)"
    using assms(1) by (auto simp: queue_ok_def)
  have "same_record q (extract_record t (unlink_ready t r q)) u" if "u \<noteq> t" for u
    using that unlink_ok(4) [OF assms, of u] unlink_generation [of t r q]
    by (simp add: same_record_def generation_of_def fun_eq_iff)
  then show ?thesis
    using extract_ok [OF unlink_ok(1) [OF assms] d] d
    by (intro evolvesI [where ks = "ys @ zs" and ns = "[]"]) (fastforce simp: subseq_append_iff)+
qed

lemma claim_evolves:
  assumes "queue_ok q (t # ts)"
  obtains r q' where "records q t = Some r" "claim_ready q = (q', Some (t, callback r))"
    "evolves False q (t # ts) q' ts" "last_ready_generation q' = last_ready_generation q"
    "queue_closed q' = queue_closed q" "dispatching q' = dispatching q"
    "\<And>u. u \<in> set ts \<Longrightarrow> same_record q q' u"
proof -
  obtain r where r: "records q t = Some r" and head: "ready_head q = Some t"
    using assms by (auto simp: queue_ok_def)
  let ?q' = "extract_record t (unlink_ready t r q)"
  have ev: "evolves False q (t # ts) ?q' ts"
    using unlink_evolves [of q "[]" t ts r] assms r by simp
  have same: "same_record q ?q' u" if "u \<in> set ts" for u
  proof -
    have "u \<noteq> t" using assms that by (auto simp: queue_ok_def)
    then show ?thesis
      using unlink_ok(4) [of q "[]" t ts r u] unlink_generation [of t r q] assms r
      by (simp add: same_record_def generation_of_def fun_eq_iff)
  qed
  show thesis
    using that [of r ?q'] r head ev same by (simp add: claim_ready_def)
qed


text \<open>An action that takes nothing off the list.\<close>

fun keeps_ready :: "'c Action \<Rightarrow> bool" where
  "keeps_ready (Detach t) = False"
| "keeps_ready Close = False"
| "keeps_ready a = True"

lemma evolves_weaken: "evolves True q xs q' ys \<Longrightarrow> evolves keeps q xs q' ys"
  by (auto simp: evolves_def)

lemma ok_enqueued: "queue_ok q xs \<Longrightarrow> records q t = Some r \<Longrightarrow> enqueued r \<longleftrightarrow> t \<in> set xs"
proof -
  assume ok: "queue_ok q xs" and r: "records q t = Some r"
  have "enqueued r" if t: "t \<in> set xs"
  proof -
    obtain us vs where "xs = us @ t # vs" using split_list [OF t] by blast
    then show ?thesis using ok r by (auto simp: queue_ok_def chained_append)
  qed
  then show ?thesis using ok r by (auto simp: queue_ok_def)
qed

lemma queue_ok_transfer:
  assumes "queue_ok q xs" "records q' = records q" "ready_head q' = ready_head q" "ready_tail q' = ready_tail q"
    "ready_count q' = ready_count q" "last_ready_generation q' = last_ready_generation q"
    "queue_closed q' = queue_closed q" "has_wake q' \<Longrightarrow> queue_armed q' = ready_locked q'"
  shows "queue_ok q' xs"
proof -
  have "generation_of q' = generation_of q"
    using assms(2) by (simp add: generation_of_def fun_eq_iff)
  then show ?thesis
    using assms unfolding queue_ok_def by simp
qed

lemma transfer_evolves:
  assumes "queue_ok q xs" "records q' = records q" "ready_head q' = ready_head q" "ready_tail q' = ready_tail q"
    "ready_count q' = ready_count q" "last_ready_generation q' = last_ready_generation q"
    "queue_closed q' = queue_closed q" "has_wake q' \<Longrightarrow> queue_armed q' = ready_locked q'" "dispatching q' = dispatching q"
  shows "evolves True q xs q' xs"
  using queue_ok_transfer [OF assms(1-8)] assms(2,6,9)
  by (intro evolvesI [where ks = xs and ns = "[]"]) (auto simp: same_record_def generation_of_def)

lemma register_ok:
  assumes ok: "queue_ok q xs" and fresh: "records q t = None" and o: "\<not> queue_closed q"
    and new: "q' = q\<lparr>records := (records q)(t \<mapsto> new_record c)\<rparr>"
  shows "evolves True q xs q' xs" and "t \<notin> set xs"
proof -
  show t: "t \<notin> set xs"
  proof
    assume "t \<in> set xs"
    then obtain us vs where "xs = us @ t # vs" using split_list by metis
    then show False using ok fresh by (auto simp: queue_ok_def chained_append)
  qed
  have same: "same_record q q' u" if "u \<in> set xs" for u
    using that t by (auto simp: same_record_def generation_of_def new)
  have eq: "map (generation_of q') xs = map (generation_of q) xs"
    using same by (intro map_cong) (auto simp: same_record_def)
  have "queue_ok q' xs"
    using ok t o same unfolding queue_ok_def eq
    by (auto simp: new same_record_def new_record_def ready_locked_def split: if_splits)
  then show "evolves True q xs q' xs"
    using same by (intro evolvesI [where ks = xs and ns = "[]"]) (auto simp: new)
qed


lemma detach_evolves:
  assumes ok: "queue_ok q xs"
  shows "\<exists>ys. evolves False q xs (detach t q) ys"
proof (cases "records q t")
  case None
  then show ?thesis using evolves_refl [OF ok] by (auto simp: detach_def)
next
  case (Some r)
  show ?thesis
  proof (cases "t \<in> set xs")
    case True
    then obtain us vs where "xs = us @ t # vs" using split_list by metis
    then show ?thesis
      using ok_enqueued [OF ok Some] True unlink_evolves [of q us t vs r] ok Some by (auto simp: detach_def)
  next
    case False
    have same: "same_record q (extract_record t q) u" if "u \<in> set xs" for u
      using that False by (auto simp: same_record_def generation_of_def)
    have "evolves False q xs (extract_record t q) xs"
      using extract_ok [OF ok False] same by (intro evolvesI [where ks = xs and ns = "[]"]) auto
    then show ?thesis
      using ok_enqueued [OF ok Some] False Some by (auto simp: detach_def)
  qed
qed

lemma close_evolves:
  assumes ok: "queue_ok q xs"
  shows "evolves False q xs (close_queue q) (if queue_closed q then xs else [])"
proof (cases "queue_closed q")
  case True
  then show ?thesis using evolves_refl [OF ok] by (simp add: close_queue_def)
next
  case False
  then have "queue_ok (close_queue q) []"
    by (auto simp: close_queue_def queue_ok_def ready_locked_def refresh_wake_locked_def)
  then show ?thesis
    using False by (intro evolvesI [where ks = "[]" and ns = "[]"]) (auto simp: close_queue_def)
qed

lemma push_evolves:
  assumes ok: "queue_ok q xs"
  shows "\<exists>ys. evolves True q xs (fst (push_ready c q)) ys"
proof -
  let ?q1 = "q\<lparr>next_token := next_token q + 1\<rparr>"
  have q1: "evolves True q xs ?q1 xs"
    using ok by (intro transfer_evolves) (auto simp: queue_ok_def ready_locked_def)
  show ?thesis
  proof (cases "queue_closed q \<or> records q (next_token q) \<noteq> None")
    case True
    then show ?thesis using q1 evolves_refl [OF ok] by (auto simp: push_ready_def)
  next
    case False
    let ?q2 = "?q1\<lparr>records := (records ?q1)(next_token q \<mapsto> new_record c)\<rparr>"
    have ok1: "queue_ok ?q1 xs" using q1 by (simp add: evolves_def)
    have r: "evolves True ?q1 xs ?q2 xs" "next_token q \<notin> set xs"
      using register_ok [OF ok1, of "next_token q" ?q2 c] False by auto
    have "evolves True ?q2 xs (link_ready (next_token q) ?q2) (xs @ [next_token q])"
      using link_evolves [of ?q2 xs "next_token q" "new_record c"] r False by (simp add: evolves_def)
    then show ?thesis
      using evolves_trans [OF evolves_trans [OF q1 r(1)]] False by (auto simp: push_ready_def Let_def)
  qed
qed

lemma act_evolves:
  assumes ok: "queue_ok q xs"
  shows "\<exists>ys. evolves (keeps_ready a) q xs (act a q) ys"
proof (cases a)
  case (Enqueue t)
  show ?thesis
  proof (cases "records q t")
    case None
    then show ?thesis using Enqueue evolves_refl [OF ok] by (auto simp: enqueue_def)
  next
    case (Some r)
    then show ?thesis
      using Enqueue evolves_refl [OF ok] link_evolves [OF ok Some] ok_enqueued [OF ok Some]
      by (auto simp: enqueue_def)
  qed
next
  case (Detach t)
  then show ?thesis using detach_evolves [OF ok] by simp
next
  case NextToken
  then show ?thesis
    using ok transfer_evolves [OF ok, of "act a q"] by (auto simp: take_token_def queue_ok_def ready_locked_def)
next
  case (Register t c)
  then show ?thesis
    using register_ok(1) [OF ok] evolves_refl [OF ok, of True] by (auto simp: register_record_def)
next
  case (PushReady c)
  then show ?thesis using push_evolves [OF ok] by simp
next
  case Finish
  then show ?thesis
    using transfer_evolves [OF ok, of "act a q"] by (auto simp: finish_queue_def)
next
  case Close
  then show ?thesis using close_evolves [OF ok] by auto
next
  case Dispatch
  then show ?thesis using evolves_refl [OF ok] by auto
qed

lemma acts_evolve:
  assumes "queue_ok q xs"
  shows "\<exists>ys. evolves (list_all keeps_ready as) q xs (fold act as q) ys"
  using assms
proof (induction as arbitrary: q xs)
  case Nil
  then show ?case using evolves_refl by auto
next
  case (Cons a as)
  obtain ys where ys: "evolves (keeps_ready a) q xs (act a q) ys"
    using act_evolves [OF Cons.prems] by blast
  then obtain zs where zs: "evolves (list_all keeps_ready as) (act a q) ys (fold act as (act a q)) zs"
    using Cons.IH [OF evolves_ok] by blast
  have weak: "evolves k q1 us q2 vs \<Longrightarrow> evolves (k \<and> l) q1 us q2 vs" "evolves k q1 us q2 vs \<Longrightarrow> evolves (l \<and> k) q1 us q2 vs"
    for k l q1 us q2 vs by (auto simp: evolves_def)
  show ?case
    using evolves_trans [OF weak(1) [OF ys] weak(2) [OF zs]] by auto
qed


section \<open>Dispatching\<close>

definition work :: "'c QueueCore \<Rightarrow> nat \<Rightarrow> nat \<times> 'c" where
  "work q t = (t, callback (the (records q t)))"

definition ready_work :: "'c QueueCore \<Rightarrow> (nat \<times> 'c) list" where
  "ready_work q = map (work q) (ready_tokens q)"

definition early :: "'c QueueCore \<Rightarrow> nat \<Rightarrow> nat list \<Rightarrow> (nat \<times> 'c) list" where
  "early q cutoff xs = map (work q) (filter (\<lambda>t. generation_of q t \<le> cutoff) xs)"

lemma ok_record: "queue_ok q xs \<Longrightarrow> t \<in> set xs \<Longrightarrow> \<exists>r. records q t = Some r"
proof -
  assume ok: "queue_ok q xs" and "t \<in> set xs"
  then obtain us vs where "xs = us @ t # vs" using split_list by metis
  then show ?thesis using ok by (auto simp: queue_ok_def chained_append)
qed

lemma same_work: "same_record q q' t \<Longrightarrow> records q t = Some r \<Longrightarrow> work q' t = work q t"
  by (auto simp: same_record_def work_def)

lemma early_same:
  assumes "queue_ok q xs" "set ks \<subseteq> set xs" "\<And>t. t \<in> set ks \<Longrightarrow> same_record q q' t"
  shows "early q' cutoff ks = early q cutoff ks"
proof -
  have "filter (\<lambda>t. generation_of q' t \<le> cutoff) ks = filter (\<lambda>t. generation_of q t \<le> cutoff) ks"
    using assms(3) by (intro filter_cong) (auto simp: same_record_def)
  moreover have "work q' t = work q t" if "t \<in> set ks" for t
    using that ok_record [OF assms(1), of t] same_work [OF assms(3)] assms(2) by auto
  ultimately show ?thesis by (simp add: early_def)
qed

lemma early_evolves:
  assumes ok: "queue_ok q xs" and ev: "evolves keeps q xs q' ys" and cut: "cutoff \<le> last_ready_generation q"
  shows "subseq (early q' cutoff ys) (early q cutoff xs)" and "keeps \<Longrightarrow> early q' cutoff ys = early q cutoff xs"
proof -
  obtain ks ns where kn: "ys = ks @ ns" "subseq ks xs" "keeps \<longrightarrow> ks = xs" "\<forall>t \<in> set ks. same_record q q' t"
      "\<forall>t \<in> set ns. last_ready_generation q < generation_of q' t"
    using ev by (auto simp: evolves_def)
  have "early q' cutoff ns = []"
    using kn(5) cut by (fastforce simp: early_def filter_empty_conv)
  then have eq: "early q' cutoff ys = early q cutoff ks"
    using kn early_same [OF ok subseq_set [OF kn(2)], of q' cutoff] by (simp add: early_def)
  show "subseq (early q' cutoff ys) (early q cutoff xs)"
    unfolding eq unfolding early_def by (intro subseq_map subseq_filter kn(2))
  show "keeps \<Longrightarrow> early q' cutoff ys = early q cutoff xs"
    using eq kn(3) by simp
qed

lemma run_ready_loop_spec:
  assumes "queue_ok q xs" and "cutoff \<le> last_ready_generation q" and "run_ready_loop during cutoff n q = (q', rs)"
  shows "subseq rs (early q cutoff xs) \<and> (\<exists>ys. evolves False q xs q' ys) \<and>
    ((\<forall>c. list_all keeps_ready (during c)) \<longrightarrow> length (early q cutoff xs) \<le> n \<longrightarrow> rs = early q cutoff xs)"
  using assms
proof (induction n arbitrary: q xs rs)
  case 0
  then show ?case using evolves_refl by auto
next
  case (Suc n)
  show ?case
  proof (cases xs)
    case Nil
    then have "q' = q" "rs = []" using Suc.prems by (auto simp: queue_ok_def)
    then show ?thesis using Nil Suc.prems(1) evolves_refl by (auto simp: early_def)
  next
    case (Cons t ts)
    obtain r q1 where c: "records q t = Some r" "claim_ready q = (q1, Some (t, callback r))"
        "evolves False q (t # ts) q1 ts" "last_ready_generation q1 = last_ready_generation q"
        "\<And>u. u \<in> set ts \<Longrightarrow> same_record q q1 u"
      using Suc.prems(1) Cons by (auto elim: claim_evolves)
    have head: "ready_head q = Some t" "ready_count q \<noteq> 0" and sorted: "sorted_wrt (<) (map (generation_of q) (t # ts))"
      using Suc.prems(1) Cons by (auto simp: queue_ok_def)
    have gen: "generation_of q t = ready_generation r"
      using c(1) by (simp add: generation_of_def)
    show ?thesis
    proof (cases "ready_generation r > cutoff")
      case True
      then have "early q cutoff (t # ts) = []"
        using sorted gen by (auto simp: early_def filter_empty_conv)
      moreover have "q' = q" "rs = []"
        using Suc.prems(3) True head c(1) by auto
      ultimately show ?thesis
        using Cons Suc.prems(1) evolves_refl by auto
    next
      case False
      let ?q2 = "run_callback during (callback r) q1"
      obtain rs' where rs: "run_ready_loop during cutoff n ?q2 = (q', rs')" "rs = (t, callback r) # rs'"
        using Suc.prems(3) False head c(1,2) by (auto split: prod.splits)
      obtain ys where ys: "evolves (list_all keeps_ready (during (callback r))) q1 ts ?q2 ys"
        using acts_evolve [OF evolves_ok [OF c(3)]] by (auto simp: run_callback_def)
      have ok1: "queue_ok q1 ts" and cut: "cutoff \<le> last_ready_generation q1"
        using evolves_ok [OF c(3)] c(4) Suc.prems(2) by simp_all
      then have cut2: "cutoff \<le> last_ready_generation ?q2"
        using ys by (simp add: evolves_def)
      note ih = Suc.IH [OF evolves_ok [OF ys] cut2 rs(1)]
      have e1: "early q1 cutoff ts = early q cutoff ts"
        using Suc.prems(1) Cons c(5) by (intro early_same [where xs = xs]) auto
      have e: "early q cutoff xs = (t, callback r) # early q cutoff ts"
        using False gen c(1) Cons by (simp add: early_def work_def)
      have sub: "subseq rs' (early q cutoff ts)"
        using ih early_evolves(1) [OF ok1 ys cut] e1 by (metis subseq_order.order_trans)
      obtain zs where zs: "evolves False ?q2 ys q' zs"
        using ih by blast
      have "evolves False q1 ts ?q2 ys"
        by (rule evolves_any [OF ys])
      then have ev: "evolves False q xs q' zs"
        using evolves_trans [OF evolves_trans [OF c(3)] zs] Cons by simp
      have "rs' = early q cutoff ts" if "\<forall>c. list_all keeps_ready (during c)" "length (early q cutoff xs) \<le> Suc n"
        using that ih early_evolves(2) [OF ok1 ys cut] e e1 by simp
      then show ?thesis
        using sub ev e rs(2) by auto
    qed
  qed
qed


lemma set_dispatching_ok [simp]: "queue_ok (q\<lparr>dispatching := b\<rparr>) xs = queue_ok q xs"
proof -
  have "generation_of (q\<lparr>dispatching := b\<rparr>) = generation_of q" "ready_locked (q\<lparr>dispatching := b\<rparr>) = ready_locked q"
    by (auto simp: generation_of_def ready_locked_def)
  then show ?thesis by (simp add: queue_ok_def)
qed

lemma work_head: "queue_ok q (t # ts) \<Longrightarrow> ready_work q = work q t # map (work q) ts"
  by (simp add: ready_work_def queue_ok_tokens)

lemma claim_work:
  assumes "queue_ok q (t # ts)"
  obtains q' where "claim_ready q = (q', Some (work q t))" "queue_ok q' ts" "ready_work q' = map (work q) ts"
    "dispatching q' = dispatching q"
proof -
  obtain r q' where c: "records q t = Some r" "claim_ready q = (q', Some (t, callback r))"
      "evolves False q (t # ts) q' ts" "\<And>u. u \<in> set ts \<Longrightarrow> same_record q q' u" "dispatching q' = dispatching q"
    using claim_evolves [OF assms] by metis
  have "work q' u = work q u" if "u \<in> set ts" for u
    using that ok_record [OF assms, of u] same_work [OF c(4)] by auto
  then show thesis
    using that [of q'] c evolves_ok [OF c(3)] by (simp add: work_def ready_work_def queue_ok_tokens)
qed

section \<open>A queue that is drained from the front\<close>

text \<open>All a client that empties a queue relies on: what it claims is the front of the list, and the rest stays.\<close>

fun claim_all :: "('q \<Rightarrow> 'q \<times> 'w option) \<Rightarrow> nat \<Rightarrow> 'q \<Rightarrow> 'q \<times> 'w list" where
  "claim_all claim 0 q = (q, [])"
| "claim_all claim (Suc n) q =
     (case claim q of (q, None) \<Rightarrow> (q, [])
      | (q, Some w) \<Rightarrow> let (q, ws) = claim_all claim n q in (q, w # ws))"

locale drained_queue =
  fixes ok :: "'q \<Rightarrow> bool" and lined_up :: "'q \<Rightarrow> 'w list" and claim :: "'q \<Rightarrow> 'q \<times> 'w option"
  assumes claim_front: "ok q \<Longrightarrow> lined_up q = w # ws \<Longrightarrow> \<exists>q'. claim q = (q', Some w) \<and> ok q' \<and> lined_up q' = ws"
    and claim_empty: "ok q \<Longrightarrow> lined_up q = [] \<Longrightarrow> claim q = (q, None)"
begin

lemma claim_all_in_order:
  "ok q \<Longrightarrow> \<exists>q'. claim_all claim n q = (q', take n (lined_up q)) \<and> ok q' \<and> lined_up q' = drop n (lined_up q)"
proof (induction n arbitrary: q)
  case (Suc n)
  show ?case
  proof (cases "lined_up q")
    case Nil
    then show ?thesis using claim_empty Suc.prems by simp
  next
    case (Cons w ws)
    then obtain q1 where "claim q = (q1, Some w)" "ok q1" "lined_up q1 = ws"
      using claim_front Suc.prems by blast
    then show ?thesis using Suc.IH [of q1] Cons by auto
  qed
qed simp

lemma claim_all_drains:
  assumes "ok q"
  shows "\<exists>q'. claim_all claim (length (lined_up q)) q = (q', lined_up q) \<and> ok q' \<and> lined_up q' = []"
  using claim_all_in_order [OF assms, of "length (lined_up q)"] by simp

end

interpretation ready_list: drained_queue "\<lambda>q. \<exists>xs. queue_ok q xs" ready_work claim_ready
proof
  fix q :: "'c QueueCore" and w ws
  assume "\<exists>xs. queue_ok q xs" and w: "ready_work q = w # ws"
  then obtain xs where ok: "queue_ok q xs" by blast
  then obtain t ts where xs: "xs = t # ts" "w = work q t" "ws = map (work q) ts"
    using w by (auto simp: ready_work_def queue_ok_tokens Cons_eq_map_conv map_eq_Cons_conv)
  then show "\<exists>q'. claim_ready q = (q', Some w) \<and> (\<exists>xs. queue_ok q' xs) \<and> ready_work q' = ws"
    using ok by (metis claim_work)
next
  fix q :: "'c QueueCore"
  assume "\<exists>xs. queue_ok q xs" and "ready_work q = []"
  then show "claim_ready q = (q, None)"
    by (auto simp: ready_work_def queue_ok_tokens claim_ready_def queue_ok_def)
qed

lemma discard_loop_claims:
  "queue_ok q xs \<Longrightarrow> discard_loop n q = claim_all claim_ready n q"
proof (induction n arbitrary: q xs)
  case (Suc n)
  show ?case
  proof (cases xs)
    case Nil
    then show ?thesis using Suc.prems by (auto simp: claim_ready_def queue_ok_def)
  next
    case (Cons t ts)
    then obtain q' where q': "claim_ready q = (q', Some (work q t))" "queue_ok q' ts"
      using Suc.prems claim_work by metis
    have "ready_count q \<noteq> 0"
      using Suc.prems Cons by (simp add: queue_ok_def)
    then show ?thesis
      using q'(1) Suc.IH [OF q'(2)] by simp
  qed
qed simp


section \<open>The states a queue can reach\<close>

inductive queue_reachable :: "'c QueueCore \<Rightarrow> bool" where
  start: "queue_reachable (new_queue pipe_made)"
| act: "queue_reachable q \<Longrightarrow> queue_reachable (act a q)"
| one: "queue_reachable q \<Longrightarrow> run_one during q = Some (q', ran_one) \<Longrightarrow> queue_reachable q'"
| batch: "queue_reachable q \<Longrightarrow> queue_reachable (fst (run_ready during q))"
| discard: "queue_reachable q \<Longrightarrow> queue_reachable (fst (discard_ready q))"

lemma ready_work_length: "queue_ok q xs \<Longrightarrow> length (ready_work q) = ready_count q"
  by (simp add: ready_work_def queue_ok_tokens) (simp add: queue_ok_def)

lemma run_one_ok:
  assumes ok: "queue_ok q xs" and idle: "\<not> dispatching q" and run: "run_one during q = Some (q', ran_one)"
  shows "\<exists>ys. queue_ok q' ys" and "\<not> dispatching q'" and "ran_one = (case ready_work q of [] \<Rightarrow> None | w # _ \<Rightarrow> Some w)"
proof -
  show "\<exists>ys. queue_ok q' ys" and "\<not> dispatching q'" and "ran_one = (case ready_work q of [] \<Rightarrow> None | w # _ \<Rightarrow> Some w)"
  proof (atomize (full), cases xs)
    case Nil
    then have "ready_work q = []" "ready_count q = 0"
      using ok by (simp_all add: ready_work_def queue_ok_tokens) (simp add: queue_ok_def)
    then show "(\<exists>ys. queue_ok q' ys) \<and> \<not> dispatching q' \<and> ran_one = (case ready_work q of [] \<Rightarrow> None | w # _ \<Rightarrow> Some w)"
      using ok idle run by (auto simp: run_one_def split: if_splits)
  next
    case (Cons t ts)
    then obtain q1 where c: "claim_ready q = (q1, Some (work q t))" "queue_ok q1 ts"
      using ok claim_work by metis
    obtain ys where "evolves (list_all keeps_ready (during (snd (work q t)))) (q1\<lparr>dispatching := True\<rparr>) ts
        (run_callback during (snd (work q t)) (q1\<lparr>dispatching := True\<rparr>)) ys"
      using acts_evolve [of "q1\<lparr>dispatching := True\<rparr>" ts] c(2) by (auto simp: run_callback_def)
    then have "queue_ok (run_callback during (snd (work q t)) (q1\<lparr>dispatching := True\<rparr>)) ys"
      by (rule evolves_ok)
    moreover have "ready_count q \<noteq> 0"
      using ok Cons by (simp add: queue_ok_def)
    ultimately show "(\<exists>ys. queue_ok q' ys) \<and> \<not> dispatching q' \<and> ran_one = (case ready_work q of [] \<Rightarrow> None | w # _ \<Rightarrow> Some w)"
      using run idle c(1) ok Cons
      by (auto simp: run_one_def Let_def work_head split: prod.splits if_splits)
  qed
qed

lemma run_ready_ok:
  assumes ok: "queue_ok q xs" and idle: "\<not> dispatching q" and run: "run_ready during q = (q', ws)"
  shows "\<exists>ys. queue_ok q' ys" and "\<not> dispatching q'" and "subseq ws (ready_work q)"
    and "(\<And>c. list_all keeps_ready (during c)) \<Longrightarrow> ws = ready_work q"
proof -
  let ?g = "last_ready_generation q"
  let ?q = "q\<lparr>dispatching := True\<rparr>"
  obtain q1 where loop: "run_ready_loop during ?g (ready_count q) ?q = (q1, ws)" and q': "q' = q1\<lparr>dispatching := False\<rparr>"
    using run idle by (auto simp: run_ready_def split: prod.splits)
  have all: "early ?q ?g xs = ready_work q"
    using ok by (auto simp: early_def ready_work_def queue_ok_tokens work_def generation_of_def queue_ok_def intro!: filter_True)
  note len = ready_work_length [OF ok]
  have ok': "queue_ok ?q xs" and cut: "?g \<le> last_ready_generation ?q"
    using ok by simp_all
  note spec = run_ready_loop_spec [OF ok' cut loop, unfolded all len]
  show "\<exists>ys. queue_ok q' ys"
    using spec q' evolves_ok by fastforce
  show "\<not> dispatching q'" by (simp add: q')
  show "subseq ws (ready_work q)" using spec by blast
  show "ws = ready_work q" if "\<And>c. list_all keeps_ready (during c)"
    using spec that by simp
qed

lemma discard_ready_all:
  assumes "queue_ok q xs" "\<not> dispatching q"
  obtains q' ys where "discard_ready q = (q', ready_work q)" "queue_ok q' ys" "ready_work q' = []"
  using assms ready_list.claim_all_drains [of q] discard_loop_claims [OF assms(1)] ready_work_length [OF assms(1)]
  by (auto simp: discard_ready_def)

lemma discard_dispatching:
  fixes q :: "'c QueueCore"
  shows "dispatching (fst (discard_ready q)) = dispatching q"
proof -
  have claim: "dispatching (fst (claim_ready q)) = dispatching q" for q :: "'c QueueCore"
    by (auto simp: claim_ready_def split: option.split)
  have "dispatching (fst (discard_loop n q)) = dispatching q" for n and q :: "'c QueueCore"
  proof (induction n arbitrary: q)
    case (Suc n)
    obtain q1 w where c: "claim_ready q = (q1, w)" by force
    then show ?case
      using claim [of q] Suc.IH [of q1] by (cases w) (simp_all add: case_prod_beta Let_def)
  qed simp
  then show ?thesis by (simp add: discard_ready_def)
qed

lemma queue_reachable_ok: "queue_reachable q \<Longrightarrow> (\<exists>xs. queue_ok q xs) \<and> \<not> dispatching q"
proof (induction rule: queue_reachable.induct)
  case (start pipe_made)
  have "queue_ok (new_queue pipe_made) []"
    by (simp add: new_queue_def queue_ok_def ready_locked_def)
  then show ?case by (auto simp: new_queue_def)
next
  case (act q a)
  then show ?case using act_evolves by (fastforce simp: evolves_def)
next
  case (one q during q' ran_one)
  then show ?case using run_one_ok by blast
next
  case (batch q during)
  then show ?case using run_ready_ok [of q _ during "fst (run_ready during q)" "snd (run_ready during q)"] by auto
next
  case (discard q)
  then obtain xs where "queue_ok q xs" by blast
  then obtain q' ys where "discard_ready q = (q', ready_work q)" "queue_ok q' ys"
    using discard discard_ready_all by metis
  then show ?case
    using discard discard_dispatching [of q] by auto
qed


section \<open>The queue a client sees\<close>

text \<open>Records that wait to become ready, and the ready work in the order it became ready.\<close>

record 'c QueueSpec =
  waiting :: "nat \<Rightarrow> 'c option"
  lined :: "(nat \<times> 'c) list"
  issued :: nat
  shut :: bool

definition abstract :: "'c QueueCore \<Rightarrow> 'c QueueSpec" where
  "abstract q = \<lparr>waiting = (\<lambda>t. case records q t of None \<Rightarrow> None | Some r \<Rightarrow> if enqueued r then None else Some (callback r)),
     lined = ready_work q, issued = next_token q, shut = queue_closed q\<rparr>"

fun spec_act :: "'c Action \<Rightarrow> 'c QueueSpec \<Rightarrow> 'c QueueSpec" where
  "spec_act (Enqueue t) s = (case waiting s t of None \<Rightarrow> s
     | Some c \<Rightarrow> s\<lparr>waiting := (waiting s)(t := None), lined := lined s @ [(t, c)]\<rparr>)"
| "spec_act (Detach t) s = s\<lparr>waiting := (waiting s)(t := None), lined := filter (\<lambda>w. fst w \<noteq> t) (lined s)\<rparr>"
| "spec_act NextToken s = s\<lparr>issued := issued s + 1\<rparr>"
| "spec_act (Register t c) s =
     (if shut s \<or> waiting s t \<noteq> None \<or> t \<in> fst ` set (lined s) then s else s\<lparr>waiting := (waiting s)(t \<mapsto> c)\<rparr>)"
| "spec_act (PushReady c) s =
     (if shut s then s
      else if waiting s (issued s) \<noteq> None \<or> issued s \<in> fst ` set (lined s) then s\<lparr>issued := issued s + 1\<rparr>
      else s\<lparr>issued := issued s + 1, lined := lined s @ [(issued s, c)]\<rparr>)"
| "spec_act Finish s = s"
| "spec_act Close s = s\<lparr>waiting := (\<lambda>_. None), lined := [], shut := True\<rparr>"
| "spec_act Dispatch s = s"

definition spec_claim :: "'c QueueSpec \<Rightarrow> 'c QueueSpec \<times> (nat \<times> 'c) option" where
  "spec_claim s = (case lined s of [] \<Rightarrow> (s, None) | w # ws \<Rightarrow> (s\<lparr>lined := ws\<rparr>, Some w))"

text \<open>The abstraction only looks at the callbacks, the list and the flags.\<close>

lemma abstract_ok:
  assumes "queue_ok q xs"
  shows "abstract q = \<lparr>waiting = (\<lambda>t. if t \<in> set xs then None else map_option callback (records q t)),
    lined = map (work q) xs, issued = next_token q, shut = queue_closed q\<rparr>"
proof -
  have "(case records q t of None \<Rightarrow> None | Some r \<Rightarrow> if enqueued r then None else Some (callback r)) =
      (if t \<in> set xs then None else map_option callback (records q t))" for t
    using ok_enqueued [OF assms, of t] by (auto split: option.split)
  then show ?thesis
    using assms by (simp add: abstract_def ready_work_def queue_ok_tokens)
qed

lemma abstract_waiting:
  assumes "queue_ok q xs"
  shows "waiting (abstract q) t = None \<and> t \<notin> fst ` set (lined (abstract q)) \<longleftrightarrow> records q t = None"
  using ok_record [OF assms, of t] by (auto simp: abstract_ok [OF assms] work_def image_iff)

lemma link_abstract:
  assumes ok: "queue_ok q xs" and r: "records q t = Some r" and t: "t \<notin> set xs" and o: "\<not> queue_closed q"
  shows "abstract (link_ready t q) =
    (abstract q)\<lparr>waiting := (waiting (abstract q))(t := None), lined := lined (abstract q) @ [(t, callback r)]\<rparr>"
proof -
  have cb: "map_option callback (records (link_ready t q) u) = map_option callback (records q u)" for u
    using r by (auto simp: link_records Let_def option.map_comp comp_def split: option.split)
  have w: "work (link_ready t q) u = work q u" if u: "u \<in> set (xs @ [t])" for u
  proof -
    obtain s where "records q u = Some s" using u ok_record [OF ok, of u] r by auto
    then show ?thesis using cb [of u] by (auto simp: work_def)
  qed
  show ?thesis
    unfolding abstract_ok [OF ok] abstract_ok [OF link_ok [OF assms]]
    using w r t cb by (auto simp: work_def fun_eq_iff)
qed

lemma unlink_abstract:
  assumes ok: "queue_ok q (ys @ t # zs)" and r: "records q t = Some r"
  shows "abstract (extract_record t (unlink_ready t r q)) = (abstract q)\<lparr>lined := map (work q) (ys @ zs)\<rparr>"
proof -
  let ?q = "extract_record t (unlink_ready t r q)"
  have d: "t \<notin> set (ys @ zs)" using ok by (auto simp: queue_ok_def)
  have cb: "u \<noteq> t \<Longrightarrow> map_option callback (records ?q u) = map_option callback (records q u)" for u
    using unlink_ok(4) [OF ok r] by simp
  have w: "work ?q u = work q u" if u: "u \<in> set (ys @ zs)" for u
  proof -
    have "u \<noteq> t" using u d by auto
    moreover obtain s where "records q u = Some s" using u ok_record [OF ok, of u] by auto
    ultimately show ?thesis using cb [of u] by (auto simp: work_def)
  qed
  show ?thesis
    unfolding abstract_ok [OF ok] abstract_ok [OF extract_ok [OF unlink_ok(1) [OF ok r] d]]
    using w d cb by (auto simp: fun_eq_iff)
qed


lemma register_abstract:
  assumes ok: "queue_ok q xs" and fresh: "records q t = None" and o: "\<not> queue_closed q"
  shows "abstract (q\<lparr>records := (records q)(t \<mapsto> new_record c)\<rparr>) =
    (abstract q)\<lparr>waiting := (waiting (abstract q))(t \<mapsto> c)\<rparr>"
proof -
  note r = register_ok [OF ok fresh o, where c = c, OF refl]
  show ?thesis
    unfolding abstract_ok [OF ok] abstract_ok [OF evolves_ok [OF r(1)]]
    using r(2) by (auto simp: fun_eq_iff work_def new_record_def)
qed

lemma detach_abstract:
  assumes ok: "queue_ok q xs"
  shows "abstract (detach t q) = spec_act (Detach t) (abstract q)"
proof (cases "t \<in> set xs")
  case True
  then obtain us vs where xs: "xs = us @ t # vs" using split_list by metis
  obtain r where r: "records q t = Some r" using ok_record [OF ok True] by blast
  have d: "t \<notin> set us" "t \<notin> set vs" using ok xs by (auto simp: queue_ok_def)
  have keep: "filter (\<lambda>w. fst w \<noteq> t) (map (work q) ks) = map (work q) ks" if "t \<notin> set ks" for ks
    using that by (induction ks) (auto simp: work_def)
  have "detach t q = extract_record t (unlink_ready t r q)"
    using r ok_enqueued [OF ok r] True by (simp add: detach_def)
  then show ?thesis
    using unlink_abstract [of q us t vs r] ok xs r keep [OF d(1)] keep [OF d(2)]
    by (simp add: abstract_ok [OF ok] work_def fun_eq_iff)
next
  case False
  have keep: "filter (\<lambda>w. fst w \<noteq> t) (map (work q) xs) = map (work q) xs"
    using False by (induction xs) (auto simp: work_def)
  show ?thesis
  proof (cases "records q t")
    case None
    then show ?thesis
      using keep by (simp add: detach_def abstract_ok [OF ok] fun_eq_iff)
  next
    case (Some r)
    then have "detach t q = extract_record t q"
      using ok_enqueued [OF ok Some] False by (simp add: detach_def)
    then show ?thesis
      using keep False by (auto simp: abstract_ok [OF ok] abstract_ok [OF extract_ok [OF ok False]] fun_eq_iff work_def)
  qed
qed

lemma push_abstract:
  assumes ok: "queue_ok q xs"
  shows "abstract (fst (push_ready c q)) = spec_act (PushReady c) (abstract q)"
proof -
  let ?t = "next_token q" and ?q1 = "q\<lparr>next_token := next_token q + 1\<rparr>"
  have ok1: "queue_ok ?q1 xs"
    using ok by (intro queue_ok_transfer [OF ok]) (auto simp: queue_ok_def ready_locked_def)
  have a1: "abstract ?q1 = (abstract q)\<lparr>issued := issued (abstract q) + 1\<rparr>"
    by (simp add: abstract_def ready_work_def ready_tokens_def work_def)
  have simps: "shut (abstract q) = queue_closed q" "issued (abstract q) = ?t"
    by (simp_all add: abstract_def)
  show ?thesis
  proof (cases "queue_closed q \<or> records q ?t \<noteq> None")
    case True
    then show ?thesis
      using a1 simps abstract_waiting [OF ok, of ?t] by (auto simp: push_ready_def Let_def)
  next
    case False
    let ?q2 = "?q1\<lparr>records := (records ?q1)(?t \<mapsto> new_record c)\<rparr>"
    have fresh: "records ?q1 ?t = None" "\<not> queue_closed ?q1" using False by simp_all
    note r = register_ok [OF ok1 fresh, where c = c, OF refl]
    have "abstract (link_ready ?t ?q2) = (abstract ?q2)\<lparr>waiting := (waiting (abstract ?q2))(?t := None),
        lined := lined (abstract ?q2) @ [(?t, c)]\<rparr>"
      using link_abstract [OF evolves_ok [OF r(1)], of ?t "new_record c"] r(2) False by (simp add: new_record_def)
    moreover have "waiting (abstract q) ?t = None" "?t \<notin> fst ` set (lined (abstract q))"
      using abstract_waiting [OF ok, of ?t] False by auto
    moreover have "(waiting (abstract q))(?t := None) = waiting (abstract q)"
      using calculation(2) by (simp add: fun_eq_iff)
    ultimately show ?thesis
      using register_abstract [OF ok1 fresh, of c] a1 simps False by (simp add: push_ready_def Let_def)
  qed
qed

lemma act_abstract:
  assumes ok: "queue_ok q xs"
  shows "abstract (act a q) = spec_act a (abstract q)"
proof (cases a)
  case (Enqueue t)
  show ?thesis
  proof (cases "records q t")
    case None
    then show ?thesis using Enqueue by (simp add: enqueue_def abstract_def)
  next
    case (Some r)
    have "\<not> queue_closed q" using ok Some by (auto simp: queue_ok_def)
    then show ?thesis
      using Enqueue Some link_abstract [OF ok Some] ok_enqueued [OF ok Some]
      by (auto simp: enqueue_def abstract_def split: if_splits)
  qed
next
  case (Detach t)
  then show ?thesis using detach_abstract [OF ok] by simp
next
  case NextToken
  then show ?thesis
    by (simp add: take_token_def abstract_def ready_work_def ready_tokens_def work_def)
next
  case (Register t c)
  have simps: "shut (abstract q) = queue_closed q" by (simp add: abstract_def)
  show ?thesis
    using Register abstract_waiting [OF ok, of t] register_abstract [OF ok, of t c] simps
    by (auto simp: register_record_def)
next
  case (PushReady c)
  then show ?thesis using push_abstract [OF ok] by simp
next
  case Finish
  then show ?thesis
    by (simp add: finish_queue_def abstract_def ready_work_def ready_tokens_def work_def)
next
  case Close
  show ?thesis
  proof (cases "queue_closed q")
    case True
    then have "records q = (\<lambda>_. None)" using ok by (simp add: queue_ok_def)
    then have "xs = []" using ok by (cases xs) (auto simp: queue_ok_def)
    then show ?thesis
      using Close True ok by (simp add: close_queue_def abstract_ok [OF ok]) (simp add: queue_ok_def fun_eq_iff)
  next
    case False
    then show ?thesis
      using Close by (simp add: close_queue_def abstract_def ready_work_def ready_tokens_def)
  qed
next
  case Dispatch
  then show ?thesis by simp
qed


lemma claim_abstract:
  assumes ok: "queue_ok q xs"
  shows "(let (q', w) = claim_ready q in (abstract q', w)) = spec_claim (abstract q)"
proof (cases xs)
  case Nil
  then have "ready_head q = None" using ok by (simp add: queue_ok_def)
  then show ?thesis
    using Nil by (simp add: claim_ready_def spec_claim_def abstract_ok [OF ok])
next
  case (Cons t ts)
  obtain r where r: "records q t = Some r" and head: "ready_head q = Some t"
    using ok Cons by (auto simp: queue_ok_def)
  have "claim_ready q = (extract_record t (unlink_ready t r q), Some (work q t))"
    using r head by (simp add: claim_ready_def work_def)
  then show ?thesis
    using unlink_abstract [of q "[]" t ts r] ok Cons r by (simp add: spec_claim_def abstract_ok)
qed

section \<open>Properties\<close>

text \<open>C35. Whatever sequence of calls a queue has seen, its links hold together: the ready list read off them has no
  repetition and exactly the records marked as enqueued, its length is the count, it is ordered by the generation
  in which each record became ready, and the descriptor is readable exactly when a waiter would be released.\<close>

theorem queue_links:
  assumes "queue_reachable q"
  shows "distinct (ready_tokens q) \<and> length (ready_tokens q) = ready_count q \<and>
    set (ready_tokens q) = {t. \<exists>r. records q t = Some r \<and> enqueued r} \<and>
    sorted_wrt (<) (map (generation_of q) (ready_tokens q)) \<and>
    (has_wake q \<longrightarrow> (queue_armed q \<longleftrightarrow> wait_ready q \<noteq> status_timeout))"
proof -
  obtain xs where ok: "queue_ok q xs" using queue_reachable_ok [OF assms] by blast
  have "set xs = {t. \<exists>r. records q t = Some r \<and> enqueued r}"
    using ok_enqueued [OF ok] ok_record [OF ok] by blast
  then show ?thesis
    using ok unfolding queue_ok_tokens [OF ok]
    by (auto simp: queue_ok_def wait_ready_def ready_locked_def)
qed

text \<open>C9. The queue of links and marks behaves as the plain one it stands for: work that waits, and ready work in
  the order it became ready, from which each call adds, removes or claims what its contract says.\<close>

theorem queue_refines:
  assumes "queue_reachable q"
  shows "abstract (act a q) = spec_act a (abstract q) \<and>
    (let (q', w) = claim_ready q in (abstract q', w)) = spec_claim (abstract q)"
  using queue_reachable_ok [OF assms] act_abstract claim_abstract by blast

text \<open>One call of \<open>run_ready\<close> dispatches, in order and once each, only work that was ready when it began,
  whatever its callbacks and other threads do meanwhile: work that becomes ready during the call waits for the next
  one, and work is skipped only if it was detached or the queue closed. When nothing is, it dispatches all of it.\<close>

theorem run_ready_batch:
  assumes "queue_reachable q" and "run_ready during q = (q', ws)"
  shows "subseq ws (ready_work q) \<and> distinct (map fst ws) \<and> queue_reachable q' \<and>
    ((\<forall>c. list_all keeps_ready (during c)) \<longrightarrow> ws = ready_work q)"
proof -
  obtain xs where ok: "queue_ok q xs" and idle: "\<not> dispatching q" using queue_reachable_ok [OF assms(1)] by blast
  note run = run_ready_ok [OF ok idle assms(2)]
  have "map fst (ready_work q) = xs"
    using ok by (simp add: ready_work_def queue_ok_tokens work_def comp_def)
  then have "distinct (map fst ws)"
    using ok subseq_map [OF run(3), of fst] by (auto simp: queue_ok_def intro: distinct_subseq)
  moreover have "queue_reachable q'"
    using queue_reachable.batch [OF assms(1), of during] assms(2) by simp
  ultimately show ?thesis
    using run(3,4) by blast
qed

text \<open>\<open>discard_ready\<close> takes all ready work off the queue, in order, and leaves none.\<close>

lemma discard_ready_drains:
  assumes "queue_reachable q"
  shows "snd (discard_ready q) = ready_work q \<and> ready_work (fst (discard_ready q)) = []"
proof -
  obtain xs where "queue_ok q xs" "\<not> dispatching q" using queue_reachable_ok [OF assms] by blast
  then show ?thesis by (rule discard_ready_all) simp
qed


section \<open>Witnesses\<close>

text \<open>Two pieces of work become ready, the second one registered first; the first makes a third ready while it runs.\<close>

definition sample_queue :: "nat QueueCore" where
  "sample_queue = fold act [Register 7 20, PushReady 10, Enqueue 7] (new_queue True)"

definition sample_during :: "nat \<Rightarrow> nat Action list" where
  "sample_during c = (if c = 10 then [PushReady 30, Dispatch] else [])"

lemma sample_queue_reachable: "queue_reachable sample_queue"
  unfolding sample_queue_def by (simp only: fold.simps comp_def id_apply) (intro queue_reachable.act queue_reachable.start)

theorem queue_links_witness:
  "ready_tokens sample_queue = [1, 7] \<and> distinct (ready_tokens sample_queue) \<and> queue_armed sample_queue"
proof -
  have "ready_tokens sample_queue = [1, 7]" "has_wake sample_queue" "wait_ready sample_queue \<noteq> status_timeout"
    by code_simp+
  then show ?thesis using queue_links [OF sample_queue_reachable] by simp
qed

theorem queue_refines_witness:
  "lined (abstract (act (Detach 1) sample_queue)) = [(7, 20)] \<and>
   lined (spec_act (Detach 1) (abstract sample_queue)) = [(7, 20)]"
proof -
  have "lined (abstract (act (Detach 1) sample_queue)) = [(7, 20)]"
    by code_simp
  then show ?thesis using queue_refines [OF sample_queue_reachable, of "Detach 1"] by simp
qed

theorem run_ready_batch_witness:
  "snd (run_ready sample_during sample_queue) = [(1, 10), (7, 20)] \<and>
   ready_work (fst (run_ready sample_during sample_queue)) = [(2, 30)] \<and>
   queue_reachable (fst (run_ready sample_during sample_queue))"
proof -
  have work: "ready_work sample_queue = [(1, 10), (7, 20)]"
    and later: "ready_work (fst (run_ready sample_during sample_queue)) = [(2, 30)]"
    by code_simp+
  have "\<forall>c. list_all keeps_ready (sample_during c)"
    by (simp add: sample_during_def)
  then show ?thesis
    using run_ready_batch [OF sample_queue_reachable surjective_pairing, of sample_during] work later by simp
qed

end
