(* ===== verification/Operation_State.thy ===== *)
theory Operation_State
  imports Completion_Queue Commands
begin

text \<open>
  An operation in flight and the handles that share it (\<open>src/src/operation_state.hpp\<close>): the outcome that is
  published once, the observer that waits for it (a callback through the completion queue, a blocked thread, or
  nobody), the transport's progress to retirement and the admission slot that is given back at the end.

  \<open>OperationState\<close> is the state under the operation's mutex, with the relay that outlives it; \<open>wakes\<close> and
  \<open>releases\<close> count the calls of the two hooks. \<open>System\<close> adds the completion queue, the handle of the caller and the
  places where a thread is between two critical sections, and \<open>op_step\<close> is one critical section of one thread, so
  \<open>op_reachable\<close> covers every interleaving of publishing, retiring, cancelling, subscribing, waiting, dispatching,
  detaching and closing the queue, with other operations using the same queue. A condition variable is a step that
  is enabled once its predicate holds.
\<close>

section \<open>Phases\<close>

datatype ObserverPhase = ob_unselected | ob_callback | ob_blocking | ob_blocking_waiting | ob_detached | ob_delivered

datatype TransportPhase = tp_queued | tp_dispatching | tp_active | tp_retiring | tp_retired

fun phase_rank :: "TransportPhase \<Rightarrow> nat" where
  "phase_rank tp_queued = 0"
| "phase_rank tp_dispatching = 1"
| "phase_rank tp_active = 2"
| "phase_rank tp_retiring = 3"
| "phase_rank tp_retired = 4"

lemma phase_rank_inject [simp]: "phase_rank a = phase_rank b \<longleftrightarrow> a = b"
  by (cases a; cases b) auto

instantiation TransportPhase :: linorder
begin

definition less_eq_TransportPhase :: "TransportPhase \<Rightarrow> TransportPhase \<Rightarrow> bool" where
  "less_eq_TransportPhase a b = (phase_rank a \<le> phase_rank b)"

definition less_TransportPhase :: "TransportPhase \<Rightarrow> TransportPhase \<Rightarrow> bool" where
  "less_TransportPhase a b = (phase_rank a < phase_rank b)"

instance
  by standard (auto simp: less_eq_TransportPhase_def less_TransportPhase_def)

end

section \<open>State\<close>

type_synonym 'v OperationResult = "CommandFailure + 'v"

record OperationRelay =
  relay_hooks :: bool
  relay_token :: "nat option"
  cancellation_requested :: bool
  outcome_marked :: bool
  relay_retired :: bool

record 'v OperationState =
  outcome :: "'v OperationResult option"
  abandoned_outcome :: "'v OperationResult option"
  relay :: OperationRelay
  observer_token :: nat
  observer :: ObserverPhase
  transport :: TransportPhase
  admission_released :: bool
  wakes :: nat
  releases :: nat

definition make_abandoned_outcome :: "'v OperationResult" where
  "make_abandoned_outcome = Inl \<lparr>kind = pipe, delivery = not_started, exit_code = 0,
     diagnostic = ''operation source retired without an outcome''\<rparr>"

definition new_operation :: "'v OperationState" where
  "new_operation = \<lparr>outcome = None, abandoned_outcome = Some make_abandoned_outcome,
     relay = \<lparr>relay_hooks = True, relay_token = None, cancellation_requested = False, outcome_marked = False, relay_retired = False\<rparr>,
     observer_token = 0, observer = ob_unselected, transport = tp_queued, admission_released = False,
     wakes = 0, releases = 0\<rparr>"

section \<open>Operations\<close>

definition finish_callback :: "nat \<Rightarrow> OperationRelay \<Rightarrow> OperationRelay" where
  "finish_callback token r = (if relay_token r = Some token then r\<lparr>relay_token := None\<rparr> else r)"

definition request_cancel :: "'v OperationState \<Rightarrow> 'v OperationState \<times> bool" where
  "request_cancel s =
     (let r = relay s in
      if cancellation_requested r \<or> outcome_marked r \<or> relay_retired r then (s, False)
      else (s\<lparr>relay := r\<lparr>cancellation_requested := True\<rparr>, wakes := wakes s + 1\<rparr>, True))"

text \<open>\<open>publish\<close> and \<open>retire\<close> answer, besides the state, the token they enqueue once the lock is released.\<close>

definition publish :: "'v OperationResult \<Rightarrow> 'v OperationState \<Rightarrow> 'v OperationState \<times> bool \<times> nat option" where
  "publish result s =
     (if outcome s \<noteq> None then (s, False, None)
      else (s\<lparr>relay := (relay s)\<lparr>outcome_marked := True\<rparr>, outcome := Some result, abandoned_outcome := None\<rparr>, True,
            if observer s = ob_callback then Some (observer_token s) else None))"

definition release_hook_locked :: "'v OperationState \<Rightarrow> 'v OperationState" where
  "release_hook_locked s =
     (let observer_finished = (observer s = ob_detached \<or> observer s = ob_delivered) in
      if admission_released s \<or> transport s \<noteq> tp_retired \<or> \<not> observer_finished then s
      else s\<lparr>admission_released := True, releases := releases s + 1\<rparr>)"

definition select_blocking :: "'v OperationState \<Rightarrow> 'v OperationState" where
  "select_blocking s = s\<lparr>observer := ob_blocking\<rparr>"

definition select_callback :: "nat \<Rightarrow> 'v OperationState \<Rightarrow> 'v OperationState" where
  "select_callback token s =
     s\<lparr>observer := ob_callback, observer_token := token, relay := (relay s)\<lparr>relay_token := Some token\<rparr>\<rparr>"

definition begin_wait :: "'v OperationState \<Rightarrow> 'v OperationState" where
  "begin_wait s = s\<lparr>observer := ob_blocking_waiting\<rparr>"

text \<open>The second half of \<open>wait_and_take\<close>, once the outcome is there.\<close>

definition end_wait :: "'v OperationState \<Rightarrow> 'v OperationState" where
  "end_wait s = release_hook_locked (s\<lparr>observer := ob_delivered\<rparr>)"

definition take_callback :: "nat \<Rightarrow> 'v OperationState \<Rightarrow> 'v OperationState" where
  "take_callback token s = release_hook_locked
     (s\<lparr>observer := ob_delivered, relay := finish_callback token (relay s), observer_token := 0\<rparr>)"

definition detach_callback :: "nat \<Rightarrow> 'v OperationState \<Rightarrow> 'v OperationState" where
  "detach_callback token s =
     (if observer s \<noteq> ob_callback \<or> observer_token s \<noteq> token then s
      else release_hook_locked
        (s\<lparr>observer := ob_detached, relay := finish_callback token (relay s), observer_token := 0\<rparr>))"

definition detach_unselected :: "'v OperationState \<Rightarrow> 'v OperationState" where
  "detach_unselected s =
     (if observer s \<noteq> ob_unselected then s else release_hook_locked (s\<lparr>observer := ob_detached\<rparr>))"

definition advance_transport :: "TransportPhase \<Rightarrow> 'v OperationState \<Rightarrow> 'v OperationState" where
  "advance_transport phase s = s\<lparr>transport := phase\<rparr>"

fun with_delivery :: "DeliveryStatus \<Rightarrow> 'v OperationResult \<Rightarrow> 'v OperationResult" where
  "with_delivery d (Inl f) = Inl (f\<lparr>delivery := d\<rparr>)"
| "with_delivery d (Inr v) = Inr v"

definition retire :: "'v OperationState \<Rightarrow> 'v OperationState \<times> nat option" where
  "retire s =
     (let abandoned_delivery = (if transport s = tp_queued then not_started else indeterminate);
          s = s\<lparr>transport := tp_retired, relay := (relay s)\<lparr>relay_retired := True, relay_hooks := False\<rparr>\<rparr>;
          fresh = (outcome s = None);
          s = (if fresh then s\<lparr>outcome := map_option (with_delivery abandoned_delivery) (abandoned_outcome s), abandoned_outcome := None\<rparr>
               else s\<lparr>abandoned_outcome := None\<rparr>) in
      (release_hook_locked s, if fresh \<and> observer s = ob_callback then Some (observer_token s) else None))"

section \<open>The handles and the threads that use them\<close>

text \<open>Who holds the operation: a caller that has not chosen how to observe it; one inside \<open>subscribe\<close>, between
  choosing the callback, registering the record and looking at the outcome; the holder of the subscription; one
  inside \<open>sync_wait\<close>; nobody.\<close>

datatype Client = Holding | Selected | Registered | Checked | Subscribed | Blocking | Waiting | Gone

text \<open>A record of the queue holds this operation's lease or belongs to another operation.\<close>

datatype Lease = Mine | Foreign

record 'v System =
  operation :: "'v OperationState"
  queue :: "Lease QueueCore"
  client :: Client
  token :: nat
  publishing :: "nat option"
  claimed :: bool
  discarded :: bool
  received :: "'v OperationResult list"

definition new_system :: "Lease QueueCore \<Rightarrow> 'v System" where
  "new_system q = \<lparr>operation = new_operation, queue = q, client = Holding, token = 0, publishing = None,
     claimed = False, discarded = False, received = []\<rparr>"

definition registered :: "'v System \<Rightarrow> bool" where
  "registered s \<longleftrightarrow> records (queue s) (token s) \<noteq> None"

fun foreign_action :: "nat \<Rightarrow> nat \<Rightarrow> Lease Action \<Rightarrow> bool" where
  "foreign_action t n (Enqueue u) = (u \<noteq> t)"
| "foreign_action t n (Detach u) = (u \<noteq> t)"
| "foreign_action t n (Register u c) = (u \<noteq> t \<and> u < n \<and> c = Foreign)"
| "foreign_action t n (PushReady c) = (c = Foreign)"
| "foreign_action t n Close = False"
| "foreign_action t n a = True"

text \<open>One critical section of one thread.\<close>

inductive op_step :: "'v System \<Rightarrow> 'v System \<Rightarrow> bool" where
  publish: "publish result (operation s) = (op', ok, pending) \<Longrightarrow>
     op_step s (s\<lparr>operation := op', publishing := (if pending = None then publishing s else pending)\<rparr>)"
| retire: "retire (operation s) = (op', pending) \<Longrightarrow>
     op_step s (s\<lparr>operation := op', publishing := (if pending = None then publishing s else pending)\<rparr>)"
| announce: "publishing s = Some t \<Longrightarrow> op_step s (s\<lparr>queue := fst (enqueue t (queue s)), publishing := None\<rparr>)"
| cancel: "op_step s (s\<lparr>operation := fst (request_cancel (operation s))\<rparr>)"
| advance: "transport (operation s) \<le> phase \<Longrightarrow> phase \<noteq> tp_retired \<Longrightarrow>
     op_step s (s\<lparr>operation := advance_transport phase (operation s)\<rparr>)"
| abandon: "client s = Holding \<Longrightarrow>
     op_step s (s\<lparr>operation := detach_unselected (operation s), client := Gone\<rparr>)"
| select: "client s = Holding \<Longrightarrow> take_token (queue s) = (q', t) \<Longrightarrow>
     op_step s (s\<lparr>queue := q', token := t, operation := select_callback t (operation s), client := Selected\<rparr>)"
| register: "client s = Selected \<Longrightarrow> register_record (token s) Mine (queue s) = (q', True) \<Longrightarrow>
     op_step s (s\<lparr>queue := q', client := Registered\<rparr>)"
| refused: "client s = Selected \<Longrightarrow> register_record (token s) Mine (queue s) = (q', False) \<Longrightarrow>
     op_step s (s\<lparr>queue := q', client := Gone, discarded := True\<rparr>)"
| check: "client s = Registered \<Longrightarrow>
     op_step s (s\<lparr>client := (if outcome (operation s) \<noteq> None then Checked else Subscribed)\<rparr>)"
| recheck: "client s = Checked \<Longrightarrow>
     op_step s (s\<lparr>queue := fst (enqueue (token s) (queue s)), client := Subscribed\<rparr>)"
| unsubscribe: "client s = Subscribed \<Longrightarrow>
     op_step s (s\<lparr>queue := detach (token s) (queue s), client := Gone, discarded := discarded s \<or> registered s\<rparr>)"
| claim: "claim_ready (queue s) = (q', Some (t, c)) \<Longrightarrow>
     op_step s (s\<lparr>queue := q', claimed := claimed s \<or> c = Mine\<rparr>)"
| discard: "claim_ready (queue s) = (q', Some (t, c)) \<Longrightarrow>
     op_step s (s\<lparr>queue := q', discarded := discarded s \<or> c = Mine\<rparr>)"
| deliver: "claimed s \<Longrightarrow> outcome (operation s) = Some r \<Longrightarrow>
     op_step s (s\<lparr>operation := take_callback (token s) (operation s), claimed := False, received := received s @ [r]\<rparr>)"
| drop: "discarded s \<Longrightarrow>
     op_step s (s\<lparr>operation := detach_callback (token s) (operation s), discarded := False\<rparr>)"
| close: "op_step s (s\<lparr>queue := close_queue (queue s), discarded := discarded s \<or> (registered s \<and> \<not> queue_closed (queue s))\<rparr>)"
| foreign: "foreign_action (token s) (next_token (queue s)) a \<Longrightarrow> op_step s (s\<lparr>queue := act a (queue s)\<rparr>)"
| block: "client s = Holding \<Longrightarrow> op_step s (s\<lparr>operation := select_blocking (operation s), client := Blocking\<rparr>)"
| wait: "client s = Blocking \<Longrightarrow> op_step s (s\<lparr>operation := begin_wait (operation s), client := Waiting\<rparr>)"
| wake: "client s = Waiting \<Longrightarrow> outcome (operation s) = Some r \<Longrightarrow>
     op_step s (s\<lparr>operation := end_wait (operation s), client := Gone, received := received s @ [r]\<rparr>)"

inductive_simps op_step_iff: "op_step s s'"


inductive op_reachable :: "'v System \<Rightarrow> bool" where
  start: "op_reachable (new_system (new_queue pipe_made))"
| step: "op_reachable s \<Longrightarrow> op_step s s' \<Longrightarrow> op_reachable s'"

section \<open>The invariant\<close>

definition view :: "'v System \<Rightarrow> Lease QueueSpec" where
  "view s = abstract (queue s)"

text \<open>This operation's lease waits in the queue, or is ready there.\<close>

definition waits :: "'v System \<Rightarrow> bool" where
  "waits s \<longleftrightarrow> waiting (view s) (token s) \<noteq> None"

definition lies_ready :: "'v System \<Rightarrow> bool" where
  "lies_ready s \<longleftrightarrow> (token s, Mine) \<in> set (lined (view s))"

definition leases_ok :: "nat \<Rightarrow> Lease QueueSpec \<Rightarrow> bool" where
  "leases_ok t a \<longleftrightarrow> distinct (map fst (lined a)) \<and>
     (\<forall>u c. waiting a u = Some c \<longrightarrow> u < issued a \<and> (c = Mine \<longleftrightarrow> u = t) \<and> (\<forall>d. (u, d) \<notin> set (lined a))) \<and>
     (\<forall>u c. (u, c) \<in> set (lined a) \<longrightarrow> u < issued a \<and> (c = Mine \<longleftrightarrow> u = t)) \<and>
     t < issued a \<and> (shut a \<longrightarrow> lined a = [] \<and> waiting a = (\<lambda>_. None))"

definition queue_side :: "'v System \<Rightarrow> bool" where
  "queue_side s \<longleftrightarrow> (\<exists>xs. queue_ok (queue s) xs) \<and> leases_ok (token s) (view s)"

definition lease_count :: "'v System \<Rightarrow> nat" where
  "lease_count s = (if client s = Selected then 1 else 0) + (if waits s then 1 else 0) +
     (if lies_ready s then 1 else 0) + (if claimed s then 1 else 0) + (if discarded s then 1 else 0)"

definition observer_side :: "'v System \<Rightarrow> bool" where
  "observer_side s \<longleftrightarrow>
     lease_count s = (if observer (operation s) = ob_callback then 1 else 0) \<and>
     (observer (operation s) = ob_unselected \<longleftrightarrow> client s = Holding) \<and>
     (observer (operation s) = ob_blocking \<longleftrightarrow> client s = Blocking) \<and>
     (observer (operation s) = ob_blocking_waiting \<longleftrightarrow> client s = Waiting) \<and>
     (observer (operation s) = ob_callback \<longrightarrow>
        observer_token (operation s) = token s \<and> relay_token (relay (operation s)) = Some (token s)) \<and>
     (observer (operation s) \<noteq> ob_callback \<longrightarrow> relay_token (relay (operation s)) = None) \<and>
     received s = (if observer (operation s) = ob_delivered then [the (outcome (operation s))] else []) \<and>
     (observer (operation s) = ob_delivered \<longrightarrow> outcome (operation s) \<noteq> None)"

definition completion_side :: "'v System \<Rightarrow> bool" where
  "completion_side s \<longleftrightarrow>
     (lies_ready s \<or> claimed s \<or> client s = Checked \<or> publishing s \<noteq> None \<longrightarrow> outcome (operation s) \<noteq> None) \<and>
     (publishing s \<noteq> None \<longrightarrow> publishing s = Some (token s) \<and> client s \<notin> {Holding, Blocking, Waiting}) \<and>
     (waits s \<and> outcome (operation s) \<noteq> None \<longrightarrow> publishing s = Some (token s) \<or> client s \<in> {Registered, Checked})"

definition operation_ok :: "'v OperationState \<Rightarrow> bool" where
  "operation_ok op \<longleftrightarrow>
      (outcome op = None \<longrightarrow> abandoned_outcome op = Some make_abandoned_outcome) \<and>
      (transport op = tp_retired \<longleftrightarrow> relay_retired (relay op)) \<and>
      (transport op = tp_retired \<longrightarrow> outcome op \<noteq> None) \<and>
      (outcome_marked (relay op) \<longrightarrow> outcome op \<noteq> None) \<and>
      (outcome op \<noteq> None \<longrightarrow> outcome_marked (relay op) \<or> relay_retired (relay op)) \<and>
      (relay_hooks (relay op) \<longleftrightarrow> \<not> relay_retired (relay op)) \<and>
      (admission_released op \<longleftrightarrow> transport op = tp_retired \<and> observer op \<in> {ob_detached, ob_delivered}) \<and>
      releases op = (if admission_released op then 1 else 0) \<and>
      wakes op = (if cancellation_requested (relay op) then 1 else 0)"

definition system_ok :: "'v System \<Rightarrow> bool" where
  "system_ok s \<longleftrightarrow> queue_side s \<and> observer_side s \<and> completion_side s \<and> operation_ok (operation s)"

lemmas side_defs = observer_side_def completion_side_def lease_count_def

lemma release_hook_simps [simp]:
  "outcome (release_hook_locked s) = outcome s" "abandoned_outcome (release_hook_locked s) = abandoned_outcome s"
  "relay (release_hook_locked s) = relay s" "observer_token (release_hook_locked s) = observer_token s"
  "observer (release_hook_locked s) = observer s" "transport (release_hook_locked s) = transport s"
  "wakes (release_hook_locked s) = wakes s"
  by (simp_all add: release_hook_locked_def)

lemma request_cancel_simps [simp]:
  "outcome (fst (request_cancel s)) = outcome s" "observer (fst (request_cancel s)) = observer s"
  "observer_token (fst (request_cancel s)) = observer_token s"
  "relay_token (relay (fst (request_cancel s))) = relay_token (relay s)"
  by (simp_all add: request_cancel_def Let_def)

text \<open>The operation on its own.\<close>

lemma finish_callback_simps [simp]:
  "relay_hooks (finish_callback t r) = relay_hooks r" "cancellation_requested (finish_callback t r) = cancellation_requested r"
  "outcome_marked (finish_callback t r) = outcome_marked r" "relay_retired (finish_callback t r) = relay_retired r"
  "relay_token r = Some t \<Longrightarrow> relay_token (finish_callback t r) = None"
  by (simp_all add: finish_callback_def)

lemma operation_ok_steps:
  assumes ok: "operation_ok op"
  shows "operation_ok (fst (publish r op))" "operation_ok (fst (retire op))" "operation_ok (fst (request_cancel op))"
    and "transport op \<le> phase \<Longrightarrow> phase \<noteq> tp_retired \<Longrightarrow> operation_ok (advance_transport phase op)"
    and "operation_ok (detach_unselected op)" "operation_ok (detach_callback t op)"
    and "observer op \<notin> {ob_detached, ob_delivered} \<Longrightarrow> operation_ok (select_callback t op)"
    and "observer op \<notin> {ob_detached, ob_delivered} \<Longrightarrow> operation_ok (select_blocking op)"
    and "observer op \<notin> {ob_detached, ob_delivered} \<Longrightarrow> operation_ok (begin_wait op)"
    and "observer op \<notin> {ob_detached, ob_delivered} \<Longrightarrow> operation_ok (take_callback t op)"
    and "observer op \<notin> {ob_detached, ob_delivered} \<Longrightarrow> operation_ok (end_wait op)"
proof -
  show "operation_ok (fst (publish r op))"
    using ok by (auto simp: operation_ok_def publish_def)
  show "operation_ok (fst (retire op))"
    using ok by (auto simp: operation_ok_def retire_def Let_def release_hook_locked_def)
  show "operation_ok (fst (request_cancel op))"
    using ok by (auto simp: operation_ok_def request_cancel_def Let_def)
  show "operation_ok (advance_transport phase op)" if "transport op \<le> phase" "phase \<noteq> tp_retired"
  proof -
    have "transport op \<noteq> tp_retired"
      using that by (cases phase) (auto simp: less_eq_TransportPhase_def)
    then show ?thesis using ok that by (auto simp: operation_ok_def advance_transport_def)
  qed
qed (use ok in \<open>auto simp: operation_ok_def detach_unselected_def detach_callback_def select_callback_def
  select_blocking_def begin_wait_def take_callback_def end_wait_def release_hook_locked_def\<close>)

text \<open>The queue on its own, at the level of its specification.\<close>

lemma img_fst: "(u, d) \<in> S \<Longrightarrow> u \<in> fst ` S"
  by force

lemma leases_okI:
  assumes "distinct (map fst (lined a))"
    and "\<And>u c. waiting a u = Some c \<Longrightarrow> u < issued a \<and> (c = Mine \<longleftrightarrow> u = t) \<and> (\<forall>d. (u, d) \<notin> set (lined a))"
    and "\<And>u c. (u, c) \<in> set (lined a) \<Longrightarrow> u < issued a \<and> (c = Mine \<longleftrightarrow> u = t)" "t < issued a"
    and "shut a \<Longrightarrow> lined a = [] \<and> waiting a = (\<lambda>_. None)"
  shows "leases_ok t a"
  using assms unfolding leases_ok_def by blast

lemma leases_okD:
  assumes "leases_ok t a"
  shows "distinct (map fst (lined a))"
    and "\<And>u c. waiting a u = Some c \<Longrightarrow> u < issued a \<and> (c = Mine \<longleftrightarrow> u = t) \<and> (\<forall>d. (u, d) \<notin> set (lined a))"
    and "\<And>u c. (u, c) \<in> set (lined a) \<Longrightarrow> u < issued a \<and> (c = Mine \<longleftrightarrow> u = t)" "t < issued a"
    and "shut a \<Longrightarrow> lined a = [] \<and> waiting a = (\<lambda>_. None)"
  using assms unfolding leases_ok_def by blast+

lemma leases_fresh:
  assumes "leases_ok t a"
  shows "waiting a (issued a) = None" "issued a \<notin> fst ` set (lined a)"
  using leases_okD(2,3) [OF assms, of "issued a"] by (cases "waiting a (issued a)", auto)

lemma leases_line_up:
  assumes ok: "leases_ok t a" and w: "waiting a u = Some c"
  shows "leases_ok t (a\<lparr>waiting := (waiting a)(u := None), lined := lined a @ [(u, c)]\<rparr>)"
proof (rule leases_okI)
  note d = leases_okD [OF ok]
  show "distinct (map fst (lined (a\<lparr>waiting := (waiting a)(u := None), lined := lined a @ [(u, c)]\<rparr>)))"
    using d(1) d(2) [OF w] by auto
  show "v < issued (a\<lparr>waiting := (waiting a)(u := None), lined := lined a @ [(u, c)]\<rparr>) \<and> (e = Mine \<longleftrightarrow> v = t)"
    if "(v, e) \<in> set (lined (a\<lparr>waiting := (waiting a)(u := None), lined := lined a @ [(u, c)]\<rparr>))" for v e
    using that d(3) [of v e] d(2) [OF w] by auto
  show "shut (a\<lparr>waiting := (waiting a)(u := None), lined := lined a @ [(u, c)]\<rparr>) \<Longrightarrow>
      lined (a\<lparr>waiting := (waiting a)(u := None), lined := lined a @ [(u, c)]\<rparr>) = [] \<and>
      waiting (a\<lparr>waiting := (waiting a)(u := None), lined := lined a @ [(u, c)]\<rparr>) = (\<lambda>_. None)"
    using d(5) w by simp
qed (use leases_okD(2,4) [OF ok] w in \<open>auto split: if_splits\<close>)

lemma leases_remove:
  assumes ok: "leases_ok t a"
  shows "leases_ok t (a\<lparr>waiting := (waiting a)(u := None), lined := filter (\<lambda>w. fst w \<noteq> u) (lined a)\<rparr>)"
  using leases_okD [OF ok] by (intro leases_okI) (auto simp: distinct_map_filter split: if_splits)

lemma leases_issue:
  assumes ok: "leases_ok t a"
  shows "leases_ok t (a\<lparr>issued := Suc (issued a)\<rparr>)"
  using leases_okD [OF ok] by (intro leases_okI) (auto simp: less_SucI)

lemma leases_register:
  assumes ok: "leases_ok t a" and new: "\<not> shut a" "waiting a u = None" "u \<notin> fst ` set (lined a)" "u < issued a" "c = Mine \<longleftrightarrow> u = t"
  shows "leases_ok t (a\<lparr>waiting := (waiting a)(u \<mapsto> c)\<rparr>)"
  using leases_okD [OF ok] new by (intro leases_okI) (auto dest: img_fst split: if_splits)

lemma leases_push:
  assumes ok: "leases_ok t a" and o: "\<not> shut a"
  shows "leases_ok t (a\<lparr>issued := Suc (issued a), lined := lined a @ [(issued a, Foreign)]\<rparr>)"
proof (rule leases_okI)
  note d = leases_okD [OF ok]
  show "distinct (map fst (lined (a\<lparr>issued := Suc (issued a), lined := lined a @ [(issued a, Foreign)]\<rparr>)))"
    using d(1) leases_fresh [OF ok] by auto
qed (use leases_okD [OF ok] leases_fresh [OF ok] o in \<open>auto simp: less_SucI\<close>)

lemma leases_foreign:
  assumes ok: "leases_ok t a" and f: "foreign_action t (issued a) x"
  shows "leases_ok t (spec_act x a) \<and> waiting (spec_act x a) t = waiting a t \<and>
    ((t, Mine) \<in> set (lined (spec_act x a)) \<longleftrightarrow> (t, Mine) \<in> set (lined a))"
proof (cases x)
  case (Enqueue u)
  then show ?thesis using ok f leases_line_up [OF ok, of u] by (auto split: option.split)
next
  case (Detach u)
  then show ?thesis using ok f leases_remove [OF ok, of u] by auto
next
  case NextToken
  then show ?thesis using leases_issue [OF ok] by simp
next
  case (Register u c)
  then show ?thesis using ok f leases_register [OF ok, of u c] by (auto simp del: image_iff)
next
  case (PushReady c)
  then show ?thesis
    using f ok leases_issue [OF ok] leases_push [OF ok] leases_okD(4) [OF ok] by auto
qed (use ok f in auto)

lemma leases_enqueue:
  assumes ok: "leases_ok t a"
  shows "leases_ok t (spec_act (Enqueue t) a)" "waiting (spec_act (Enqueue t) a) t = None"
    "(t, Mine) \<in> set (lined (spec_act (Enqueue t) a)) \<longleftrightarrow> (t, Mine) \<in> set (lined a) \<or> waiting a t \<noteq> None"
  using ok leases_line_up [OF ok, of t] leases_okD(2) [OF ok, of t] by (auto split: option.split)

lemma leases_detach:
  assumes "leases_ok t a"
  shows "leases_ok t (spec_act (Detach t) a)" "waiting (spec_act (Detach t) a) t = None"
    "(t, Mine) \<notin> set (lined (spec_act (Detach t) a))"
  using leases_remove [OF assms] by auto

lemma leases_close:
  assumes "leases_ok t a"
  shows "leases_ok t (spec_act Close a)" "waiting (spec_act Close a) t = None" "lined (spec_act Close a) = []"
  using leases_okD(4) [OF assms] by (auto simp: leases_ok_def)

lemma leases_select:
  assumes ok: "leases_ok t a" and none: "waiting a t = None" "(t, Mine) \<notin> set (lined a)"
  shows "leases_ok (issued a) (a\<lparr>issued := Suc (issued a)\<rparr>)"
proof (rule leases_okI)
  note d = leases_okD [OF ok]
  show "u < issued (a\<lparr>issued := Suc (issued a)\<rparr>) \<and> (c = Mine \<longleftrightarrow> u = issued a) \<and> (\<forall>d. (u, d) \<notin> set (lined (a\<lparr>issued := Suc (issued a)\<rparr>)))"
    if "waiting (a\<lparr>issued := Suc (issued a)\<rparr>) u = Some c" for u c
    using d(2) [of u c] that none by auto
  show "u < issued (a\<lparr>issued := Suc (issued a)\<rparr>) \<and> (c = Mine \<longleftrightarrow> u = issued a)"
    if "(u, c) \<in> set (lined (a\<lparr>issued := Suc (issued a)\<rparr>))" for u c
    using d(3) [of u c] that none by auto
qed (use leases_okD [OF ok] in auto)

lemma leases_claim:
  assumes ok: "leases_ok t a" and l: "lined a = (u, c) # ws"
  shows "leases_ok t (a\<lparr>lined := ws\<rparr>)" "(t, Mine) \<in> set ws \<longleftrightarrow> (t, Mine) \<in> set (lined a) \<and> c \<noteq> Mine"
    "c = Mine \<Longrightarrow> (t, Mine) \<in> set (lined a)"
proof -
  note d = leases_okD [OF ok, unfolded l]
  show "leases_ok t (a\<lparr>lined := ws\<rparr>)"
    by (rule leases_okI) (use d in auto)
  show "(t, Mine) \<in> set ws \<longleftrightarrow> (t, Mine) \<in> set (lined a) \<and> c \<noteq> Mine" "c = Mine \<Longrightarrow> (t, Mine) \<in> set (lined a)"
    using d(1) d(3) [of u c] by (auto simp: l dest: img_fst)
qed

section \<open>Every step keeps the invariant\<close>

lemma view_act:
  assumes "queue_side s"
  shows "abstract (act a (queue s)) = spec_act a (view s)" and "\<exists>xs. queue_ok (act a (queue s)) xs"
  using assms act_abstract act_evolves evolves_ok unfolding queue_side_def view_def by blast+

lemma view_claim:
  assumes "queue_side s" "claim_ready (queue s) = (q', Some (t, c))"
  shows "\<exists>ws. lined (view s) = (t, c) # ws \<and> abstract q' = (view s)\<lparr>lined := ws\<rparr>" and "\<exists>xs. queue_ok q' xs"
proof -
  obtain xs where ok: "queue_ok (queue s) xs" using assms(1) by (auto simp: queue_side_def)
  show "\<exists>ws. lined (view s) = (t, c) # ws \<and> abstract q' = (view s)\<lparr>lined := ws\<rparr>"
    using claim_abstract [OF ok] assms(2) by (auto simp: spec_claim_def view_def split: list.splits)
  show "\<exists>xs. queue_ok q' xs"
  proof (cases xs)
    case Nil
    then show ?thesis using ok assms(2) by (auto simp: claim_ready_def queue_ok_def)
  next
    case (Cons u us)
    then show ?thesis using claim_work [of "queue s" u us] ok assms(2) by auto
  qed
qed

lemma view_simps:
  "issued (view s) = next_token (queue s)" "shut (view s) = queue_closed (queue s)"
  by (simp_all add: view_def abstract_def)

lemma registered_iff:
  assumes "queue_side s"
  shows "registered s \<longleftrightarrow> waits s \<or> lies_ready s"
proof -
  obtain xs where ok: "queue_ok (queue s) xs" and l: "leases_ok (token s) (view s)"
    using assms by (auto simp: queue_side_def)
  have "token s \<in> fst ` set (lined (view s)) \<longleftrightarrow> lies_ready s"
    using leases_okD(3) [OF l, of "token s"] by (force simp: lies_ready_def)
  then show ?thesis
    using abstract_waiting [OF ok, of "token s"] by (auto simp: registered_def waits_def view_def)
qed

lemma frame_simps [simp]:
  "waits (s\<lparr>operation := xop\<rparr>) = waits s" "lies_ready (s\<lparr>operation := xop\<rparr>) = lies_ready s" "queue_side (s\<lparr>operation := xop\<rparr>) = queue_side s"
  "waits (s\<lparr>client := xcl\<rparr>) = waits s" "lies_ready (s\<lparr>client := xcl\<rparr>) = lies_ready s" "queue_side (s\<lparr>client := xcl\<rparr>) = queue_side s"
  "waits (s\<lparr>publishing := xpu\<rparr>) = waits s" "lies_ready (s\<lparr>publishing := xpu\<rparr>) = lies_ready s" "queue_side (s\<lparr>publishing := xpu\<rparr>) = queue_side s"
  "waits (s\<lparr>claimed := xcm\<rparr>) = waits s" "lies_ready (s\<lparr>claimed := xcm\<rparr>) = lies_ready s" "queue_side (s\<lparr>claimed := xcm\<rparr>) = queue_side s"
  "waits (s\<lparr>discarded := xdi\<rparr>) = waits s" "lies_ready (s\<lparr>discarded := xdi\<rparr>) = lies_ready s" "queue_side (s\<lparr>discarded := xdi\<rparr>) = queue_side s"
  "waits (s\<lparr>received := xre\<rparr>) = waits s" "lies_ready (s\<lparr>received := xre\<rparr>) = lies_ready s" "queue_side (s\<lparr>received := xre\<rparr>) = queue_side s"
  by (simp_all add: waits_def lies_ready_def queue_side_def view_def)


lemma one_lease:
  assumes "observer_side s"
  shows "observer (operation s) \<noteq> ob_callback \<Longrightarrow> client s \<noteq> Selected \<and> \<not> waits s \<and> \<not> lies_ready s \<and> \<not> claimed s \<and> \<not> discarded s"
    and "client s = Selected \<Longrightarrow> observer (operation s) = ob_callback \<and> \<not> waits s \<and> \<not> lies_ready s \<and> \<not> claimed s \<and> \<not> discarded s"
    and "waits s \<Longrightarrow> observer (operation s) = ob_callback \<and> client s \<noteq> Selected \<and> \<not> lies_ready s \<and> \<not> claimed s \<and> \<not> discarded s"
    and "lies_ready s \<Longrightarrow> observer (operation s) = ob_callback \<and> client s \<noteq> Selected \<and> \<not> waits s \<and> \<not> claimed s \<and> \<not> discarded s"
    and "claimed s \<Longrightarrow> observer (operation s) = ob_callback \<and> client s \<noteq> Selected \<and> \<not> waits s \<and> \<not> lies_ready s \<and> \<not> discarded s"
    and "discarded s \<Longrightarrow> observer (operation s) = ob_callback \<and> client s \<noteq> Selected \<and> \<not> waits s \<and> \<not> lies_ready s \<and> \<not> claimed s"
proof -
  have "lease_count s = (if observer (operation s) = ob_callback then 1 else 0)"
    using assms by (simp add: observer_side_def)
  then show "observer (operation s) \<noteq> ob_callback \<Longrightarrow> client s \<noteq> Selected \<and> \<not> waits s \<and> \<not> lies_ready s \<and> \<not> claimed s \<and> \<not> discarded s"
    and "client s = Selected \<Longrightarrow> observer (operation s) = ob_callback \<and> \<not> waits s \<and> \<not> lies_ready s \<and> \<not> claimed s \<and> \<not> discarded s"
    and "waits s \<Longrightarrow> observer (operation s) = ob_callback \<and> client s \<noteq> Selected \<and> \<not> lies_ready s \<and> \<not> claimed s \<and> \<not> discarded s"
    and "lies_ready s \<Longrightarrow> observer (operation s) = ob_callback \<and> client s \<noteq> Selected \<and> \<not> waits s \<and> \<not> claimed s \<and> \<not> discarded s"
    and "claimed s \<Longrightarrow> observer (operation s) = ob_callback \<and> client s \<noteq> Selected \<and> \<not> waits s \<and> \<not> lies_ready s \<and> \<not> discarded s"
    and "discarded s \<Longrightarrow> observer (operation s) = ob_callback \<and> client s \<noteq> Selected \<and> \<not> waits s \<and> \<not> lies_ready s \<and> \<not> claimed s"
    by (simp_all add: lease_count_def split: if_splits)
qed

lemma step_publish:
  assumes ok: "system_ok s" and p: "publish result (operation s) = (op', done', pending)"
  shows "system_ok (s\<lparr>operation := op', publishing := (if pending = None then publishing s else pending)\<rparr>)"
  using ok operation_ok_steps(1) [of "operation s" result] p
  by (auto simp: system_ok_def side_defs publish_def split: if_splits)

lemma step_retire:
  assumes ok: "system_ok s" and p: "retire (operation s) = (op', pending)"
  shows "system_ok (s\<lparr>operation := op', publishing := (if pending = None then publishing s else pending)\<rparr>)"
proof -
  have "operation_ok op'" using operation_ok_steps(2) [of "operation s"] ok p by (simp add: system_ok_def)
  moreover have "outcome (operation s) = None \<Longrightarrow> abandoned_outcome (operation s) = Some make_abandoned_outcome"
    using ok by (simp add: system_ok_def operation_ok_def)
  ultimately show ?thesis
    using ok p by (auto simp: system_ok_def side_defs retire_def Let_def split: if_splits)
qed


lemma step_client:
  assumes ok: "system_ok s"
  shows "system_ok (s\<lparr>operation := fst (request_cancel (operation s))\<rparr>)"
    and "transport (operation s) \<le> phase \<Longrightarrow> phase \<noteq> tp_retired \<Longrightarrow>
      system_ok (s\<lparr>operation := advance_transport phase (operation s)\<rparr>)"
proof -
  have op: "operation_ok (operation s)"
    using ok by (simp_all add: system_ok_def)
  show "system_ok (s\<lparr>operation := fst (request_cancel (operation s))\<rparr>)"
    using ok operation_ok_steps(3) [OF op] by (simp add: system_ok_def side_defs)
  show "system_ok (s\<lparr>operation := advance_transport phase (operation s)\<rparr>)"
    if "transport (operation s) \<le> phase" "phase \<noteq> tp_retired"
    using ok operation_ok_steps(4) [OF op that] by (simp add: system_ok_def side_defs advance_transport_def)
qed

lemma step_holding:
  assumes ok: "system_ok s" and c: "client s = Holding"
  shows "system_ok (s\<lparr>operation := detach_unselected (operation s), client := Gone\<rparr>)"
    and "system_ok (s\<lparr>operation := select_blocking (operation s), client := Blocking\<rparr>)"
proof -
  have op: "operation_ok (operation s)" and u: "observer (operation s) = ob_unselected"
    using ok c by (simp_all add: system_ok_def observer_side_def)
  have none: "\<not> waits s" "\<not> lies_ready s" "\<not> claimed s" "\<not> discarded s"
    using one_lease(1) [of s] ok u by (simp_all add: system_ok_def)
  show "system_ok (s\<lparr>operation := detach_unselected (operation s), client := Gone\<rparr>)"
    using ok c u none operation_ok_steps(5) [OF op]
    by (simp add: system_ok_def side_defs detach_unselected_def split: option.splits)
  show "system_ok (s\<lparr>operation := select_blocking (operation s), client := Blocking\<rparr>)"
    using ok c u none operation_ok_steps(8) [OF op]
    by (simp add: system_ok_def side_defs select_blocking_def split: option.splits)
qed

lemma step_blocking:
  assumes ok: "system_ok s"
  shows "client s = Blocking \<Longrightarrow> system_ok (s\<lparr>operation := begin_wait (operation s), client := Waiting\<rparr>)"
    and "client s = Waiting \<Longrightarrow> outcome (operation s) = Some r \<Longrightarrow>
      system_ok (s\<lparr>operation := end_wait (operation s), client := Gone, received := received s @ [r]\<rparr>)"
proof -
  have op: "operation_ok (operation s)" and o: "observer_side s"
    using ok by (simp_all add: system_ok_def)
  have none: "\<not> waits s \<and> \<not> lies_ready s \<and> \<not> claimed s \<and> \<not> discarded s" if "client s = Blocking \<or> client s = Waiting"
    using one_lease(1) [OF o] o that by (auto simp: observer_side_def)
  show "system_ok (s\<lparr>operation := begin_wait (operation s), client := Waiting\<rparr>)" if c: "client s = Blocking"
  proof -
    have "observer (operation s) = ob_blocking" using o c by (simp add: observer_side_def)
    then show ?thesis
      using ok c none operation_ok_steps(9) [OF op]
      by (simp add: system_ok_def side_defs begin_wait_def split: option.splits)
  qed
  show "system_ok (s\<lparr>operation := end_wait (operation s), client := Gone, received := received s @ [r]\<rparr>)"
    if c: "client s = Waiting" and r: "outcome (operation s) = Some r"
  proof -
    have "observer (operation s) = ob_blocking_waiting" using o c by (simp add: observer_side_def)
    then show ?thesis
      using ok c r none operation_ok_steps(11) [OF op]
      by (simp add: system_ok_def side_defs end_wait_def)
  qed
qed

lemma step_lease:
  assumes ok: "system_ok s"
  shows "claimed s \<Longrightarrow> outcome (operation s) = Some r \<Longrightarrow>
      system_ok (s\<lparr>operation := take_callback (token s) (operation s), claimed := False, received := received s @ [r]\<rparr>)"
    and "discarded s \<Longrightarrow>
      system_ok (s\<lparr>operation := detach_callback (token s) (operation s), discarded := False\<rparr>)"
proof -
  have op: "operation_ok (operation s)" and o: "observer_side s"
    using ok by (simp_all add: system_ok_def)
  show "system_ok (s\<lparr>operation := take_callback (token s) (operation s), claimed := False, received := received s @ [r]\<rparr>)"
    if "claimed s" "outcome (operation s) = Some r"
    using ok that one_lease(5) [OF o that(1)] operation_ok_steps(10) [OF op]
    by (simp add: system_ok_def side_defs take_callback_def)
  show "system_ok (s\<lparr>operation := detach_callback (token s) (operation s), discarded := False\<rparr>)" if "discarded s"
    using ok that one_lease(6) [OF o that] operation_ok_steps(6) [OF op, of "token s"]
    by (simp add: system_ok_def side_defs detach_callback_def split: option.splits)
qed


text \<open>A step on the queue, by what it does to this operation's record.\<close>

lemma queue_step:
  assumes ok: "system_ok s" and q: "\<exists>xs. queue_ok q' xs" "leases_ok (token s) (abstract q')"
    and "queue s' = q'" "token s' = token s" "operation s' = operation s" "received s' = received s"
    and "client s' = client s \<or> (client s \<in> {Selected, Registered, Checked, Subscribed} \<and> client s' \<in> {Registered, Checked, Subscribed, Gone})"
    and "lease_count s' = lease_count s"
    and "publishing s' = publishing s \<or> publishing s' = None"
    and "lies_ready s' \<or> claimed s' \<or> client s' = Checked \<longrightarrow> outcome (operation s) \<noteq> None"
    and "waits s' \<longrightarrow> outcome (operation s) \<noteq> None \<longrightarrow> publishing s' = Some (token s) \<or> client s' \<in> {Registered, Checked}"
  shows "system_ok s'"
proof -
  have cl: "client s' = Holding \<longleftrightarrow> client s = Holding" "client s' = Blocking \<longleftrightarrow> client s = Blocking"
      "client s' = Waiting \<longleftrightarrow> client s = Waiting"
    using assms(8) by auto
  have "queue_side s'" using q assms(4,5) by (simp add: queue_side_def view_def)
  moreover have "observer_side s'"
    using ok assms(5-7,9) cl unfolding system_ok_def observer_side_def by simp
  moreover have "completion_side s'"
  proof -
    have "publishing s \<noteq> None \<Longrightarrow> outcome (operation s) \<noteq> None \<and> publishing s = Some (token s) \<and>
        client s \<notin> {Holding, Blocking, Waiting}"
      using ok unfolding system_ok_def completion_side_def by blast
    then have "publishing s' \<noteq> None \<Longrightarrow> outcome (operation s) \<noteq> None \<and> publishing s' = Some (token s) \<and>
        client s \<notin> {Holding, Blocking, Waiting}"
      using assms(10) by metis
    then show ?thesis
      using assms(11,12) cl unfolding completion_side_def assms(5,6) by blast
  qed
  ultimately show ?thesis using ok assms(6) by (simp add: system_ok_def)
qed

lemma step_check:
  assumes ok: "system_ok s" and c: "client s = Registered"
  shows "system_ok (s\<lparr>client := (if outcome (operation s) \<noteq> None then Checked else Subscribed)\<rparr>)"
proof -
  have q: "\<exists>xs. queue_ok (queue s) xs" "leases_ok (token s) (abstract (queue s))"
    and r: "lies_ready s \<or> claimed s \<longrightarrow> outcome (operation s) \<noteq> None"
    using ok by (auto simp: system_ok_def queue_side_def view_def completion_side_def)
  show ?thesis
    using c r by (intro queue_step [OF ok q]) (auto simp: lease_count_def)
qed

lemma step_enqueue:
  assumes ok: "system_ok s" and p: "publishing s = Some t"
  shows "system_ok (s\<lparr>queue := fst (enqueue t (queue s)), publishing := None\<rparr>)"
proof -
  have q: "queue_side s" and l: "leases_ok (token s) (view s)" and t: "t = token s" and r: "outcome (operation s) \<noteq> None"
    using ok p by (auto simp: system_ok_def queue_side_def completion_side_def)
  note a = view_act [OF q, of "Enqueue (token s)"] and e = leases_enqueue [OF l]
  let ?s = "s\<lparr>queue := fst (enqueue t (queue s)), publishing := None\<rparr>"
  have w: "\<not> waits ?s" "lies_ready ?s \<longleftrightarrow> lies_ready s \<or> waits s"
    using a(1) e(2,3) t by (simp_all add: waits_def lies_ready_def view_def)
  have "\<not> (waits s \<and> lies_ready s)"
    using leases_okD(2) [OF l] by (auto simp: waits_def lies_ready_def)
  then have "lease_count ?s = lease_count s"
    using w by (auto simp: lease_count_def)
  then show ?thesis
    using w r a e(1) t by (intro queue_step [OF ok, where q' = "fst (enqueue t (queue s))"]) auto
qed


lemma step_recheck:
  assumes ok: "system_ok s" and c: "client s = Checked"
  shows "system_ok (s\<lparr>queue := fst (enqueue (token s) (queue s)), client := Subscribed\<rparr>)"
proof -
  have q: "queue_side s" and l: "leases_ok (token s) (view s)" and r: "outcome (operation s) \<noteq> None"
    using ok c by (auto simp: system_ok_def queue_side_def completion_side_def)
  note a = view_act [OF q, of "Enqueue (token s)"] and e = leases_enqueue [OF l]
  let ?s = "s\<lparr>queue := fst (enqueue (token s) (queue s)), client := Subscribed\<rparr>"
  have w: "\<not> waits ?s" "lies_ready ?s \<longleftrightarrow> lies_ready s \<or> waits s"
    using a(1) e(2,3) by (simp_all add: waits_def lies_ready_def view_def)
  have "\<not> (waits s \<and> lies_ready s)"
    using leases_okD(2) [OF l] by (auto simp: waits_def lies_ready_def)
  then have "lease_count ?s = lease_count s"
    using w c by (auto simp: lease_count_def)
  then show ?thesis
    using w r a e(1) c by (intro queue_step [OF ok, where q' = "fst (enqueue (token s) (queue s))"]) auto
qed

lemma step_foreign:
  assumes ok: "system_ok s" and f: "foreign_action (token s) (next_token (queue s)) a"
  shows "system_ok (s\<lparr>queue := act a (queue s)\<rparr>)"
proof -
  have q: "queue_side s" and l: "leases_ok (token s) (view s)"
    using ok by (auto simp: system_ok_def queue_side_def)
  note v = view_act [OF q, of a] and e = leases_foreign [OF l, of a, unfolded view_simps, OF f]
  let ?s = "s\<lparr>queue := act a (queue s)\<rparr>"
  have w: "waits ?s = waits s" "lies_ready ?s = lies_ready s"
    using v(1) e by (simp_all add: waits_def lies_ready_def view_def)
  then have "lease_count ?s = lease_count s"
    by (simp add: lease_count_def)
  moreover have "completion_side s" using ok by (simp add: system_ok_def)
  ultimately show ?thesis
    using w v e by (intro queue_step [OF ok, where q' = "act a (queue s)"]) (auto simp: completion_side_def)
qed

lemma step_claim:
  assumes ok: "system_ok s" and c: "claim_ready (queue s) = (q', Some (t, c))"
  shows "system_ok (s\<lparr>queue := q', claimed := claimed s \<or> c = Mine\<rparr>)"
    and "system_ok (s\<lparr>queue := q', discarded := discarded s \<or> c = Mine\<rparr>)"
proof -
  have q: "queue_side s" and l: "leases_ok (token s) (view s)" and cs: "completion_side s" and o: "observer_side s"
    using ok by (auto simp: system_ok_def queue_side_def)
  obtain ws where v: "lined (view s) = (t, c) # ws" "abstract q' = (view s)\<lparr>lined := ws\<rparr>" and ok': "\<exists>xs. queue_ok q' xs"
    using view_claim [OF q c] by blast
  note e = leases_claim [OF l v(1)]
  have w: "waits (s\<lparr>queue := q'\<rparr>) = waits s" "lies_ready (s\<lparr>queue := q'\<rparr>) = (lies_ready s \<and> c \<noteq> Mine)"
    using v e(2) by (simp_all add: waits_def lies_ready_def view_def)
  have mine: "c = Mine \<Longrightarrow> lies_ready s" using e(3) by (simp add: lies_ready_def)
  have out: "lies_ready s \<or> claimed s \<or> client s = Checked \<longrightarrow> outcome (operation s) \<noteq> None"
      "waits s \<longrightarrow> outcome (operation s) \<noteq> None \<longrightarrow> publishing s = Some (token s) \<or> client s \<in> {Registered, Checked}"
    using cs by (auto simp: completion_side_def)
  have "lease_count (s\<lparr>queue := q', claimed := claimed s \<or> c = Mine\<rparr>) = lease_count s"
    using w mine one_lease(4) [OF o] by (auto simp: lease_count_def)
  then show "system_ok (s\<lparr>queue := q', claimed := claimed s \<or> c = Mine\<rparr>)"
    using w v e(1) ok' out mine by (intro queue_step [OF ok, where q' = q']) simp_all
  have "lease_count (s\<lparr>queue := q', discarded := discarded s \<or> c = Mine\<rparr>) = lease_count s"
    using w mine one_lease(4) [OF o] by (auto simp: lease_count_def)
  then show "system_ok (s\<lparr>queue := q', discarded := discarded s \<or> c = Mine\<rparr>)"
    using w v e(1) ok' out mine by (intro queue_step [OF ok, where q' = q']) simp_all
qed

lemma step_remove:
  assumes ok: "system_ok s" and q': "\<exists>xs. queue_ok q' xs" "leases_ok (token s) (abstract q')"
    and gone: "\<not> waits (s\<lparr>queue := q'\<rparr>)" "\<not> lies_ready (s\<lparr>queue := q'\<rparr>)"
    and c: "c' = client s \<or> (client s = Subscribed \<and> c' = Gone)"
  shows "system_ok (s\<lparr>queue := q', client := c', discarded := discarded s \<or> registered s\<rparr>)"
proof -
  have q: "queue_side s" and cs: "completion_side s" and o: "observer_side s"
    using ok by (auto simp: system_ok_def)
  have "lease_count (s\<lparr>queue := q', client := c', discarded := discarded s \<or> registered s\<rparr>) = lease_count s"
    using gone c one_lease(3,4) [OF o] by (auto simp: lease_count_def registered_iff [OF q])
  moreover have "claimed s \<or> client s = Checked \<longrightarrow> outcome (operation s) \<noteq> None"
    using cs by (auto simp: completion_side_def)
  ultimately show ?thesis
    using q' gone c by (intro queue_step [OF ok, where q' = q']) auto
qed

lemma step_unsubscribe:
  assumes ok: "system_ok s" and c: "client s = Subscribed"
  shows "system_ok (s\<lparr>queue := detach (token s) (queue s), client := Gone, discarded := discarded s \<or> registered s\<rparr>)"
proof -
  have q: "queue_side s" and l: "leases_ok (token s) (view s)"
    using ok by (auto simp: system_ok_def queue_side_def)
  note v = view_act [OF q, of "Detach (token s)"] and e = leases_detach [OF l]
  show ?thesis
    using v e c by (intro step_remove [OF ok]) (simp_all add: waits_def lies_ready_def view_def)
qed

lemma step_close:
  assumes ok: "system_ok s"
  shows "system_ok (s\<lparr>queue := close_queue (queue s), discarded := discarded s \<or> (registered s \<and> \<not> queue_closed (queue s))\<rparr>)"
proof -
  have q: "queue_side s" and l: "leases_ok (token s) (view s)"
    using ok by (auto simp: system_ok_def queue_side_def)
  note v = view_act [OF q, of Close] and e = leases_close [OF l]
  have "queue_closed (queue s) \<Longrightarrow> \<not> registered s"
    using leases_okD(5) [OF l] registered_iff [OF q] by (simp add: view_simps waits_def lies_ready_def)
  then have "(registered s \<and> \<not> queue_closed (queue s)) = registered s"
    by blast
  then show ?thesis
    using v e step_remove [OF ok, where q' = "close_queue (queue s)" and c' = "client s"]
    by (simp add: waits_def lies_ready_def view_def)
qed


lemma step_select:
  assumes ok: "system_ok s" and c: "client s = Holding" and t: "take_token (queue s) = (q', t)"
  shows "system_ok (s\<lparr>queue := q', token := t, operation := select_callback t (operation s), client := Selected\<rparr>)"
proof -
  let ?s = "s\<lparr>queue := q', token := t, operation := select_callback t (operation s), client := Selected\<rparr>"
  have q: "queue_side s" and l: "leases_ok (token s) (view s)" and cs: "completion_side s" and o: "observer_side s"
    and op: "operation_ok (operation s)"
    using ok by (auto simp: system_ok_def queue_side_def)
  have u: "observer (operation s) = ob_unselected" using o c by (simp add: observer_side_def)
  then have none: "\<not> waits s" "\<not> lies_ready s" "\<not> claimed s" "\<not> discarded s"
    using one_lease(1) [OF o] by simp_all
  have p: "publishing s = None" using cs c by (auto simp: completion_side_def)
  have q': "q' = act NextToken (queue s)" "t = issued (view s)"
    using t by (auto simp: take_token_def view_simps)
  have v: "abstract q' = (view s)\<lparr>issued := Suc (issued (view s))\<rparr>" "\<exists>xs. queue_ok q' xs"
    using view_act [OF q, of NextToken] q'(1) by simp_all
  have "leases_ok t (abstract q')"
    using leases_select [OF l] none q'(2) v(1) by (simp add: waits_def lies_ready_def)
  then have "queue_side ?s" using v(2) by (simp add: queue_side_def view_def)
  moreover have w: "\<not> waits ?s" "\<not> lies_ready ?s"
    using leases_fresh [OF l] q'(2) v(1) by (auto simp: waits_def lies_ready_def view_def dest: img_fst)
  moreover have "observer_side ?s"
    using o c u none w unfolding observer_side_def lease_count_def by (simp add: select_callback_def)
  moreover have "completion_side ?s"
    using w none p unfolding completion_side_def by simp
  ultimately show ?thesis
    using operation_ok_steps(7) [OF op, of t] u by (simp add: system_ok_def)
qed

lemma step_register:
  assumes ok: "system_ok s" and c: "client s = Selected"
  shows "register_record (token s) Mine (queue s) = (q', True) \<Longrightarrow> system_ok (s\<lparr>queue := q', client := Registered\<rparr>)"
    and "register_record (token s) Mine (queue s) = (q', False) \<Longrightarrow>
      system_ok (s\<lparr>queue := q', client := Gone, discarded := True\<rparr>)"
proof -
  have q: "queue_side s" and l: "leases_ok (token s) (view s)" and cs: "completion_side s" and o: "observer_side s"
    using ok by (auto simp: system_ok_def queue_side_def)
  have none: "\<not> waits s" "\<not> lies_ready s" "\<not> claimed s" "\<not> discarded s"
    using one_lease(2) [OF o c] by simp_all
  have no_token: "waiting (view s) (token s) = None" "token s \<notin> fst ` set (lined (view s))"
    using none leases_okD(3) [OF l, of "token s"] by (force simp: waits_def lies_ready_def)+
  show "system_ok (s\<lparr>queue := q', client := Registered\<rparr>)" if r: "register_record (token s) Mine (queue s) = (q', True)"
  proof -
    let ?s = "s\<lparr>queue := q', client := Registered\<rparr>"
    have q': "q' = act (Register (token s) Mine) (queue s)" "\<not> shut (view s)"
      using r by (auto simp: register_record_def view_simps split: if_splits)
    have v: "abstract q' = (view s)\<lparr>waiting := (waiting (view s))(token s \<mapsto> Mine)\<rparr>" "\<exists>xs. queue_ok q' xs"
      using view_act [OF q, of "Register (token s) Mine"] q' no_token by simp_all
    have "leases_ok (token s) (abstract q')"
      unfolding v(1) using l q'(2) no_token leases_okD(4) [OF l] by (intro leases_register) simp_all
    moreover have w: "waits ?s" "\<not> lies_ready ?s"
      using v(1) none by (simp_all add: waits_def lies_ready_def view_def)
    moreover have "lease_count ?s = lease_count s"
      using w none c by (simp add: lease_count_def)
    ultimately show ?thesis
      using v none c by (intro queue_step [OF ok, where q' = q']) simp_all
  qed
  show "system_ok (s\<lparr>queue := q', client := Gone, discarded := True\<rparr>)"
    if r: "register_record (token s) Mine (queue s) = (q', False)"
  proof -
    have "q' = queue s" using r by (auto simp: register_record_def split: if_splits)
    moreover have "lease_count (s\<lparr>client := Gone, discarded := True\<rparr>) = lease_count s"
      using none c by (simp add: lease_count_def)
    moreover have "\<exists>xs. queue_ok (queue s) xs" "leases_ok (token s) (abstract (queue s))"
      using q by (simp_all add: queue_side_def view_def)
    ultimately show ?thesis
      using none c by (intro queue_step [OF ok, where q' = q']) simp_all
  qed
qed

lemmas step_ok = step_publish step_retire step_enqueue step_client step_holding step_blocking step_lease
  step_select step_register step_check step_recheck step_unsubscribe step_claim step_close step_foreign

lemma reachable_system_ok: "op_reachable s \<Longrightarrow> system_ok s"
proof (induction rule: op_reachable.induct)
  case (start pipe_made)
  have "queue_ok (new_queue pipe_made :: Lease QueueCore) []"
    by (simp add: new_queue_def queue_ok_def ready_locked_def)
  then have "queue_side (new_system (new_queue pipe_made))"
    by (auto simp: queue_side_def new_system_def view_def abstract_ok leases_ok_def)
      (auto simp: new_queue_def)
  then show ?case
    by (auto simp: system_ok_def observer_side_def completion_side_def operation_ok_def lease_count_def
        new_system_def new_operation_def waits_def lies_ready_def view_def abstract_def new_queue_def
        ready_work_def ready_tokens_def)
next
  case (step s s')
  from step.hyps(2) step.IH show ?case
    by (induction rule: op_step.induct) (simp_all only: step_ok simp_thms)
qed

section \<open>Properties\<close>

text \<open>C19. Under every interleaving of publishers, subscribers, dispatchers and the queue, an operation's observer
  receives at most one result, and it is the outcome: the first result published, or the failure recorded when the
  source retired. The checks the code makes by assertion hold wherever it makes them: a claimed record finds the
  outcome there and itself still the observer, and whoever chooses how to observe is the first to do so.\<close>

theorem delivered_once:
  assumes "op_reachable s"
  shows "(received s = [] \<or> (\<exists>r. received s = [r] \<and> outcome (operation s) = Some r)) \<and>
    (claimed s \<longrightarrow> outcome (operation s) \<noteq> None \<and> observer (operation s) = ob_callback \<and>
       observer_token (operation s) = token s \<and> received s = []) \<and>
    (client s = Holding \<longrightarrow> observer (operation s) = ob_unselected) \<and>
    (client s = Blocking \<longrightarrow> observer (operation s) = ob_blocking) \<and>
    (client s = Waiting \<longrightarrow> observer (operation s) = ob_blocking_waiting)"
proof -
  have ok: "observer_side s" "completion_side s"
    using reachable_system_ok [OF assms] by (simp_all add: system_ok_def)
  show ?thesis
    using ok one_lease(5) [OF ok(1)] by (auto simp: observer_side_def completion_side_def)
qed

text \<open>C3. No completion is lost. Once the outcome is there and nobody is in the middle of a step that concerns
  this operation, a subscription that still observes it is on the ready list of the queue, so the next dispatch
  reaches it, although publishing and registering are separate critical sections that may come in either order.\<close>

theorem completion_not_lost:
  assumes "op_reachable s" and "outcome (operation s) \<noteq> None" and "observer (operation s) = ob_callback"
    and "publishing s = None" and "client s \<in> {Subscribed, Gone}" and "\<not> claimed s" and "\<not> discarded s"
  shows "token s \<in> set (ready_tokens (queue s))"
proof -
  have ok: "queue_side s" "observer_side s" "completion_side s"
    using reachable_system_ok [OF assms(1)] by (simp_all add: system_ok_def)
  have "lease_count s = 1"
    using ok(2) assms(3) by (simp add: observer_side_def)
  moreover have "\<not> waits s"
    using ok(3) assms(2,4,5) by (auto simp: completion_side_def)
  ultimately have "lies_ready s"
    using assms(5-7) by (auto simp: lease_count_def split: if_splits)
  then show ?thesis
    by (auto simp: lies_ready_def view_def abstract_def ready_work_def work_def)
qed

text \<open>C20. The admission slot of an operation is given back exactly once: when its transport has retired and its
  observer is finished, whichever comes last, and never before. A cancellation wakes the reactor at most once and
  never after the source retired.\<close>

theorem admission_released_once:
  assumes "op_reachable s"
  shows "releases (operation s) =
      (if transport (operation s) = tp_retired \<and> observer (operation s) \<in> {ob_detached, ob_delivered} then 1 else 0) \<and>
    wakes (operation s) \<le> 1 \<and>
    (snd (request_cancel (operation s)) \<longrightarrow> wakes (operation s) = 0 \<and> relay_hooks (relay (operation s)))"
  using reachable_system_ok [OF assms]
  by (auto simp: system_ok_def operation_ok_def request_cancel_def Let_def split: if_splits)

text \<open>Retiring the source always leaves an outcome. If none was published it is a transport failure, which says
  that the command was not started exactly if the source never left the queue.\<close>

theorem retire_leaves_outcome:
  assumes "op_reachable s" and "retire (operation s) = (op', pending)"
  shows "outcome op' = (case outcome (operation s) of
      Some r \<Rightarrow> Some r
    | None \<Rightarrow> Some (Inl \<lparr>kind = pipe, delivery = (if transport (operation s) = tp_queued then not_started else indeterminate),
        exit_code = 0, diagnostic = ''operation source retired without an outcome''\<rparr>)) \<and>
    pending = (if outcome (operation s) = None \<and> observer (operation s) = ob_callback then Some (token s) else None) \<and>
    \<not> snd (request_cancel op')"
proof -
  have ok: "operation_ok (operation s)" "observer_side s"
    using reachable_system_ok [OF assms(1)] by (simp_all add: system_ok_def)
  have token: "observer (operation s) = ob_callback \<Longrightarrow> observer_token (operation s) = token s"
    using ok(2) by (simp add: observer_side_def)
  show ?thesis
  proof (cases "outcome (operation s)")
    case None
    then have "abandoned_outcome (operation s) = Some make_abandoned_outcome"
      using ok(1) by (simp add: operation_ok_def)
    then show ?thesis
      using None assms(2) token
      by (auto simp: retire_def Let_def make_abandoned_outcome_def request_cancel_def)
  next
    case (Some r)
    then show ?thesis
      using assms(2) by (auto simp: retire_def Let_def request_cancel_def)
  qed
qed


section \<open>Witnesses\<close>

text \<open>The outcome is published while the caller is between choosing its callback and registering the record, so
  the publisher finds nothing to enqueue; the record is then dispatched and the source retires.\<close>

definition sample_selected :: "nat System" where
  "sample_selected = (let s = new_system (new_queue True) in
     s\<lparr>queue := fst (take_token (queue s)), token := 1, operation := select_callback 1 (operation s), client := Selected\<rparr>)"

definition sample_published :: "nat System" where
  "sample_published = (let s = sample_selected in
     s\<lparr>operation := fst (publish (Inr 5) (operation s)), publishing := Some 1\<rparr>)"

definition sample_announced :: "nat System" where
  "sample_announced = (let s = sample_published in s\<lparr>queue := fst (enqueue 1 (queue s)), publishing := None\<rparr>)"

definition sample_subscribed :: "nat System" where
  "sample_subscribed = (let s = sample_announced\<lparr>queue := fst (register_record 1 Mine (queue sample_announced)), client := Checked\<rparr> in
     s\<lparr>queue := fst (enqueue (token s) (queue s)), client := Subscribed\<rparr>)"

definition sample_delivered :: "nat System" where
  "sample_delivered = (let s = sample_subscribed\<lparr>queue := fst (claim_ready (queue sample_subscribed)), claimed := True\<rparr> in
     s\<lparr>operation := take_callback (token s) (operation s), claimed := False, received := [Inr 5]\<rparr>)"

lemma sample_selected_reachable: "op_reachable sample_selected"
proof -
  have "take_token (new_queue True :: Lease QueueCore) = (fst (take_token (new_queue True)), 1)"
    by (simp add: take_token_def new_queue_def)
  then show ?thesis
    using op_reachable.step [OF op_reachable.start op_step.select, of True]
    by (simp add: sample_selected_def Let_def new_system_def)
qed

lemma sample_published_reachable: "op_reachable sample_published"
proof -
  have p: "publish (Inr 5) (operation sample_selected) = (fst (publish (Inr 5) (operation sample_selected)), True, Some 1)"
    by (simp add: sample_selected_def Let_def new_system_def new_operation_def publish_def select_callback_def)
  show ?thesis
    using op_reachable.step [OF sample_selected_reachable op_step.publish [OF p]]
    by (simp add: sample_published_def Let_def)
qed

lemma sample_announced_reachable: "op_reachable sample_announced"
  using op_reachable.step [OF sample_published_reachable op_step.announce [of _ 1]]
  by (simp add: sample_announced_def sample_published_def Let_def)

lemma sample_subscribed_reachable: "op_reachable sample_subscribed"
proof -
  let ?s = "sample_announced\<lparr>queue := fst (register_record 1 Mine (queue sample_announced)), client := Registered\<rparr>"
  have "token sample_announced = 1" "client sample_announced = Selected"
      and r: "snd (register_record (token sample_announced) Mine (queue sample_announced))"
      and o: "outcome (operation sample_announced) \<noteq> None"
    by code_simp+
  then have "op_reachable ?s"
    using op_reachable.step [OF sample_announced_reachable op_step.register [of sample_announced "fst (register_record 1 Mine (queue sample_announced))"]]
    by (simp add: prod_eq_iff)
  from op_reachable.step [OF this op_step.check]
  have "op_reachable (?s\<lparr>client := Checked\<rparr>)"
    using o by simp
  from op_reachable.step [OF this op_step.recheck] show ?thesis
    by (simp add: sample_subscribed_def Let_def)
qed

lemma sample_delivered_reachable: "op_reachable sample_delivered"
proof -
  let ?s = "sample_subscribed\<lparr>queue := fst (claim_ready (queue sample_subscribed)), claimed := True\<rparr>"
  have c: "snd (claim_ready (queue sample_subscribed)) = Some (1, Mine)"
      and o: "outcome (operation sample_subscribed) = Some (Inr 5)" and r: "received sample_subscribed = []"
    by code_simp+
  then have "op_reachable ?s"
    using op_reachable.step [OF sample_subscribed_reachable
        op_step.claim [of sample_subscribed "fst (claim_ready (queue sample_subscribed))" 1 Mine]]
    by (simp add: prod_eq_iff)
  from op_reachable.step [OF this op_step.deliver] show ?thesis
    using o r by (simp add: sample_delivered_def Let_def)
qed

theorem delivered_once_witness:
  "received sample_delivered = [Inr 5] \<and> outcome (operation sample_delivered) = Some (Inr 5)"
proof -
  have "received sample_delivered = [Inr 5]" by code_simp
  then show ?thesis using delivered_once [OF sample_delivered_reachable] by simp
qed

theorem completion_not_lost_witness:
  "token sample_subscribed = 1 \<and> token sample_subscribed \<in> set (ready_tokens (queue sample_subscribed))"
proof -
  have "token sample_subscribed = 1" and "outcome (operation sample_subscribed) \<noteq> None"
    and "observer (operation sample_subscribed) = ob_callback" and "publishing sample_subscribed = None"
    and "client sample_subscribed \<in> {Subscribed, Gone}" and "\<not> claimed sample_subscribed" and "\<not> discarded sample_subscribed"
    by code_simp+
  then show ?thesis using completion_not_lost [OF sample_subscribed_reachable] by blast
qed

theorem admission_released_once_witness:
  "releases (operation sample_delivered) = 0 \<and>
   releases (operation (sample_delivered\<lparr>operation := fst (retire (operation sample_delivered))\<rparr>)) = 1"
proof -
  let ?s = "sample_delivered\<lparr>operation := fst (retire (operation sample_delivered))\<rparr>"
  have "snd (retire (operation sample_delivered)) = None" by code_simp
  then have r: "retire (operation sample_delivered) = (fst (retire (operation sample_delivered)), None)"
    by (simp add: prod_eq_iff)
  have "op_reachable ?s"
    using op_reachable.step [OF sample_delivered_reachable op_step.retire [OF r]] by simp
  moreover have "transport (operation sample_delivered) = tp_queued" "transport (operation ?s) = tp_retired"
      "observer (operation ?s) = ob_delivered"
    by code_simp+
  ultimately show ?thesis
    using admission_released_once [OF sample_delivered_reachable] admission_released_once [of ?s] by simp
qed

theorem retire_leaves_outcome_witness:
  "outcome (fst (retire (operation sample_selected))) = Some (Inl \<lparr>kind = pipe, delivery = not_started, exit_code = 0,
     diagnostic = ''operation source retired without an outcome''\<rparr>) \<and> snd (retire (operation sample_selected)) = Some 1"
proof -
  have "outcome (operation sample_selected) = None" "transport (operation sample_selected) = tp_queued"
      "observer (operation sample_selected) = ob_callback" "token sample_selected = 1"
    by code_simp+
  then show ?thesis
    using retire_leaves_outcome [OF sample_selected_reachable surjective_pairing] by simp
qed

end
