(* ===== verification/Waits.thy ===== *)
theory Waits
  imports Captures Control_Protocol Version_Gate Snapshots "HOL-Library.State_Monad"
begin

text \<open>Waiting for text in a pane (\<open>src/src/wait.cpp\<close>): the capture at entry, the control stream with its liveness
  check, the fall back to polling, the confirmation of a match against what was typed, the matching budget and the
  three ways a wait ends.

  The code is written in the state monad over the members of its \<open>Wait\<close> object. What the code observes and does not
  decide is a parameter: a \<open>World\<close> gives, for every observation in turn (\<open>tick\<close> counts them), the reading of the
  steady clock in nanoseconds, the answer of the server to a command, whether the stop token is set, what the caller
  has sent and whether it is pending, whether the control client connects and the notifications that arrive before a
  slice ends. The loops take fuel; \<open>wait_returns\<close> and \<open>polling_bounded\<close> say how much is enough. The callbacks
  \<open>on_progress\<close> and \<open>observe_control_client\<close> only report and are left out, as are the sleep between two polls and the
  refusals of \<open>Pane::wait_for_text\<close> for a pane without its server and for psmux, which come before this code.\<close>

section \<open>The world a wait runs in\<close>

record World =
  clock :: "nat \<Rightarrow> nat"
  server_run :: "nat \<Rightarrow> string list \<Rightarrow> nat \<Rightarrow> (CommandFailure, string) expected"
  cancelled_at :: "nat \<Rightarrow> bool"
  sent_at :: "(nat \<Rightarrow> string list) option"
  pending_at :: "(nat \<Rightarrow> bool) option"
  server_socket :: string
  connects_at :: "nat \<Rightarrow> bool"
  arrivals_at :: "nat \<Rightarrow> nat \<Rightarrow> string list"
  poll_interval :: nat

datatype WaitPath = pane_lookup | capture_at_entry | capture_after_control_connect
  | capture_before_control | control_output | capture_polling

record WaitResult =
  matched :: bool
  entry_match :: bool
  timed_out :: bool
  present_unconfirmed :: bool
  elapsed :: nat
  path :: WaitPath
  result_pane :: string
  pane_died :: bool
  reason :: string
  result_text :: string

definition no_result :: WaitResult where
  "no_result = \<lparr>matched = False, entry_match = False, timed_out = False, present_unconfirmed = False, elapsed = 0,
     path = pane_lookup, result_pane = [], pane_died = False, reason = [], result_text = []\<rparr>"

record Wait =
  wait_pane :: string
  wanted :: string
  started :: nat
  deadline :: nat
  match_budget :: nat
  wait_sent :: "string list"
  session_name :: string
  session_known :: bool
  matched_at_entry :: bool
  tick :: nat

type_synonym 'a waiting = "(Wait, 'a) state"

abbreviation return :: "'a \<Rightarrow> 'a waiting" where
  "return \<equiv> State_Monad.return"

definition ask :: "(nat \<Rightarrow> 'a) \<Rightarrow> 'a waiting" where
  "ask f = State (\<lambda>w. (f (tick w), w\<lparr>tick := tick w + 1\<rparr>))"

definition gets :: "(Wait \<Rightarrow> 'a) \<Rightarrow> 'a waiting" where
  "gets f = State (\<lambda>w. (f w, w))"

definition modify :: "(Wait \<Rightarrow> Wait) \<Rightarrow> unit waiting" where
  "modify f = State (\<lambda>w. ((), f w))"

section \<open>The deadline\<close>

definition now :: "World \<Rightarrow> nat waiting" where
  "now e = ask (clock e)"

definition whole_milliseconds :: "nat \<Rightarrow> nat" where
  "whole_milliseconds left =
     (let milliseconds = left div 1000000;
          milliseconds = (if milliseconds * 1000000 < left then milliseconds + 1 else milliseconds) in
      max milliseconds 1)"

definition remaining :: "World \<Rightarrow> nat option waiting" where
  "remaining e = do {
     t \<leftarrow> now e;
     d \<leftarrow> gets deadline;
     return (if d \<le> t then None else Some (whole_milliseconds (d - t)))
   }"

definition expired :: "World \<Rightarrow> bool waiting" where
  "expired e = do { t \<leftarrow> now e; d \<leftarrow> gets deadline; return (d \<le> t) }"

definition elapsed_now :: "World \<Rightarrow> nat waiting" where
  "elapsed_now e = do { t \<leftarrow> now e; s \<leftarrow> gets started; return ((t - s) div 1000000) }"

definition cancelled_failure :: CommandFailure where
  "cancelled_failure = \<lparr>kind = cancelled, delivery = not_started, exit_code = 0, diagnostic = ''the wait was cancelled''\<rparr>"

definition gave_up :: "World \<Rightarrow> bool waiting" where
  "gave_up e = ask (cancelled_at e)"

section \<open>Commands within the deadline\<close>

definition run_before_deadline :: "World \<Rightarrow> string list \<Rightarrow> (CommandFailure, string option) expected waiting" where
  "run_before_deadline e command = do {
     stop \<leftarrow> gave_up e;
     if stop then return (Inl cancelled_failure)
     else do {
       left \<leftarrow> remaining e;
       case left of
         None \<Rightarrow> return (Inr None)
       | Some timeout' \<Rightarrow> do {
           reply \<leftarrow> ask (\<lambda>i. server_run e i command timeout');
           case reply of
             Inl f \<Rightarrow> return (if kind f = timeout then Inr None else Inl f)
           | Inr out \<Rightarrow> do {
               stop \<leftarrow> gave_up e;
               return (if stop then Inl cancelled_failure else Inr (Some out))
             }
         }
     }
   }"

definition no_output :: CommandFailure where
  "no_output = \<lparr>kind = pipe, delivery = replied, exit_code = 0, diagnostic = ''capture-pane returned no output''\<rparr>"

definition capture_before_deadline :: "World \<Rightarrow> (CommandFailure, string option) expected waiting" where
  "capture_before_deadline e = do {
     pane \<leftarrow> gets wait_pane;
     captured \<leftarrow> run_before_deadline e [''capture-pane'', ''-p'', ''-J'', ''-t'', pane];
     return (if captured = Inr (Some []) then Inl no_output else captured)
   }"

text \<open>The loop that takes line ends off the back of an answer.\<close>

definition strip_line_ends :: "string \<Rightarrow> string" where
  "strip_line_ends s = rev (dropWhile (\<lambda>c. c = CHR 0x0A \<or> c = CHR 0x0D) (rev s))"

text \<open>\<open>std::from_chars\<close> into a \<open>std::size_t\<close> that has to consume its whole input.\<close>

definition whole_number :: "string \<Rightarrow> nat option" where
  "whole_number s = (if s \<noteq> [] \<and> list_all is_digit s \<and> dec_value 0 s < 2 ^ 64 then Some (dec_value 0 s) else None)"

definition parse_cursor :: "string \<Rightarrow> PaneCursor option" where
  "parse_cursor text' =
     (let s = strip_line_ends text' in
      case str_find CHR '' '' s of
        None \<Rightarrow> None
      | Some separator \<Rightarrow>
          (case (whole_number (take separator s), whole_number (drop (separator + 1) s)) of
             (Some row, Some height) \<Rightarrow> if height = 0 then None else Some \<lparr>cursor_row = row, pane_height = height\<rparr>
           | _ \<Rightarrow> None))"

definition cursor_before_deadline :: "World \<Rightarrow> PaneCursor option waiting" where
  "cursor_before_deadline e = do {
     pane \<leftarrow> gets wait_pane;
     reply \<leftarrow> run_before_deadline e [''display-message'', ''-p'', ''-t'', pane, ''--'', ''#{cursor_y} #{pane_height}''];
     return (case reply of Inr (Some text') \<Rightarrow> parse_cursor text' | _ \<Rightarrow> None)
   }"

type_synonym GridSnapshot = "PaneCursor option \<times> string"

definition grid_before_deadline :: "World \<Rightarrow> (CommandFailure, GridSnapshot option) expected waiting" where
  "grid_before_deadline e = do {
     cursor \<leftarrow> cursor_before_deadline e;
     captured \<leftarrow> capture_before_deadline e;
     return (map_sum id (map_option (Pair cursor)) captured)
   }"

section \<open>Searching and reporting\<close>

definition work_limit :: CommandFailure where
  "work_limit = \<lparr>kind = truncated, delivery = replied, exit_code = 0, diagnostic = ''wait matching work limit exceeded''\<rparr>"

definition within_budget :: "string \<Rightarrow> (CommandFailure, bool) expected waiting" where
  "within_budget s = do {
     budget \<leftarrow> gets match_budget;
     want \<leftarrow> gets wanted;
     if length s > budget \<or> length want > budget - length s then return (Inl work_limit)
     else do {
       modify (\<lambda>w. w\<lparr>match_budget := budget - (length s + length want)\<rparr>);
       return (Inr (contains_sub s want))
     }
   }"

definition matched_result :: "World \<Rightarrow> WaitPath \<Rightarrow> string \<Rightarrow> WaitResult waiting" where
  "matched_result e p s = do {
     w \<leftarrow> gets id;
     t \<leftarrow> elapsed_now e;
     return (no_result\<lparr>matched := True, entry_match := matched_at_entry w, elapsed := t, path := p,
       result_pane := wait_pane w, result_text := s\<rparr>)
   }"

definition confirms :: "World \<Rightarrow> string \<Rightarrow> PaneCursor option \<Rightarrow> bool waiting" where
  "confirms e s cursor = do {
     (case sent_at e of
        None \<Rightarrow> return ()
      | Some f \<Rightarrow> do { typed \<leftarrow> ask f; modify (\<lambda>w. w\<lparr>wait_sent := typed\<rparr>) });
     w \<leftarrow> gets id;
     pending \<leftarrow> (case pending_at e of None \<Rightarrow> return (wait_sent w \<noteq> []) | Some f \<Rightarrow> ask f);
     return (confirms_at s (wanted w) (wait_sent w) cursor pending)
   }"

definition timed_out_result :: "World \<Rightarrow> WaitPath \<Rightarrow> string \<Rightarrow> PaneCursor option \<Rightarrow> WaitResult waiting" where
  "timed_out_result e p s cursor = do {
     want \<leftarrow> gets wanted;
     confirmed \<leftarrow> (if want = [] then return False else confirms e s cursor);
     if confirmed then matched_result e p s
     else do {
       w \<leftarrow> gets id;
       t \<leftarrow> elapsed_now e;
       return (no_result\<lparr>entry_match := matched_at_entry w, timed_out := True,
         present_unconfirmed := (want \<noteq> [] \<and> contains_sub s want), elapsed := t, path := p,
         result_pane := wait_pane w, result_text := s\<rparr>)
     }
   }"

definition pane_gone :: "World \<Rightarrow> bool waiting" where
  "pane_gone e = do {
     pane \<leftarrow> gets wait_pane;
     probe \<leftarrow> ask (\<lambda>i. server_run e i [''display-message'', ''-p'', ''-t'', pane, ''--'', ''#{pane_id}''] 2000);
     return (case probe of
         Inl f \<Rightarrow> kind f \<noteq> timeout \<and> kind f \<noteq> cancelled
       | Inr text' \<Rightarrow> strip_line_ends text' \<noteq> pane)
   }"

definition server_gone :: "string \<Rightarrow> bool" where
  "server_gone d \<longleftrightarrow> endpoint_is_absent d \<or> contains_sub d ''server exited unexpectedly''"

definition pane_died_result :: "World \<Rightarrow> WaitPath \<Rightarrow> string \<Rightarrow> string \<Rightarrow> WaitResult waiting" where
  "pane_died_result e p s why = do {
     w \<leftarrow> gets id;
     t \<leftarrow> elapsed_now e;
     return (no_result\<lparr>entry_match := matched_at_entry w, elapsed := t, path := p, result_pane := wait_pane w,
       pane_died := True, reason := why, result_text := s\<rparr>)
   }"

definition lift :: "'a waiting \<Rightarrow> (CommandFailure, 'a) expected waiting" where
  "lift m = do { a \<leftarrow> m; return (Inr a) }"

definition capture_failed :: "World \<Rightarrow> WaitPath \<Rightarrow> CommandFailure \<Rightarrow> string \<Rightarrow> (CommandFailure, WaitResult) expected waiting" where
  "capture_failed e p f s =
     (if kind f = cancelled \<or> kind f = timeout then return (Inl f)
      else do {
        gone \<leftarrow> (if server_gone (diagnostic f) then return True else pane_gone e);
        if gone then lift (pane_died_result e p s (diagnostic f)) else return (Inl f)
      })"

section \<open>Polling\<close>

text \<open>Whether a second has passed since progress was last reported; the report itself is the caller's.\<close>

definition progress :: "World \<Rightarrow> nat \<Rightarrow> nat waiting" where
  "progress e due = do {
     t \<leftarrow> now e;
     if due \<le> t then do { elapsed_now e; t' \<leftarrow> now e; return (t' + 1000000000) } else return due
   }"

text \<open>One iteration of the loop: an answer, or the screen to go on with. \<open>None\<close> at the end of the fuel.\<close>

fun poll_for_text :: "nat \<Rightarrow> World \<Rightarrow> WaitPath \<Rightarrow> string \<Rightarrow> PaneCursor option \<Rightarrow> nat \<Rightarrow>
    (CommandFailure, WaitResult) expected option waiting" where
  "poll_for_text 0 e p s cursor due = return None"
| "poll_for_text (Suc fuel) e p s cursor due = do {
     over \<leftarrow> expired e;
     if over then map_state Some (lift (timed_out_result e p s cursor))
     else do {
       stop \<leftarrow> gave_up e;
       if stop then return (Some (Inl cancelled_failure))
       else do {
         captured \<leftarrow> grid_before_deadline e;
         case captured of
           Inl f \<Rightarrow> map_state Some (capture_failed e p f s)
         | Inr None \<Rightarrow> map_state Some (lift (timed_out_result e p s cursor))
         | Inr (Some (cursor, s)) \<Rightarrow> do {
             over \<leftarrow> expired e;
             if over then map_state Some (lift (timed_out_result e p s cursor))
             else do {
               present \<leftarrow> within_budget s;
               case present of
                 Inl f \<Rightarrow> return (Some (Inl f))
               | Inr found \<Rightarrow> do {
                   confirmed \<leftarrow> (if found then confirms e s cursor else return False);
                   if confirmed then map_state Some (lift (matched_result e p s))
                   else do {
                     due \<leftarrow> progress e due;
                     _ \<leftarrow> remaining e;
                     poll_for_text fuel e p s cursor due
                   }
                 }
             }
           }
       }
     }
   }"


section \<open>Watching the control stream\<close>

text \<open>The loop over one batch of notifications: an answer, or the screen to go on with.\<close>

fun read_notifications :: "World \<Rightarrow> string list \<Rightarrow> string \<Rightarrow> PaneCursor option \<Rightarrow>
    ((CommandFailure, WaitResult) expected + string \<times> PaneCursor option) waiting" where
  "read_notifications e [] s cursor = return (Inr (s, cursor))"
| "read_notifications e (n # ns) s cursor = do {
     pane \<leftarrow> gets wait_pane;
     let parsed = parse_notification n in
     if (note_kind parsed \<noteq> nk_output \<and> note_kind parsed \<noteq> nk_extended_output) \<or> note_pane parsed \<noteq> pane
     then read_notifications e ns s cursor
     else do {
       captured \<leftarrow> grid_before_deadline e;
       case captured of
         Inl f \<Rightarrow> map_state Inl (capture_failed e control_output f s)
       | Inr None \<Rightarrow> map_state Inl (lift (timed_out_result e control_output s cursor))
       | Inr (Some (cursor, s)) \<Rightarrow> do {
           over \<leftarrow> expired e;
           if over then map_state Inl (lift (timed_out_result e control_output s cursor))
           else do {
             present \<leftarrow> within_budget s;
             case present of
               Inl f \<Rightarrow> return (Inl (Inl f))
             | Inr found \<Rightarrow> do {
                 confirmed \<leftarrow> (if found then confirms e s cursor else return False);
                 if confirmed then map_state Inl (lift (matched_result e control_output s))
                 else read_notifications e ns s cursor
               }
           }
         }
     }
   }"

text \<open>The liveness check of a quiet stream: \<open>None\<close> that the pane is gone, or when to look next.\<close>

definition check_liveness :: "World \<Rightarrow> nat \<Rightarrow> nat option waiting" where
  "check_liveness e next_liveness = do {
     t \<leftarrow> now e;
     if next_liveness \<le> t then do {
       t' \<leftarrow> now e;
       gone \<leftarrow> pane_gone e;
       return (if gone then None else Some (t' + 500000000))
     } else return (Some next_liveness)
   }"

fun stream_loop :: "nat \<Rightarrow> World \<Rightarrow> string \<Rightarrow> PaneCursor option \<Rightarrow> nat \<Rightarrow> nat \<Rightarrow>
    (CommandFailure, WaitResult) expected option waiting" where
  "stream_loop 0 e s cursor due next_liveness = return None"
| "stream_loop (Suc fuel) e s cursor due next_liveness = do {
     over \<leftarrow> expired e;
     if over then map_state Some (lift (timed_out_result e control_output s cursor))
     else do {
       stop \<leftarrow> gave_up e;
       if stop then return (Some (Inl cancelled_failure))
       else do {
         slice \<leftarrow> remaining e;
         case slice of
           None \<Rightarrow> map_state Some (lift (timed_out_result e control_output s cursor))
         | Some left \<Rightarrow> do {
             t \<leftarrow> now e;
             let slice_deadline = t + min left (poll_interval e) * 1000000 in
             do {
               notifications \<leftarrow> ask (\<lambda>i. arrivals_at e i slice_deadline);
               early \<leftarrow> (if notifications = [] then do { t' \<leftarrow> now e; return (t' + 5000000 < slice_deadline) }
                 else return False);
               if early then do { d \<leftarrow> gets started; poll_for_text fuel e capture_polling s None d }
               else do {
                 live \<leftarrow> check_liveness e next_liveness;
                 case live of
                   None \<Rightarrow> do {
                     pane \<leftarrow> gets wait_pane;
                     map_state Some (lift (pane_died_result e control_output s (''tmux has no pane '' @ pane)))
                   }
                 | Some next_liveness \<Rightarrow> do {
                     after \<leftarrow> read_notifications e notifications s cursor;
                     case after of
                       Inl r \<Rightarrow> return (Some r)
                     | Inr (s, cursor) \<Rightarrow> do {
                         due \<leftarrow> progress e due;
                         stream_loop fuel e s cursor due next_liveness
                       }
                   }
               }
             }
           }
       }
     }
   }"

definition stream_for_text :: "nat \<Rightarrow> World \<Rightarrow> string \<Rightarrow> string \<Rightarrow> (CommandFailure, WaitResult) expected option waiting" where
  "stream_for_text fuel e name screen = do {
     stop \<leftarrow> gave_up e;
     if stop then return (Some (Inl cancelled_failure))
     else if server_socket e = [] \<or> name = [] then do { d \<leftarrow> gets started; poll_for_text fuel e capture_polling screen None d }
     else do {
       left \<leftarrow> remaining e;
       case left of
         None \<Rightarrow> map_state Some (lift (timed_out_result e capture_before_control screen None))
       | Some _ \<Rightarrow> do {
           connected \<leftarrow> ask (connects_at e);
           if \<not> connected then do { d \<leftarrow> gets started; poll_for_text fuel e capture_polling screen None d }
           else do {
             stop \<leftarrow> gave_up e;
             if stop then return (Some (Inl cancelled_failure))
             else do {
               after_connect \<leftarrow> grid_before_deadline e;
               case after_connect of
                 Inl f \<Rightarrow> map_state Some (capture_failed e capture_after_control_connect f screen)
               | Inr None \<Rightarrow> map_state Some (lift (timed_out_result e capture_after_control_connect screen None))
               | Inr (Some (cursor, screen)) \<Rightarrow> do {
                   over \<leftarrow> expired e;
                   if over then map_state Some (lift (timed_out_result e capture_after_control_connect screen cursor))
                   else do {
                     present \<leftarrow> within_budget screen;
                     case present of
                       Inl f \<Rightarrow> return (Some (Inl f))
                     | Inr found \<Rightarrow> do {
                         confirmed \<leftarrow> (if found then confirms e screen cursor else return False);
                         if confirmed then map_state Some (lift (matched_result e capture_after_control_connect screen))
                         else do {
                           d \<leftarrow> gets started;
                           t \<leftarrow> now e;
                           stream_loop fuel e screen cursor d (t + 500000000)
                         }
                       }
                   }
                 }
             }
           }
         }
     }
   }"

section \<open>The two entry points\<close>

definition learn_session :: "World \<Rightarrow> unit waiting" where
  "learn_session e = do {
     w \<leftarrow> gets id;
     if session_known w then return ()
     else do {
       owning \<leftarrow> run_before_deadline e [''display-message'', ''-p'', ''-t'', wait_pane w, ''--'', ''#{session_name}''];
       (case owning of
          Inr (Some text') \<Rightarrow> modify (\<lambda>w. w\<lparr>session_name := strip_line_ends text'\<rparr>)
        | _ \<Rightarrow> return ());
       modify (\<lambda>w. w\<lparr>session_known := True\<rparr>)
     }
   }"

definition perform :: "nat \<Rightarrow> World \<Rightarrow> (CommandFailure, WaitResult) expected option waiting" where
  "perform fuel e = do {
     captured \<leftarrow> grid_before_deadline e;
     case captured of
       Inl f \<Rightarrow> map_state Some (capture_failed e capture_at_entry f [])
     | Inr None \<Rightarrow> map_state Some (lift (timed_out_result e capture_at_entry [] None))
     | Inr (Some (cursor, screen)) \<Rightarrow> do {
         present \<leftarrow> within_budget screen;
         case present of
           Inl f \<Rightarrow> return (Some (Inl f))
         | Inr found \<Rightarrow> do {
             modify (\<lambda>w. w\<lparr>matched_at_entry := found\<rparr>);
             over \<leftarrow> expired e;
             if over then map_state Some (lift (timed_out_result e capture_at_entry screen cursor))
             else do {
               confirmed \<leftarrow> (if found then confirms e screen cursor else return False);
               if confirmed then map_state Some (lift (matched_result e capture_at_entry screen))
               else do {
                 learn_session e;
                 name \<leftarrow> gets session_name;
                 stream_for_text fuel e name screen
               }
             }
           }
       }
   }"

text \<open>A wait that starts at the given reading of the clock, with a timeout in milliseconds.\<close>

definition new_wait :: "string \<Rightarrow> string \<Rightarrow> nat \<Rightarrow> nat \<Rightarrow> nat \<Rightarrow> Wait" where
  "new_wait pane want start timeout' budget = \<lparr>wait_pane = pane, wanted = want, started = start,
     deadline = start + timeout' * 1000000, match_budget = budget, wait_sent = [], session_name = [],
     session_known = False, matched_at_entry = False, tick = 1\<rparr>"

definition pane_wait_for_text :: "nat \<Rightarrow> World \<Rightarrow> string \<Rightarrow> string \<Rightarrow> nat \<Rightarrow> nat \<Rightarrow> (CommandFailure, WaitResult) expected option" where
  "pane_wait_for_text fuel e pane want timeout' budget =
     fst (run_state (perform fuel e) (new_wait pane want (clock e 0) timeout' budget))"

definition lookup_fields :: "string list" where
  "lookup_fields = [''pane_id'', ''session_name'']"

definition unresolved :: "string \<Rightarrow> CommandFailure" where
  "unresolved target = \<lparr>kind = missing, delivery = replied, exit_code = 0,
     diagnostic = ''tmux could not resolve the pane '' @ target\<rparr>"

definition server_wait :: "nat \<Rightarrow> World \<Rightarrow> string \<Rightarrow> (CommandFailure, WaitResult) expected option waiting" where
  "server_wait fuel e target = do {
     reply \<leftarrow> run_before_deadline e [''display-message'', ''-p'', ''-t'', target, ''--'', format_request lookup_fields];
     case reply of
       Inl f \<Rightarrow> return (Some (Inl f))
     | Inr None \<Rightarrow> do {
         t \<leftarrow> elapsed_now e;
         return (Some (Inr (no_result\<lparr>timed_out := True, elapsed := t, path := pane_lookup\<rparr>)))
       }
     | Inr (Some out) \<Rightarrow>
         (case from_recording lookup_fields out of
            None \<Rightarrow> return (Some (Inl (unresolved target)))
          | Some snap \<Rightarrow>
              (case snap_rows snap of
                 [row] \<Rightarrow>
                   if row ! 0 = [] then return (Some (Inl (unresolved target)))
                   else do {
                     modify (\<lambda>w. w\<lparr>wait_pane := row ! 0, session_name := row ! 1, session_known := True\<rparr>);
                     perform fuel e
                   }
               | _ \<Rightarrow> return (Some (Inl (unresolved target)))))
   }"

definition server_wait_for_text :: "nat \<Rightarrow> World \<Rightarrow> string \<Rightarrow> string \<Rightarrow> nat \<Rightarrow> nat \<Rightarrow> (CommandFailure, WaitResult) expected option" where
  "server_wait_for_text fuel e target want timeout' budget =
     fst (run_state (server_wait fuel e target) (new_wait [] want (clock e 0) timeout' budget))"


section \<open>What holds after a computation\<close>

definition after :: "'a waiting \<Rightarrow> Wait \<Rightarrow> ('a \<Rightarrow> Wait \<Rightarrow> bool) \<Rightarrow> bool" where
  "after m w Q = (case run_state m w of (a, w') \<Rightarrow> Q a w')"

named_theorems wp \<open>what holds after a computation, from what holds after its parts\<close>

lemma after_return [wp]: "after (State_Monad.return a) w Q = Q a w"
  by (simp add: after_def)

lemma after_bind [wp]: "after (State_Monad.bind m f) w Q = after m w (\<lambda>a w'. after (f a) w' Q)"
  by (simp add: after_def split: prod.split)

lemma after_prims [wp]:
  "after (ask f) w Q = Q (f (tick w)) (w\<lparr>tick := tick w + 1\<rparr>)"
  "after (gets g) w Q = Q (g w) w"
  "after (modify h) w R = R () (h w)"
  by (simp_all add: after_def ask_def gets_def modify_def)

lemma after_map [wp]: "after (map_state g m) w Q = after m w (\<lambda>a w'. Q (g a) w')"
  by (simp add: after_def state.map_sel split: prod.split)

lemma after_cases [wp]:
  "after (if b then m else n) w Q = (if b then after m w Q else after n w Q)"
  "after (case r of Inl x \<Rightarrow> f x | Inr y \<Rightarrow> g y) w Q = (case r of Inl x \<Rightarrow> after (f x) w Q | Inr y \<Rightarrow> after (g y) w Q)"
  "after (case z of None \<Rightarrow> n | Some y \<Rightarrow> h y) w Q = (case z of None \<Rightarrow> after n w Q | Some y \<Rightarrow> after (h y) w Q)"
  by (simp_all split: sum.split option.split)

lemma after_mono: "after m w Q \<Longrightarrow> (\<And>a w'. Q a w' \<Longrightarrow> R a w') \<Longrightarrow> after m w R"
  by (auto simp: after_def split: prod.splits)

text \<open>What every helper leaves alone, and that the world moves on.\<close>

definition same_wait :: "Wait \<Rightarrow> Wait \<Rightarrow> bool" where
  "same_wait w w' \<longleftrightarrow> wait_pane w' = wait_pane w \<and> wanted w' = wanted w \<and> deadline w' = deadline w \<and>
     match_budget w' = match_budget w \<and> tick w \<le> tick w'"

lemma same_wait_refl [simp]: "same_wait w w"
  by (simp add: same_wait_def)

lemma same_wait_trans: "same_wait u v \<Longrightarrow> same_wait v w \<Longrightarrow> same_wait u w"
  by (auto simp: same_wait_def)

lemma same_wait_simps [simp]:
  "same_wait w (w\<lparr>tick := Suc (tick w)\<rparr>)" "same_wait w (w'\<lparr>wait_sent := x\<rparr>) = same_wait w w'"
  "same_wait w (w'\<lparr>session_name := n\<rparr>) = same_wait w w'" "same_wait w (w'\<lparr>session_known := b\<rparr>) = same_wait w w'"
  "same_wait w (w'\<lparr>matched_at_entry := b\<rparr>) = same_wait w w'"
  by (auto simp: same_wait_def)

lemma same_wait_tick: "same_wait w w' \<Longrightarrow> same_wait w (w'\<lparr>tick := Suc (tick w')\<rparr>)"
  by (auto simp: same_wait_def)

lemma clock_after [wp]:
  "after (now e) w Q = Q (clock e (tick w)) (w\<lparr>tick := tick w + 1\<rparr>)"
  "after (expired e) w R = R (deadline w \<le> clock e (tick w)) (w\<lparr>tick := tick w + 1\<rparr>)"
  "after (remaining e) w S = S (if deadline w \<le> clock e (tick w) then None
     else Some (whole_milliseconds (deadline w - clock e (tick w)))) (w\<lparr>tick := tick w + 1\<rparr>)"
  "after (elapsed_now e) w T = T ((clock e (tick w) - started w) div 1000000) (w\<lparr>tick := tick w + 1\<rparr>)"
  "after (gave_up e) w U = U (cancelled_at e (tick w)) (w\<lparr>tick := tick w + 1\<rparr>)"
  by (simp_all add: now_def expired_def remaining_def elapsed_now_def gave_up_def wp)

lemma run_before_deadline_after: "after (run_before_deadline e c) w (\<lambda>r w'. same_wait w w' \<and> tick w < tick w')"
  by (auto simp: run_before_deadline_def wp same_wait_def split: sum.split)

lemma grid_after:
  "after (grid_before_deadline e) w (\<lambda>r w'. same_wait w w' \<and> tick w < tick w' \<and> (\<forall>c s. r = Inr (Some (c, s)) \<longrightarrow> s \<noteq> []))"
  unfolding grid_before_deadline_def cursor_before_deadline_def capture_before_deadline_def wp
  apply (rule after_mono [OF run_before_deadline_after])
  apply (rule after_mono [OF run_before_deadline_after])
  apply (auto simp: same_wait_def map_sum_def split: sum.splits if_splits)
  done

lemma confirms_after:
  "after (confirms e s c) w (\<lambda>r w'. same_wait w w' \<and> (r \<longrightarrow> (\<exists>sent pending. confirms_at s (wanted w) sent c pending)))"
  by (auto simp: confirms_def wp same_wait_def split: option.split)


section \<open>What an answer says\<close>

text \<open>An answer is exactly one of matched, timed out and died. A match was confirmed on the text it carries; text
  that is present but not confirmed is only ever part of a timeout.\<close>

definition honest :: "string \<Rightarrow> WaitResult \<Rightarrow> bool" where
  "honest want r \<longleftrightarrow>
     (matched r \<longrightarrow> \<not> timed_out r \<and> \<not> pane_died r \<and>
        (\<exists>sent cursor pending. confirms_at (result_text r) want sent cursor pending)) \<and>
     (timed_out r \<longrightarrow> \<not> pane_died r) \<and> (matched r \<or> timed_out r \<or> pane_died r) \<and>
     (present_unconfirmed r \<longrightarrow> timed_out r \<and> contains_sub (result_text r) want)"

fun honest_answer :: "string \<Rightarrow> (CommandFailure, WaitResult) expected \<Rightarrow> bool" where
  "honest_answer want (Inl f) = True"
| "honest_answer want (Inr r) = honest want r"

lemma timed_out_after: "after (timed_out_result e p s c) w (\<lambda>r w'. honest (wanted w) r)"
proof -
  have "after (confirms e s c) w (\<lambda>confirmed w'. if confirmed then after (matched_result e p s) w' (\<lambda>r _. honest (wanted w) r) else True)"
    by (rule after_mono [OF confirms_after]) (auto simp: matched_result_def wp no_result_def honest_def)
  then show ?thesis
    by (auto simp: timed_out_result_def wp no_result_def honest_def elim!: after_mono split: if_splits)
qed

lemma pane_died_after: "after (pane_died_result e p s why) w (\<lambda>r w'. honest want r)"
  by (simp add: pane_died_result_def wp no_result_def honest_def)

lemma matched_after:
  "\<exists>sent cursor pending. confirms_at s want sent cursor pending \<Longrightarrow> after (matched_result e p s) w (\<lambda>r w'. honest want r)"
  by (simp add: matched_result_def wp no_result_def honest_def)

lemma pane_gone_after: "after (pane_gone e) w (\<lambda>r w'. same_wait w w')"
  by (simp add: pane_gone_def wp)

lemma lift_after [wp]: "after (lift m) w Q = after m w (\<lambda>a w'. Q (Inr a) w')"
  by (simp add: lift_def wp)

lemma capture_failed_after: "after (capture_failed e p f s) w (\<lambda>r w'. honest_answer want r)"
  unfolding capture_failed_def wp
  by (auto simp: wp intro!: after_mono [OF pane_gone_after] after_mono [OF pane_died_after])

lemma within_budget_after:
  assumes "s \<noteq> []"
  shows "after (within_budget s) w (\<lambda>r w'. wait_pane w' = wait_pane w \<and> wanted w' = wanted w \<and> deadline w' = deadline w \<and>
    tick w' = tick w \<and> (\<forall>found. r = Inr found \<longrightarrow> match_budget w' < match_budget w \<and> (found \<longrightarrow> contains_sub s (wanted w))))"
  using assms by (cases s) (auto simp: within_budget_def wp)

lemma progress_after: "after (progress e due) w (\<lambda>r w'. same_wait w w')"
  by (auto simp: progress_def wp same_wait_def)

text \<open>A search charged to the budget and then confirmed, as all four loops make it.\<close>

definition searched :: "Wait \<Rightarrow> Wait \<Rightarrow> bool" where
  "searched w u \<longleftrightarrow> wait_pane u = wait_pane w \<and> wanted u = wanted w \<and> deadline u = deadline w \<and>
     match_budget u < match_budget w \<and> tick w \<le> tick u"

lemma search_after:
  assumes s: "s \<noteq> []" and v: "same_wait w v"
    and fail: "\<And>f u. F f u"
    and more: "\<And>u. searched w u \<Longrightarrow> K False u"
    and yes: "\<And>u sent pending. searched w u \<Longrightarrow> confirms_at s (wanted w) sent c pending \<Longrightarrow> K True u"
  shows "after (within_budget s) v (\<lambda>present u. case present of Inl f \<Rightarrow> F f u
    | Inr found \<Rightarrow> if found then after (confirms e s c) u K else K False u)"
proof (rule after_mono [OF within_budget_after [OF s]])
  fix r :: "(CommandFailure, bool) expected" and u :: Wait
  assume u: "wait_pane u = wait_pane v \<and> wanted u = wanted v \<and> deadline u = deadline v \<and> tick u = tick v \<and>
    (\<forall>found. r = Inr found \<longrightarrow> match_budget u < match_budget v \<and> (found \<longrightarrow> contains_sub s (wanted v)))"
  show "case r of Inl f \<Rightarrow> F f u | Inr found \<Rightarrow> if found then after (confirms e s c) u K else K False u"
  proof (cases r)
    case (Inr found)
    then have su: "searched w u" using u v by (auto simp: searched_def same_wait_def)
    have "after (confirms e s c) u K"
    proof (rule after_mono [OF confirms_after])
      fix b and u' :: Wait assume b: "same_wait u u' \<and> (b \<longrightarrow> (\<exists>sent pending. confirms_at s (wanted u) sent c pending))"
      then have su': "searched w u'" using su by (auto simp: searched_def same_wait_def)
      show "K b u'"
        using b su' more yes su by (cases b) (auto simp: searched_def)
    qed
    then show ?thesis using Inr more [OF su] by simp
  qed (simp add: fail)
qed

lemma after_bindI: "after m w (\<lambda>a w'. after (f a) w' Q) \<Longrightarrow> after (State_Monad.bind m f) w Q"
  by (simp only: after_bind)

lemma after_askI: "after (f (g (tick w))) (w\<lparr>tick := Suc (tick w)\<rparr>) Q \<Longrightarrow> after (State_Monad.bind (ask g) f) w Q"
  by (simp add: wp)

lemma after_expiredI:
  assumes "deadline w \<le> clock e (tick w) \<Longrightarrow> after m (w\<lparr>tick := Suc (tick w)\<rparr>) Q"
    and "clock e (tick w) < deadline w \<Longrightarrow> after n (w\<lparr>tick := Suc (tick w)\<rparr>) Q"
  shows "after (State_Monad.bind (expired e) (\<lambda>over. if over then m else n)) w Q"
  using assms by (simp add: wp)

lemma after_gave_upI:
  assumes "after m (w\<lparr>tick := Suc (tick w)\<rparr>) Q" "after n (w\<lparr>tick := Suc (tick w)\<rparr>) Q"
  shows "after (State_Monad.bind (gave_up e) (\<lambda>stop. if stop then m else n)) w Q"
  using assms by (simp add: wp)

lemma timed_out_answer:
  assumes "\<And>a u. honest_answer want a \<Longrightarrow> Q (J a) u" "wanted v = want"
  shows "after (map_state J (lift (timed_out_result e p s c))) v Q"
  unfolding after_map lift_after by (rule after_mono [OF timed_out_after]) (use assms in simp)

text \<open>A capture with everything that follows it in the loops.\<close>

lemma grid_step:
  assumes v: "same_wait w v" and J: "\<And>a u. honest_answer (wanted w) a \<Longrightarrow> Q (J a) u"
    and go: "\<And>c s u. searched w u \<Longrightarrow> tick v < tick u \<Longrightarrow> after (go c s) u Q"
  shows "after (State_Monad.bind (grid_before_deadline e) (\<lambda>captured. case captured of
      Inl f \<Rightarrow> map_state J (capture_failed e p f s0)
    | Inr None \<Rightarrow> map_state J (lift (timed_out_result e p s0 c0))
    | Inr (Some (c, s)) \<Rightarrow> do {
        over \<leftarrow> expired e;
        if over then map_state J (lift (timed_out_result e p s c))
        else do {
          present \<leftarrow> within_budget s;
          case present of
            Inl f \<Rightarrow> State_Monad.return (J (Inl f))
          | Inr found \<Rightarrow> do {
              confirmed \<leftarrow> (if found then confirms e s c else State_Monad.return False);
              if confirmed then map_state J (lift (matched_result e p s)) else go c s
            }
        }
      })) v Q" (is "after (State_Monad.bind _ ?body) v Q")
proof (rule after_bindI, rule after_mono [OF grid_after])
  fix r :: "(CommandFailure, GridSnapshot option) expected" and u :: Wait
  assume u: "same_wait v u \<and> tick v < tick u \<and> (\<forall>c s. r = Inr (Some (c, s)) \<longrightarrow> s \<noteq> [])"
  then have wu: "same_wait w u" "wanted u = wanted w" and tu: "tick v < tick u"
    using v by (auto simp: same_wait_def)
  consider f where "r = Inl f" | "r = Inr None" | c s where "r = Inr (Some (c, s))"
    by (metis prod.exhaust not_None_eq sum.exhaust)
  then show "after (?body r) u Q"
  proof cases
    case 1
    then show ?thesis
      unfolding 1 sum.case after_map by (intro after_mono [OF capture_failed_after [where want = "wanted w"]] J)
  next
    case 2
    show ?thesis
      unfolding 2 sum.case option.case by (rule timed_out_answer) (use J wu in auto)
  next
    case 3
    let ?K = "\<lambda>b u. if b then after (matched_result e p s) u (\<lambda>a u. Q (J (Inr a)) u) else after (go c s) u Q"
    let ?u = "u\<lparr>tick := Suc (tick u)\<rparr>"
    have s: "s \<noteq> []" using u 3 by simp
    have "after (within_budget s) ?u (\<lambda>present u. case present of Inl f \<Rightarrow> Q (J (Inl f)) u
        | Inr found \<Rightarrow> if found then after (confirms e s c) u ?K else ?K False u)"
    proof (rule search_after [OF s same_wait_simps(1)])
      show "Q (J (Inl f)) u'" for f u' by (rule J) simp
      show "?K False u'" if su: "searched u u'" for u'
        using su go [of u' c s] wu tu by (auto simp: searched_def same_wait_def)
      show "?K True u'" if "searched u u'" "confirms_at s (wanted u) sent c pending" for u' sent pending
      proof -
        have "after (matched_result e p s) u' (\<lambda>r w'. honest (wanted w) r)"
          using that(2) wu(2) by (intro matched_after) auto
        then have "after (matched_result e p s) u' (\<lambda>a u. Q (J (Inr a)) u)"
          by (rule after_mono) (rule J, simp)
        then show ?thesis by simp
      qed
    qed
    then have found: "after (State_Monad.bind (within_budget s) (\<lambda>present. case present of
          Inl f \<Rightarrow> State_Monad.return (J (Inl f))
        | Inr found \<Rightarrow> do {
            confirmed \<leftarrow> (if found then confirms e s c else State_Monad.return False);
            if confirmed then map_state J (lift (matched_result e p s)) else go c s
          })) ?u Q"
      unfolding wp if_False .
    show ?thesis
      unfolding 3 sum.case option.case prod.case
      by (rule after_expiredI [OF timed_out_answer found]) (use J wu in auto)
  qed
qed

lemma poll_after:
  "after (poll_for_text fuel e p s c due) w
     (\<lambda>r w'. case r of None \<Rightarrow> fuel \<le> match_budget w | Some a \<Rightarrow> honest_answer (wanted w) a)"
proof (induction fuel arbitrary: s c due w)
  case 0
  show ?case by (simp add: wp)
next
  case (Suc fuel)
  let ?Q = "\<lambda>r (w' :: Wait). case r of None \<Rightarrow> Suc fuel \<le> match_budget w | Some a \<Rightarrow> honest_answer (wanted w) a"
  have loop: "after (poll_for_text fuel e p s' c' due') v ?Q" if "searched w v" for s' c' due' v
    by (rule after_mono [OF Suc.IH]) (use that in \<open>auto simp: searched_def split: option.splits\<close>)
  have more: "after (do { due \<leftarrow> progress e due; _ \<leftarrow> remaining e; poll_for_text fuel e p s' c' due }) u ?Q"
    if "searched w u" for u s' c'
    unfolding after_bind clock_after(3)
    by (rule after_mono [OF progress_after], rule loop) (use that in \<open>auto simp: searched_def same_wait_def\<close>)
  show ?case
    unfolding poll_for_text.simps
    by (intro after_expiredI timed_out_answer after_gave_upI grid_step more) (auto simp: wp same_wait_def)
qed


lemma read_notifications_after:
  "after (read_notifications e ns s c) w
     (\<lambda>r w'. case r of Inl a \<Rightarrow> honest_answer (wanted w) a
        | Inr _ \<Rightarrow> wait_pane w' = wait_pane w \<and> wanted w' = wanted w \<and> deadline w' = deadline w \<and>
            match_budget w' \<le> match_budget w \<and> tick w \<le> tick w')"
proof (induction ns arbitrary: s c w)
  case Nil
  show ?case by (simp add: wp)
next
  case (Cons n ns)
  let ?Q = "\<lambda>r w'. case r of Inl a \<Rightarrow> honest_answer (wanted w) a
        | Inr _ \<Rightarrow> wait_pane w' = wait_pane w \<and> wanted w' = wanted w \<and> deadline w' = deadline w \<and>
            match_budget w' \<le> match_budget w \<and> tick w \<le> tick w'"
  have go: "after (read_notifications e ns s' c') u ?Q" if "searched w u \<or> u = w" for s' c' u
    by (rule after_mono [OF Cons.IH]) (use that in \<open>auto simp: searched_def split: sum.splits\<close>)
  show ?case
    unfolding read_notifications.simps after_bind after_prims(2) Let_def after_cases(1)
    by (simp only: after_bind [symmetric], auto intro!: go grid_step [where J = Inl])
qed


lemma liveness_after: "after (check_liveness e n) w (\<lambda>r w'. same_wait w w')"
  by (auto simp: check_liveness_def pane_gone_def wp same_wait_def)

text \<open>When the clock has passed the deadline for good from some reading on, the loop over the stream uses at most
  one round per reading until then, and falls back to polling at most once.\<close>

definition enough :: "World \<Rightarrow> nat \<Rightarrow> Wait \<Rightarrow> nat \<Rightarrow> bool" where
  "enough e T w fuel \<longleftrightarrow> (\<forall>i \<ge> T. deadline w \<le> clock e i) \<longrightarrow> fuel \<le> (T - tick w) + match_budget w + 1"

abbreviation answered :: "World \<Rightarrow> nat \<Rightarrow> Wait \<Rightarrow> nat \<Rightarrow> (CommandFailure, WaitResult) expected option \<Rightarrow> bool" where
  "answered e T w fuel r \<equiv> (case r of None \<Rightarrow> enough e T w fuel | Some a \<Rightarrow> honest_answer (wanted w) a)"

definition moved_on :: "Wait \<Rightarrow> Wait \<Rightarrow> bool" where
  "moved_on w u \<longleftrightarrow> wait_pane u = wait_pane w \<and> wanted u = wanted w \<and> deadline u = deadline w \<and>
     match_budget u \<le> match_budget w \<and> tick w < tick u"

lemma moved_on_same: "moved_on w u \<Longrightarrow> same_wait u v \<Longrightarrow> moved_on w v"
  by (auto simp: moved_on_def same_wait_def)

lemma enough_round:
  assumes "moved_on w u" "clock e (tick w) < deadline w" "enough e T u fuel"
  shows "enough e T w (Suc fuel)"
  unfolding enough_def
proof
  assume T: "\<forall>i \<ge> T. deadline w \<le> clock e i"
  then have "tick w < T" using assms(2) by (meson not_le)
  then show "Suc fuel \<le> T - tick w + match_budget w + 1"
    using assms(1,3) T by (auto simp: moved_on_def enough_def)
qed

lemma enough_poll:
  assumes "moved_on w u" "fuel \<le> match_budget u"
  shows "enough e T w (Suc fuel)"
  using assms by (auto simp: moved_on_def enough_def)

lemma after_remainingI:
  assumes "after m (w\<lparr>tick := Suc (tick w)\<rparr>) Q" "\<And>left. after (f left) (w\<lparr>tick := Suc (tick w)\<rparr>) Q"
  shows "after (State_Monad.bind (remaining e) (\<lambda>r. case r of None \<Rightarrow> m | Some left \<Rightarrow> f left)) w Q"
  using assms by (simp add: wp)

lemma after_sameI:
  assumes "after m w (\<lambda>_ u. same_wait w u)" "\<And>a u. same_wait w u \<Longrightarrow> after (f a) u Q"
  shows "after (State_Monad.bind m f) w Q"
  by (rule after_bindI, rule after_mono [OF assms(1)], rule assms(2))

lemma after_getsI: "after (f (g w)) w Q \<Longrightarrow> after (State_Monad.bind (gets g) f) w Q"
  by (simp add: wp)

lemma same_wait_prims:
  "after (now e) w (\<lambda>_ u. same_wait w u)" "after (ask f) w (\<lambda>_ u. same_wait w u)"
  "after (gets h) w (\<lambda>_ u. same_wait w u)"
  "after (if b then do { t \<leftarrow> now e; State_Monad.return (g t) } else State_Monad.return x) w (\<lambda>_ u. same_wait w u)"
  by (simp_all add: wp)

text \<open>One round of the stream after the notifications have come: they are read, or the pane is found gone.\<close>

lemma read_step:
  assumes u: "moved_on w u" and J: "\<And>a v. honest_answer (wanted w) a \<Longrightarrow> Q (Some a) v"
    and go: "\<And>s c due v. moved_on w v \<Longrightarrow> after (go s c due) v Q"
  shows "after (do { after \<leftarrow> read_notifications e ns s c; case after of
        Inl r \<Rightarrow> State_Monad.return (Some r)
      | Inr (s, c) \<Rightarrow> do { due \<leftarrow> progress e due; go s c due } }) u Q"
proof (rule after_bindI, rule after_mono [OF read_notifications_after])
  have next_round: "after (do { due \<leftarrow> progress e due; go s' c' due }) v Q" if "moved_on w v" for s' c' v
    by (rule after_sameI [OF progress_after]) (rule go, rule moved_on_same [OF that])
  fix r :: "(CommandFailure, WaitResult) expected + string \<times> PaneCursor option" and v :: Wait
  assume "case r of Inl a \<Rightarrow> honest_answer (wanted u) a
    | Inr _ \<Rightarrow> wait_pane v = wait_pane u \<and> wanted v = wanted u \<and> deadline v = deadline u \<and>
        match_budget v \<le> match_budget u \<and> tick u \<le> tick v"
  then show "after (case r of Inl r \<Rightarrow> State_Monad.return (Some r)
      | Inr (s, c) \<Rightarrow> do { due \<leftarrow> progress e due; go s c due }) v Q"
    using u by (auto simp: wp moved_on_def intro: J split: sum.splits prod.splits intro!: next_round [unfolded after_bind])
qed

lemma live_step:
  assumes u: "moved_on w u" and J: "\<And>a v. honest_answer (wanted w) a \<Longrightarrow> Q (Some a) v"
    and go: "\<And>s c due l v. moved_on w v \<Longrightarrow> after (go s c due l) v Q"
  shows "after (do { alive \<leftarrow> check_liveness e l; case alive of
        None \<Rightarrow> do { pane \<leftarrow> gets wait_pane;
          map_state Some (lift (pane_died_result e control_output s (''tmux has no pane '' @ pane))) }
      | Some l \<Rightarrow> do { after \<leftarrow> read_notifications e ns s c; case after of
            Inl r \<Rightarrow> State_Monad.return (Some r)
          | Inr (s, c) \<Rightarrow> do { due \<leftarrow> progress e due; go s c due l } } }) u Q"
proof (rule after_sameI [OF liveness_after])
  fix alive :: "nat option" and v
  assume "same_wait u v"
  with u have v: "moved_on w v" by (rule moved_on_same)
  then have "wanted v = wanted w" by (simp add: moved_on_def)
  then have died: "after (pane_died_result e control_output s d) v (\<lambda>a u. Q (Some (Inr a)) u)" for d
    by (intro after_mono [OF pane_died_after] J) auto
  show "after (case alive of
        None \<Rightarrow> do { pane \<leftarrow> gets wait_pane;
          map_state Some (lift (pane_died_result e control_output s (''tmux has no pane '' @ pane))) }
      | Some l \<Rightarrow> do { after \<leftarrow> read_notifications e ns s c; case after of
            Inl r \<Rightarrow> State_Monad.return (Some r)
          | Inr (s, c) \<Rightarrow> do { due \<leftarrow> progress e due; go s c due l } }) v Q"
  proof (cases alive)
    case None
    then show ?thesis using died by (simp add: wp)
  next
    case (Some l)
    show ?thesis unfolding Some option.case by (rule read_step [OF v J go])
  qed
qed

lemma stream_loop_after:
  "after (stream_loop fuel e s c due next') w (\<lambda>r w'. answered e T w fuel r)"
proof (induction fuel arbitrary: s c due next' w)
  case 0
  show ?case by (simp add: wp enough_def)
next
  case (Suc fuel)
  let ?Q = "\<lambda>r (w' :: Wait). answered e T w (Suc fuel) r"
  have poll: "after (poll_for_text fuel e p s' c' due') u ?Q" if "moved_on w u" for p s' c' due' u
    by (rule after_mono [OF poll_after])
      (use that enough_poll [OF that] in \<open>auto simp: moved_on_def split: option.splits\<close>)
  show ?case
    unfolding stream_loop.simps Let_def
  proof (rule after_expiredI, goal_cases)
    case 1
    show ?case by (rule timed_out_answer) auto
  next
    case early: 2
    have loop: "after (stream_loop fuel e s' c' due' l) v ?Q" if v: "moved_on w v" for s' c' due' l v
      by (rule after_mono [OF Suc.IH])
        (use v enough_round [OF v early] in \<open>auto simp: moved_on_def split: option.splits\<close>)
    show ?case
    proof (rule after_gave_upI, goal_cases)
      case 1
      show ?case by (simp add: wp)
    next
      case 2
      show ?case
      proof (rule after_remainingI, goal_cases)
        case 1
        show ?case by (rule timed_out_answer) auto
      next
        case (2 left)
        show ?case
        proof (rule after_sameI [OF same_wait_prims(1)], rule after_sameI [OF same_wait_prims(2)],
            rule after_sameI [OF same_wait_prims(4)], goal_cases)
          case (1 t a ns b hurried u)
          then have u: "moved_on w u" by (auto simp: moved_on_def same_wait_def)
          show ?case
          proof (cases hurried)
            case True
            then show ?thesis by (simp only: if_True) (rule after_getsI, rule poll [OF u])
          next
            case False
            then show ?thesis
              by (simp only: if_False) (rule live_step [where go = "stream_loop fuel e", OF u _ loop], simp)
          qed
        qed
      qed
    qed
  qed
qed

lemma enough_mono:
  assumes "enough e T u fuel" "deadline u = deadline w" "match_budget u \<le> match_budget w" "tick w \<le> tick u"
  shows "enough e T w fuel"
  using assms by (auto simp: enough_def)

lemma answered_poll:
  assumes "wanted u = wanted w" "match_budget u \<le> match_budget w"
  shows "after (poll_for_text fuel e p s c due) u (\<lambda>r w'. answered e T w fuel r)"
  by (rule after_mono [OF poll_after]) (use assms in \<open>auto simp: enough_def split: option.splits\<close>)

lemma stream_after: "after (stream_for_text fuel e name s) w (\<lambda>r w'. answered e T w fuel r)"
proof -
  let ?Q = "\<lambda>r (w' :: Wait). answered e T w fuel r"
  have poll: "after (do { d \<leftarrow> gets started; poll_for_text fuel e p s c d }) u ?Q" if "same_wait w u" for u p c
    by (rule after_getsI, rule answered_poll) (use that in \<open>auto simp: same_wait_def\<close>)
  have loop: "after (do { d \<leftarrow> gets started; t \<leftarrow> now e; stream_loop fuel e s' c d (t + 500000000) }) u ?Q"
    if u: "searched w u" for u s' c
  proof (rule after_getsI, rule after_sameI [OF same_wait_prims(1)], rule after_mono [OF stream_loop_after])
    fix r :: "(CommandFailure, WaitResult) expected option" and v :: Wait
    assume "same_wait u v" "answered e T v fuel r"
    with u show "answered e T w fuel r"
      by (auto simp: searched_def same_wait_def elim!: enough_mono split: option.splits)
  qed
  show ?thesis
    unfolding stream_for_text_def
    apply (rule after_gave_upI)
     apply (simp add: wp)
    apply (subst after_cases(1), split if_split, intro conjI impI)
     apply (rule poll, simp)
    apply (rule after_remainingI)
     apply (rule timed_out_answer; simp)
    apply (rule after_askI, subst after_cases(1), split if_split, intro conjI impI)
     apply (rule poll, simp add: same_wait_def)
    apply (rule after_gave_upI)
     apply (simp add: wp)
    apply (rule grid_step [where w = w])
      apply (simp add: same_wait_def)
     apply simp
    apply (rule loop)
    apply assumption
    done
qed

lemma learn_session_after: "after (learn_session e) w (\<lambda>_ u. same_wait w u)"
proof -
  have "after (run_before_deadline e c) w (\<lambda>owning u. after (case owning of
          Inr (Some text') \<Rightarrow> modify (\<lambda>w. w\<lparr>session_name := strip_line_ends text'\<rparr>)
        | _ \<Rightarrow> return ()) u (\<lambda>_ u. same_wait w (u\<lparr>session_known := True\<rparr>)))" for c
    by (rule after_mono [OF run_before_deadline_after]) (auto simp: wp split: sum.split option.split)
  then show ?thesis by (simp add: learn_session_def wp)
qed

text \<open>What follows the capture at entry: the answer at the deadline, the match that was there already, or the wait proper.\<close>

lemma entry_step:
  assumes u: "wanted u = wanted w" "deadline u = deadline w" "match_budget u \<le> match_budget w" "tick w \<le> tick u"
    and go: "\<And>v. wanted v = wanted w \<Longrightarrow> deadline v = deadline w \<Longrightarrow> match_budget v \<le> match_budget w \<Longrightarrow>
      tick w \<le> tick v \<Longrightarrow> after m v (\<lambda>r w'. answered e T w fuel r)"
  shows "after (do {
     modify (\<lambda>w. w\<lparr>matched_at_entry := found\<rparr>);
     over \<leftarrow> expired e;
     if over then map_state Some (lift (timed_out_result e capture_at_entry s c))
     else do {
       confirmed \<leftarrow> (if found then confirms e s c else State_Monad.return False);
       if confirmed then map_state Some (lift (matched_result e capture_at_entry s))
       else m
     } }) u (\<lambda>r w'. answered e T w fuel r)" (is "after _ _ ?Q")
proof -
  let ?u = "u\<lparr>matched_at_entry := found, tick := Suc (tick u)\<rparr>"
  have "after (confirms e s c) ?u (\<lambda>b v. after (if b then map_state Some (lift (matched_result e capture_at_entry s))
     else m) v ?Q)"
  proof (rule after_mono [OF confirms_after])
    fix b :: bool and v :: Wait
    assume b: "same_wait ?u v \<and> (b \<longrightarrow> (\<exists>sent pending. confirms_at s (wanted ?u) sent c pending))"
    show "after (if b then map_state Some (lift (matched_result e capture_at_entry s))
       else m) v ?Q"
    proof (cases b)
      case True
      then have "after (matched_result e capture_at_entry s) v (\<lambda>r w'. honest (wanted w) r)"
        using b u by (intro matched_after) auto
      then show ?thesis using True by (simp add: wp)
    next
      case False
      have "after m v ?Q" by (rule go) (use b u in \<open>auto simp: same_wait_def\<close>)
      then show ?thesis using False by simp
    qed
  qed
  moreover have "after (map_state Some (lift (timed_out_result e capture_at_entry s c))) ?u ?Q"
    by (rule timed_out_answer) (use u in auto)
  moreover have "after (m) ?u ?Q"
    by (rule go) (use u in auto)
  ultimately show ?thesis
    unfolding after_bind after_prims clock_after by (cases found) (simp_all add: after_cases(1) after_return after_bind)
qed

lemma perform_after: "after (perform fuel e) w (\<lambda>r w'. answered e T w fuel r)"
proof -
  let ?Q = "\<lambda>r (w' :: Wait). answered e T w fuel r"
  have go: "after (do { learn_session e; name \<leftarrow> gets session_name; stream_for_text fuel e name s }) u ?Q"
    if u: "wanted u = wanted w" "deadline u = deadline w" "match_budget u \<le> match_budget w" "tick w \<le> tick u" for s u
  proof (rule after_sameI [OF learn_session_after], rule after_getsI, rule after_mono [OF stream_after])
    fix r :: "(CommandFailure, WaitResult) expected option" and v :: Wait
    assume "same_wait u v" "answered e T v fuel r"
    with u show "answered e T w fuel r"
      by (auto simp: same_wait_def elim!: enough_mono split: option.splits)
  qed
  show ?thesis
    unfolding perform_def
  proof (rule after_bindI, rule after_mono [OF grid_after])
    fix r :: "(CommandFailure, GridSnapshot option) expected" and u :: Wait
    assume u: "same_wait w u \<and> tick w < tick u \<and> (\<forall>c s. r = Inr (Some (c, s)) \<longrightarrow> s \<noteq> [])"
    consider f where "r = Inl f" | "r = Inr None" | c s where "r = Inr (Some (c, s))"
      by (metis prod.exhaust not_None_eq sum.exhaust)
    then show "after (case r of
       Inl f \<Rightarrow> map_state Some (capture_failed e capture_at_entry f [])
     | Inr None \<Rightarrow> map_state Some (lift (timed_out_result e capture_at_entry [] None))
     | Inr (Some (cursor, screen)) \<Rightarrow> do {
         present \<leftarrow> within_budget screen;
         case present of
           Inl f \<Rightarrow> State_Monad.return (Some (Inl f))
         | Inr found \<Rightarrow> do {
             modify (\<lambda>w. w\<lparr>matched_at_entry := found\<rparr>);
             over \<leftarrow> expired e;
             if over then map_state Some (lift (timed_out_result e capture_at_entry screen cursor))
             else do {
               confirmed \<leftarrow> (if found then confirms e screen cursor else State_Monad.return False);
               if confirmed then map_state Some (lift (matched_result e capture_at_entry screen))
               else do {
                 learn_session e;
                 name \<leftarrow> gets session_name;
                 stream_for_text fuel e name screen
               }
             }
           }
       }) u ?Q"
    proof cases
      case 1
      show ?thesis
        unfolding 1 sum.case after_map by (rule after_mono [OF capture_failed_after [where want = "wanted w"]]) simp
    next
      case 2
      show ?thesis
        unfolding 2 sum.case option.case by (rule timed_out_answer) (use u in \<open>auto simp: same_wait_def\<close>)
    next
      case 3
      then have s: "s \<noteq> []" using u by simp
      show ?thesis
        unfolding 3 sum.case option.case prod.case
      proof (rule after_bindI, rule after_mono [OF within_budget_after [OF s]], goal_cases)
        case (1 p v)
        then show ?case
        proof (cases p)
          case (Inl f)
          show ?thesis unfolding Inl sum.case after_return by simp
        next
          case (Inr found)
          show ?thesis
            unfolding Inr sum.case by (rule entry_step) (use 1 u Inr in \<open>auto simp: same_wait_def intro!: go\<close>)
        qed
      qed
    qed
  qed
qed

lemma server_wait_after: "after (server_wait fuel e target) w (\<lambda>r w'. answered e T w fuel r)"
proof -
  have go: "after (do { modify (\<lambda>w. w\<lparr>wait_pane := a, session_name := b, session_known := True\<rparr>); perform fuel e }) u
      (\<lambda>r w'. answered e T w fuel r)" if u: "same_wait w u" for a b u
    unfolding after_bind after_prims
    by (rule after_mono [OF perform_after [where T = T]])
      (use u in \<open>auto simp: same_wait_def elim!: enough_mono split: option.splits\<close>)
  show ?thesis
    unfolding server_wait_def
    by (rule after_bindI, rule after_mono [OF run_before_deadline_after])
      (auto simp: after_return after_bind clock_after honest_def no_result_def split: sum.split option.split list.split
        intro!: go [unfolded after_bind])
qed

lemma after_result: "after m w (\<lambda>r _. P r) = P (fst (run_state m w))"
  by (simp add: after_def split: prod.split)

lemmas wait_result = perform_after [where T = T for T, unfolded after_result] server_wait_after [where T = T for T, unfolded after_result]

section \<open>The properties\<close>


text \<open>C12. A wait ends. When the clock stays at or past the deadline from its reading \<open>T\<close> on, neither entry point takes
  more than \<open>T + budget + 1\<close> rounds of its loops, however the server, the control stream and the caller behave.\<close>

theorem wait_returns:
  assumes "\<forall>i \<ge> T. clock e 0 + limit * 1000000 \<le> clock e i" "T + budget + 1 < fuel"
  shows "(\<exists>r. pane_wait_for_text fuel e pane want limit budget = Some r) \<and>
    (\<exists>r. server_wait_for_text fuel e target want limit budget = Some r)"
  using assms wait_result(1) [of e T "new_wait pane want (clock e 0) limit budget" fuel]
    wait_result(2) [of e T "new_wait [] want (clock e 0) limit budget" fuel target]
  by (auto simp: pane_wait_for_text_def server_wait_for_text_def new_wait_def enough_def split: option.splits)

text \<open>Polling ends by its matching budget alone: every round that does not answer searched a screen that was not
  empty and paid for it, so even with a clock that never moves there are no more rounds than the budget has units.\<close>

theorem polling_bounded:
  assumes "match_budget w < fuel"
  shows "\<exists>r. fst (run_state (poll_for_text fuel e p s c due) w) = Some r"
  using assms poll_after [of fuel e p s c due w, unfolded after_result] by (auto split: option.splits)

text \<open>A wait that is cancelled from the start reports the cancellation, whatever the
  server would have answered and whatever time is left.\<close>

theorem wait_cancelled:
  assumes "\<forall>i. cancelled_at e i"
  shows "pane_wait_for_text fuel e pane want limit budget = Some (Inl cancelled_failure) \<and>
    server_wait_for_text fuel e target want limit budget = Some (Inl cancelled_failure)"
proof -
  have "after (perform fuel e) w (\<lambda>r _. r = Some (Inl cancelled_failure))" for w
    using assms by (simp add: perform_def grid_before_deadline_def cursor_before_deadline_def capture_before_deadline_def
      run_before_deadline_def capture_failed_def cancelled_failure_def wp)
  moreover have "after (server_wait fuel e target) w (\<lambda>r _. r = Some (Inl cancelled_failure))" for w
    using assms by (simp add: server_wait_def run_before_deadline_def cancelled_failure_def wp)
  ultimately show ?thesis
    by (simp add: after_result pane_wait_for_text_def server_wait_for_text_def)
qed

text \<open>The timeout handed to tmux is the time left in whole milliseconds, rounded up, and never zero, which a
  command would read as giving up at once.\<close>

theorem timeout_rounded_up:
  assumes "0 < left"
  shows "1 \<le> whole_milliseconds left \<and> left \<le> whole_milliseconds left * 1000000 \<and>
    (whole_milliseconds left - 1) * 1000000 < left"
  using assms unfolding whole_milliseconds_def Let_def by (auto simp: max_def not_less_eq_eq)

section \<open>Witnesses\<close>

definition office :: World where
  "office = \<lparr>clock = (\<lambda>i. i * 1000000), server_run = (\<lambda>i c t. if c ! 0 = ''capture-pane'' then Inr ''built'' else Inr ''0 4''),
     cancelled_at = (\<lambda>_. False), sent_at = None, pending_at = None, server_socket = [], connects_at = (\<lambda>_. False),
     arrivals_at = (\<lambda>_ _. []), poll_interval = 20\<rparr>"

lemma office_confirms: "confirms_at ''built'' ''built'' [] (Some \<lparr>cursor_row = 0, pane_height = 4\<rparr>) False"
  "contains_sub ''built'' ''built''"
  by code_simp+

lemma office_cursor: "parse_cursor ''0 4'' = Some \<lparr>cursor_row = 0, pane_height = 4\<rparr>"
  by (simp add: parse_cursor_def strip_line_ends_def whole_number_def is_digit_def digit_value_def byte_def)

lemma office_run:
  assumes "(tick w + 1) * 1000000 < deadline w"
  shows "after (run_before_deadline office c) w Q =
    Q (Inr (Some (if c ! 0 = ''capture-pane'' then ''built'' else ''0 4''))) (w\<lparr>tick := Suc (Suc (Suc (Suc (tick w))))\<rparr>)"
  using assms by (simp add: run_before_deadline_def wp office_def)

lemma office_grid:
  assumes "(tick w + 5) * 1000000 < deadline w"
  shows "after (grid_before_deadline office) w Q =
    Q (Inr (Some (Some \<lparr>cursor_row = 0, pane_height = 4\<rparr>, ''built''))) (w\<lparr>tick := Suc (Suc (Suc (Suc (Suc (Suc (Suc (Suc (tick w))))))))\<rparr>)"
  using assms
  by (simp add: grid_before_deadline_def cursor_before_deadline_def capture_before_deadline_def after_bind after_prims
    after_return office_run office_cursor)

lemma office_matches: "\<exists>r. pane_wait_for_text 5 office ''%1'' ''built'' 1000 100 = Some (Inr r) \<and> matched r"
proof -
  let ?w = "new_wait ''%1'' ''built'' 0 1000 100"
  have "after (perform 5 office) ?w (\<lambda>r _. \<exists>a. r = Some (Inr a) \<and> matched a)"
    unfolding perform_def after_bind
    apply (subst office_grid)
     apply (simp add: new_wait_def)
    apply (simp add: wp within_budget_def confirms_def matched_result_def new_wait_def office_confirms office_def
      del: append.simps)
    done
  then show ?thesis by (simp add: after_result pane_wait_for_text_def office_def)
qed


theorem wait_returns_witness:
  "(\<exists>r. pane_wait_for_text 2000 office ''%1'' ''done'' 1000 900 = Some r) \<and>
   (\<exists>r. server_wait_for_text 2000 office ''main:0'' ''done'' 1000 900 = Some r)"
  by (rule wait_returns [of 1000]) (simp_all add: office_def)

theorem polling_bounded_witness:
  "\<exists>r. fst (run_state (poll_for_text 901 office capture_polling ''built'' None 0) (new_wait ''%1'' ''done'' 0 1000 900)) = Some r"
  by (rule polling_bounded) (simp add: new_wait_def)

theorem wait_cancelled_witness:
  "pane_wait_for_text 1 (office\<lparr>cancelled_at := \<lambda>_. True\<rparr>) ''%1'' ''built'' 1000 100 = Some (Inl cancelled_failure) \<and>
   server_wait_for_text 1 (office\<lparr>cancelled_at := \<lambda>_. True\<rparr>) ''main:0'' ''built'' 1000 100 = Some (Inl cancelled_failure)"
  by (rule wait_cancelled) simp

theorem timeout_rounded_up_witness:
  "1 \<le> whole_milliseconds 1500001 \<and> 1500001 \<le> whole_milliseconds 1500001 * 1000000 \<and>
    (whole_milliseconds 1500001 - 1) * 1000000 < 1500001"
  by (rule timeout_rounded_up) simp

end
