(* ===== verification/Command_Engine.thy ===== *)
theory Command_Engine
  imports Commands "HOL-Library.Multiset"
begin

text \<open>The command engine (\<open>src/src/command_engine.cpp\<close>, \<open>src/src/command_engine.hpp\<close>): a channel that bounds the
  operations in flight, a first-in first-out queue, and a team of worker threads that take commands from it, pass an
  entry gate in submission order, run the command and settle its operation.

  A thread is a sequence of critical sections, so the engine is a step relation: every rule is one critical section, or
  one action between two of them, of a submitter, a worker, a closer or the operation that gives its slot back. What the
  command answers, whether its caller withdrew it and whether its deadline passed are free in every step. Orders are
  \<open>nat\<close> (the code's 64-bit counter does not wrap in practice). The retirement hook, the dequeue observer and the
  remaining time handed to the runner have no effect on the engine and are left out; what publishing and retiring do to
  the operation itself is the subject of \<open>Operation_State\<close>.\<close>

section \<open>The channel\<close>

record CommandChannel =
  operation_limit :: nat
  in_flight :: nat

definition admit :: "CommandChannel \<Rightarrow> CommandChannel \<times> bool" where
  "admit channel =
     (if operation_limit channel \<le> in_flight channel then (channel, False)
      else (channel\<lparr>in_flight := in_flight channel + 1\<rparr>, True))"

definition release_admission :: "CommandChannel \<Rightarrow> CommandChannel" where
  "release_admission channel =
     (if 0 < in_flight channel then channel\<lparr>in_flight := in_flight channel - 1\<rparr> else channel)"

section \<open>The engine\<close>

record PendingCommand =
  order :: nat
  operation :: nat

type_synonym Answer = "(CommandFailure, string) expected"

text \<open>Where a worker is in its loop: waiting for work, holding work in front of the entry gate, past the gate, running
  the command, with the answer in hand, or gone. The flag is the entry guard's \<open>advanced_\<close>.\<close>

datatype Worker =
    Idle
  | Holding PendingCommand
  | Entered PendingCommand
  | Running PendingCommand bool
  | Finishing PendingCommand Answer bool
  | Left

text \<open>\<open>published\<close> and \<open>retired\<close> log what happened to the operations, \<open>entered\<close> the orders that passed the gate, in
  sequence; \<open>admitted\<close> and \<open>released\<close> are the operations that took and gave back a slot of the channel, and
  \<open>submitting\<close> those between the two halves of their submission.\<close>

record CommandEngine =
  channel :: CommandChannel
  pending :: "PendingCommand list"
  next_order :: nat
  next_entry :: nat
  stop_requested :: bool
  close_joining :: bool
  terminal :: bool
  workers :: "Worker list"
  submitted :: nat
  submitting :: "nat list"
  published :: "(nat \<times> Answer) list"
  retired :: "nat list"
  admitted :: "nat list"
  released :: "nat list"
  entered :: "nat list"

definition start_engine :: "nat \<Rightarrow> nat \<Rightarrow> (CommandFailure, CommandEngine) expected" where
  "start_engine limit worker_count =
     (if worker_count = 0 then
        Inl \<lparr>kind = validation, delivery = not_started, exit_code = 0,
          diagnostic = ''the command engine needs at least one worker''\<rparr>
      else Inr \<lparr>channel = \<lparr>operation_limit = limit, in_flight = 0\<rparr>, pending = [], next_order = 0, next_entry = 0,
        stop_requested = False, close_joining = False, terminal = False, workers = replicate worker_count Idle,
        submitted = 0, submitting = [], published = [], retired = [], admitted = [], released = [], entered = []\<rparr>)"

definition engine_cancelled :: "DeliveryStatus \<Rightarrow> string \<Rightarrow> CommandFailure" where
  "engine_cancelled status text' = \<lparr>kind = cancelled, delivery = status, exit_code = 0, diagnostic = text'\<rparr>"

definition overloaded_failure :: CommandFailure where
  "overloaded_failure = \<lparr>kind = overloaded', delivery = not_started, exit_code = 0,
     diagnostic = ''the command engine has more work in flight than it accepts''\<rparr>"

definition engine_timed_out :: CommandFailure where
  "engine_timed_out = \<lparr>kind = timeout, delivery = not_started, exit_code = 0,
     diagnostic = ''the command deadline passed before it started''\<rparr>"

definition publish_and_retire :: "nat \<Rightarrow> Answer \<Rightarrow> CommandEngine \<Rightarrow> CommandEngine" where
  "publish_and_retire i answer e = e\<lparr>published := published e @ [(i, answer)], retired := retired e @ [i]\<rparr>"

text \<open>Submitting is two critical sections, the channel's and the engine's, and other threads may act between them. The
  first refuses the operation or admits it; the second queues it, or cancels it because the engine is closing.\<close>

definition submit_admission :: "CommandEngine \<Rightarrow> CommandEngine" where
  "submit_admission e =
     (let i = submitted e; e = e\<lparr>submitted := i + 1\<rparr> in
      case admit (channel e) of
        (_, False) \<Rightarrow> publish_and_retire i (Inl overloaded_failure) e
      | (c, True) \<Rightarrow> e\<lparr>channel := c, admitted := admitted e @ [i], submitting := submitting e @ [i]\<rparr>)"

definition submit_queue :: "nat \<Rightarrow> CommandEngine \<Rightarrow> CommandEngine" where
  "submit_queue i e =
     (let e = e\<lparr>submitting := remove1 i (submitting e)\<rparr> in
      if \<not> stop_requested e then
        e\<lparr>pending := pending e @ [\<lparr>order = next_order e, operation = i\<rparr>], next_order := next_order e + 1\<rparr>
      else publish_and_retire i
        (Inl (engine_cancelled not_started ''the command engine closed before this was accepted'')) e)"

definition advance_entry :: "nat \<Rightarrow> CommandEngine \<Rightarrow> CommandEngine" where
  "advance_entry n e = (if n \<noteq> next_entry e then e else e\<lparr>next_entry := next_entry e + 1\<rparr>)"

abbreviation set_worker :: "nat \<Rightarrow> Worker \<Rightarrow> CommandEngine \<Rightarrow> CommandEngine" where
  "set_worker w state e \<equiv> e\<lparr>workers := (workers e)[w := state]\<rparr>"

text \<open>The loop of a worker, one critical section or one action at a time. \<open>None\<close> when the worker has to wait.\<close>

definition take_work :: "nat \<Rightarrow> CommandEngine \<Rightarrow> CommandEngine option" where
  "take_work w e =
     (case pending e of
        [] \<Rightarrow> if stop_requested e then Some (set_worker w Left e) else None
      | work # rest \<Rightarrow> Some (set_worker w (Holding work) (e\<lparr>pending := rest\<rparr>)))"

definition pass_gate :: "nat \<Rightarrow> PendingCommand \<Rightarrow> CommandEngine \<Rightarrow> CommandEngine option" where
  "pass_gate w work e =
     (if stop_requested e then
        Some (set_worker w (Finishing work
          (Inl (engine_cancelled not_started ''the command engine closed before this started'')) True) e)
      else if order work = next_entry e then
        Some (set_worker w (Entered work) (e\<lparr>entered := entered e @ [order work]\<rparr>))
      else None)"

definition check_entry :: "nat \<Rightarrow> PendingCommand \<Rightarrow> bool \<Rightarrow> bool \<Rightarrow> CommandEngine \<Rightarrow> CommandEngine" where
  "check_entry w work withdrawn late e =
     (if withdrawn then set_worker w (Finishing work
        (Inl (engine_cancelled not_started ''the caller withdrew the command before it started'')) False) e
      else if late then set_worker w (Finishing work (Inl engine_timed_out) False) e
      else set_worker w (Running work False) e)"

definition notify_entry :: "nat \<Rightarrow> PendingCommand \<Rightarrow> CommandEngine \<Rightarrow> CommandEngine" where
  "notify_entry w work e = set_worker w (Running work True) (advance_entry (order work) e)"

definition finish_run :: "nat \<Rightarrow> PendingCommand \<Rightarrow> bool \<Rightarrow> Answer \<Rightarrow> CommandEngine \<Rightarrow> CommandEngine" where
  "finish_run w work advanced answer e = set_worker w (Finishing work answer advanced) e"

definition advance_guard :: "nat \<Rightarrow> PendingCommand \<Rightarrow> Answer \<Rightarrow> CommandEngine \<Rightarrow> CommandEngine" where
  "advance_guard w work answer e = set_worker w (Finishing work answer True) (advance_entry (order work) e)"

definition settle :: "nat \<Rightarrow> PendingCommand \<Rightarrow> Answer \<Rightarrow> CommandEngine \<Rightarrow> CommandEngine" where
  "settle w work answer e = set_worker w Idle (publish_and_retire (operation work) answer e)"

definition request_stop :: "CommandEngine \<Rightarrow> CommandEngine" where
  "request_stop e = e\<lparr>stop_requested := True\<rparr>"

definition begin_close :: "CommandEngine \<Rightarrow> CommandEngine option" where
  "begin_close e = (if terminal e \<or> close_joining e then None else Some (e\<lparr>stop_requested := True, close_joining := True\<rparr>))"

definition end_close :: "CommandEngine \<Rightarrow> CommandEngine option" where
  "end_close e = (if close_joining e \<and> list_all (\<lambda>w. w = Left) (workers e) then Some (e\<lparr>terminal := True\<rparr>) else None)"

section \<open>Every interleaving\<close>

text \<open>The workers' own moves; the answer of the command, whether the caller withdrew and whether the deadline passed
  are whatever they are.\<close>

inductive worker_step :: "CommandEngine \<Rightarrow> CommandEngine \<Rightarrow> bool" where
  taken: "w < length (workers e) \<Longrightarrow> workers e ! w = Idle \<Longrightarrow> take_work w e = Some e' \<Longrightarrow> worker_step e e'"
| gate: "w < length (workers e) \<Longrightarrow> workers e ! w = Holding work \<Longrightarrow> pass_gate w work e = Some e' \<Longrightarrow> worker_step e e'"
| checked: "w < length (workers e) \<Longrightarrow> workers e ! w = Entered work \<Longrightarrow> worker_step e (check_entry w work withdrawn late e)"
| notified: "w < length (workers e) \<Longrightarrow> workers e ! w = Running work False \<Longrightarrow> worker_step e (notify_entry w work e)"
| finished: "w < length (workers e) \<Longrightarrow> workers e ! w = Running work advanced \<Longrightarrow> worker_step e (finish_run w work advanced answer e)"
| advanced: "w < length (workers e) \<Longrightarrow> workers e ! w = Finishing work answer False \<Longrightarrow> worker_step e (advance_guard w work answer e)"
| settled: "w < length (workers e) \<Longrightarrow> workers e ! w = Finishing work answer True \<Longrightarrow> worker_step e (settle w work answer e)"

inductive engine_step :: "CommandEngine \<Rightarrow> CommandEngine \<Rightarrow> bool" where
  worker: "worker_step e e' \<Longrightarrow> engine_step e e'"
| admission: "engine_step e (submit_admission e)"
| queue: "i \<in> set (submitting e) \<Longrightarrow> engine_step e (submit_queue i e)"
| release: "i \<in> set (retired e) \<Longrightarrow> i \<in> set (admitted e) \<Longrightarrow> i \<notin> set (released e) \<Longrightarrow>
    engine_step e (e\<lparr>channel := release_admission (channel e), released := released e @ [i]\<rparr>)"
| stop: "engine_step e (request_stop e)"
| begin_close: "begin_close e = Some e' \<Longrightarrow> engine_step e e'"
| end_close: "end_close e = Some e' \<Longrightarrow> engine_step e e'"

inductive engine_reachable :: "nat \<Rightarrow> nat \<Rightarrow> CommandEngine \<Rightarrow> bool" for limit team where
  started: "start_engine limit team = Inr e \<Longrightarrow> engine_reachable limit team e"
| step: "engine_reachable limit team e \<Longrightarrow> engine_step e e' \<Longrightarrow> engine_reachable limit team e'"

section \<open>Counting over the workers\<close>

definition tally :: "(Worker \<Rightarrow> nat multiset) \<Rightarrow> Worker list \<Rightarrow> nat multiset" where
  "tally f ws = (\<Sum>s\<leftarrow>ws. f s)"

definition others :: "(Worker \<Rightarrow> nat multiset) \<Rightarrow> nat \<Rightarrow> Worker list \<Rightarrow> nat multiset" where
  "others f w ws = tally f (take w ws) + tally f (drop (Suc w) ws)"

lemma tally_split: "w < length ws \<Longrightarrow> tally f ws = f (ws ! w) + others f w ws"
  by (subst (1) id_take_nth_drop [of w ws]) (simp_all add: tally_def others_def)

lemma tally_set: "w < length ws \<Longrightarrow> tally f (ws[w := s]) = f s + others f w ws"
  by (simp add: tally_def others_def upd_conv_take_nth_drop)

lemma others_set [simp]: "others f w (ws[w := s]) = others f w ws"
  by (simp add: others_def)

lemma tally_member: "x \<in># tally f ws \<longleftrightarrow> (\<exists>s \<in> set ws. x \<in># f s)"
  by (induction ws) (auto simp: tally_def)

lemma tally_idle: "f Idle = {#} \<Longrightarrow> tally f (replicate n Idle) = {#}"
  by (induction n) (auto simp: tally_def)

text \<open>The operation a worker has, the order that is not past the gate for good, and the order that is inside it.\<close>

fun held :: "Worker \<Rightarrow> nat multiset" where
  "held (Holding work) = {#operation work#}"
| "held (Entered work) = {#operation work#}"
| "held (Running work _) = {#operation work#}"
| "held (Finishing work _ _) = {#operation work#}"
| "held _ = {#}"

lemma tally_left: "\<forall>s \<in> set ws. s = Left \<Longrightarrow> tally held ws = {#}"
  by (induction ws) (auto simp: tally_def)

fun inside :: "Worker \<Rightarrow> nat multiset" where
  "inside (Entered work) = {#order work#}"
| "inside (Running work False) = {#order work#}"
| "inside (Finishing work _ False) = {#order work#}"
| "inside _ = {#}"

fun waiting :: "Worker \<Rightarrow> nat multiset" where
  "waiting (Holding work) = {#order work#}"
| "waiting _ = {#}"

abbreviation oldest_pending :: "CommandEngine \<Rightarrow> nat" where
  "oldest_pending e \<equiv> next_order e - length (pending e)"

definition ordered :: "CommandEngine \<Rightarrow> bool" where
  "ordered e \<longleftrightarrow>
     map order (pending e) = [oldest_pending e..<next_order e] \<and> length (pending e) \<le> next_order e \<and>
     next_entry e \<le> oldest_pending e \<and>
     (tally inside (workers e) = {#} \<or> tally inside (workers e) = {#next_entry e#}) \<and>
     tally waiting (workers e) + tally inside (workers e) \<subseteq># mset [next_entry e..<oldest_pending e] \<and>
     (\<not> stop_requested e \<longrightarrow>
        tally waiting (workers e) + tally inside (workers e) = mset [next_entry e..<oldest_pending e]) \<and>
     entered e = [0..<next_entry e + size (tally inside (workers e))]"

definition accounted :: "CommandEngine \<Rightarrow> bool" where
  "accounted e \<longleftrightarrow>
     mset (map fst (published e)) + mset (submitting e) + mset (map operation (pending e)) + tally held (workers e) =
       mset [0..<submitted e] \<and>
     retired e = map fst (published e)"

definition admitted_within :: "nat \<Rightarrow> CommandEngine \<Rightarrow> bool" where
  "admitted_within limit e \<longleftrightarrow>
     operation_limit (channel e) = limit \<and> in_flight (channel e) \<le> limit \<and>
     in_flight (channel e) + length (released e) = length (admitted e) \<and>
     distinct (admitted e) \<and> distinct (released e) \<and> set (released e) \<subseteq> set (admitted e) \<inter> set (retired e) \<and>
     set (admitted e) \<subseteq> {0..<submitted e}"

definition closing :: "nat \<Rightarrow> CommandEngine \<Rightarrow> bool" where
  "closing team e \<longleftrightarrow>
     length (workers e) = team \<and> (Left \<in> set (workers e) \<longrightarrow> stop_requested e \<and> pending e = []) \<and>
     (close_joining e \<longrightarrow> stop_requested e) \<and> (terminal e \<longrightarrow> list_all (\<lambda>w. w = Left) (workers e))"

section \<open>The invariants are kept\<close>

lemmas worker_ops = take_work_def pass_gate_def check_entry_def notify_entry_def finish_run_def advance_guard_def
  settle_def publish_and_retire_def advance_entry_def

lemma upt_front: "a < b \<Longrightarrow> mset [a..<b] = add_mset a (mset [Suc a..<b])"
  by (simp add: upt_rec)

lemma insert_subset_multiset: "add_mset a A \<subseteq># B \<Longrightarrow> A \<subseteq># B"
  by (meson mset_subset_eq_insertD subset_mset.less_imp_le)

lemma inside_is_next:
  assumes "ordered e" "w < length (workers e)" "inside (workers e ! w) = {#n#}"
  shows "n = next_entry e" "others inside w (workers e) = {#}"
  using assms by (auto simp: ordered_def tally_split [of w "workers e"])

text \<open>Leaving the gate: the order inside becomes past, and the gate moves to the next one.\<close>

lemma ordered_leave:
  assumes o: "ordered e" and w: "w < length (workers e)" "inside (workers e ! w) = {#n#}" "waiting (workers e ! w) = {#}"
    and s: "inside s = {#}" "waiting s = {#}"
  shows "ordered (set_worker w s (advance_entry n e))"
proof -
  note i = inside_is_next [OF o w(1) w(2)]
  let ?p = "oldest_pending e" and ?n = "next_entry e"
  have tally: "tally inside (workers e) = {#?n#}" "tally waiting (workers e) = others waiting w (workers e)"
    using w i by (simp_all add: tally_split [OF w(1)])
  have sub: "tally waiting (workers e) + tally inside (workers e) \<subseteq># mset [?n..<?p]"
    using o unfolding ordered_def by blast
  have "?n \<in># mset [?n..<?p]" by (rule mset_subset_eqD [OF sub]) (simp add: tally)
  hence less: "?n < ?p" by simp
  have set: "tally inside ((workers e)[w := s]) = {#}" "tally waiting ((workers e)[w := s]) = others waiting w (workers e)"
    using s i by (simp_all add: tally_set [OF w(1)])
  have "others waiting w (workers e) \<subseteq># mset [Suc ?n..<?p]"
    using sub less by (simp add: tally upt_front del: mset_upt)
  moreover have "\<not> stop_requested e \<Longrightarrow> others waiting w (workers e) = mset [Suc ?n..<?p]"
    using o less by (simp add: ordered_def tally upt_front del: mset_upt)
  ultimately show ?thesis
    using o less unfolding i(1) by (auto simp: ordered_def advance_entry_def tally set simp del: mset_upt)
qed

text \<open>A move of a worker that leaves the gate and the queue alone.\<close>

lemma ordered_same:
  assumes o: "ordered e" and w: "w < length (workers e)"
    and s: "inside s = inside (workers e ! w)" "waiting s = waiting (workers e ! w)"
  shows "ordered (set_worker w s e)"
  using o s by (simp add: ordered_def tally_split [OF w] tally_set [OF w])

lemma ordered_take:
  assumes o: "ordered e" and w: "w < length (workers e)" "workers e ! w = Idle" and t: "take_work w e = Some e'"
  shows "ordered e'"
proof (cases "pending e")
  case Nil
  thus ?thesis using t o w by (auto simp: take_work_def intro!: ordered_same split: if_splits)
next
  case (Cons work rest)
  let ?p = "next_order e - Suc (length rest)"
  have "Suc (length rest) \<le> next_order e" using o Cons by (simp add: ordered_def)
  hence p: "next_order e - length rest = Suc ?p" "?p < next_order e" by auto
  have "order work # map order rest = [?p..<next_order e]" using o Cons by (simp add: ordered_def)
  hence q: "order work = ?p" "map order rest = [Suc ?p..<next_order e]" using p by (auto simp: upt_rec [of ?p])
  have n: "next_entry e \<le> ?p" using o Cons by (simp add: ordered_def)
  have "e' = set_worker w (Holding work) (e\<lparr>pending := rest\<rparr>)" using t Cons by (simp add: take_work_def)
  thus ?thesis
    using o Cons w n p q by (auto simp: ordered_def tally_split [OF w(1)] tally_set [OF w(1)] )
qed

lemma ordered_gate:
  assumes o: "ordered e" and w: "w < length (workers e)" "workers e ! w = Holding work" and t: "pass_gate w work e = Some e'"
  shows "ordered e'"
proof (cases "stop_requested e")
  case True
  thus ?thesis
    using t o w by (auto simp: pass_gate_def ordered_def tally_split [OF w(1)] tally_set [OF w(1)] dest: insert_subset_multiset)
next
  case False
  hence n: "order work = next_entry e" and e': "e' = set_worker w (Entered work) (e\<lparr>entered := entered e @ [order work]\<rparr>)"
    using t by (auto simp: pass_gate_def split: if_splits)
  have eq: "add_mset (next_entry e) (others waiting w (workers e) + others inside w (workers e)) =
      mset [next_entry e..<oldest_pending e]"
    using o False w n by (simp add: ordered_def tally_split [OF w(1)])
  have "next_entry e \<notin># others inside w (workers e)"
  proof
    assume "next_entry e \<in># others inside w (workers e)"
    hence "2 \<le> count (mset [next_entry e..<oldest_pending e]) (next_entry e)"
      unfolding eq [symmetric] by (simp add: Suc_le_eq)
    thus False using distinct_count_atmost_1 [of "[next_entry e..<oldest_pending e]"] by (auto split: if_splits)
  qed
  hence "others inside w (workers e) = {#}" using o w by (auto simp: ordered_def tally_split [OF w(1)])
  thus ?thesis using o w n eq e' by (auto simp: ordered_def tally_split [OF w(1)] tally_set [OF w(1)])
qed

lemma ordered_worker: "worker_step e e' \<Longrightarrow> ordered e \<Longrightarrow> ordered e'"
proof (induction rule: worker_step.induct)
  case (taken w e e') thus ?case by (simp add: ordered_take)
next
  case (gate w e work e') thus ?case by (simp add: ordered_gate)
next
  case (checked w e work withdrawn late)
  thus ?case by (auto simp: check_entry_def intro: ordered_same)
next
  case (notified w e work)
  thus ?case by (simp add: notify_entry_def ordered_leave)
next
  case (finished w e work a answer)
  thus ?case by (cases a) (auto simp: finish_run_def intro: ordered_same)
next
  case (advanced w e work answer)
  thus ?case by (simp add: advance_guard_def ordered_leave)
next
  case (settled w e work answer)
  hence "ordered (set_worker w Idle e)" by (intro ordered_same) auto
  thus ?case by (simp add: settle_def publish_and_retire_def ordered_def)
qed

lemma accounted_worker: "worker_step e e' \<Longrightarrow> accounted e \<Longrightarrow> accounted e'"
proof (induction rule: worker_step.induct)
  case (taken w e e')
  thus ?case by (auto simp: accounted_def take_work_def tally_split [of w] tally_set split: list.splits if_splits)
next
  case (gate w e work e')
  thus ?case by (auto simp: accounted_def pass_gate_def tally_split [of w] tally_set split: if_splits)
qed (auto simp: accounted_def worker_ops tally_split tally_set)

lemma admitted_worker: "worker_step e e' \<Longrightarrow> admitted_within limit e \<Longrightarrow> admitted_within limit e'"
  by (induction rule: worker_step.induct)
    (auto simp: admitted_within_def worker_ops split: list.splits if_splits)

lemma left_update: "Left \<in> set (ws[w := s]) \<Longrightarrow> s = Left \<or> Left \<in> set ws"
  using set_update_subset_insert [of ws w s] by auto

lemma all_left_fixed: "list_all (\<lambda>w. w = Left) ws \<Longrightarrow> w < length ws \<Longrightarrow> ws ! w = Left"
  by (simp add: list_all_length)

lemma closing_set:
  assumes "closing team e" "w < length (workers e)" "workers e ! w \<noteq> Left" "workers e' = (workers e)[w := s]"
    "s = Left \<Longrightarrow> stop_requested e \<and> pending e = []" "pending e = [] \<Longrightarrow> pending e' = []"
    "stop_requested e' = stop_requested e" "close_joining e' = close_joining e" "terminal e' = terminal e"
  shows "closing team e'"
  using assms left_update [of "workers e" w s] all_left_fixed [of "workers e" w] by (auto simp: closing_def)

lemma closing_worker: "worker_step e e' \<Longrightarrow> closing team e \<Longrightarrow> closing team e'"
proof (induction rule: worker_step.induct)
  case (taken w e e')
  thus ?case
    by (cases "pending e") (auto simp: take_work_def split: if_splits elim!: closing_set [where w = w])
next
  case (gate w e work e')
  thus ?case by (auto simp: pass_gate_def split: if_splits elim!: closing_set [where w = w])
qed (auto simp: check_entry_def notify_entry_def finish_run_def advance_guard_def settle_def publish_and_retire_def
  advance_entry_def elim!: closing_set)

lemma ordered_step: "engine_step e e' \<Longrightarrow> ordered e \<Longrightarrow> ordered e'"
proof (induction rule: engine_step.induct)
  case (worker e e') thus ?case by (rule ordered_worker)
next
  case (queue i e)
  thus ?case
    by (auto simp: ordered_def submit_queue_def publish_and_retire_def Let_def Suc_diff_le)
qed (auto simp: ordered_def submit_admission_def admit_def publish_and_retire_def request_stop_def begin_close_def
  end_close_def Let_def split: if_splits)

lemma accounted_step: "engine_step e e' \<Longrightarrow> accounted e \<Longrightarrow> accounted e'"
proof (induction rule: engine_step.induct)
  case (worker e e') thus ?case by (rule accounted_worker)
next
  case (queue i e)
  thus ?case
    by (auto simp: accounted_def submit_queue_def publish_and_retire_def Let_def)
qed (auto simp: accounted_def submit_admission_def admit_def publish_and_retire_def request_stop_def begin_close_def
  end_close_def Let_def atLeast0_lessThan_Suc split: if_splits)

lemma admitted_step: "engine_step e e' \<Longrightarrow> admitted_within limit e \<Longrightarrow> admitted_within limit e'"
proof (induction rule: engine_step.induct)
  case (worker e e') thus ?case by (rule admitted_worker)
next
  case (release i e)
  hence "card (set (released e)) < card (set (admitted e))"
    by (intro psubset_card_mono) (auto simp: admitted_within_def)
  hence "length (released e) < length (admitted e)" using release by (simp add: admitted_within_def distinct_card)
  thus ?case using release by (auto simp: admitted_within_def release_admission_def)
next
  case (admission e)
  have "submitted e \<notin> set (admitted e)" using admission by (auto simp: admitted_within_def)
  thus ?case using admission
    by (auto simp: admitted_within_def submit_admission_def admit_def publish_and_retire_def Let_def)
qed (auto simp: admitted_within_def submit_queue_def publish_and_retire_def request_stop_def begin_close_def
  end_close_def Let_def split: if_splits)

lemma closing_step: "engine_step e e' \<Longrightarrow> closing team e \<Longrightarrow> closing team e'"
proof (induction rule: engine_step.induct)
  case (worker e e') thus ?case by (rule closing_worker)
qed (auto simp: closing_def submit_admission_def submit_queue_def admit_def publish_and_retire_def request_stop_def
  begin_close_def end_close_def Let_def split: if_splits)

interpretation engine: transition_system "\<lambda>e. start_engine limit team = Inr e" engine_step "engine_reachable limit team"
proof
  show "engine_reachable limit team e \<Longrightarrow> (\<And>e. start_engine limit team = Inr e \<Longrightarrow> P e) \<Longrightarrow>
      (\<And>e e'. engine_reachable limit team e \<Longrightarrow> P e \<Longrightarrow> engine_step e e' \<Longrightarrow> P e') \<Longrightarrow> P e" for P e
    by (rule engine_reachable.induct) blast+
qed (blast intro: engine_reachable.intros)+

lemma reachable_invariants:
  assumes "engine_reachable limit team e"
  shows "ordered e \<and> accounted e \<and> admitted_within limit e \<and> closing team e \<and> 0 < team"
proof (rule engine.invariant [OF assms])
  show "start_engine limit team = Inr e \<Longrightarrow>
      ordered e \<and> accounted e \<and> admitted_within limit e \<and> closing team e \<and> 0 < team" for e
    by (auto simp: start_engine_def ordered_def accounted_def admitted_within_def closing_def tally_idle split: if_splits)
qed (blast intro: ordered_step accounted_step admitted_step closing_step)

section \<open>Work ends\<close>

fun effort :: "Worker \<Rightarrow> nat" where
  "effort Left = 0"
| "effort Idle = 1"
| "effort (Finishing _ _ advanced) = (if advanced then 2 else 3)"
| "effort (Running _ advanced) = (if advanced then 3 else 4)"
| "effort (Entered _) = 5"
| "effort (Holding _) = 6"

definition work_left :: "CommandEngine \<Rightarrow> nat" where
  "work_left e = 6 * length (pending e) + (\<Sum>s\<leftarrow>workers e. effort s)"

lemma effort_update:
  "w < length ws \<Longrightarrow> (\<Sum>s\<leftarrow>ws[w := t]. effort s) + effort (ws ! w) = (\<Sum>s\<leftarrow>ws. effort s) + effort t"
  by (induction ws arbitrary: w) (auto split: nat.splits)

lemma worker_step_works: "worker_step e e' \<Longrightarrow> work_left e' < work_left e"
proof (induction rule: worker_step.induct)
  case (taken w e e')
  show ?case
  proof (cases "pending e")
    case Nil
    thus ?thesis using taken effort_update [of w "workers e" Left]
      by (auto simp: work_left_def take_work_def split: if_splits)
  next
    case (Cons work rest)
    thus ?thesis using taken effort_update [of w "workers e" "Holding work"]
      by (auto simp: work_left_def take_work_def)
  qed
next
  case (gate w e work e')
  thus ?case
    using effort_update [of w "workers e" "Entered work"] effort_update [of w "workers e" "Finishing work
      (Inl (engine_cancelled not_started ''the command engine closed before this started'')) True"]
    by (auto simp: work_left_def pass_gate_def split: if_splits)
next
  case (checked w e work withdrawn late)
  thus ?case
    using effort_update [of w "workers e" "Running work False"]
      effort_update [of w "workers e" "Finishing work (Inl engine_timed_out) False"]
      effort_update [of w "workers e" "Finishing work
        (Inl (engine_cancelled not_started ''the caller withdrew the command before it started'')) False"]
    by (auto simp: work_left_def check_entry_def)
next
  case (notified w e work)
  thus ?case using effort_update [of w "workers e" "Running work True"]
    by (auto simp: work_left_def notify_entry_def advance_entry_def)
next
  case (finished w e work a answer)
  thus ?case using effort_update [of w "workers e" "Finishing work answer a"]
    by (auto simp: work_left_def finish_run_def split: if_splits)
next
  case (advanced w e work answer)
  thus ?case using effort_update [of w "workers e" "Finishing work answer True"]
    by (auto simp: work_left_def advance_guard_def advance_entry_def)
next
  case (settled w e work answer)
  thus ?case using effort_update [of w "workers e" Idle]
    by (auto simp: work_left_def settle_def publish_and_retire_def)
qed

lemma worker_steps_bounded: "(worker_step ^^ n) e e' \<Longrightarrow> n + work_left e' \<le> work_left e"
  by (induction n arbitrary: e') (auto dest!: worker_step_works, fastforce)

text \<open>Some worker can move while there is work, and once the engine is stopping, while there is a worker.\<close>

lemma moves_unless_parked:
  assumes "s \<in> set (workers e)" "s \<noteq> Idle" "s \<noteq> Left" "\<And>work. s \<noteq> Holding work"
  shows "\<exists>e'. worker_step e e'"
proof -
  obtain w where w: "w < length (workers e)" "workers e ! w = s" using assms(1) by (auto simp: in_set_conv_nth)
  show ?thesis
  proof (cases s)
    case (Entered work) thus ?thesis using w worker_step.checked by blast
  next
    case (Running work a) thus ?thesis using w worker_step.finished by blast
  next
    case (Finishing work answer a)
    thus ?thesis using w worker_step.advanced [of w e work answer] worker_step.settled [of w e work answer]
      by (cases a) auto
  qed (use assms in auto)
qed

lemma parked_moves:
  assumes "s \<in> set (workers e)" "s = Idle" "pending e \<noteq> [] \<or> stop_requested e"
  shows "\<exists>e'. worker_step e e'"
proof -
  obtain w where w: "w < length (workers e)" "workers e ! w = Idle" using assms(1,2) by (auto simp: in_set_conv_nth)
  obtain e' where "take_work w e = Some e'" using assms(3) by (cases "pending e") (auto simp: take_work_def)
  thus ?thesis using worker_step.taken [OF w] by blast
qed

lemma gate_moves:
  assumes "ordered e" "Holding work \<in> set (workers e)" "\<forall>s \<in> set (workers e). inside s = {#}"
  shows "\<exists>e'. worker_step e e'"
proof -
  obtain w' where "w' < length (workers e)" "workers e ! w' = Holding work"
    using assms(2) by (auto simp: in_set_conv_nth)
  moreover obtain w work' where w: "w < length (workers e)" "workers e ! w = Holding work'"
    "stop_requested e \<or> order work' = next_entry e"
  proof (cases "stop_requested e")
    case True thus ?thesis using that calculation by blast
  next
    case False
    have i: "tally inside (workers e) = {#}" using assms(3) tally_member [of _ inside] by (metis empty_iff multiset_nonemptyE set_mset_empty)
    have eq: "tally waiting (workers e) = mset [next_entry e..<oldest_pending e]"
      using assms(1) False i by (simp add: ordered_def)
    have "order work \<in># tally waiting (workers e)" using assms(2) by (force simp: tally_member)
    hence "next_entry e \<in># tally waiting (workers e)" unfolding eq by simp
    then obtain s where "s \<in> set (workers e)" "next_entry e \<in># waiting s" by (auto simp: tally_member)
    moreover obtain work'' where "s = Holding work''" "order work'' = next_entry e"
      using calculation(2) by (cases s) auto
    ultimately show ?thesis using that by (auto simp: in_set_conv_nth)
  qed
  obtain e' where "pass_gate w work' e = Some e'" using w(3) by (cases "stop_requested e") (auto simp: pass_gate_def)
  thus ?thesis using worker_step.gate [OF w(1,2)] by blast
qed

lemma worker_moves:
  assumes r: "engine_reachable limit team e"
    and work: "pending e \<noteq> [] \<or> (\<exists>s \<in> set (workers e). s \<noteq> Idle \<and> s \<noteq> Left) \<or>
      stop_requested e \<and> (\<exists>s \<in> set (workers e). s \<noteq> Left)"
  shows "\<exists>e'. worker_step e e'"
proof (rule ccontr)
  assume no: "\<not> ?thesis"
  have inv: "ordered e" "closing team e" "0 < team" using reachable_invariants [OF r] by auto
  have parked: "s = Idle \<or> s = Left \<or> (\<exists>work. s = Holding work)" if "s \<in> set (workers e)" for s
    using that no moves_unless_parked by blast
  hence "\<forall>s \<in> set (workers e). inside s = {#}" by force
  hence nohold: "Holding work \<notin> set (workers e)" for work using gate_moves [OF inv(1)] no by blast
  have "workers e \<noteq> []" using inv by (auto simp: closing_def)
  then obtain s where s: "s \<in> set (workers e)" by (cases "workers e") auto
  show False
  proof (cases "pending e = []")
    case True thus False using work parked nohold parked_moves no by metis
  next
    case False
    hence "Left \<notin> set (workers e)" using inv by (auto simp: closing_def)
    thus False using s parked nohold parked_moves no False by metis
  qed
qed

lemma stopped_worker: "worker_step e e' \<Longrightarrow> stop_requested e' = stop_requested e"
  by (induction rule: worker_step.induct)
    (auto simp: take_work_def pass_gate_def check_entry_def notify_entry_def finish_run_def advance_guard_def settle_def
      publish_and_retire_def advance_entry_def split: list.splits if_splits)

lemma worker_steps_reach:
  "worker_step\<^sup>*\<^sup>* e e' \<Longrightarrow> engine_reachable limit team e \<Longrightarrow>
     engine_reachable limit team e' \<and> stop_requested e' = stop_requested e"
  by (induction rule: rtranclp_induct) (auto intro: engine_reachable.step engine_step.worker dest: stopped_worker)

lemma workers_come_to_rest: "\<exists>e'. worker_step\<^sup>*\<^sup>* e e' \<and> (\<nexists>e''. worker_step e' e'')"
proof (induction "work_left e" arbitrary: e rule: less_induct)
  case less
  show ?case
  proof (cases "\<exists>e'. worker_step e e'")
    case True
    then obtain e' where "worker_step e e'" by blast
    thus ?thesis using less [OF worker_step_works] by (meson converse_rtranclp_into_rtranclp)
  next
    case False thus ?thesis by blast
  qed
qed

lemma rest_after_stop:
  assumes "engine_reachable limit team e" "stop_requested e" "\<nexists>e'. worker_step e e'"
  shows "list_all (\<lambda>s. s = Left) (workers e) \<and> pending e = [] \<and>
    mset (retired e) + mset (submitting e) = mset [0..<submitted e]"
proof -
  have all: "\<forall>s \<in> set (workers e). s = Left" and p: "pending e = []" using worker_moves [OF assms(1)] assms(2,3) by auto
  hence "tally held (workers e) = {#}" by (simp add: tally_left)
  thus ?thesis using reachable_invariants [OF assms(1)] all p by (simp add: accounted_def list_all_iff)
qed

lemma others_member:
  "v \<noteq> w \<Longrightarrow> v < length ws \<Longrightarrow> w < length ws \<Longrightarrow> f Idle = {#} \<Longrightarrow> x \<in># f (ws ! w) \<Longrightarrow> x \<in># others f v ws"
proof -
  assume a: "v \<noteq> w" "v < length ws" "w < length ws" "f Idle = {#}" "x \<in># f (ws ! w)"
  hence "x \<in># tally f (ws[v := Idle])"
    unfolding tally_member by (metis length_list_update nth_list_update_neq nth_mem)
  thus ?thesis using a by (simp add: tally_set)
qed

lemma distinct_sub_multiset: "mset xs \<subseteq># mset [0..<n] \<Longrightarrow> distinct xs"
proof -
  assume "mset xs \<subseteq># mset [0..<n]"
  then obtain zs where "mset [0..<n] = mset (xs @ zs)" by (metis ex_mset mset_append mset_subset_eq_exists_conv)
  hence "distinct (xs @ zs)" using mset_eq_imp_distinct_iff distinct_upt by metis
  thus ?thesis by simp
qed

section \<open>The engine's promises\<close>

text \<open>A state to apply them to: one command submitted to an engine of one worker, which has taken it through the gate.\<close>

definition demo_work :: PendingCommand where "demo_work = \<lparr>order = 0, operation = 0\<rparr>"

definition demo_start :: CommandEngine where
  "demo_start = \<lparr>channel = \<lparr>operation_limit = 1, in_flight = 0\<rparr>, pending = [], next_order = 0, next_entry = 0,
     stop_requested = False, close_joining = False, terminal = False, workers = [Idle],
     submitted = 0, submitting = [], published = [], retired = [], admitted = [], released = [], entered = []\<rparr>"

definition demo_entered :: CommandEngine where
  "demo_entered = demo_start\<lparr>channel := \<lparr>operation_limit = 1, in_flight = 1\<rparr>, next_order := 1, workers := [Entered demo_work],
     submitted := 1, admitted := [0], entered := [0]\<rparr>"

lemma demo_reachable: "engine_reachable 1 1 demo_entered"
proof -
  let ?e1 = "submit_admission demo_start"
  let ?e2 = "submit_queue 0 ?e1"
  let ?e3 = "?e2\<lparr>pending := [], workers := [Holding demo_work]\<rparr>"
  have "engine_reachable 1 1 demo_start"
    by (rule engine_reachable.started) (simp add: start_engine_def demo_start_def)
  hence "engine_reachable 1 1 ?e1" by (rule engine_reachable.step) (rule engine_step.admission)
  hence "engine_reachable 1 1 ?e2"
    by (rule engine_reachable.step)
      (rule engine_step.queue, simp add: submit_admission_def demo_start_def admit_def)
  moreover have "worker_step ?e2 ?e3"
    by (rule worker_step.taken [where w = 0])
      (simp_all add: submit_admission_def submit_queue_def demo_start_def admit_def take_work_def demo_work_def)
  ultimately have "engine_reachable 1 1 ?e3" by (auto intro: engine_reachable.step engine_step.worker)
  moreover have "worker_step ?e3 demo_entered"
    by (rule worker_step.gate [where w = 0 and work = demo_work])
      (simp_all add: submit_admission_def submit_queue_def demo_start_def admit_def pass_gate_def demo_work_def
        demo_entered_def)
  ultimately show ?thesis by (auto intro: engine_reachable.step engine_step.worker)
qed

text \<open>C4. However submitters, workers, cancellations and closers interleave, commands enter tmux in the order they were
  queued: the orders that passed the gate are exactly \<open>0, 1, \<dots>\<close> up to the gate's own position or one past it, and at most
  one worker is between the gate and its advance.\<close>

theorem commands_enter_in_order:
  assumes "engine_reachable limit team e"
  shows "(entered e = [0..<next_entry e] \<or> entered e = [0..<Suc (next_entry e)]) \<and>
    (\<forall>v w. v < length (workers e) \<and> w < length (workers e) \<and>
       inside (workers e ! v) \<noteq> {#} \<and> inside (workers e ! w) \<noteq> {#} \<longrightarrow> v = w)"
proof (intro conjI allI impI)
  have o: "ordered e" using reachable_invariants [OF assms] by blast
  show "entered e = [0..<next_entry e] \<or> entered e = [0..<Suc (next_entry e)]" using o by (auto simp: ordered_def)
  fix v w
  assume a: "v < length (workers e) \<and> w < length (workers e) \<and> inside (workers e ! v) \<noteq> {#} \<and> inside (workers e ! w) \<noteq> {#}"
  then obtain n where n: "inside (workers e ! v) = {#n#}" by (cases "workers e ! v" rule: inside.cases) auto
  have "others inside v (workers e) = {#}" using inside_is_next [OF o _ n] a by simp
  moreover obtain x where "x \<in># inside (workers e ! w)" using a by (meson multiset_nonemptyE)
  ultimately show "v = w" using a others_member [of v w "workers e" inside x] by auto
qed

theorem commands_enter_in_order_witness:
  "entered demo_entered = [0] \<and> inside (workers demo_entered ! 0) = {#0#} \<and>
   (entered demo_entered = [0..<0] \<or> entered demo_entered = [0..<Suc 0])"
  using commands_enter_in_order [OF demo_reachable] by (simp add: demo_entered_def demo_start_def demo_work_def)

text \<open>C32. Every submitted operation is in exactly one place - its submitter's hands, the queue, a worker, or settled - and
  is published and retired at most once; after the engine closed, with no submission half done, each was answered.\<close>

theorem operations_settled_once:
  assumes "engine_reachable limit team e"
  shows "distinct (map fst (published e)) \<and> retired e = map fst (published e) \<and>
    mset (retired e) + mset (submitting e) + mset (map operation (pending e)) + tally held (workers e) =
      mset [0..<submitted e] \<and>
    (terminal e \<and> submitting e = [] \<longrightarrow> mset (retired e) = mset [0..<submitted e])"
proof -
  have a: "accounted e" and c: "closing team e" "0 < team" using reachable_invariants [OF assms] by auto
  hence eq: "mset (map fst (published e)) + mset (submitting e) + mset (map operation (pending e)) + tally held (workers e) =
       mset [0..<submitted e]" and r: "retired e = map fst (published e)" by (auto simp: accounted_def)
  have "mset (map fst (published e)) \<subseteq># mset [0..<submitted e]" unfolding eq [symmetric] by simp
  hence d: "distinct (map fst (published e))"
    using distinct_sub_multiset by blast
  have "tally held (workers e) = {#} \<and> pending e = []" if "terminal e"
  proof -
    have "list_all (\<lambda>s. s = Left) (workers e)" "workers e \<noteq> []" using c that by (auto simp: closing_def)
    thus ?thesis using c by (auto simp: closing_def list_all_iff tally_left neq_Nil_conv)
  qed
  thus ?thesis using eq r d by auto
qed

theorem operations_settled_once_witness:
  "held (workers demo_entered ! 0) = {#0#} \<and>
   mset (retired demo_entered) + mset (submitting demo_entered) + mset (map operation (pending demo_entered)) +
     tally held (workers demo_entered) = {#0#}"
  using operations_settled_once [OF demo_reachable] by (simp add: demo_entered_def demo_start_def demo_work_def)

text \<open>The channel never has more than its limit in flight, and what it counts is exactly the admitted operations whose
  slot was not yet given back; a slot is given back once, after the operation retired.\<close>

theorem channel_within_limit:
  assumes "engine_reachable limit team e"
  shows "in_flight (channel e) \<le> limit \<and> in_flight (channel e) = card (set (admitted e) - set (released e)) \<and>
    distinct (released e) \<and> set (released e) \<subseteq> set (retired e)"
proof -
  have "admitted_within limit e" using reachable_invariants [OF assms] by blast
  thus ?thesis by (auto simp: admitted_within_def card_Diff_subset distinct_card)
qed

theorem channel_within_limit_witness:
  "in_flight (channel demo_entered) = 1 \<and> card (set (admitted demo_entered) - set (released demo_entered)) = 1"
  using channel_within_limit [OF demo_reachable] by (simp add: demo_entered_def demo_start_def)

text \<open>The gate cannot deadlock the workers: whenever a command is queued or in a worker's hands, or the engine is
  stopping and a worker is left, some worker can move.\<close>

theorem engine_never_stuck:
  assumes "engine_reachable limit team e"
    and "pending e \<noteq> [] \<or> list_ex (\<lambda>s. s \<noteq> Idle \<and> s \<noteq> Left) (workers e) \<or>
      stop_requested e \<and> list_ex (\<lambda>s. s \<noteq> Left) (workers e)"
  shows "\<exists>e'. worker_step e e'"
  using assms by (intro worker_moves) (auto simp: list_ex_iff)

theorem engine_never_stuck_witness: "\<exists>e'. worker_step demo_entered e'"
  by (rule engine_never_stuck [OF demo_reachable]) (simp add: demo_entered_def demo_work_def)

text \<open>C8. Closing ends: from a stopping engine the workers can take at most \<open>work_left\<close> steps in any order, and wherever
  they can take no more, all of them left, the queue is empty and every operation not half submitted was answered.\<close>

theorem close_ends:
  assumes "engine_reachable limit team e" "stop_requested e"
  shows "(\<exists>e'. worker_step\<^sup>*\<^sup>* e e' \<and> list_all (\<lambda>s. s = Left) (workers e')) \<and>
    (\<forall>n e'. (worker_step ^^ n) e e' \<longrightarrow> n \<le> work_left e) \<and>
    (\<forall>e'. worker_step\<^sup>*\<^sup>* e e' \<and> (\<nexists>e''. worker_step e' e'') \<longrightarrow>
       list_all (\<lambda>s. s = Left) (workers e') \<and> pending e' = [] \<and>
       mset (retired e') + mset (submitting e') = mset [0..<submitted e'])"
proof -
  have rest: "list_all (\<lambda>s. s = Left) (workers e') \<and> pending e' = [] \<and>
       mset (retired e') + mset (submitting e') = mset [0..<submitted e']"
    if "worker_step\<^sup>*\<^sup>* e e'" "\<nexists>e''. worker_step e' e''" for e'
    using worker_steps_reach [OF that(1) assms(1)] assms(2) that(2) rest_after_stop [of limit team e'] by simp
  moreover have "n \<le> work_left e" if "(worker_step ^^ n) e e'" for n e' using worker_steps_bounded [OF that] by simp
  moreover obtain e' where "worker_step\<^sup>*\<^sup>* e e'" "\<nexists>e''. worker_step e' e''" using workers_come_to_rest by blast
  ultimately show ?thesis by blast
qed

theorem close_ends_witness:
  "stop_requested (request_stop demo_entered) \<and> work_left (request_stop demo_entered) = 5 \<and>
   (\<exists>e'. worker_step\<^sup>*\<^sup>* (request_stop demo_entered) e' \<and> list_all (\<lambda>s. s = Left) (workers e'))"
proof (intro conjI)
  have s: "stop_requested (request_stop demo_entered)" by (simp add: request_stop_def)
  thus "stop_requested (request_stop demo_entered)" .
  have "engine_reachable 1 1 (request_stop demo_entered)"
    by (rule engine_reachable.step [OF demo_reachable engine_step.stop])
  thus "\<exists>e'. worker_step\<^sup>*\<^sup>* (request_stop demo_entered) e' \<and> list_all (\<lambda>s. s = Left) (workers e')"
    using close_ends s by blast
  show "work_left (request_stop demo_entered) = 5" by (simp add: work_left_def request_stop_def demo_entered_def demo_start_def)
qed

end
