(* ===== verification/Process_Validation.thy ===== *)
theory Process_Validation
  imports Version_Gate
begin

text \<open>The checks a process request has to pass before it is run (\<open>src/src/process_validation.cpp\<close>), the quoting of a
  Windows command line (\<open>append_quoted_argument\<close> and the end of \<open>prepare_request\<close> in \<open>src/src/process_windows.cpp\<close>),
  and what ties them together: the size the check computes from the UTF-8 bytes is the length of the UTF-16 command
  line built later, and the arguments can be read back from it.

  Bytes, code points and UTF-16 units are natural numbers; \<open>std::size_t\<close> additions saturate at \<open>size_max\<close> as the code
  writes them. The platform's strict conversion from UTF-8 to UTF-16 is a parameter (\<open>strict_conversion\<close> says what is
  documented of it). An exception while the executable's path is turned into a string is not modelled.\<close>

section \<open>Measuring an argument\<close>

definition size_max :: nat where
  "size_max = 2 ^ 64 - 1"

definition add_size :: "nat \<Rightarrow> nat \<Rightarrow> bool \<times> nat" where
  "add_size so_far amount = (if size_max - so_far < amount then (False, size_max) else (True, so_far + amount))"

definition continuation :: "nat \<Rightarrow> bool" where
  "continuation b \<longleftrightarrow> 0x80 \<le> b \<and> b \<le> 0xbf"

definition valid_three_byte_second :: "nat \<Rightarrow> nat \<Rightarrow> bool" where
  "valid_three_byte_second first second =
     (if first = 0xe0 then 0xa0 \<le> second \<and> second \<le> 0xbf
      else if first = 0xed then 0x80 \<le> second \<and> second \<le> 0x9f
      else continuation second)"

text \<open>The sizes of the sequence at the head of a string, in bytes and in UTF-16 units.\<close>

fun sequence_sizes :: "nat list \<Rightarrow> (nat \<times> nat) option" where
  "sequence_sizes [] = None"
| "sequence_sizes (first # rest) =
     (if first \<le> 0x7f then Some (1, 1)
      else if 0xc2 \<le> first \<and> first \<le> 0xdf \<and> 1 \<le> length rest \<and> continuation (rest ! 0) then Some (2, 1)
      else if 0xe0 \<le> first \<and> first \<le> 0xef \<and> 2 \<le> length rest then
        (if \<not> valid_three_byte_second first (rest ! 0) \<or> \<not> continuation (rest ! 1) then None else Some (3, 1))
      else if 0xf0 \<le> first \<and> first \<le> 0xf4 \<and> 3 \<le> length rest then
        (let second = rest ! 0;
             second_valid = (first = 0xf0 \<and> 0x90 \<le> second \<and> second \<le> 0xbf)
               \<or> (0xf1 \<le> first \<and> first \<le> 0xf3 \<and> continuation second)
               \<or> (first = 0xf4 \<and> 0x80 \<le> second \<and> second \<le> 0x8f) in
         if \<not> second_valid \<or> \<not> continuation (rest ! 1) \<or> \<not> continuation (rest ! 2) then None else Some (4, 2))
      else None)"

record Utf8Measure =
  valid :: bool
  quoted_utf16_size :: nat

definition malformed_measure :: Utf8Measure where
  "malformed_measure = \<lparr>valid = False, quoted_utf16_size = 0\<rparr>"

definition oversized :: Utf8Measure where
  "oversized = \<lparr>valid = True, quoted_utf16_size = size_max\<rparr>"

lemma sequence_sizes_pos: "sequence_sizes bs = Some (n, k) \<Longrightarrow> 0 < n \<and> bs \<noteq> []"
  by (cases bs) (auto simp: Let_def split: if_splits)

function measure_loop :: "nat \<Rightarrow> nat \<Rightarrow> nat list \<Rightarrow> Utf8Measure" where
  "measure_loop quoted_size backslashes bs =
     (if bs = [] then
        (if (size_max - 1) div 2 < backslashes then oversized
         else \<lparr>valid = True, quoted_utf16_size = snd (add_size quoted_size (backslashes * 2 + 1))\<rparr>)
      else case sequence_sizes bs of
        None \<Rightarrow> malformed_measure
      | Some (encoded_size, utf16_size) \<Rightarrow>
          if encoded_size = 1 \<and> bs ! 0 = 92 then measure_loop quoted_size (backslashes + 1) (drop encoded_size bs)
          else if encoded_size = 1 \<and> bs ! 0 = 34 then
            (if (size_max - 2) div 2 < backslashes \<or> \<not> fst (add_size quoted_size (backslashes * 2 + 2)) then oversized
             else measure_loop (snd (add_size quoted_size (backslashes * 2 + 2))) 0 (drop encoded_size bs))
          else
            (case add_size quoted_size backslashes of (ok, q) \<Rightarrow>
               if \<not> ok \<or> \<not> fst (add_size q utf16_size) then oversized
               else measure_loop (snd (add_size q utf16_size)) 0 (drop encoded_size bs)))"
  by pat_completeness auto
termination
  by (relation "measure (\<lambda>(_, _, bs). length bs)") (auto dest: sequence_sizes_pos)

declare measure_loop.simps [simp del]

definition measure_quoted_utf8 :: "string \<Rightarrow> Utf8Measure" where
  "measure_quoted_utf8 value = measure_loop 1 0 (map byte value)"

section \<open>Validating a request\<close>

definition structurally_valid :: "ProcessRequest \<Rightarrow> bool" where
  "structurally_valid r \<longleftrightarrow>
     executable r \<noteq> [] \<and> \<not> contains_nul (executable r) \<and> \<not> contains_nul (working_directory r)
     \<and> list_all (\<lambda>a. \<not> contains_nul (argument_value a)) (arguments r)
     \<and> list_all (\<lambda>(name, v). \<not> (name = [] \<or> str_find CHR ''='' name \<noteq> None \<or> contains_nul name
          \<or> (case v of Some w \<Rightarrow> contains_nul w | None \<Rightarrow> False))) (environment r)"

text \<open>The same check stands in \<open>src/src/process.hpp\<close>.\<close>

lemma structurally_valid_same: "structurally_valid = process_request_is_valid"
  by (simp add: fun_eq_iff structurally_valid_def process_request_is_valid_def)

datatype ProcessValidationMode = pv_posix | pv_windows

datatype ProcessValidationFailure = pv_none | pv_structure | pv_malformed_utf8 | pv_command_line_too_long

record ProcessValidationResult =
  pv_failure :: ProcessValidationFailure
  windows_command_line_size :: nat

abbreviation refused_request :: "ProcessValidationFailure \<Rightarrow> ProcessValidationResult" where
  "refused_request f \<equiv> \<lparr>pv_failure = f, windows_command_line_size = 0\<rparr>"

fun measure_arguments :: "nat \<Rightarrow> string list \<Rightarrow> nat option" where
  "measure_arguments so_far [] = Some so_far"
| "measure_arguments so_far (a # as) =
     (let m = measure_quoted_utf8 a in
      if \<not> valid m then None
      else measure_arguments (snd (add_size (snd (add_size so_far 1)) (quoted_utf16_size m))) as)"

definition validate_process_request :: "ProcessRequest \<Rightarrow> ProcessValidationMode \<Rightarrow> ProcessValidationResult" where
  "validate_process_request request mode =
     (if \<not> structurally_valid request then refused_request pv_structure
      else if mode = pv_posix then refused_request pv_none
      else
        let measured = measure_quoted_utf8 (executable request) in
        if \<not> valid measured then refused_request pv_malformed_utf8
        else case measure_arguments (quoted_utf16_size measured) (map argument_value (arguments request)) of
          None \<Rightarrow> refused_request pv_malformed_utf8
        | Some command_line_size \<Rightarrow>
            if list_ex (\<lambda>(name, v). \<not> valid (measure_quoted_utf8 name)
                \<or> (case v of None \<Rightarrow> False | Some x \<Rightarrow> \<not> valid (measure_quoted_utf8 x))) (environment request)
            then refused_request pv_malformed_utf8
            else \<lparr>pv_failure = (if 32767 \<le> command_line_size then pv_command_line_too_long else pv_none),
                   windows_command_line_size = command_line_size\<rparr>)"

section \<open>Building the command line\<close>

fun quote_loop :: "nat list \<Rightarrow> nat \<Rightarrow> nat list \<Rightarrow> nat list" where
  "quote_loop line backslashes [] = line @ replicate (backslashes * 2) 92 @ [34]"
| "quote_loop line backslashes (c # cs) =
     (if c = 92 then quote_loop line (backslashes + 1) cs
      else if c = 34 then quote_loop (line @ replicate (backslashes * 2 + 1) 92 @ [34]) 0 cs
      else quote_loop (line @ replicate backslashes 92 @ [c]) 0 cs)"

definition append_quoted_argument :: "nat list \<Rightarrow> nat list \<Rightarrow> nat list" where
  "append_quoted_argument line argument = quote_loop (line @ [34]) 0 argument"

definition join_arguments :: "nat list list \<Rightarrow> nat list" where
  "join_arguments args = fold (\<lambda>a line. append_quoted_argument (if line \<noteq> [] then line @ [32] else line) a) args []"

definition widen_utf8 :: "(string \<Rightarrow> nat list option) \<Rightarrow> string \<Rightarrow> nat list option" where
  "widen_utf8 convert value =
     (if value = [] then Some [] else if 2 ^ 31 - 1 < length value then None else convert value)"

definition command_line :: "(string \<Rightarrow> nat list option) \<Rightarrow> ProcessRequest \<Rightarrow> nat list option" where
  "command_line convert request =
     map_option join_arguments (those (map (widen_utf8 convert) (executable request # map argument_value (arguments request))))"

section \<open>Unicode\<close>

definition scalar :: "nat \<Rightarrow> bool" where
  "scalar cp \<longleftrightarrow> cp < 0xD800 \<or> 0xDFFF < cp \<and> cp \<le> 0x10FFFF"

definition utf8_of :: "nat \<Rightarrow> nat list" where
  "utf8_of cp =
     (if cp < 0x80 then [cp]
      else if cp < 0x800 then [0xC0 + cp div 64, 0x80 + cp mod 64]
      else if cp < 0x10000 then [0xE0 + cp div 4096, 0x80 + cp div 64 mod 64, 0x80 + cp mod 64]
      else [0xF0 + cp div 262144, 0x80 + cp div 4096 mod 64, 0x80 + cp div 64 mod 64, 0x80 + cp mod 64])"

definition utf16_of :: "nat \<Rightarrow> nat list" where
  "utf16_of cp = (if cp < 0x10000 then [cp] else [0xD800 + (cp - 0x10000) div 1024, 0xDC00 + (cp - 0x10000) mod 1024])"

lemma digit_split: "cp div 64 = cp div 4096 * 64 + cp div 64 mod 64" "cp div 4096 = cp div 262144 * 64 + cp div 4096 mod 64" for cp :: nat
  using div_mult_mod_eq [of "cp div 64" 64] div_mult_mod_eq [of "cp div 4096" 64] by (simp_all add: div_mult2_eq [symmetric])

lemma sequence_sizes_utf8:
  assumes "scalar cp"
  shows "sequence_sizes (utf8_of cp @ rest) = Some (length (utf8_of cp), length (utf16_of cp))"
proof -
  consider "cp < 0x80" | "0x80 \<le> cp" "cp < 0x800" | "0x800 \<le> cp" "cp < 0x10000" | "0x10000 \<le> cp" "cp \<le> 0x10FFFF"
    using assms by (fastforce simp: scalar_def)
  then show ?thesis
  proof cases
    case 1
    then show ?thesis by (simp add: utf8_of_def utf16_of_def)
  next
    case 2
    then have "2 \<le> cp div 64" "cp div 64 < 32" by linarith+
    then show ?thesis using 2 by (simp add: utf8_of_def utf16_of_def continuation_def)
  next
    case 3
    have m: "cp div 64 mod 64 \<le> 63" "cp mod 64 \<le> 63" by (simp_all add: less_Suc_eq_le [symmetric])
    have d: "cp div 4096 < 16" using 3 by linarith
    have a: "0x20 \<le> cp div 64 mod 64" if "cp div 4096 = 0" using that 3 digit_split(1) [of cp] by linarith
    have b: "cp div 64 mod 64 \<le> 0x1f" if "cp div 4096 = 13"
      using that 3 assms digit_split(1) [of cp] unfolding scalar_def by linarith
    show ?thesis
      using 3 m d a b by (auto simp: utf8_of_def utf16_of_def continuation_def valid_three_byte_second_def)
  next
    case 4
    have m: "cp div 4096 mod 64 \<le> 63" "cp div 64 mod 64 \<le> 63" "cp mod 64 \<le> 63" by (simp_all add: less_Suc_eq_le [symmetric])
    have d: "cp div 262144 \<le> 4" using 4 by linarith
    have a: "1 \<le> cp div 262144 \<or> 0x10 \<le> cp div 4096 mod 64" using 4 digit_split(2) [of cp] by linarith
    have b: "cp div 4096 mod 64 \<le> 0x0f" if "cp div 262144 = 4" using that 4 digit_split(2) [of cp] by linarith
    show ?thesis
      using 4 m d a b by (auto simp: utf8_of_def utf16_of_def continuation_def numeral_2_eq_2 numeral_3_eq_3)
  qed
qed


lemma low_digit: "c < 64 \<Longrightarrow> (c + 64 * k) div 64 = k" "c < 64 \<Longrightarrow> (c + 64 * k) mod 64 = c" for c k :: nat
  by simp_all

text \<open>Every sequence the scan accepts is the encoding of a scalar value.\<close>

lemma utf8_ofI:
  "cp < 0x80 \<Longrightarrow> utf8_of cp = [cp]"
  "2 \<le> a \<Longrightarrow> a < 32 \<Longrightarrow> b < 64 \<Longrightarrow> utf8_of (a * 64 + b) = [0xC0 + a, 0x80 + b]"
  "a < 16 \<Longrightarrow> b < 64 \<Longrightarrow> c < 64 \<Longrightarrow> 32 \<le> a * 64 + b \<Longrightarrow> utf8_of (a * 4096 + b * 64 + c) = [0xE0 + a, 0x80 + b, 0x80 + c]"
  "b < 64 \<Longrightarrow> c < 64 \<Longrightarrow> d < 64 \<Longrightarrow> 16 \<le> a * 64 + b \<Longrightarrow>
     utf8_of (a * 262144 + b * 4096 + c * 64 + d) = [0xF0 + a, 0x80 + b, 0x80 + c, 0x80 + d]"
proof -
  show "utf8_of cp = [cp]" if "cp < 0x80" using that by (simp add: utf8_of_def)
  show "utf8_of (a * 64 + b) = [0xC0 + a, 0x80 + b]" if "2 \<le> a" "a < 32" "b < 64"
    using that by (simp add: utf8_of_def)
  show "utf8_of (a * 4096 + b * 64 + c) = [0xE0 + a, 0x80 + b, 0x80 + c]"
    if "a < 16" "b < 64" "c < 64" "32 \<le> a * 64 + b"
  proof -
    let ?x = "a * 4096 + b * 64 + c"
    have x: "?x = c + 64 * (a * 64 + b)" by simp
    have d: "?x div 64 = a * 64 + b" "?x mod 64 = c" unfolding x using that low_digit by blast+
    have "?x div 4096 = ?x div 64 div 64" by (simp only: div_mult2_eq [symmetric]) simp
    then have "?x div 4096 = a" unfolding d using that by simp
    with d show ?thesis using that unfolding utf8_of_def by simp
  qed
  show "utf8_of (a * 262144 + b * 4096 + c * 64 + d) = [0xF0 + a, 0x80 + b, 0x80 + c, 0x80 + d]"
    if "b < 64" "c < 64" "d < 64" "16 \<le> a * 64 + b"
  proof -
    let ?x = "a * 262144 + b * 4096 + c * 64 + d"
    have x: "?x = d + 64 * ((a * 64 + b) * 64 + c)" by simp
    have e: "?x div 64 = (a * 64 + b) * 64 + c" "?x mod 64 = d" unfolding x using that low_digit by blast+
    have "?x div 4096 = ?x div 64 div 64" by (simp only: div_mult2_eq [symmetric]) simp
    then have f: "?x div 4096 = a * 64 + b" unfolding e using that by simp
    have "?x div 262144 = ?x div 4096 div 64" by (simp only: div_mult2_eq [symmetric]) simp
    then have "?x div 262144 = a" unfolding f using that by simp
    moreover have "?x div 64 mod 64 = c" unfolding e(1) using low_digit(2) [of c "a * 64 + b"] that by (simp add: ac_simps)
    ultimately show ?thesis using that e(2) f unfolding utf8_of_def by simp
  qed
qed

lemma sequence_sizes_scalar:
  assumes "sequence_sizes bs = Some (n, k)"
  shows "\<exists>cp. scalar cp \<and> bs = utf8_of cp @ drop n bs \<and> k = length (utf16_of cp) \<and> n = length (utf8_of cp)"
proof -
  obtain b rest where bs: "bs = b # rest" using assms by (cases bs) auto
  have *: ?thesis if "scalar cp" "take n bs = utf8_of cp" "n \<le> length bs" for cp
  proof -
    have "bs = utf8_of cp @ drop n bs" by (metis append_take_drop_id that(2))
    moreover have "length (utf8_of cp) = n" using that(2,3) by (metis length_take min.absorb2)
    ultimately show ?thesis
      using sequence_sizes_utf8 [OF that(1), of "drop n bs"] assms that(1) by auto
  qed
  consider "b \<le> 0x7f" "n = 1" | "0xc2 \<le> b" "b \<le> 0xdf" "1 \<le> length rest" "continuation (rest ! 0)" "n = 2"
    | "0xe0 \<le> b" "b \<le> 0xef" "2 \<le> length rest" "valid_three_byte_second b (rest ! 0)" "continuation (rest ! 1)" "n = 3"
    | "0xf0 \<le> b" "b \<le> 0xf4" "3 \<le> length rest" "b = 0xf0 \<longrightarrow> 0x90 \<le> rest ! 0" "b = 0xf4 \<longrightarrow> rest ! 0 \<le> 0x8f"
        "continuation (rest ! 0)" "continuation (rest ! 1)" "continuation (rest ! 2)" "n = 4"
    using assms unfolding bs by (auto simp: Let_def continuation_def split: if_splits)
  then show ?thesis
  proof cases
    case 1
    then show ?thesis by (intro * [of b]) (auto simp: bs scalar_def utf8_ofI)
  next
    case 2
    then obtain c r where r: "rest = c # r" by (cases rest) auto
    obtain x y where xy: "b = 0xC0 + x" "c = 0x80 + y" using 2 unfolding r by (auto simp: continuation_def le_iff_add)
    have "2 \<le> x" "x < 32" "y < 64" using 2 unfolding r xy by (auto simp: continuation_def)
    then have "utf8_of (x * 64 + y) = [b, c]" "scalar (x * 64 + y)" by (auto simp: xy utf8_ofI scalar_def)
    then show ?thesis using 2 by (intro *) (auto simp: bs r numeral_2_eq_2)
  next
    case 3
    then obtain c d r where r: "rest = c # d # r" by (cases rest; cases "tl rest") auto
    obtain x y z where xy: "b = 0xE0 + x" "c = 0x80 + y" "d = 0x80 + z"
      using 3 unfolding r by (auto simp: continuation_def valid_three_byte_second_def le_iff_add split: if_splits)
    have c: "x < 16" "y < 64" "z < 64" "x = 0 \<longrightarrow> 32 \<le> y" "x = 13 \<longrightarrow> y < 32"
      using 3 unfolding r xy by (auto simp: valid_three_byte_second_def continuation_def split: if_splits)
    then have "32 \<le> x * 64 + y" by (cases x) auto
    with c have "utf8_of (x * 4096 + y * 64 + z) = [b, c, d]" by (simp add: xy utf8_ofI)
    moreover have "scalar (x * 4096 + y * 64 + z)"
      using c unfolding scalar_def by (cases x "13 :: nat" rule: linorder_cases) auto
    ultimately show ?thesis using 3 by (intro *) (auto simp: bs r numeral_3_eq_3)
  next
    case 4
    then obtain c d f r where r: "rest = c # d # f # r" by (cases rest; cases "tl rest"; cases "tl (tl rest)") auto
    obtain x y z t where xy: "b = 0xF0 + x" "c = 0x80 + y" "d = 0x80 + z" "f = 0x80 + t"
      using 4 unfolding r by (auto simp: continuation_def le_iff_add numeral_2_eq_2)
    have c: "x \<le> 4" "y < 64" "z < 64" "t < 64" "x = 0 \<longrightarrow> 16 \<le> y" "x = 4 \<longrightarrow> y < 16"
      using 4 unfolding r xy by (auto simp: continuation_def numeral_2_eq_2)
    then have "16 \<le> x * 64 + y" by (cases x) auto
    with c have "utf8_of (x * 262144 + y * 4096 + z * 64 + t) = [b, c, d, f]" by (simp add: xy utf8_ofI)
    moreover have "scalar (x * 262144 + y * 4096 + z * 64 + t)"
      using c \<open>16 \<le> x * 64 + y\<close> unfolding scalar_def by (cases "x = 4") auto
    ultimately show ?thesis using 4 by (intro *) (auto simp: bs r)
  qed
qed


section \<open>The measured size\<close>

abbreviation utf8_text :: "nat list \<Rightarrow> nat list" where
  "utf8_text cps \<equiv> concat (map utf8_of cps)"

abbreviation utf16_text :: "nat list \<Rightarrow> nat list" where
  "utf16_text cps \<equiv> concat (map utf16_of cps)"

fun quoted_length :: "nat \<Rightarrow> nat list \<Rightarrow> nat" where
  "quoted_length b [] = 2 * b + 1"
| "quoted_length b (c # cs) =
     (if c = 92 then quoted_length (b + 1) cs
      else if c = 34 then 2 * b + 2 + quoted_length 0 cs
      else b + 1 + quoted_length 0 cs)"

lemma length_quote_loop: "length (quote_loop line b cs) = length line + quoted_length b cs"
  by (induction line b cs rule: quote_loop.induct) auto

lemma length_append_quoted: "length (append_quoted_argument line a) = length line + 1 + quoted_length 0 a"
  by (simp add: append_quoted_argument_def length_quote_loop)

lemma quoted_length_surrogates:
  "0x10000 \<le> cp \<Longrightarrow> quoted_length b (utf16_of cp @ cs) = b + 2 + quoted_length 0 cs"
  by (simp add: utf16_of_def)

lemma utf8_single: "scalar cp \<Longrightarrow> length (utf8_of cp) = 1 \<longleftrightarrow> cp < 0x80"
  by (auto simp: utf8_of_def)

lemma utf8_ne [simp]: "utf8_of cp \<noteq> []"
  by (simp add: utf8_of_def)

lemma quoted_length_plain:
  assumes "cp \<noteq> 92" "cp \<noteq> 34"
  shows "quoted_length b (utf16_of cp @ cs) = b + length (utf16_of cp) + quoted_length 0 cs"
  using assms by (simp add: utf16_of_def)

lemma head_utf8: "cp < 0x80 \<Longrightarrow> utf8_of cp = [cp]" "cp < 0x10000 \<Longrightarrow> utf16_of cp = [cp]"
  by (simp_all add: utf8_of_def utf16_of_def)

text \<open>One round of the loop, with the saturating additions put together.\<close>

lemma measure_step:
  assumes "sequence_sizes bs = Some (n, k)" "q \<le> size_max"
  shows "measure_loop q b bs =
    (if n = 1 \<and> bs ! 0 = 92 then measure_loop q (b + 1) (drop n bs)
     else if n = 1 \<and> bs ! 0 = 34 then
       (if size_max < q + (2 * b + 2) then oversized else measure_loop (q + (2 * b + 2)) 0 (drop n bs))
     else if size_max < q + b + k then oversized else measure_loop (q + b + k) 0 (drop n bs))"
proof -
  have "bs \<noteq> []" using assms(1) by auto
  moreover have "(size_max - 2) div 2 < b \<longleftrightarrow> size_max < 2 * b + 2" by (auto simp: size_max_def)
  moreover have "fst (add_size x y) \<longleftrightarrow> x + y \<le> size_max" "x + y \<le> size_max \<Longrightarrow> snd (add_size x y) = x + y"
    if "x \<le> size_max" for x y using that by (auto simp: add_size_def)
  ultimately show ?thesis
    using assms by (subst measure_loop.simps) (auto simp: mult.commute case_prod_beta)
qed

lemma measure_loop_Nil: "q \<le> size_max \<Longrightarrow> measure_loop q b [] = \<lparr>valid = True, quoted_utf16_size = min (q + (2 * b + 1)) size_max\<rparr>"
  by (subst measure_loop.simps) (auto simp: add_size_def oversized_def size_max_def)

lemma measure_loop_malformed: "sequence_sizes bs = None \<Longrightarrow> bs \<noteq> [] \<Longrightarrow> measure_loop q b bs = malformed_measure"
  by (subst measure_loop.simps) simp

lemma measure_loop_utf8:
  assumes "\<forall>cp \<in> set cps. scalar cp" "q \<le> size_max"
  shows "measure_loop q b (utf8_text cps) =
    \<lparr>valid = True, quoted_utf16_size = min (q + quoted_length b (utf16_text cps)) size_max\<rparr>"
  using assms
proof (induction cps arbitrary: q b)
  case Nil
  then show ?case by (simp add: measure_loop_Nil)
next
  case (Cons cp cps)
  have sc: "scalar cp" "\<forall>cp \<in> set cps. scalar cp" using Cons.prems by auto
  note step = measure_step [OF sequence_sizes_utf8 [OF sc(1), of "utf8_text cps"] Cons.prems(2), of b]
  note IH = Cons.IH [OF sc(2)]
  consider "cp = 92" | "cp = 34" | "cp \<noteq> 92" "cp \<noteq> 34" by auto
  then show ?case
  proof cases
    case 1
    then show ?thesis using step Cons.prems(2) by (simp add: head_utf8 IH)
  next
    case 2
    then show ?thesis using step Cons.prems(2) by (simp add: head_utf8 IH oversized_def min_def)
  next
    case 3
    have ne: "\<not> (length (utf8_of cp) = 1 \<and> (utf8_of cp @ utf8_text cps) ! 0 = c)" if "c \<in> {92, 34}" for c
      using 3 that sc utf8_single [of cp] by (auto simp: head_utf8)
    have "measure_loop q b (utf8_of cp @ utf8_text cps) =
      (if size_max < q + b + length (utf16_of cp) then oversized else measure_loop (q + b + length (utf16_of cp)) 0 (utf8_text cps))"
      unfolding step using ne [of 92] ne [of 34] by (simp only: insertI1 insertI2 if_False append_eq_conv_conj) simp
    then show ?thesis by (simp add: quoted_length_plain [OF 3] IH oversized_def min_def)
  qed
qed

lemma measure_loop_valid:
  assumes "valid (measure_loop q b bs)" "quoted_utf16_size (measure_loop q b bs) < size_max" "q \<le> size_max"
  shows "\<exists>cps. (\<forall>cp \<in> set cps. scalar cp) \<and> bs = utf8_text cps"
  using assms
proof (induction "length bs" arbitrary: q b bs rule: less_induct)
  case less
  show ?case
  proof (cases "bs = []")
    case True
    then show ?thesis by (intro exI [of _ "[]"]) simp
  next
    case False
    have "sequence_sizes bs \<noteq> None"
      using less.prems(1) False by (metis Utf8Measure.select_convs(1) malformed_measure_def measure_loop_malformed)
    then obtain n k where seq: "sequence_sizes bs = Some (n, k)" by auto
    then obtain cp where cp: "scalar cp" "bs = utf8_of cp @ drop n bs"
      using sequence_sizes_scalar by blast
    have shorter: "length (drop n bs) < length bs" using sequence_sizes_pos [OF seq] by (cases bs) auto
    have ok: "measure_loop q b bs \<noteq> oversized" using less.prems(2) by (auto simp: oversized_def)
    obtain q' b' where "measure_loop q b bs = measure_loop q' b' (drop n bs)" "q' \<le> size_max"
      using measure_step [OF seq less.prems(3), of b] ok less.prems(3) by (metis not_le)
    with less.hyps [OF shorter] less.prems obtain cps
      where "\<forall>cp \<in> set cps. scalar cp" "drop n bs = utf8_text cps" by metis
    then show ?thesis using cp by (intro exI [of _ "cp # cps"]) auto
  qed
qed

lemma measure_loop_bound:
  assumes "q + 2 * b + 2 * length bs + 1 < size_max"
  shows "quoted_utf16_size (measure_loop q b bs) \<le> q + 2 * b + 2 * length bs + 1"
  using assms
proof (induction "length bs" arbitrary: q b bs rule: less_induct)
  case less
  show ?case
  proof (cases "sequence_sizes bs")
    case None
    then show ?thesis using less.prems
      by (cases "bs = []") (simp_all add: measure_loop_Nil measure_loop_malformed malformed_measure_def)
  next
    case (Some p)
    then obtain n k where seq: "sequence_sizes bs = Some (n, k)" by (cases p) auto
    then obtain cp where cp: "n = length (utf8_of cp)" "k = length (utf16_of cp)" "bs = utf8_of cp @ drop n bs"
      using sequence_sizes_scalar by blast
    have "length bs = n + length (drop n bs)" using arg_cong [OF cp(3), of length] cp(1) by simp
    moreover have "k \<le> 2 * n" "1 \<le> n" unfolding cp(1,2) by (auto simp: utf8_of_def utf16_of_def)
    ultimately have nk: "k \<le> 2 * n" "1 \<le> n" "length bs = n + length (drop n bs)" by blast+
    have q: "q \<le> size_max" using less.prems by simp
    have IH: "quoted_utf16_size (measure_loop q' b' (drop n bs)) \<le> q + 2 * b + 2 * length bs + 1"
      if "q' + 2 * b' \<le> q + 2 * b + 2 * n" for q' b'
      using less.hyps [of "drop n bs" q' b'] that nk less.prems by linarith
    have "q + (2 * b + 2) \<le> size_max" "q + b + k \<le> size_max" using nk less.prems by linarith+
    then consider "measure_loop q b bs = measure_loop q (b + 1) (drop n bs)"
      | "measure_loop q b bs = measure_loop (q + (2 * b + 2)) 0 (drop n bs)"
      | "measure_loop q b bs = measure_loop (q + b + k) 0 (drop n bs)"
      using measure_step [OF seq q, of b] by (metis not_le)
    then show ?thesis
    proof cases
      case 1
      show ?thesis unfolding 1 by (rule IH) (use nk(1,2) in simp)
    next
      case 2
      show ?thesis unfolding 2 by (rule IH) (use nk(1,2) in simp)
    next
      case 3
      show ?thesis unfolding 3 by (rule IH) (use nk(1,2) in simp)
    qed
  qed
qed

lemma measure_loop_le: "q \<le> size_max \<Longrightarrow> quoted_utf16_size (measure_loop q b bs) \<le> size_max"
proof (induction "length bs" arbitrary: q b bs rule: less_induct)
  case less
  show ?case
  proof (cases "sequence_sizes bs")
    case None
    then show ?thesis
      using less.prems by (cases "bs = []") (simp_all add: measure_loop_Nil measure_loop_malformed malformed_measure_def)
  next
    case (Some p)
    then obtain n k where seq: "sequence_sizes bs = Some (n, k)" by (cases p) auto
    have "length (drop n bs) < length bs" using sequence_sizes_pos [OF seq] by (cases bs) auto
    note IH = less.hyps [OF this]
    show ?thesis
      unfolding measure_step [OF seq less.prems, of b] using less.prems IH [of q "b + 1"] IH [of "q + (2 * b + 2)" 0] IH [of "q + b + k" 0]
      by (auto simp: oversized_def split: if_split)
  qed
qed

section \<open>Text, its units and its measure\<close>

definition text_units :: "string \<Rightarrow> nat list \<Rightarrow> bool" where
  "text_units s u \<longleftrightarrow> (\<exists>cps. (\<forall>cp \<in> set cps. scalar cp) \<and> map byte s = utf8_text cps \<and> u = utf16_text cps)"

lemma quoted_length_ge: "length u + b < quoted_length b u"
  by (induction b u rule: quoted_length.induct) auto

lemma text_units_length:
  assumes "text_units s u"
  shows "length s \<le> 3 * length u"
proof -
  have "length (utf8_text cps) \<le> 3 * length (utf16_text cps)" for cps
    by (induction cps) (auto simp: utf8_of_def utf16_of_def)
  then show ?thesis using assms unfolding text_units_def by (metis length_map)
qed

lemma measured:
  "valid (measure_quoted_utf8 s) \<and> quoted_utf16_size (measure_quoted_utf8 s) = n \<and> n < size_max \<longleftrightarrow>
    (\<exists>u. text_units s u \<and> n = 1 + quoted_length 0 u \<and> n < size_max)"
proof
  assume *: "valid (measure_quoted_utf8 s) \<and> quoted_utf16_size (measure_quoted_utf8 s) = n \<and> n < size_max"
  then obtain cps where cps: "\<forall>cp \<in> set cps. scalar cp" "map byte s = utf8_text cps"
    using measure_loop_valid [of 1 0 "map byte s"] unfolding measure_quoted_utf8_def by (auto simp: size_max_def)
  then have "n = min (1 + quoted_length 0 (utf16_text cps)) size_max"
    using * measure_loop_utf8 [OF cps(1), of 1 0] by (simp add: measure_quoted_utf8_def size_max_def)
  then show "\<exists>u. text_units s u \<and> n = 1 + quoted_length 0 u \<and> n < size_max"
    using * cps unfolding text_units_def by (intro exI [of _ "utf16_text cps"]) auto
next
  assume "\<exists>u. text_units s u \<and> n = 1 + quoted_length 0 u \<and> n < size_max"
  then obtain cps where cps: "\<forall>cp \<in> set cps. scalar cp" "map byte s = utf8_text cps" "n = 1 + quoted_length 0 (utf16_text cps)"
    "n < size_max" unfolding text_units_def by auto
  then show "valid (measure_quoted_utf8 s) \<and> quoted_utf16_size (measure_quoted_utf8 s) = n \<and> n < size_max"
    using measure_loop_utf8 [OF cps(1), of 1 0] by (simp add: measure_quoted_utf8_def size_max_def)
qed

lemma valid_iff:
  assumes "length s < 2 ^ 62"
  shows "valid (measure_quoted_utf8 s) \<longleftrightarrow> (\<exists>u. text_units s u)"
proof
  assume "valid (measure_quoted_utf8 s)"
  moreover have "quoted_utf16_size (measure_quoted_utf8 s) < size_max"
    using assms measure_loop_bound [of 1 0 "map byte s"] by (simp add: measure_quoted_utf8_def size_max_def)
  ultimately show "\<exists>u. text_units s u" using measured by blast
next
  assume "\<exists>u. text_units s u"
  then obtain cps where "\<forall>cp \<in> set cps. scalar cp" "map byte s = utf8_text cps" unfolding text_units_def by auto
  then show "valid (measure_quoted_utf8 s)"
    using measure_loop_utf8 [of cps 1 0] by (simp add: measure_quoted_utf8_def size_max_def)
qed

lemma measure_arguments_range:
  "measure_arguments t as = Some n \<Longrightarrow> t \<le> size_max \<Longrightarrow> t \<le> n \<and> n \<le> size_max"
proof (induction as arbitrary: t)
  case (Cons a as)
  let ?t = "snd (add_size (snd (add_size t 1)) (quoted_utf16_size (measure_quoted_utf8 a)))"
  have "t \<le> ?t" "?t \<le> size_max" using Cons.prems(2) by (auto simp: add_size_def)
  then show ?case using Cons.IH [of ?t] Cons.prems by (auto simp: Let_def split: if_splits)
qed simp

lemma measure_arguments_exact:
  assumes "t \<le> size_max"
  shows "measure_arguments t as = Some n \<and> n < size_max \<longleftrightarrow>
    (\<exists>us. list_all2 text_units as us \<and> n = t + (\<Sum>u\<leftarrow>us. 2 + quoted_length 0 u) \<and> n < size_max)"
  using assms
proof (induction as arbitrary: t)
  case (Cons a as)
  let ?m = "measure_quoted_utf8 a"
  let ?t = "snd (add_size (snd (add_size t 1)) (quoted_utf16_size ?m))"
  have t: "?t \<le> size_max" using Cons.prems by (auto simp: add_size_def)
  have exact: "?t = t + 1 + quoted_utf16_size ?m" if "?t < size_max"
    using that by (auto simp: add_size_def split: if_splits)
  show ?case (is "?L \<longleftrightarrow> ?R")
  proof
    assume L: ?L
    then have v: "valid ?m" "measure_arguments ?t as = Some n" by (auto simp: Let_def split: if_splits)
    have lt: "?t < size_max" using measure_arguments_range [OF v(2) t] L by simp
    have "quoted_utf16_size ?m < size_max" using lt exact [OF lt] by linarith
    then obtain u where u: "text_units a u" "quoted_utf16_size ?m = 1 + quoted_length 0 u" using measured [of a] v(1) by auto
    obtain us where "list_all2 text_units as us" "n = ?t + (\<Sum>u\<leftarrow>us. 2 + quoted_length 0 u)"
      using Cons.IH [OF t] v(2) L by auto
    then show ?R using u exact [OF lt] L by (intro exI [of _ "u # us"]) auto
  next
    assume ?R
    then obtain u us where us: "text_units a u" "list_all2 text_units as us" "n < size_max"
      "n = t + (2 + quoted_length 0 u) + (\<Sum>u\<leftarrow>us. 2 + quoted_length 0 u)"
      by (auto simp: list_all2_Cons1)
    then have m: "valid ?m" "quoted_utf16_size ?m = 1 + quoted_length 0 u" using measured [of a "1 + quoted_length 0 u"] by auto
    have "?t = t + (2 + quoted_length 0 u)" using us m by (auto simp: add_size_def)
    then show ?L using Cons.IH [OF t] us m by (auto simp: Let_def)
  qed
qed auto

section \<open>The command line that is built\<close>

lemma quote_loop_append: "quote_loop (l @ m) b cs = l @ quote_loop m b cs"
  by (induction m b cs rule: quote_loop.induct) simp_all

lemma quote_loop_line: "quote_loop line b cs = line @ quote_loop [] b cs"
  using quote_loop_append [of line "[]"] by simp

lemma append_quoted_split: "append_quoted_argument line a = line @ append_quoted_argument [] a"
  by (simp add: append_quoted_argument_def quote_loop_append)

lemma append_quoted_ne [simp]: "append_quoted_argument line a \<noteq> []"
  using length_append_quoted [of line a] by auto

definition spaced :: "nat list list \<Rightarrow> nat list" where
  "spaced args = concat (map (\<lambda>a. 32 # append_quoted_argument [] a) args)"

lemma join_arguments_spaced: "join_arguments (p # args) = append_quoted_argument [] p @ spaced args"
proof -
  have "fold (\<lambda>a line. append_quoted_argument (if line \<noteq> [] then line @ [32] else line) a) args line = line @ spaced args"
    if "line \<noteq> []" for line
    using that
  proof (induction args arbitrary: line)
    case (Cons a args)
    then show ?case by (simp add: append_quoted_split [of "line @ [32]"] spaced_def)
  qed (simp add: spaced_def)
  then show ?thesis by (simp add: join_arguments_def)
qed

lemma length_spaced: "length (spaced us) = (\<Sum>u\<leftarrow>us. 2 + quoted_length 0 u)"
  by (induction us) (simp_all add: spaced_def length_append_quoted)

text \<open>What the strict conversion of the platform does: it turns the UTF-8 encoding of scalar values into their UTF-16
  encoding and fails on everything else.\<close>

definition strict_conversion :: "(string \<Rightarrow> nat list option) \<Rightarrow> bool" where
  "strict_conversion convert \<longleftrightarrow> (\<forall>s u. convert s = Some u \<longleftrightarrow> text_units s u)"

lemma widened:
  assumes "strict_conversion convert" "widen_utf8 convert s = Some u"
  shows "text_units s u"
  using assms by (auto simp: strict_conversion_def widen_utf8_def text_units_def split: if_splits intro!: exI [of _ "[]"])

lemma widen_small:
  assumes "strict_conversion convert" "text_units s u" "length u < 32767"
  shows "widen_utf8 convert s = Some u"
proof -
  have "u = []" if "s = []"
  proof -
    obtain cps where cps: "map byte s = utf8_text cps" "u = utf16_text cps" using assms(2) unfolding text_units_def by blast
    then have "cps = []" using that by (cases cps) auto
    then show ?thesis using cps by simp
  qed
  then show ?thesis
    using assms text_units_length [OF assms(2)] by (auto simp: strict_conversion_def widen_utf8_def)
qed

lemma those_map_Some: "those (map f xs) = Some ys \<longleftrightarrow> list_all2 (\<lambda>x y. f x = Some y) xs ys"
  by (induction xs arbitrary: ys) (auto simp: list_all2_Cons1 split: option.splits)

text \<open>What the loop over the arguments adds up to is the length of the line, as long as it is short.\<close>

definition quoted_line :: "ProcessRequest \<Rightarrow> nat \<Rightarrow> bool" where
  "quoted_line r n \<longleftrightarrow> (\<exists>u us. text_units (executable r) u \<and> list_all2 text_units (map argument_value (arguments r)) us \<and>
     n = 1 + quoted_length 0 u + length (spaced us) \<and> n < 32767)"

lemma short_size: "(32767 :: nat) < size_max"
  by (simp add: size_max_def)

lemma measured_line:
  fixes r :: ProcessRequest
  defines "m \<equiv> measure_quoted_utf8 (executable r)" and "as \<equiv> map argument_value (arguments r)"
  shows "valid m \<and> measure_arguments (quoted_utf16_size m) as = Some n \<and> n < 32767 \<longleftrightarrow> quoted_line r n" (is "?L \<longleftrightarrow> ?R")
proof
  assume L: ?L
  have m: "quoted_utf16_size m \<le> size_max"
    unfolding m_def measure_quoted_utf8_def by (rule measure_loop_le) (simp add: size_max_def)
  then have "quoted_utf16_size m < size_max"
    using L short_size measure_arguments_range [of "quoted_utf16_size m" as n] by auto
  then obtain u where u: "text_units (executable r) u" "quoted_utf16_size m = 1 + quoted_length 0 u"
    using L measured [of "executable r"] unfolding m_def by auto
  obtain us where "list_all2 text_units as us" "n = quoted_utf16_size m + length (spaced us)"
    using L short_size measure_arguments_exact [OF m, of as n] by (auto simp: length_spaced)
  then show ?R using u L unfolding quoted_line_def as_def by auto
next
  assume ?R
  then obtain u us where u: "text_units (executable r) u" "list_all2 text_units as us"
    "n = 1 + quoted_length 0 u + length (spaced us)" "n < 32767" unfolding quoted_line_def as_def by blast
  then have m: "valid m" "quoted_utf16_size m = 1 + quoted_length 0 u"
    using short_size measured [of "executable r" "1 + quoted_length 0 u"] unfolding m_def by auto
  then show ?L using u short_size measure_arguments_exact [of "quoted_utf16_size m" as n] by (auto simp: length_spaced)
qed

lemma built_line:
  assumes convert: "strict_conversion convert"
  shows "quoted_line r n \<longleftrightarrow> (\<exists>line. command_line convert r = Some line \<and> length line = n \<and> n < 32767)" (is "?L \<longleftrightarrow> ?R")
proof
  assume ?L
  then obtain u us where u: "text_units (executable r) u" "list_all2 text_units (map argument_value (arguments r)) us"
    "n = 1 + quoted_length 0 u + length (spaced us)" "n < 32767" unfolding quoted_line_def by blast
  have len: "length v < 32767" if "v \<in> set (u # us)" for v
  proof -
    have "length v \<le> quoted_length 0 v" using quoted_length_ge [of v 0] by simp
    moreover have "quoted_length 0 v \<le> length (spaced us)" if "v \<in> set us"
      unfolding length_spaced using member_le_sum_list [of "2 + quoted_length 0 v" "map (\<lambda>u. 2 + quoted_length 0 u) us"] that by auto
    ultimately show ?thesis using that u by fastforce
  qed
  have "list_all2 (\<lambda>s v. widen_utf8 convert s = Some v) (executable r # (map argument_value (arguments r))) (u # us)"
    using u(1,2) len by (auto intro!: widen_small [OF convert] elim!: list.rel_mono_strong)
  then have "command_line convert r = Some (join_arguments (u # us))"
    unfolding command_line_def by (simp only: those_map_Some [symmetric] option.map)
  then show ?R using u by (simp add: join_arguments_spaced length_append_quoted)
next
  assume ?R
  then obtain l where l: "command_line convert r = Some l" "length l = n" "n < 32767" by blast
  then obtain us where us: "those (map (widen_utf8 convert) (executable r # (map argument_value (arguments r)))) = Some us" "l = join_arguments us"
    unfolding command_line_def by auto
  have "list_all2 text_units (executable r # (map argument_value (arguments r))) us"
    using us(1) unfolding those_map_Some by (rule list_all2_mono) (rule widened [OF convert])
  then obtain v vs where "us = v # vs" "text_units (executable r) v" "list_all2 text_units (map argument_value (arguments r)) vs"
    by (auto simp: list_all2_Cons1)
  then show ?L using l us(2) by (auto simp: quoted_line_def join_arguments_spaced length_append_quoted)
qed

text \<open>C29. A request passes the Windows check exactly when its values can be executed, all its text is well-formed UTF-8 and
  the command line that will be built for it is shorter than 32767 units; the size reported is the length of that
  command line. Nothing is assumed of the sizes but that the values of the environment fit in memory.\<close>

theorem windows_request_accepted:
  assumes convert: "strict_conversion convert"
    and small: "\<forall>(name, v) \<in> set (environment r). length name < 2 ^ 62 \<and> (\<forall>x. v = Some x \<longrightarrow> length x < 2 ^ 62)"
  shows "validate_process_request r pv_windows = \<lparr>pv_failure = pv_none, windows_command_line_size = n\<rparr> \<longleftrightarrow>
    structurally_valid r \<and>
    (\<forall>(name, v) \<in> set (environment r). (\<exists>u. text_units name u) \<and> (\<forall>x. v = Some x \<longrightarrow> (\<exists>u. text_units x u))) \<and>
    (\<exists>line. command_line convert r = Some line \<and> length line = n \<and> n < 32767)"
proof -
  have "list_ex (\<lambda>(name, v). \<not> valid (measure_quoted_utf8 name)
      \<or> (case v of None \<Rightarrow> False | Some x \<Rightarrow> \<not> valid (measure_quoted_utf8 x))) (environment r) \<longleftrightarrow>
    \<not> (\<forall>(name, v) \<in> set (environment r). (\<exists>u. text_units name u) \<and> (\<forall>x. v = Some x \<longrightarrow> (\<exists>u. text_units x u)))"
    using small by (fastforce simp: list_ex_iff valid_iff split: option.splits)
  then show ?thesis
    unfolding built_line [OF convert, symmetric] measured_line [symmetric] validate_process_request_def
    by (auto simp: Let_def split: option.splits if_splits)
qed

section \<open>Reading a command line back\<close>

text \<open>How a Windows program splits its command line into arguments: white space outside quotes separates them, a quote
  toggles quoting, \<open>2n\<close> backslashes before a quote stand for \<open>n\<close> and \<open>2n + 1\<close> for \<open>n\<close> and a quote.\<close>

fun read_arg :: "bool \<Rightarrow> nat \<Rightarrow> nat list \<Rightarrow> nat list \<Rightarrow> nat list \<times> nat list" where
  "read_arg quoted b acc [] = (acc @ replicate b 92, [])"
| "read_arg quoted b acc (c # cs) =
     (if c = 92 then read_arg quoted (b + 1) acc cs
      else if c = 34 then
        (if even b then read_arg (\<not> quoted) 0 (acc @ replicate (b div 2) 92) cs
         else read_arg quoted 0 (acc @ replicate (b div 2) 92 @ [34]) cs)
      else if c \<in> {32, 9} \<and> \<not> quoted then (acc @ replicate b 92, cs)
      else read_arg quoted 0 (acc @ replicate b 92 @ [c]) cs)"

lemma read_arg_length: "length (snd (read_arg q b acc cs)) \<le> length cs"
  by (induction q b acc cs rule: read_arg.induct) (auto simp: le_SucI)

lemma read_arg_shorter:
  assumes "dropWhile (\<lambda>c. c = 32 \<or> c = 9) cs = c # cs'" "(a, rest) = read_arg False 0 [] (c # cs')"
  shows "length rest < length cs"
proof -
  have "c \<noteq> 32" "c \<noteq> 9" using hd_dropWhile [of "\<lambda>c. c = 32 \<or> c = 9" cs] assms(1) by simp_all
  then have "\<exists>q b acc. read_arg False 0 [] (c # cs') = read_arg q b acc cs'" by auto
  then have "length rest \<le> length cs'" using assms(2) read_arg_length by (metis snd_conv)
  moreover have "length (c # cs') \<le> length cs" using assms(1) by (metis length_dropWhile_le)
  ultimately show ?thesis by simp
qed

function read_args :: "nat list \<Rightarrow> nat list list" where
  "read_args cs =
     (case dropWhile (\<lambda>c. c \<in> {32, 9}) cs of
        [] \<Rightarrow> []
      | c # cs' \<Rightarrow> (case read_arg False 0 [] (c # cs') of (a, rest) \<Rightarrow> a # read_args rest))"
  by pat_completeness auto
termination
  by (relation "measure length") (auto intro: read_arg_shorter simp del: read_arg.simps)

declare read_args.simps [simp del]

lemma read_backslashes: "read_arg q k acc (replicate m 92 @ cs) = read_arg q (k + m) acc cs"
  by (induction m arbitrary: k) simp_all

lemma read_quoted: "read_arg True 0 acc (quote_loop [] b a @ cs) = read_arg False 0 (acc @ replicate b 92 @ a) cs"
proof (induction a arbitrary: b acc)
  case Nil
  show ?case by (simp add: read_backslashes)
next
  case (Cons c a)
  show ?case
    using Cons.IH [of acc "b + 1"] Cons.IH [of "acc @ replicate b 92 @ [c]" 0]
    by (auto simp: quote_loop_line [of "replicate _ _ @ _"] quote_loop_line [of "_ # _"] read_backslashes replicate_append_same [symmetric])
qed

lemma read_argument:
  "read_arg False 0 [] (append_quoted_argument [] a @ cs) = read_arg False 0 a cs"
  using read_quoted [of "[]" 0 a cs] by (simp add: append_quoted_argument_def quote_loop_line [of "[34]"])

lemma read_args_space: "read_args (32 # cs) = read_args cs"
  by (subst (1 2) read_args.simps) simp

lemma read_args_spaced: "read_args (spaced args) = args"
proof (induction args)
  case Nil
  show ?case by (subst read_args.simps) (simp add: spaced_def)
next
  case (Cons a args)
  let ?q = "append_quoted_argument [] a @ spaced args"
  have s: "spaced (a # args) = 32 # ?q" by (simp add: spaced_def)
  have rest: "\<exists>rest. read_arg False 0 a (spaced args) = (a, rest) \<and> read_args rest = read_args (spaced args)"
    by (cases args) (auto simp: spaced_def read_args_space)
  have "read_args ?q = a # read_args (spaced args)"
    using rest read_argument [of a "spaced args"]
    by (subst read_args.simps) (auto simp: append_quoted_argument_def quote_loop_line [of "[34]"] simp del: read_arg.simps)
  then show ?case using s Cons.IH read_args_space by simp
qed

text \<open>C30. The arguments are read back from the quoted command line as they were given, whatever quotes, backslashes and
  blanks they hold.\<close>

theorem quoted_arguments_read_back:
  "\<exists>tail. join_arguments (program # args) = append_quoted_argument [] program @ tail \<and> read_args tail = args"
  by (intro exI [of _ "spaced args"]) (simp add: join_arguments_spaced read_args_spaced)


section \<open>A strict conversion\<close>

fun units_of :: "nat list \<Rightarrow> nat list" where
  "units_of [a] = [a]"
| "units_of [a, b] = [(a - 0xC0) * 64 + (b - 0x80)]"
| "units_of [a, b, c] = [(a - 0xE0) * 4096 + (b - 0x80) * 64 + (c - 0x80)]"
| "units_of [a, b, c, d] = utf16_of ((a - 0xF0) * 262144 + (b - 0x80) * 4096 + (c - 0x80) * 64 + (d - 0x80))"
| "units_of _ = []"

lemma units_of_utf8: "units_of (utf8_of cp) = utf16_of cp"
proof -
  have "cp div 64 * 64 + cp mod 64 = cp" by simp
  moreover have "cp div 4096 * 4096 + cp div 64 mod 64 * 64 + cp mod 64 = cp"
    using digit_split(1) [of cp] calculation by linarith
  moreover have "cp div 262144 * 262144 + cp div 4096 mod 64 * 4096 + cp div 64 mod 64 * 64 + cp mod 64 = cp"
    using digit_split(2) [of cp] calculation by linarith
  ultimately show ?thesis unfolding utf8_of_def by (simp add: utf16_of_def)
qed

function convert_units :: "nat list \<Rightarrow> nat list option" where
  "convert_units bs =
     (if bs = [] then Some []
      else case sequence_sizes bs of
        None \<Rightarrow> None
      | Some (n, k) \<Rightarrow> map_option ((@) (units_of (take n bs))) (convert_units (drop n bs)))"
  by pat_completeness auto
termination
  by (relation "measure length") (auto dest: sequence_sizes_pos)

declare convert_units.simps [simp del]

lemma convert_units_step:
  "sequence_sizes bs = Some (n, k) \<Longrightarrow> convert_units bs = map_option ((@) (units_of (take n bs))) (convert_units (drop n bs))"
  by (subst convert_units.simps) (auto dest: sequence_sizes_pos)

lemma convert_units_utf8: "\<forall>cp \<in> set cps. scalar cp \<Longrightarrow> convert_units (utf8_text cps) = Some (utf16_text cps)"
proof (induction cps)
  case Nil
  show ?case by (subst convert_units.simps) simp
next
  case (Cons cp cps)
  then show ?case
    using convert_units_step [OF sequence_sizes_utf8 [of cp "utf8_text cps"]] by (simp add: units_of_utf8)
qed

lemma convert_units_only: "convert_units bs = Some u \<Longrightarrow> \<exists>cps. (\<forall>cp \<in> set cps. scalar cp) \<and> bs = utf8_text cps"
proof (induction "length bs" arbitrary: bs u rule: less_induct)
  case less
  show ?case
  proof (cases "bs = []")
    case True
    then show ?thesis by (intro exI [of _ "[]"]) simp
  next
    case False
    with less.prems obtain n k where seq: "sequence_sizes bs = Some (n, k)"
      by (subst (asm) convert_units.simps) (auto split: option.splits)
    then obtain cp where cp: "scalar cp" "bs = utf8_of cp @ drop n bs" using sequence_sizes_scalar by blast
    obtain v where "convert_units (drop n bs) = Some v" using less.prems convert_units_step [OF seq] by auto
    moreover have "length (drop n bs) < length bs" using sequence_sizes_pos [OF seq] by (cases bs) auto
    ultimately obtain cps where "\<forall>cp \<in> set cps. scalar cp" "drop n bs = utf8_text cps" using less.hyps by blast
    then show ?thesis using cp by (intro exI [of _ "cp # cps"]) auto
  qed
qed

lemma convert_units_strict: "strict_conversion (\<lambda>s. convert_units (map byte s))"
  unfolding strict_conversion_def
proof (intro allI iffI)
  fix s u assume u: "convert_units (map byte s) = Some u"
  then obtain cps where cps: "\<forall>cp \<in> set cps. scalar cp" "map byte s = utf8_text cps" using convert_units_only by blast
  then have "u = utf16_text cps" using u convert_units_utf8 [OF cps(1)] by simp
  then show "text_units s u" using cps unfolding text_units_def by blast
next
  fix s u assume "text_units s u"
  then obtain cps where cps: "\<forall>cp \<in> set cps. scalar cp" "map byte s = utf8_text cps" "u = utf16_text cps"
    unfolding text_units_def by blast
  then show "convert_units (map byte s) = Some u" using convert_units_utf8 [OF cps(1)] by simp
qed

definition sample_request :: ProcessRequest where
  "sample_request = empty_request\<lparr>executable := ''tmux'', arguments := [public_argument [CHR 0xC3, CHR 0xA9, CHR 0x22]]\<rparr>"

lemma sample_units:
  "convert_units [116, 109, 117, 120] = Some [116, 109, 117, 120]" "convert_units [0xC3, 0xA9, 0x22] = Some [233, 34]"
  using convert_units_utf8 [of "[116, 109, 117, 120]"] convert_units_utf8 [of "[233, 34]"]
  by (simp_all add: utf8_of_def utf16_of_def scalar_def)

lemma sample_line:
  "command_line (\<lambda>s. convert_units (map byte s)) sample_request =
    Some [34, 116, 109, 117, 120, 34, 32, 34, 233, 92, 34, 34]"
  by (simp add: command_line_def sample_request_def empty_request_def widen_utf8_def byte_def sample_units [simplified]
    join_arguments_def append_quoted_argument_def public_argument_def)

lemma sample_valid: "structurally_valid sample_request"
  by (simp add: structurally_valid_def contains_nul_def sample_request_def empty_request_def public_argument_def)

lemma sample_environment: "environment sample_request = []"
  by (simp add: sample_request_def empty_request_def)

theorem windows_request_accepted_witness:
  "validate_process_request sample_request pv_windows = \<lparr>pv_failure = pv_none, windows_command_line_size = 12\<rparr>"
  using windows_request_accepted [OF convert_units_strict, of sample_request 12] sample_line sample_valid
  by (simp add: sample_environment)

end
