(* ===== verification/Pane_Input.thy ===== *)
theory Pane_Input
  imports Prelude "HOL-Library.Product_Lexorder" "HOL-Library.List_Lexorder" "HOL-Library.Char_ord"
begin

text \<open>Reservation of panes for input by the MCP server (\<open>src/apps/mcp/src/pane_input.cpp\<close>): who may type into a pane,
  and when a run that outlived its answer gives its panes up.

  The registry is a map from identities to reservations; a lease is the \<open>Impl\<close> object behind a handle. A call of
  \<open>reserve_pane_input\<close> takes the lock twice, because the proofs of completion run outside it: the step relation has the
  two critical sections as separate steps, with any other operation in between, and lets every proof answer as it
  likes. A lease whose handle was abandoned is one that is never released. The \<open>stat\<close> of a socket is a parameter.
  Tokens are natural numbers: the 64-bit counter does not wrap within any run of the program.\<close>

section \<open>Identities\<close>

datatype PaneInputReservationKind = rk_input | rk_run

record ToolError =
  caller_error :: bool
  message :: string

type_synonym PaneInputEndpointIdentity = "nat \<times> nat"

text \<open>Endpoint, server process, its start time and the pane, compared member by member.\<close>

type_synonym PaneInputIdentity = "PaneInputEndpointIdentity \<times> nat \<times> nat \<times> string"

abbreviation pane_of :: "PaneInputIdentity \<Rightarrow> string" where
  "pane_of identity \<equiv> snd (snd (snd identity))"

definition canonical_pane_id :: "string \<Rightarrow> bool" where
  "canonical_pane_id value \<longleftrightarrow>
     \<not> (length value < 2 \<or> value ! 0 \<noteq> CHR ''%'' \<or> (2 < length value \<and> value ! 1 = CHR ''0'')) \<and>
     list_all is_digit (drop 1 value) \<and> dec_value 0 (drop 1 value) < 2 ^ 32"

definition contains_control_byte :: "string \<Rightarrow> bool" where
  "contains_control_byte value \<longleftrightarrow> list_ex (\<lambda>c. byte c \<le> 0x1F \<or> byte c = 0x7F) value"

definition endpoint_identity :: "(string \<Rightarrow> PaneInputEndpointIdentity option) \<Rightarrow> string \<Rightarrow> PaneInputEndpointIdentity option" where
  "endpoint_identity stat_socket endpoint =
     (if endpoint = [] \<or> hd endpoint \<noteq> CHR ''/'' \<or> contains_control_byte endpoint then None else stat_socket endpoint)"

definition identities :: "PaneInputEndpointIdentity \<Rightarrow> nat \<Rightarrow> nat \<Rightarrow> string list \<Rightarrow> PaneInputIdentity list" where
  "identities endpoint pid start panes = sort (map (\<lambda>pane. (endpoint, pid, start, pane)) panes)"

definition invalid_reservation :: ToolError where
  "invalid_reservation = \<lparr>caller_error = False, message = ''pane input reservation identity is invalid''\<rparr>"

definition conflict :: "string \<Rightarrow> string \<Rightarrow> PaneInputReservationKind \<Rightarrow> ToolError" where
  "conflict pane tool kind =
     (if kind = rk_run then
        \<lparr>caller_error = False, message = tool @ '' refuses pane '' @ pane @
          '' because a command started by this MCP process is still active; wait for that run to finish''\<rparr>
      else
        \<lparr>caller_error = False, message = tool @ '' refuses pane '' @ pane @
          '' because another pane-input dispatch is in progress; wait for it to finish and retry''\<rparr>)"

section \<open>The registry\<close>

record Reservation =
  token :: nat
  reserved_for :: PaneInputReservationKind
  completion_proof :: "nat option"

record Registry =
  active :: "PaneInputIdentity \<rightharpoonup> Reservation"
  next_token :: nat

record Impl =
  lease_identities :: "PaneInputIdentity list"
  lease_token :: nat
  lease_kind :: PaneInputReservationKind
  released :: bool

definition release_lease :: "Registry \<Rightarrow> Impl \<Rightarrow> Registry \<times> Impl" where
  "release_lease owner lease =
     (if released lease then (owner, lease)
      else (owner\<lparr>active := fold (\<lambda>identity found. case found identity of
                None \<Rightarrow> found
              | Some r \<Rightarrow> if token r = lease_token lease \<and> reserved_for r = lease_kind lease then found(identity := None) else found)
              (lease_identities lease) (active owner)\<rparr>,
            lease\<lparr>released := True\<rparr>))"

definition prove_completion_with :: "Registry \<Rightarrow> Impl \<Rightarrow> nat \<Rightarrow> Registry" where
  "prove_completion_with owner lease proof' =
     owner\<lparr>active := fold (\<lambda>identity found. case found identity of
         None \<Rightarrow> found
       | Some r \<Rightarrow> if token r = lease_token lease then found(identity \<mapsto> r\<lparr>completion_proof := Some proof'\<rparr>) else found)
       (lease_identities lease) (active owner)\<rparr>"

definition covers :: "Registry \<Rightarrow> Impl \<Rightarrow> PaneInputIdentity list \<Rightarrow> bool" where
  "covers owner lease candidates \<longleftrightarrow>
     \<not> (released lease \<or> candidates \<noteq> lease_identities lease) \<and>
     list_all (\<lambda>identity. case active owner identity of
        None \<Rightarrow> False
      | Some r \<Rightarrow> token r = lease_token lease \<and> reserved_for r = lease_kind lease) (lease_identities lease)"

section \<open>Reserving\<close>

definition wanted_identities :: "(string \<Rightarrow> PaneInputEndpointIdentity option) \<Rightarrow> string \<Rightarrow> nat \<Rightarrow> nat \<Rightarrow> string list \<Rightarrow> string
    \<Rightarrow> (ToolError, PaneInputIdentity list) expected" where
  "wanted_identities stat_socket endpoint pid start panes tool =
     (case endpoint_identity stat_socket endpoint of
        None \<Rightarrow> Inl invalid_reservation
      | Some physical \<Rightarrow>
          if pid = 0 \<or> start = 0 \<or> panes = [] \<or> tool = [] \<or> \<not> list_all canonical_pane_id panes then Inl invalid_reservation
          else let sorted_panes = sort panes in
            if remdups_adj sorted_panes \<noteq> sorted_panes then Inl invalid_reservation
            else Inr (identities physical pid start sorted_panes))"

text \<open>The first look under the lock: which runs might have finished, by token.\<close>

fun collect_proofs :: "Registry \<Rightarrow> string \<Rightarrow> PaneInputIdentity list \<Rightarrow> (nat \<times> nat) list \<Rightarrow> (ToolError, (nat \<times> nat) list) expected" where
  "collect_proofs owner tool [] finished = Inr finished"
| "collect_proofs owner tool (identity # wanted) finished =
     (case active owner identity of
        None \<Rightarrow> collect_proofs owner tool wanted finished
      | Some r \<Rightarrow>
          (case completion_proof r of
             None \<Rightarrow> Inl (conflict (pane_of identity) tool (reserved_for r))
           | Some p \<Rightarrow> collect_proofs owner tool wanted
               (if token r \<in> fst ` set finished then finished else finished @ [(token r, p)])))"

text \<open>The second look: what was proved is dropped, and the panes are taken when all of them are free.\<close>

definition drop_proven :: "Registry \<Rightarrow> nat set \<Rightarrow> Registry" where
  "drop_proven owner proven = owner\<lparr>active := (\<lambda>identity. case active owner identity of
     None \<Rightarrow> None | Some r \<Rightarrow> if token r \<in> proven then None else Some r)\<rparr>"

definition admit_lease :: "Registry \<Rightarrow> string \<Rightarrow> PaneInputReservationKind \<Rightarrow> PaneInputIdentity list \<Rightarrow> nat set
    \<Rightarrow> Registry \<times> (ToolError, Impl) expected" where
  "admit_lease owner tool kind wanted proven =
     (let owner = drop_proven owner proven in
      case find (\<lambda>identity. active owner identity \<noteq> None) wanted of
        Some identity \<Rightarrow> (owner, Inl (conflict (pane_of identity) tool (reserved_for (the (active owner identity)))))
      | None \<Rightarrow>
          let tok = next_token owner + 1 in
          (owner\<lparr>next_token := tok,
             active := fold (\<lambda>identity found. found(identity \<mapsto> \<lparr>token = tok, reserved_for = kind, completion_proof = None\<rparr>))
               wanted (active owner)\<rparr>,
           Inr \<lparr>lease_identities = wanted, lease_token = tok, lease_kind = kind, released = False\<rparr>))"

text \<open>The whole call when nothing else runs in between; \<open>answers\<close> is what each proof says, an exception counting as no.\<close>

definition proven_tokens :: "(nat \<Rightarrow> bool) \<Rightarrow> (nat \<times> nat) list \<Rightarrow> nat set" where
  "proven_tokens answers finished = fst ` set (filter (\<lambda>(held, p). answers p) finished)"

definition reserve_pane_input :: "(string \<Rightarrow> PaneInputEndpointIdentity option) \<Rightarrow> (nat \<Rightarrow> bool) \<Rightarrow> Registry \<Rightarrow>
    string \<Rightarrow> nat \<Rightarrow> nat \<Rightarrow> string list \<Rightarrow> PaneInputReservationKind \<Rightarrow> string \<Rightarrow> Registry \<times> (ToolError, Impl) expected" where
  "reserve_pane_input stat_socket answers owner endpoint pid start panes kind tool =
     (case wanted_identities stat_socket endpoint pid start panes tool of
        Inl e \<Rightarrow> (owner, Inl e)
      | Inr wanted \<Rightarrow>
          (case collect_proofs owner tool wanted [] of
             Inl e \<Rightarrow> (owner, Inl e)
           | Inr finished \<Rightarrow> admit_lease owner tool kind wanted (proven_tokens answers finished)))"

text \<open>The watcher that tries to settle a run: \<open>stopped\<close> and \<open>prove\<close> answer each time they are asked.\<close>

definition kPaneInputSettlementAttemptDelays :: "nat list" where
  "kPaneInputSettlementAttemptDelays = [0, 20, 40, 80, 160, 250, 250, 250]"

fun settlement_attempts :: "(nat \<Rightarrow> bool) \<Rightarrow> (nat \<Rightarrow> bool) \<Rightarrow> nat \<Rightarrow> nat list \<Rightarrow> bool" where
  "settlement_attempts stopped prove i [] = False"
| "settlement_attempts stopped prove i (delay # delays) =
     (if stopped (2 * i) then False
      else if stopped (2 * i + 1) then False
      else if prove i then True
      else settlement_attempts stopped prove (Suc i) delays)"

definition prove_pane_input_settlement :: "(nat \<Rightarrow> bool) \<Rightarrow> (nat \<Rightarrow> bool) \<Rightarrow> bool" where
  "prove_pane_input_settlement stopped prove = settlement_attempts stopped prove 0 kPaneInputSettlementAttemptDelays"

section \<open>Every interleaving\<close>

record Pending =
  pending_tool :: string
  pending_kind :: PaneInputReservationKind
  pending_wanted :: "PaneInputIdentity list"
  pending_finished :: "(nat \<times> nat) list"

text \<open>\<open>leases\<close> are the implementations made so far, whether their handles still exist or were abandoned; \<open>proofs\<close>
  records which proof was registered for which token.\<close>

record Inputs =
  registry :: Registry
  leases :: "Impl list"
  pending :: "Pending list"
  proofs :: "(nat \<times> nat) list"

definition no_inputs :: Inputs where
  "no_inputs = \<lparr>registry = \<lparr>active = Map.empty, next_token = 0\<rparr>, leases = [], pending = [], proofs = []\<rparr>"

datatype InputEvent = Asked | Ended "nat \<Rightarrow> bool" | Released nat | Proved nat nat

inductive input_step :: "Inputs \<Rightarrow> InputEvent \<Rightarrow> Inputs \<Rightarrow> bool" where
  asked: "wanted_identities stat_socket endpoint pid start panes tool = Inr wanted \<Longrightarrow>
    collect_proofs (registry s) tool wanted [] = Inr finished \<Longrightarrow>
    input_step s Asked (s\<lparr>pending := pending s @ [\<lparr>pending_tool = tool, pending_kind = kind, pending_wanted = wanted,
      pending_finished = finished\<rparr>]\<rparr>)"
| refused: "p \<in> set (pending s) \<Longrightarrow>
    admit_lease (registry s) (pending_tool p) (pending_kind p) (pending_wanted p) (proven_tokens answers (pending_finished p)) = (r, Inl e) \<Longrightarrow>
    input_step s (Ended answers) (s\<lparr>registry := r, pending := remove1 p (pending s)\<rparr>)"
| admitted: "p \<in> set (pending s) \<Longrightarrow>
    admit_lease (registry s) (pending_tool p) (pending_kind p) (pending_wanted p) (proven_tokens answers (pending_finished p)) = (r, Inr lease) \<Longrightarrow>
    input_step s (Ended answers) (s\<lparr>registry := r, leases := leases s @ [lease], pending := remove1 p (pending s)\<rparr>)"
| release: "i < length (leases s) \<Longrightarrow> release_lease (registry s) (leases s ! i) = (r, lease) \<Longrightarrow>
    input_step s (Released i) (s\<lparr>registry := r, leases := (leases s)[i := lease]\<rparr>)"
| prove: "i < length (leases s) \<Longrightarrow>
    input_step s (Proved i p) (s\<lparr>registry := prove_completion_with (registry s) (leases s ! i) p,
      proofs := proofs s @ [(lease_token (leases s ! i), p)]\<rparr>)"

inductive input_reachable :: "Inputs \<Rightarrow> bool" where
  start: "input_reachable no_inputs"
| step: "input_reachable s \<Longrightarrow> input_step s ev s' \<Longrightarrow> input_reachable s'"

definition holds :: "Inputs \<Rightarrow> nat \<Rightarrow> bool" where
  "holds s i \<longleftrightarrow> i < length (leases s) \<and> covers (registry s) (leases s ! i) (lease_identities (leases s ! i))"


section \<open>What the operations do to the map\<close>

lemma fold_update:
  assumes "\<forall>r r'. P r \<longrightarrow> f r = Some r' \<longrightarrow> P r' \<and> f r' = Some r'"
  shows "fold (\<lambda>x m. case m x of None \<Rightarrow> m | Some r \<Rightarrow> if P r then m(x := f r) else m) xs m y =
    (if y \<in> set xs then (case m y of None \<Rightarrow> None | Some r \<Rightarrow> if P r then f r else Some r) else m y)"
proof (induction xs arbitrary: m y)
  case (Cons x xs)
  let ?m = "case m x of None \<Rightarrow> m | Some r \<Rightarrow> if P r then m(x := f r) else m"
  have m: "?m y = (if y = x then (case m x of None \<Rightarrow> None | Some r \<Rightarrow> if P r then f r else Some r) else m y)"
    by (auto split: option.split)
  have twice: "(case f r of None \<Rightarrow> None | Some r' \<Rightarrow> if P r' then f r' else Some r') = f r" if "P r" for r
  proof (cases "f r")
    case (Some r')
    then have "P r'" "f r' = Some r'" using assms that by blast+
    then show ?thesis by (simp add: Some)
  qed simp
  show ?case
  proof (cases "m x")
    case None
    then show ?thesis using m by (simp add: Cons.IH)
  next
    case (Some r)
    show ?thesis
      using m by (cases "P r"; cases "y = x") (simp_all add: Some Cons.IH twice)
  qed
qed simp

lemma fold_insert: "fold (\<lambda>x m. m(x \<mapsto> r)) xs m y = (if y \<in> set xs then Some r else m y)"
  by (induction xs arbitrary: m) auto

definition owns :: "Impl \<Rightarrow> Reservation \<Rightarrow> bool" where
  "owns l r \<longleftrightarrow> token r = lease_token l \<and> reserved_for r = lease_kind l"

lemma release_active:
  "active (fst (release_lease owner l)) y =
    (if \<not> released l \<and> y \<in> set (lease_identities l) then
       (case active owner y of None \<Rightarrow> None | Some r \<Rightarrow> if owns l r then None else Some r) else active owner y)"
  using fold_update [of "\<lambda>r. token r = lease_token l \<and> reserved_for r = lease_kind l" "\<lambda>_. None" "lease_identities l" "active owner" y]
  by (simp add: release_lease_def owns_def split: option.split)

lemma prove_active:
  "active (prove_completion_with owner l p) y =
    (if y \<in> set (lease_identities l) then
       (case active owner y of None \<Rightarrow> None
        | Some r \<Rightarrow> if token r = lease_token l then Some (r\<lparr>completion_proof := Some p\<rparr>) else Some r) else active owner y)"
  using fold_update [of "\<lambda>r. token r = lease_token l" "\<lambda>r. Some (r\<lparr>completion_proof := Some p\<rparr>)" "lease_identities l" "active owner" y]
  by (simp add: prove_completion_with_def)

lemma release_simps [simp]:
  "next_token (fst (release_lease owner l)) = next_token owner"
  "snd (release_lease owner l) = l\<lparr>released := True\<rparr>"
  by (auto simp: release_lease_def)

lemma prove_simps [simp]: "next_token (prove_completion_with owner l p) = next_token owner"
  by (simp add: prove_completion_with_def)

lemma drop_proven_active:
  "active (drop_proven owner proven) y = Some r \<longleftrightarrow> active owner y = Some r \<and> token r \<notin> proven"
  "next_token (drop_proven owner proven) = next_token owner"
  by (auto simp: drop_proven_def split: option.splits)

lemma admit_refused:
  assumes "admit_lease owner tool kind wanted proven = (r, Inl e)"
  shows "r = drop_proven owner proven"
  using assms by (auto simp: admit_lease_def Let_def split: option.splits)

lemma admit_granted:
  assumes "admit_lease owner tool kind wanted proven = (r, Inr l)"
  shows "next_token r = next_token owner + 1" "l = \<lparr>lease_identities = wanted, lease_token = next_token owner + 1, lease_kind = kind, released = False\<rparr>"
    "\<And>y. active r y = (if y \<in> set wanted then Some \<lparr>token = next_token owner + 1, reserved_for = kind, completion_proof = None\<rparr>
      else active (drop_proven owner proven) y)"
    "\<And>y. y \<in> set wanted \<Longrightarrow> active (drop_proven owner proven) y = None"
  using assms by (auto simp: admit_lease_def Let_def drop_proven_active(2) fold_insert find_None_iff split: option.splits)

lemma collect_proofs_from:
  assumes "collect_proofs owner tool wanted fin = Inr fin'" "(t, p) \<in> set fin'"
  shows "(t, p) \<in> set fin \<or> (\<exists>y \<in> set wanted. \<exists>r. active owner y = Some r \<and> token r = t \<and> completion_proof r = Some p)"
  using assms
proof (induction wanted arbitrary: fin)
  case (Cons y wanted)
  then show ?case by (cases "active owner y") (fastforce split: option.splits if_splits)+
qed simp

section \<open>The invariant\<close>

definition inputs_inv :: "Registry \<Rightarrow> Impl list \<Rightarrow> Pending list \<Rightarrow> (nat \<times> nat) list \<Rightarrow> bool" where
  "inputs_inv owner ls ps fs \<longleftrightarrow>
     (\<forall>y r. active owner y = Some r \<longrightarrow> (\<exists>l \<in> set ls. owns l r \<and> y \<in> set (lease_identities l))) \<and>
     (\<forall>l \<in> set ls. lease_token l \<le> next_token owner) \<and>
     distinct (map lease_token ls) \<and>
     (\<forall>y r p. active owner y = Some r \<longrightarrow> completion_proof r = Some p \<longrightarrow> (token r, p) \<in> set fs) \<and>
     (\<forall>q \<in> set ps. set (pending_finished q) \<subseteq> set fs) \<and>
     (\<forall>y z r r'. active owner y = Some r \<longrightarrow> active owner z = Some r' \<longrightarrow> token r = token r' \<longrightarrow>
        completion_proof r = completion_proof r')"

abbreviation input_ok :: "Inputs \<Rightarrow> bool" where
  "input_ok s \<equiv> inputs_inv (registry s) (leases s) (pending s) (proofs s)"

lemma owns_released [simp]: "owns (l\<lparr>released := b\<rparr>) r = owns l r"
  by (simp add: owns_def)

lemma input_okD:
  assumes "inputs_inv owner ls ps fs"
  shows "active owner y = Some r \<Longrightarrow> \<exists>l \<in> set ls. owns l r \<and> y \<in> set (lease_identities l)"
    "l \<in> set ls \<Longrightarrow> lease_token l \<le> next_token owner"
    "distinct (map lease_token ls)"
    "active owner y = Some r \<Longrightarrow> completion_proof r = Some p \<Longrightarrow> (token r, p) \<in> set fs"
    "q \<in> set ps \<Longrightarrow> set (pending_finished q) \<subseteq> set fs"
    "active owner y = Some r \<Longrightarrow> active owner z = Some r' \<Longrightarrow> token r = token r' \<Longrightarrow>
        completion_proof r = completion_proof r'"
  using assms unfolding inputs_inv_def by blast+

lemma input_okI:
  assumes "\<And>y r. active owner y = Some r \<Longrightarrow> \<exists>l \<in> set ls. owns l r \<and> y \<in> set (lease_identities l)"
    and "\<And>l. l \<in> set ls \<Longrightarrow> lease_token l \<le> next_token owner"
    and "distinct (map lease_token ls)"
    and "\<And>y r p. active owner y = Some r \<Longrightarrow> completion_proof r = Some p \<Longrightarrow> (token r, p) \<in> set fs"
    and "\<And>q. q \<in> set ps \<Longrightarrow> set (pending_finished q) \<subseteq> set fs"
    and "\<And>y z r r'. active owner y = Some r \<Longrightarrow> active owner z = Some r' \<Longrightarrow> token r = token r' \<Longrightarrow>
        completion_proof r = completion_proof r'"
  shows "inputs_inv owner ls ps fs"
  unfolding inputs_inv_def using assms by blast

lemma input_ok_pending:
  assumes "inputs_inv owner ls ps fs" "set (pending_finished q) \<subseteq> set fs"
  shows "inputs_inv owner ls (ps @ [q]) fs"
proof (rule input_okI)
  show "set (pending_finished q') \<subseteq> set fs" if "q' \<in> set (ps @ [q])" for q'
    using that assms(2) input_okD(5) [OF assms(1), of q'] by auto
qed (use input_okD(1,2,3,4,6) [OF assms(1)] in blast)+

lemma input_ok_drop:
  assumes "inputs_inv owner ls ps fs" "set pend \<subseteq> set ps"
  shows "inputs_inv (drop_proven owner proven) ls pend fs"
proof (rule input_okI)
  fix y z r r' p
  assume r: "active (drop_proven owner proven) y = Some r"
  show "\<exists>l \<in> set ls. owns l r \<and> y \<in> set (lease_identities l)"
    using r input_okD(1) [OF assms(1)] by (simp add: drop_proven_active)
  show "(token r, p) \<in> set fs" if "completion_proof r = Some p"
    using that r input_okD(4) [OF assms(1), of y r p] by (simp add: drop_proven_active)
  show "completion_proof r = completion_proof r'" if "active (drop_proven owner proven) z = Some r'" "token r = token r'"
    using that r input_okD(6) [OF assms(1), of y r z r'] by (simp add: drop_proven_active)
qed (use input_okD(2,3,5) [OF assms(1)] assms(2) in \<open>auto simp: drop_proven_active\<close>)

lemma input_ok_admitted:
  assumes "inputs_inv owner ls ps fs" and granted: "admit_lease owner tool kind wanted proven = (r, Inr lease)"
  shows "inputs_inv r (ls @ [lease]) (remove1 p ps) fs"
proof -
  let ?kept = "drop_proven owner proven"
  have ok: "inputs_inv ?kept ls (remove1 p ps) fs" by (rule input_ok_drop [OF assms(1) set_remove1_subset])
  note g = admit_granted [OF granted]
  have fresh: "token x \<noteq> next_token owner + 1" if x: "active ?kept y = Some x" for y x
    using input_okD(1) [OF ok x] input_okD(2) [OF ok] by (fastforce simp: owns_def drop_proven_active)
  have new: "lease_token lease \<notin> set (map lease_token ls)"
    using input_okD(2) [OF assms(1)] by (fastforce simp: g(2))
  have act: "active r y = Some x \<longleftrightarrow> (if y \<in> set (lease_identities lease) then
      x = \<lparr>token = lease_token lease, reserved_for = lease_kind lease, completion_proof = None\<rparr> else active ?kept y = Some x)" for y x
    using g(3) [of y] by (auto simp: g(2))
  have tok: "token x \<noteq> lease_token lease" if "active ?kept y = Some x" for y x
    using fresh [OF that] by (simp add: g(2))
  show ?thesis
  proof (rule input_okI)
    show "\<exists>l \<in> set (ls @ [lease]). owns l x \<and> y \<in> set (lease_identities l)" if "active r y = Some x" for y x
      using that input_okD(1) [OF ok, of y x] by (auto simp: act owns_def split: if_splits)
    show "lease_token l \<le> next_token r" if "l \<in> set (ls @ [lease])" for l
      using that input_okD(2) [OF assms(1), of l] by (auto simp: g(1,2))
    show "distinct (map lease_token (ls @ [lease]))"
      using input_okD(3) [OF assms(1)] new by simp
    show "(token x, q) \<in> set fs" if "active r y = Some x" "completion_proof x = Some q" for y x q
      using that input_okD(4) [OF ok, of y x q] by (auto simp: act split: if_splits)
    show "set (pending_finished q) \<subseteq> set fs" if "q \<in> set (remove1 p ps)" for q
      using that input_okD(5) [OF ok, of q] by simp
    show "completion_proof x = completion_proof x'"
      if "active r y = Some x" "active r z = Some x'" "token x = token x'" for y z x x'
      using that input_okD(6) [OF ok, of y x z x'] tok [of y x] tok [of z x'] by (auto simp: act split: if_splits)
  qed
qed

lemma input_ok_released:
  assumes "inputs_inv owner ls ps fs" and i: "i < length ls" and gone: "release_lease owner (ls ! i) = (r, lease)"
  shows "inputs_inv r (ls[i := lease]) ps fs"
proof -
  have r: "r = fst (release_lease owner (ls ! i))" "lease = (ls ! i)\<lparr>released := True\<rparr>"
    using gone release_simps(2) [of "owner" "ls ! i"] by auto
  have act: "active owner y = Some x" if "active r y = Some x" for y x
    using that by (auto simp: r release_active split: if_splits option.splits)
  have map: "map lease_token (ls[i := lease]) = map lease_token ls"
    using i by (simp add: map_update r(2) list_update_same_conv)
  have old: "\<exists>l' \<in> set ls. lease_token l' = lease_token l" if "l \<in> set (ls[i := lease])" for l
    using that map by (metis imageE imageI list.set_map)
  have keep: "\<exists>l' \<in> set (ls[i := lease]). owns l' x = owns l x \<and> lease_identities l' = lease_identities l"
    if l: "l \<in> set ls" for l x
  proof -
    obtain k where k: "k < length ls" "l = ls ! k" using l by (auto simp: in_set_conv_nth)
    then have "ls[i := lease] ! k \<in> set (ls[i := lease])" by simp
    moreover have "owns (ls[i := lease] ! k) x = owns l x" "lease_identities (ls[i := lease] ! k) = lease_identities l"
      using k r(2) by (cases "i = k"; simp)+
    ultimately show ?thesis by blast
  qed
  show ?thesis
  proof (rule input_okI)
    show "\<exists>l \<in> set (ls[i := lease]). owns l x \<and> y \<in> set (lease_identities l)" if "active r y = Some x" for y x
      using input_okD(1) [OF assms(1) act [OF that]] keep by metis
    show "lease_token l \<le> next_token r" if "l \<in> set (ls[i := lease])" for l
      using old [OF that] input_okD(2) [OF assms(1)] by (auto simp: r(1)) metis
    show "distinct (map lease_token (ls[i := lease]))" using input_okD(3) [OF assms(1)] map by simp
  qed (use input_okD(4,5,6) [OF assms(1)] act in blast)+
qed

lemma input_ok_proved:
  assumes "inputs_inv owner ls ps fs" and i: "i < length ls"
  shows "inputs_inv (prove_completion_with owner (ls ! i) p) ls ps (fs @ [(lease_token (ls ! i), p)])"
proof -
  let ?l = "ls ! i"
  have l: "?l \<in> set ls" using i by simp
  have all: "y \<in> set (lease_identities ?l)" if x: "active owner y = Some x" "token x = lease_token ?l" for x y
  proof -
    obtain l' where l': "l' \<in> set ls" "owns l' x" "y \<in> set (lease_identities l')"
      using input_okD(1) [OF assms(1) x(1)] by blast
    then have "l' = ?l"
      using x(2) l input_okD(3) [OF assms(1)] by (auto simp: owns_def distinct_map dest: inj_onD)
    then show ?thesis using l'(3) by simp
  qed
  have act: "\<exists>x'. active owner y = Some x' \<and>
      x = (if token x' = lease_token ?l then x'\<lparr>completion_proof := Some p\<rparr> else x')"
    if "active (prove_completion_with owner ?l p) y = Some x" for x y
    using that all [of y] by (cases "active owner y") (auto simp: prove_active split: if_splits)
  show ?thesis
  proof (rule input_okI)
    show "\<exists>l \<in> set ls. owns l x \<and> y \<in> set (lease_identities l)"
      if "active (prove_completion_with owner ?l p) y = Some x" for y x
      using act [OF that] input_okD(1) [OF assms(1), of y] by (fastforce simp: owns_def split: if_splits)
    show "(token x, q) \<in> set (fs @ [(lease_token ?l, p)])"
      if "active (prove_completion_with owner ?l p) y = Some x" "completion_proof x = Some q" for y x q
      using act [OF that(1)] that(2) input_okD(4) [OF assms(1), of y] by (auto split: if_splits)
    show "completion_proof x = completion_proof x'"
      if w: "active (prove_completion_with owner ?l p) y = Some x"
        "active (prove_completion_with owner ?l p) z = Some x'" "token x = token x'" for y z x x'
    proof -
      obtain a where a: "active owner y = Some a"
        "x = (if token a = lease_token ?l then a\<lparr>completion_proof := Some p\<rparr> else a)" using act [OF w(1)] by blast
      obtain b where b: "active owner z = Some b"
        "x' = (if token b = lease_token ?l then b\<lparr>completion_proof := Some p\<rparr> else b)" using act [OF w(2)] by blast
      have t: "token a = token b" using w(3) a(2) b(2) by (simp split: if_splits)
      then show ?thesis using input_okD(6) [OF assms(1) a(1) b(1) t] a(2) b(2) by simp
    qed
    show "set (pending_finished q) \<subseteq> set (fs @ [(lease_token ?l, p)])" if "q \<in> set ps" for q
      using input_okD(5) [OF assms(1) that] by auto
    show "lease_token l \<le> next_token (prove_completion_with owner ?l p)" if "l \<in> set ls" for l
      using input_okD(2) [OF assms(1) that] by simp
    show "distinct (map lease_token ls)" by (rule input_okD(3) [OF assms(1)])
  qed
qed

lemma input_ok_step:
  assumes "input_ok s" "input_step s ev s'"
  shows "input_ok s'"
  using assms(2)
proof cases
  case (asked stat_socket endpoint pid start panes tool wanted finished kind)
  have "set finished \<subseteq> set (proofs s)"
    using collect_proofs_from [OF asked(4)] input_okD(4) [OF assms(1)] by fastforce
  then show ?thesis
    unfolding asked(2) using input_ok_pending [OF assms(1)] by simp
next
  case (refused p answers r e)
  have r: "r = drop_proven (registry s) (proven_tokens answers (pending_finished p))" by (rule admit_refused [OF refused(4)])
  show ?thesis using input_ok_drop [OF assms(1) set_remove1_subset] by (simp add: refused(2) r)
next
  case (admitted p answers r lease)
  then show ?thesis using input_ok_admitted [OF assms(1)] by simp
next
  case (release i r lease)
  then show ?thesis using input_ok_released [OF assms(1)] by simp
next
  case (prove i p)
  then show ?thesis using input_ok_proved [OF assms(1)] by simp
qed

lemma input_reachable_ok: "input_reachable s \<Longrightarrow> input_ok s"
proof (induction rule: input_reachable.induct)
  case start
  show ?case by (rule input_okI) (simp_all add: no_inputs_def)
next
  case (step s ev s')
  show ?case by (rule input_ok_step [OF step.IH step.hyps(2)])
qed

lemma holdsD:
  "holds s i \<longleftrightarrow> i < length (leases s) \<and> \<not> released (leases s ! i) \<and>
    (\<forall>y \<in> set (lease_identities (leases s ! i)). \<exists>r. active (registry s) y = Some r \<and> owns (leases s ! i) r)"
  by (auto simp: holds_def covers_def list_all_iff owns_def split: option.splits)

section \<open>The properties\<close>


text \<open>A lease keeps every pane it holds until it is released itself, or until a proof that was registered for it says
  its run is complete; no other request, release or proof takes a pane away.\<close>

theorem reservation_stable:
  assumes "input_reachable s" "holds s i" "input_step s ev s'" "ev \<noteq> Released i"
    and "\<forall>answers p. ev = Ended answers \<longrightarrow> (lease_token (leases s ! i), p) \<in> set (proofs s) \<longrightarrow> \<not> answers p"
  shows "holds s' i"
proof -
  note ok = input_reachable_ok [OF assms(1)]
  let ?l = "leases s ! i"
  have i: "i < length (leases s)" "\<not> released ?l" using assms(2) by (auto simp: holdsD)
  have kept: "active (drop_proven (registry s) (proven_tokens answers (pending_finished p))) y = active (registry s) y"
    if p: "p \<in> set (pending s)" "ev = Ended answers" "y \<in> set (lease_identities ?l)" for p answers y
  proof -
    obtain r where r: "active (registry s) y = Some r" "owns ?l r" using p(3) assms(2) unfolding holdsD by blast
    have "lease_token ?l \<notin> proven_tokens answers (pending_finished p)"
      using p(1,2) assms(5) input_okD(5) [OF ok p(1)] by (fastforce simp: proven_tokens_def)
    then show ?thesis using r by (auto simp: drop_proven_def owns_def)
  qed
  show ?thesis
    using assms(3)
  proof cases
    case asked
    then show ?thesis using assms(2) by (simp add: holdsD)
  next
    case (refused p answers r e)
    then show ?thesis using assms(2) kept [OF refused(3) refused(1)] admit_refused [OF refused(4)] by (simp add: holdsD)
  next
    case (admitted p answers r lease)
    have "active r y = active (registry s) y" if "y \<in> set (lease_identities ?l)" for y
      using admit_granted(3,4) [OF admitted(4), of y] kept [OF admitted(3,1) that] that assms(2) by (fastforce simp: holdsD)
    then show ?thesis using assms(2) i by (simp add: holdsD admitted(2) nth_append)
  next
    case (release j r lease)
    then have "j \<noteq> i" using assms(4) by simp
    have r: "r = fst (release_lease (registry s) (leases s ! j))" using release(4) by simp
    have "lease_token (leases s ! j) \<noteq> lease_token ?l"
      using input_okD(3) [OF ok] \<open>j \<noteq> i\<close> i(1) release(3) by (auto simp: distinct_conv_nth)
    then have "active r y = active (registry s) y" if "y \<in> set (lease_identities ?l)" for y
      using that assms(2) unfolding r holdsD by (fastforce simp: release_active owns_def split: option.splits)
    then show ?thesis using assms(2) \<open>j \<noteq> i\<close> by (simp add: holdsD release(2))
  next
    case (prove j p)
    then show ?thesis using assms(2) by (fastforce simp: holdsD prove_active owns_def split: option.splits)
  qed
qed

lemma collect_proofs_result:
  "(\<exists>fin'. collect_proofs owner tool wanted fin = Inr fin') \<longleftrightarrow>
    (\<forall>y \<in> set wanted. \<forall>r. active owner y = Some r \<longrightarrow> completion_proof r \<noteq> None)"
  by (induction wanted arbitrary: fin) (auto split: option.split)

lemma collect_proofs_has:
  assumes "collect_proofs owner tool wanted fin = Inr fin'"
  shows "set fin \<subseteq> set fin' \<and> (\<forall>y \<in> set wanted. \<forall>r. active owner y = Some r \<longrightarrow> token r \<in> fst ` set fin')"
  using assms
proof (induction wanted arbitrary: fin)
  case (Cons y wanted)
  show ?case
  proof (cases "active owner y")
    case None
    then show ?thesis using Cons by simp
  next
    case (Some r)
    then obtain p where p: "completion_proof r = Some p" using Cons.prems by (auto split: option.splits)
    let ?fin = "if token r \<in> fst ` set fin then fin else fin @ [(token r, p)]"
    have "set ?fin \<subseteq> set fin'" "\<forall>y \<in> set wanted. \<forall>r. active owner y = Some r \<longrightarrow> token r \<in> fst ` set fin'"
      using Cons.IH [of ?fin] Cons.prems Some p by simp_all
    moreover have "set fin \<subseteq> set ?fin" "token r \<in> fst ` set ?fin" by force+
    ultimately show ?thesis using Some by (auto simp del: image_iff)
  qed
qed simp

lemma admit_lease_grants:
  "(\<exists>r lease. admit_lease owner tool kind wanted proven = (r, Inr lease)) \<longleftrightarrow>
    (\<forall>y \<in> set wanted. active (drop_proven owner proven) y = None)"
proof (cases "find (\<lambda>identity. active (drop_proven owner proven) identity \<noteq> None) wanted")
  case None
  have "\<forall>y \<in> set wanted. active (drop_proven owner proven) y = None"
    using None [unfolded find_None_iff] by blast
  then show ?thesis unfolding admit_lease_def Let_def None option.case by simp
next
  case (Some y)
  then show ?thesis unfolding admit_lease_def Let_def Some option.case using find_SomeD [OF Some] by auto
qed

text \<open>A reservation made without interruption is granted exactly when the request is valid and each pane it asks for
  is free or belongs to a run whose proof says it is complete. Then the new lease covers the panes, and nobody else's
  panes changed hands.\<close>

theorem reservation_granted:
  assumes "input_reachable s"
  shows "(\<exists>r lease. reserve_pane_input stat_socket answers (registry s) endpoint pid start panes kind tool = (r, Inr lease)) \<longleftrightarrow>
    (\<exists>wanted. wanted_identities stat_socket endpoint pid start panes tool = Inr wanted \<and>
      (\<forall>y \<in> set wanted. \<forall>r. active (registry s) y = Some r \<longrightarrow> (\<exists>p. completion_proof r = Some p \<and> answers p)))"
proof (cases "wanted_identities stat_socket endpoint pid start panes tool")
  case (Inr wanted)
  note ok = input_reachable_ok [OF assms]
  show ?thesis
  proof (cases "\<forall>y \<in> set wanted. \<forall>r. active (registry s) y = Some r \<longrightarrow> completion_proof r \<noteq> None")
    case False
    then obtain y r where yr: "y \<in> set wanted" "active (registry s) y = Some r" "completion_proof r = None" by blast
    then have "\<nexists>fin. collect_proofs (registry s) tool wanted [] = Inr fin" using collect_proofs_result [of "registry s" tool wanted "[]"] by blast
    then obtain e where "collect_proofs (registry s) tool wanted [] = Inl e" by (cases "collect_proofs (registry s) tool wanted []") auto
    then show ?thesis using yr(1,3) yr(2) by (simp add: reserve_pane_input_def Inr) (metis option.distinct(1))
  next
    case True
    then obtain fin where fin: "collect_proofs (registry s) tool wanted [] = Inr fin" using collect_proofs_result by blast
    have proven: "token r \<in> proven_tokens answers fin \<longleftrightarrow> (\<exists>p. completion_proof r = Some p \<and> answers p)"
      if y: "y \<in> set wanted" "active (registry s) y = Some r" for y r
    proof -
      have same: "completion_proof r = Some p" if "(token r, p) \<in> set fin" for p
        using collect_proofs_from [OF fin that] input_okD(6) [OF ok y(2)] by auto
      obtain q where q: "(token r, q) \<in> set fin" using collect_proofs_has [OF fin] y by fastforce
      have "token r \<in> proven_tokens answers fin \<longleftrightarrow> (\<exists>p. (token r, p) \<in> set fin \<and> answers p)"
        by (auto simp: proven_tokens_def image_iff)
      then show ?thesis using same q by (metis option.inject)
    qed
    have "(\<exists>r lease. admit_lease (registry s) tool kind wanted (proven_tokens answers fin) = (r, Inr lease)) \<longleftrightarrow>
      (\<forall>y \<in> set wanted. active (drop_proven (registry s) (proven_tokens answers fin)) y = None)"
      by (rule admit_lease_grants)
    also have "\<dots> \<longleftrightarrow> (\<forall>y \<in> set wanted. \<forall>r. active (registry s) y = Some r \<longrightarrow> token r \<in> proven_tokens answers fin)"
      by (auto simp: drop_proven_def split: option.split)
    finally show ?thesis using proven by (auto simp: reserve_pane_input_def Inr fin)
  qed
qed (simp add: reserve_pane_input_def)

text \<open>The pane ids that are accepted are those tmux prints: a percent sign and a number below \<open>2^32\<close> in decimal.\<close>

theorem canonical_pane_id_iff: "canonical_pane_id value \<longleftrightarrow> (\<exists>n < 2 ^ 32. value = CHR ''%'' # dec_string n)"
proof -
  have "canonical_pane_id value \<longleftrightarrow> (\<exists>s. value = CHR ''%'' # s \<and> canonical_number s)"
    unfolding canonical_pane_id_def canonical_number_def
    by (cases "value"; cases "tl value") (auto simp: less_Suc_eq_le hd_conv_nth Suc_le_eq)
  then show ?thesis by (auto simp: canonical_number_iff)
qed

lemma settlement_attempts_iff:
  "settlement_attempts stopped prove i delays \<longleftrightarrow>
    (\<exists>k. i \<le> k \<and> k < i + length delays \<and> prove k \<and> (\<forall>j. 2 * i \<le> j \<and> j < 2 * k + 2 \<longrightarrow> \<not> stopped j))"
proof (induction stopped prove i delays rule: settlement_attempts.induct)
  case (2 stopped prove i delay delays)
  show ?case (is "?L \<longleftrightarrow> ?R")
  proof
    assume ?L
    then consider "\<not> stopped (2 * i)" "\<not> stopped (2 * i + 1)" "prove i"
      | "\<not> stopped (2 * i)" "\<not> stopped (2 * i + 1)" "\<not> prove i" "settlement_attempts stopped prove (Suc i) delays"
      by (auto split: if_splits)
    then show ?R
    proof cases
      case 1
      have "\<not> stopped j" if "2 * i \<le> j \<and> j < 2 * i + 2" for j
        using 1 that by (cases "j = 2 * i") (auto simp: less_Suc_eq)
      then show ?thesis using 1(3) by (intro exI [of _ i]) auto
    next
      case (2)
      then obtain k where k: "Suc i \<le> k" "k < Suc i + length delays" "prove k" "\<forall>j. 2 * Suc i \<le> j \<and> j < 2 * k + 2 \<longrightarrow> \<not> stopped j"
        using "2.IH" by auto
      have "\<not> stopped j" if j: "2 * i \<le> j \<and> j < 2 * k + 2" for j
      proof -
        have "j = 2 * i \<or> j = 2 * i + 1 \<or> 2 * Suc i \<le> j" using j by presburger
        then show ?thesis using k(4) 2(1,2) j by blast
      qed
      then show ?thesis using k(1-3) by (intro exI [of _ k]) auto
    qed
  next
    assume ?R
    then obtain k where k: "i \<le> k" "k < i + length (delay # delays)" "prove k" "\<forall>j. 2 * i \<le> j \<and> j < 2 * k + 2 \<longrightarrow> \<not> stopped j"
      by blast
    have s: "\<not> stopped (2 * i)" "\<not> stopped (2 * i + 1)" using k(1,4) by auto
    show ?L
    proof (cases "prove i")
      case False
      then have "Suc i \<le> k" using k(1,3) by (metis le_eq_less_or_eq Suc_leI)
      then have "settlement_attempts stopped prove (Suc i) delays" using "2.IH" False s k by auto
      then show ?thesis using s by simp
    qed (use s in simp)
  qed
qed simp

text \<open>A run is settled exactly when one of the eight attempts proves it complete before anybody stopped watching.\<close>

theorem settlement_proved:
  "prove_pane_input_settlement stopped prove \<longleftrightarrow> (\<exists>k < 8. prove k \<and> (\<forall>j < 2 * k + 2. \<not> stopped j))"
  by (simp add: prove_pane_input_settlement_def settlement_attempts_iff kPaneInputSettlementAttemptDelays_def eval_nat_numeral)

section \<open>Witnesses\<close>

definition desk :: "string \<Rightarrow> PaneInputIdentity" where
  "desk pane = ((1, 2), 7, 9, pane)"

definition taken_by :: "nat \<Rightarrow> string \<Rightarrow> Impl" where
  "taken_by n pane = \<lparr>lease_identities = [desk pane], lease_token = n, lease_kind = rk_input, released = False\<rparr>"

definition two_leases :: Inputs where
  "two_leases = \<lparr>registry = \<lparr>active = [desk ''%1'' \<mapsto> \<lparr>token = 1, reserved_for = rk_input, completion_proof = None\<rparr>,
       desk ''%2'' \<mapsto> \<lparr>token = 2, reserved_for = rk_input, completion_proof = None\<rparr>], next_token = 2\<rparr>,
     leases = [taken_by 1 ''%1'', taken_by 2 ''%2''], pending = [], proofs = []\<rparr>"

lemma desk_wanted:
  assumes "pane \<in> {''%1'', ''%2''}"
  shows "wanted_identities (\<lambda>_. Some (1, 2)) ''/s'' 7 9 [pane] ''send'' = Inr [desk pane]"
  using assms
  by (auto simp: wanted_identities_def endpoint_identity_def contains_control_byte_def canonical_pane_id_def identities_def
    desk_def is_digit_def digit_value_def byte_def)

lemma two_leases_reachable: "input_reachable two_leases"
proof -
  let ?pend = "\<lambda>pane. \<lparr>pending_tool = ''send'', pending_kind = rk_input, pending_wanted = [desk pane], pending_finished = []\<rparr>"
  let ?r1 = "\<lparr>active = [desk ''%1'' \<mapsto> \<lparr>token = 1, reserved_for = rk_input, completion_proof = None\<rparr>], next_token = 1\<rparr>"
  let ?s1 = "\<lparr>registry = ?r1, leases = [taken_by 1 ''%1''], pending = [], proofs = []\<rparr>"
  have "input_step no_inputs Asked (no_inputs\<lparr>pending := pending no_inputs @ [?pend ''%1'']\<rparr>)"
    by (rule input_step.asked [OF desk_wanted]) (simp_all add: no_inputs_def)
  moreover have "input_step (no_inputs\<lparr>pending := pending no_inputs @ [?pend ''%1'']\<rparr>) (Ended (\<lambda>_. False)) ?s1"
    using input_step.admitted [of "?pend ''%1''" "no_inputs\<lparr>pending := pending no_inputs @ [?pend ''%1'']\<rparr>" "\<lambda>_. False" ?r1 "taken_by 1 ''%1''"]
    by (simp add: no_inputs_def admit_lease_def drop_proven_def proven_tokens_def taken_by_def)
  moreover have "input_step ?s1 Asked (?s1\<lparr>pending := pending ?s1 @ [?pend ''%2'']\<rparr>)"
    by (rule input_step.asked [OF desk_wanted]) (simp_all add: desk_def)
  moreover have "input_step (?s1\<lparr>pending := pending ?s1 @ [?pend ''%2'']\<rparr>) (Ended (\<lambda>_. False)) two_leases"
    using input_step.admitted [of "?pend ''%2''" "?s1\<lparr>pending := pending ?s1 @ [?pend ''%2'']\<rparr>" "\<lambda>_. False" "registry two_leases" "taken_by 2 ''%2''"]
    by (simp add: two_leases_def admit_lease_def drop_proven_def proven_tokens_def taken_by_def desk_def fun_eq_iff)
  ultimately show ?thesis by (meson input_reachable.intros)
qed

lemma two_leases_hold: "holds two_leases 0" "holds two_leases 1"
  by (simp_all add: holdsD two_leases_def taken_by_def owns_def desk_def)


theorem reservation_stable_witness:
  "holds (two_leases\<lparr>registry := fst (release_lease (registry two_leases) (leases two_leases ! 1)),
     leases := (leases two_leases)[1 := snd (release_lease (registry two_leases) (leases two_leases ! 1))]\<rparr>) 0"
proof (rule reservation_stable [OF two_leases_reachable two_leases_hold(1)])
  show "input_step two_leases (Released 1) (two_leases\<lparr>registry := fst (release_lease (registry two_leases) (leases two_leases ! 1)),
     leases := (leases two_leases)[1 := snd (release_lease (registry two_leases) (leases two_leases ! 1))]\<rparr>)"
    by (rule input_step.release) (simp_all add: two_leases_def prod_eq_iff)
qed simp_all

theorem reservation_granted_witness:
  "\<not> (\<exists>r lease. reserve_pane_input (\<lambda>_. Some (1, 2)) (\<lambda>_. True) (registry two_leases) ''/s'' 7 9 [''%1''] rk_run ''send'' = (r, Inr lease))"
  using reservation_granted [OF two_leases_reachable, of "\<lambda>_. Some (1, 2)" "\<lambda>_. True" "''/s''" 7 9 "[''%1'']" rk_run "''send''"]
    desk_wanted [of "''%1''"]
  by (auto simp: two_leases_def desk_def)

end
