(* ===== verification/Pane_Echo.thy ===== *)
theory Pane_Echo
  imports Process_Validation "HOL-Library.Product_Lexorder" "HOL-Library.List_Lexorder" "HOL-Library.Char_ord"
begin

text \<open>What the MCP server remembers of the text it typed into a pane (\<open>src/apps/mcp/src/pane_echo.cpp\<close>), so that a wait
  does not take the echo of its own input for output: the line being typed, the last lines entered, edits that are
  noted before they are dispatched and rolled back when they were not, and the \<open>sent\<close> callback of the wait tool
  (\<open>src/apps/mcp/src/wait_for_text.cpp\<close>) that reads it.

  The process-wide ledger is passed as a value, each operation being one critical section; the steady clock is an
  argument. The subtraction \<open>kTextCap - pending.size()\<close> cannot wrap because of \<open>echo_ledger_bounded\<close>.\<close>

section \<open>The ledger\<close>

text \<open>Times are readings of the steady clock in nanoseconds.\<close>

definition kRecentTtl :: nat where "kRecentTtl = 10 * 10 ^ 9"
definition kRecentCap :: nat where "kRecentCap = 4"
definition kTextCap :: nat where "kTextCap = 1024 * 1024"
definition kPaneCap :: nat where "kPaneCap = 256"
definition kRecordTtl :: nat where "kRecordTtl = 120 * 10 ^ 9"

text \<open>Socket path, server process and its start time.\<close>

type_synonym PaneServerIdentity = "string \<times> nat \<times> nat"

record RecentEcho =
  echo_at :: nat
  echo_text :: string

record PaneEchoState =
  echo_identity :: PaneServerIdentity
  in_flight :: nat
  touched :: nat
  over_limit :: bool
  pending_text :: string
  pending_captured :: bool
  recent :: "RecentEcho list"

text \<open>\<open>std::map\<close> as the list of its entries in the order of their keys.\<close>

datatype Key = Key (key_socket: string) (key_pid: nat) (key_start: nat) (key_pane: string)

definition key_members :: "Key \<Rightarrow> string \<times> nat \<times> nat \<times> string" where
  "key_members key = (key_socket key, key_pid key, key_start key, key_pane key)"

instantiation Key :: linorder
begin

definition less_eq_Key :: "Key \<Rightarrow> Key \<Rightarrow> bool" where
  "less_eq_Key x y \<longleftrightarrow> key_members x \<le> key_members y"

definition less_Key :: "Key \<Rightarrow> Key \<Rightarrow> bool" where
  "less_Key x y \<longleftrightarrow> key_members x < key_members y"

instance
proof
  fix x y :: Key
  show "x = y" if "x \<le> y" "y \<le> x"
    using order.antisym [OF that [unfolded less_eq_Key_def]] by (simp add: key_members_def Key.expand)
qed (unfold less_eq_Key_def less_Key_def, auto)

end

type_synonym Ledger = "(Key \<times> PaneEchoState) list"

definition echo_key :: "PaneServerIdentity \<Rightarrow> string \<Rightarrow> Key" where
  "echo_key identity pane = Key (fst identity) (fst (snd identity)) (snd (snd identity)) pane"

definition set_entry :: "Key \<Rightarrow> PaneEchoState \<Rightarrow> Ledger \<Rightarrow> Ledger" where
  "set_entry key state owner = insort_key fst (key, state) (filter (\<lambda>entry. fst entry \<noteq> key) owner)"

section \<open>Pruning\<close>

fun oldest_idle :: "Ledger \<Rightarrow> (Key \<times> PaneEchoState) option \<Rightarrow> (Key \<times> PaneEchoState) option" where
  "oldest_idle [] oldest = oldest"
| "oldest_idle (entry # entries) oldest =
     oldest_idle entries
       (if in_flight (snd entry) = 0 \<and> (case oldest of None \<Rightarrow> True | Some o' \<Rightarrow> touched (snd entry) < touched (snd o'))
        then Some entry else oldest)"

lemma oldest_idle_in: "oldest_idle owner oldest = Some entry \<Longrightarrow> entry \<in> set owner \<or> oldest = Some entry"
  by (induction owner oldest rule: oldest_idle.induct) (auto split: if_splits option.splits)

function evict_idle :: "Ledger \<Rightarrow> Ledger" where
  "evict_idle owner =
     (if length owner \<le> kPaneCap then owner
      else case oldest_idle owner None of
        None \<Rightarrow> owner
      | Some entry \<Rightarrow> evict_idle (filter (\<lambda>other. fst other \<noteq> fst entry) owner))"
  by pat_completeness auto
termination
proof (relation "measure length")
  fix owner :: Ledger and entry
  assume "oldest_idle owner None = Some entry"
  then have "entry \<in> set owner" using oldest_idle_in by fastforce
  then show "(filter (\<lambda>other. fst other \<noteq> fst entry) owner, owner) \<in> measure length"
    by (auto intro!: length_filter_less)
qed simp

declare evict_idle.simps [simp del]

definition prune_locked :: "nat \<Rightarrow> Ledger \<Rightarrow> Ledger" where
  "prune_locked time owner =
     evict_idle (filter (\<lambda>(_, state). \<not> (in_flight state = 0 \<and> kRecordTtl < time - touched state)) owner)"

section \<open>One pane\<close>

definition append_text :: "string \<Rightarrow> PaneEchoState \<Rightarrow> PaneEchoState" where
  "append_text s state =
     (if over_limit state then state
      else if kTextCap - length (pending_text state) < length s then state\<lparr>pending_text := [], over_limit := True\<rparr>
      else state\<lparr>pending_text := pending_text state @ s\<rparr>)"

definition prune_recent_locked :: "nat \<Rightarrow> PaneEchoState \<Rightarrow> PaneEchoState" where
  "prune_recent_locked now state = state\<lparr>recent := dropWhile (\<lambda>r. kRecentTtl < now - echo_at r) (recent state)\<rparr>"

definition push_recent_locked :: "string \<Rightarrow> nat \<Rightarrow> PaneEchoState \<Rightarrow> PaneEchoState" where
  "push_recent_locked s now state =
     (if s = [] then state
      else let state = prune_recent_locked now state;
               lines = recent state @ [\<lparr>echo_at = now, echo_text = s\<rparr>] in
        state\<lparr>recent := drop (length lines - kRecentCap) lines\<rparr>)"

definition end_line_locked :: "nat \<Rightarrow> PaneEchoState \<Rightarrow> PaneEchoState" where
  "end_line_locked now state =
     (push_recent_locked (pending_text state) now state)\<lparr>pending_text := [], pending_captured := False, over_limit := False\<rparr>"

text \<open>A byte whose two high bits are \<open>10\<close> continues a code point.\<close>

fun cut_position :: "string \<Rightarrow> nat \<Rightarrow> nat" where
  "cut_position s 0 = 0"
| "cut_position s (Suc n) = (if byte (s ! Suc n) div 64 = 2 then cut_position s n else Suc n)"

definition drop_last_code_point :: "string \<Rightarrow> string" where
  "drop_last_code_point s = (if s = [] then [] else take (cut_position s (length s - 1)) s)"

datatype PaneKeyEffect = ek_erase | ek_kill | ek_noop | ek_submit | ek_text string | ek_unknown

definition classify_key :: "string \<Rightarrow> PaneKeyEffect" where
  "classify_key key =
     (if key \<in> set [''C-m'', ''Enter'', ''KPEnter''] then ek_submit
      else if key \<in> set [''C-c'', ''C-u''] then ek_kill
      else if key \<in> set [''BSpace'', ''C-h''] then ek_erase
      else if key \<in> set [''DC'', ''Delete''] then ek_noop
      else if key = ''Space'' then ek_text '' ''
      else if length key = 1 then ek_text key
      else ek_unknown)"

fun apply_effect_locked :: "PaneKeyEffect \<Rightarrow> nat \<Rightarrow> PaneEchoState \<Rightarrow> PaneEchoState" where
  "apply_effect_locked ek_submit now state = end_line_locked now state"
| "apply_effect_locked ek_kill now state = end_line_locked now state"
| "apply_effect_locked ek_erase now state =
     (let state = (if \<not> pending_captured state then (push_recent_locked (pending_text state) now state)\<lparr>pending_captured := True\<rparr>
          else state) in
      state\<lparr>pending_text := drop_last_code_point (pending_text state)\<rparr>)"
| "apply_effect_locked ek_noop now state = state"
| "apply_effect_locked ek_unknown now state = state\<lparr>pending_text := [], pending_captured := False\<rparr>"
| "apply_effect_locked (ek_text s) now state = (append_text s state)\<lparr>pending_captured := False\<rparr>"

section \<open>Edits\<close>

definition new_state :: "PaneServerIdentity \<Rightarrow> PaneEchoState" where
  "new_state identity = \<lparr>echo_identity = identity, in_flight = 0, touched = 0, over_limit = False, pending_text = [],
     pending_captured = False, recent = []\<rparr>"

text \<open>The entry of a pane, made when it is missing or belongs to another server.\<close>

definition state_for_locked :: "Ledger \<Rightarrow> string \<Rightarrow> PaneServerIdentity \<Rightarrow> PaneEchoState" where
  "state_for_locked owner pane identity =
     (case map_of owner (echo_key identity pane) of
        Some state \<Rightarrow> if echo_identity state = identity then state else new_state identity
      | None \<Rightarrow> new_state identity)"

record PaneEchoEdit =
  edit_key :: Key
  previous :: PaneEchoState
  committed :: bool

definition commit_edit :: "nat \<Rightarrow> Ledger \<times> PaneEchoEdit \<Rightarrow> Ledger \<times> PaneEchoEdit" where
  "commit_edit now = (\<lambda>(owner, edit).
     if committed edit then (owner, edit)
     else
       (prune_locked now
          (case map_of owner (edit_key edit) of
             Some state \<Rightarrow> if in_flight state \<noteq> 0 then set_entry (edit_key edit) (state\<lparr>in_flight := in_flight state - 1\<rparr>) owner else owner
           | None \<Rightarrow> owner),
        edit\<lparr>committed := True\<rparr>))"

definition destroy_edit :: "Ledger \<Rightarrow> PaneEchoEdit \<Rightarrow> Ledger" where
  "destroy_edit owner edit =
     (if committed edit then owner
      else case map_of owner (edit_key edit) of
        Some _ \<Rightarrow> set_entry (edit_key edit) (previous edit) owner
      | None \<Rightarrow> owner)"

text \<open>What both kinds of input do around their own change of the line.\<close>

definition note_edit :: "(PaneEchoState \<Rightarrow> PaneEchoState) \<Rightarrow> nat \<Rightarrow> Ledger \<Rightarrow> PaneServerIdentity \<Rightarrow> string \<Rightarrow> Ledger \<times> PaneEchoEdit" where
  "note_edit change now owner identity pane =
     (let owner = prune_locked now owner;
          key = echo_key identity pane;
          state = state_for_locked owner pane identity in
      (set_entry key (change (state\<lparr>in_flight := in_flight state + 1, touched := now\<rparr>)) owner,
       \<lparr>edit_key = key, previous = state, committed = False\<rparr>))"

definition note_key_dispatch :: "nat \<Rightarrow> Ledger \<Rightarrow> PaneServerIdentity \<Rightarrow> string \<Rightarrow> string \<Rightarrow> bool \<Rightarrow> Ledger \<times> PaneEchoEdit" where
  "note_key_dispatch now owner identity pane key enter =
     note_edit (\<lambda>state. let state = apply_effect_locked (classify_key key) now state in
       if enter then end_line_locked now state else state) now owner identity pane"

text \<open>The loop over the lines of a text, ended by a carriage return or a line feed.\<close>

fun break_line :: "string \<Rightarrow> string \<times> string option" where
  "break_line [] = ([], None)"
| "break_line (c # s) =
     (if c = CHR 0x0D \<or> c = CHR 0x0A then ([], Some s) else (case break_line s of (line, rest) \<Rightarrow> (c # line, rest)))"

lemma break_line_shorter: "break_line s = (line, Some rest) \<Longrightarrow> length rest < length s"
  by (induction s arbitrary: line) (auto split: if_splits prod.splits)

function write_lines :: "nat \<Rightarrow> string \<Rightarrow> PaneEchoState \<Rightarrow> PaneEchoState" where
  "write_lines now remaining state =
     (case break_line remaining of
        (line, None) \<Rightarrow> append_text line state
      | (line, Some rest) \<Rightarrow> write_lines now rest (end_line_locked now (append_text line state)))"
  by pat_completeness auto
termination
  by (relation "measure (\<lambda>(_, s, _). length s)") (auto dest: break_line_shorter [OF sym])

declare write_lines.simps [simp del]

definition note_literal_write :: "nat \<Rightarrow> Ledger \<Rightarrow> PaneServerIdentity \<Rightarrow> string \<Rightarrow> string \<Rightarrow> bool \<Rightarrow> Ledger \<times> PaneEchoEdit" where
  "note_literal_write now owner identity pane s enter =
     note_edit (\<lambda>state. write_lines now (if enter then s @ [CHR 0x0A] else s) (state\<lparr>pending_captured := False\<rparr>))
       now owner identity pane"

record LiveEcho =
  input_pending :: bool
  echo_pending :: string
  echo_recent :: "string list"

definition no_echo :: LiveEcho where
  "no_echo = \<lparr>input_pending = False, echo_pending = [], echo_recent = []\<rparr>"

definition live_echo :: "Ledger \<Rightarrow> PaneServerIdentity \<Rightarrow> string \<Rightarrow> nat \<Rightarrow> Ledger \<times> LiveEcho" where
  "live_echo owner identity pane time =
     (let owner = prune_locked time owner; key = echo_key identity pane in
      case map_of owner key of
        None \<Rightarrow> (owner, no_echo)
      | Some state \<Rightarrow>
          if echo_identity state \<noteq> identity then (owner, no_echo)
          else let state = prune_recent_locked time state in
            (set_entry key state owner,
             \<lparr>input_pending = (in_flight state \<noteq> 0 \<or> pending_text state \<noteq> []), echo_pending = pending_text state,
               echo_recent = map echo_text (recent state)\<rparr>))"

definition prune_dead_panes :: "Ledger \<Rightarrow> PaneServerIdentity \<Rightarrow> string list \<Rightarrow> Ledger" where
  "prune_dead_panes owner identity alive =
     filter (\<lambda>(key, state). \<not> (key_socket key = fst identity \<and> (echo_identity state \<noteq> identity \<or> key_pane key \<notin> set alive))) owner"

text \<open>The \<open>sent\<close> callback of a wait: every echo it has seen, and the line being typed.\<close>

definition discounted :: "Ledger \<Rightarrow> PaneServerIdentity option \<Rightarrow> string list \<Rightarrow> string \<Rightarrow> nat \<Rightarrow> Ledger \<times> string list \<times> bool \<times> string list" where
  "discounted owner identity seen pane time =
     (case identity of
        None \<Rightarrow> (owner, seen, False, [])
      | Some identity \<Rightarrow>
          (case live_echo owner identity pane time of
             (owner, echo) \<Rightarrow>
               let seen = fold insort_insert (echo_recent echo) seen in
               (owner, seen, input_pending echo, seen @ (if echo_pending echo \<noteq> [] then [echo_pending echo] else []))))"


section \<open>The map\<close>

definition keys_ok :: "Ledger \<Rightarrow> bool" where
  "keys_ok owner \<longleftrightarrow> sorted (map fst owner) \<and> distinct (map fst owner)"

lemma keys_ok_filter: "keys_ok owner \<Longrightarrow> keys_ok (filter P owner)"
  by (simp add: keys_ok_def sorted_filter distinct_map_filter)

lemma map_fst_insort: "map fst (insort_key fst x xs) = insort (fst x) (map fst xs)"
  by (induction xs) simp_all

lemma map_of_insort: "key \<notin> fst ` set xs \<Longrightarrow> map_of (insort_key fst (key, v) xs) k = (if k = key then Some v else map_of xs k)"
  by (induction xs) auto

lemma map_of_others: "map_of (filter (\<lambda>entry. fst entry \<noteq> key) xs) k = (if k = key then None else map_of xs k)"
  by (induction xs) auto

lemma map_of_set_entry [simp]: "map_of (set_entry key v owner) k = (if k = key then Some v else map_of owner k)"
  unfolding set_entry_def by (subst map_of_insort) (auto simp: map_of_others)

lemma keys_ok_set_entry:
  assumes "keys_ok owner"
  shows "keys_ok (set_entry key state owner)"
  using keys_ok_filter [OF assms, of "\<lambda>entry. fst entry \<noteq> key"]
  unfolding keys_ok_def set_entry_def map_fst_insort by (auto simp: sorted_insort distinct_insort)

lemma set_entry_set: "set (set_entry key v owner) \<subseteq> insert (key, v) (set owner)"
  by (auto simp: set_entry_def set_insort_key)

lemma keys_ok_entry: "keys_ok owner \<Longrightarrow> (k, v) \<in> set owner \<longleftrightarrow> map_of owner k = Some v"
  by (simp add: keys_ok_def)

section \<open>Pruning keeps what is in use\<close>

lemma oldest_idle_idle:
  assumes "oldest_idle owner oldest = Some entry" "\<forall>e. oldest = Some e \<longrightarrow> in_flight (snd e) = 0"
  shows "in_flight (snd entry) = 0"
  using assms
proof (induction owner arbitrary: oldest)
  case (Cons a owner)
  show ?case by (rule Cons.IH [OF Cons.prems(1) [unfolded oldest_idle.simps]]) (use Cons.prems(2) in auto)
qed simp

lemma oldest_idle_Some: "oldest_idle owner (Some e) \<noteq> None"
  by (induction owner arbitrary: e) (simp_all split: if_split)

lemma oldest_idle_None:
  assumes "oldest_idle owner None = None" "entry \<in> set owner"
  shows "in_flight (snd entry) \<noteq> 0"
  using assms
proof (induction owner)
  case (Cons a owner)
  then have "in_flight (snd a) \<noteq> 0" using oldest_idle_Some [of owner a] by (auto split: if_splits)
  then show ?case using Cons by auto
qed simp

lemma evict_idle_induct:
  assumes stop: "\<And>owner. length owner \<le> kPaneCap \<or> oldest_idle owner None = None \<Longrightarrow> P owner owner"
    and go: "\<And>owner entry. oldest_idle owner None = Some entry \<Longrightarrow>
      P (filter (\<lambda>other. fst other \<noteq> fst entry) owner) (evict_idle (filter (\<lambda>other. fst other \<noteq> fst entry) owner)) \<Longrightarrow>
      P owner (evict_idle (filter (\<lambda>other. fst other \<noteq> fst entry) owner))"
  shows "P owner (evict_idle owner)"
proof (induction owner rule: evict_idle.induct)
  case (1 owner)
  show ?case
  proof (cases "length owner \<le> kPaneCap \<or> oldest_idle owner None = None")
    case True
    then have "evict_idle owner = owner" by (subst evict_idle.simps) auto
    then show ?thesis using stop [OF True] by simp
  next
    case False
    then obtain entry where e: "oldest_idle owner None = Some entry" by blast
    then have "evict_idle owner = evict_idle (filter (\<lambda>other. fst other \<noteq> fst entry) owner)"
      using False by (subst evict_idle.simps) simp
    then show ?thesis using go [OF e] 1 [OF _ e] False by simp
  qed
qed

lemma evict_idle_subset: "set (evict_idle owner) \<subseteq> set owner"
  by (rule evict_idle_induct [where P = "\<lambda>owner r. set r \<subseteq> set owner"]) auto

lemma evict_idle_keys: "keys_ok owner \<Longrightarrow> keys_ok (evict_idle owner)"
  by (rule evict_idle_induct [where P = "\<lambda>owner r. keys_ok owner \<longrightarrow> keys_ok r", THEN mp]) (auto intro: keys_ok_filter)

lemma evict_idle_keeps:
  assumes "keys_ok owner" "(k, v) \<in> set owner" "in_flight v \<noteq> 0"
  shows "(k, v) \<in> set (evict_idle owner)"
proof -
  have "keys_ok owner \<and> (k, v) \<in> set owner \<longrightarrow> (k, v) \<in> set (evict_idle owner)"
  proof (rule evict_idle_induct [where P = "\<lambda>owner r. keys_ok owner \<and> (k, v) \<in> set owner \<longrightarrow> (k, v) \<in> set r"])
    fix owner entry
    assume e: "oldest_idle owner None = Some entry"
      and IH: "keys_ok (filter (\<lambda>other. fst other \<noteq> fst entry) owner) \<and> (k, v) \<in> set (filter (\<lambda>other. fst other \<noteq> fst entry) owner) \<longrightarrow>
        (k, v) \<in> set (evict_idle (filter (\<lambda>other. fst other \<noteq> fst entry) owner))"
    show "keys_ok owner \<and> (k, v) \<in> set owner \<longrightarrow> (k, v) \<in> set (evict_idle (filter (\<lambda>other. fst other \<noteq> fst entry) owner))"
    proof
      assume ok: "keys_ok owner \<and> (k, v) \<in> set owner"
      obtain k' v' where kv: "entry = (k', v')" by (cases entry)
      have "(k', v') \<in> set owner" "in_flight v' = 0" using oldest_idle_in [OF e] oldest_idle_idle [OF e] kv by auto
      then have "k' \<noteq> k" using ok keys_ok_entry assms(3) by fastforce
      then show "(k, v) \<in> set (evict_idle (filter (\<lambda>other. fst other \<noteq> fst entry) owner))"
        using IH ok kv keys_ok_filter by simp
    qed
  qed simp
  then show ?thesis using assms by simp
qed

lemma evict_idle_bound: "length (evict_idle owner) \<le> kPaneCap \<or> (\<forall>entry \<in> set (evict_idle owner). in_flight (snd entry) \<noteq> 0)"
  by (rule evict_idle_induct [where P = "\<lambda>_ r. length r \<le> kPaneCap \<or> (\<forall>entry \<in> set r. in_flight (snd entry) \<noteq> 0)"])
    (use oldest_idle_None in blast)+

lemma prune_keys: "keys_ok owner \<Longrightarrow> keys_ok (prune_locked now owner)"
  by (simp add: prune_locked_def evict_idle_keys keys_ok_filter)

lemma prune_subset: "set (prune_locked now owner) \<subseteq> set owner"
  unfolding prune_locked_def using evict_idle_subset by fastforce

lemma prune_keeps:
  assumes "keys_ok owner" "map_of owner k = Some v" "in_flight v \<noteq> 0"
  shows "map_of (prune_locked now owner) k = Some v"
proof -
  have "(k, v) \<in> set (prune_locked now owner)"
    unfolding prune_locked_def using assms keys_ok_entry [OF assms(1)]
    by (intro evict_idle_keeps keys_ok_filter) auto
  then show ?thesis using keys_ok_entry [OF prune_keys [OF assms(1)]] by blast
qed

lemma prune_bound:
  "length (prune_locked now owner) \<le> kPaneCap \<or> (\<forall>entry \<in> set (prune_locked now owner). in_flight (snd entry) \<noteq> 0)"
  unfolding prune_locked_def by (rule evict_idle_bound)

section \<open>The invariant\<close>

definition state_ok :: "Key \<Rightarrow> PaneEchoState \<Rightarrow> bool" where
  "state_ok key state \<longleftrightarrow>
     echo_key (echo_identity state) (key_pane key) = key \<and> length (pending_text state) \<le> kTextCap \<and>
     length (recent state) \<le> kRecentCap \<and> (\<forall>r \<in> set (recent state). echo_text r \<noteq> [] \<and> length (echo_text r) \<le> kTextCap)"

lemma append_text_ok: "state_ok k st \<Longrightarrow> state_ok k (append_text s st)"
  by (auto simp: state_ok_def append_text_def)

lemma prune_recent_ok: "state_ok k st \<Longrightarrow> state_ok k (prune_recent_locked now st)"
  by (auto simp: state_ok_def prune_recent_locked_def dest: set_dropWhileD intro: le_trans [OF length_dropWhile_le])

lemma push_recent_ok:
  assumes "state_ok k st" "length s \<le> kTextCap"
  shows "state_ok k (push_recent_locked s now st)"
  using prune_recent_ok [OF assms(1), of now] assms
  by (auto simp: push_recent_locked_def Let_def state_ok_def dest!: in_set_dropD)

lemma end_line_ok: "state_ok k st \<Longrightarrow> state_ok k (end_line_locked now st)"
  using push_recent_ok [of k st "pending_text st" now] by (auto simp: end_line_locked_def state_ok_def)

lemma drop_last_length: "length (drop_last_code_point s) \<le> length s"
  by (simp add: drop_last_code_point_def)

lemma apply_effect_ok: "state_ok k st \<Longrightarrow> state_ok k (apply_effect_locked effect now st)"
proof (cases effect)
  case ek_erase
  assume st: "state_ok k st"
  define u where "u = (if \<not> pending_captured st then (push_recent_locked (pending_text st) now st)\<lparr>pending_captured := True\<rparr> else st)"
  have "state_ok k u"
    using push_recent_ok [OF st, of "pending_text st" now] st by (auto simp: u_def state_ok_def)
  then have "state_ok k (u\<lparr>pending_text := drop_last_code_point (pending_text u)\<rparr>)"
    using drop_last_length [of "pending_text u"] by (simp add: state_ok_def)
  then show ?thesis by (simp add: ek_erase Let_def u_def)
next
  case (ek_text s)
  assume "state_ok k st"
  then show ?thesis using append_text_ok [of k st s] by (simp add: ek_text state_ok_def)
next
  case ek_unknown
  assume "state_ok k st"
  then show ?thesis by (simp add: ek_unknown state_ok_def)
qed (auto simp: end_line_ok)

lemma write_lines_ok: "state_ok k st \<Longrightarrow> state_ok k (write_lines now s st)"
proof (induction now s st rule: write_lines.induct)
  case (1 now s st)
  obtain line rest where b: "break_line s = (line, rest)" by (cases "break_line s")
  show ?case
  proof (cases rest)
    case None
    then show ?thesis using b "1.prems" by (subst write_lines.simps) (simp add: append_text_ok)
  next
    case (Some r)
    then show ?thesis
      using b "1.IH" [OF b [symmetric] Some] "1.prems" by (subst write_lines.simps) (simp add: append_text_ok end_line_ok)
  qed
qed

text \<open>Any sequence of inputs, commits, roll-backs, looks and clean-ups, with the edits that are still open.\<close>

inductive echo_reachable :: "Ledger \<Rightarrow> PaneEchoEdit list \<Rightarrow> bool" where
  empty: "echo_reachable [] []"
| key: "echo_reachable owner edits \<Longrightarrow> note_key_dispatch now owner identity pane key enter = (owner', edit) \<Longrightarrow>
    echo_reachable owner' (edits @ [edit])"
| literal: "echo_reachable owner edits \<Longrightarrow> note_literal_write now owner identity pane s enter = (owner', edit) \<Longrightarrow>
    echo_reachable owner' (edits @ [edit])"
| commit: "echo_reachable owner edits \<Longrightarrow> i < length edits \<Longrightarrow> commit_edit now (owner, edits ! i) = (owner', edit) \<Longrightarrow>
    echo_reachable owner' (edits[i := edit])"
| destroy: "echo_reachable owner edits \<Longrightarrow> edit \<in> set edits \<Longrightarrow> echo_reachable (destroy_edit owner edit) (remove1 edit edits)"
| look: "echo_reachable owner edits \<Longrightarrow> live_echo owner identity pane time = (owner', echo) \<Longrightarrow> echo_reachable owner' edits"
| clean: "echo_reachable owner edits \<Longrightarrow> echo_reachable (prune_dead_panes owner identity alive) edits"

definition ledger_ok :: "Ledger \<Rightarrow> bool" where
  "ledger_ok owner \<longleftrightarrow> keys_ok owner \<and> (\<forall>(k, st) \<in> set owner. state_ok k st)"

lemma ledger_ok_entry: "ledger_ok owner \<Longrightarrow> map_of owner k = Some st \<Longrightarrow> state_ok k st"
  by (auto simp: ledger_ok_def dest: map_of_SomeD)

lemma ledger_ok_set: "ledger_ok owner \<Longrightarrow> state_ok k st \<Longrightarrow> ledger_ok (set_entry k st owner)"
  using set_entry_set [of k st owner] by (auto simp: ledger_ok_def keys_ok_set_entry)

lemma ledger_ok_prune: "ledger_ok owner \<Longrightarrow> ledger_ok (prune_locked now owner)"
  using prune_subset [of now owner] by (auto simp: ledger_ok_def prune_keys)

lemma ledger_ok_filter: "ledger_ok owner \<Longrightarrow> ledger_ok (filter P owner)"
  by (auto simp: ledger_ok_def keys_ok_filter)

lemma state_for_ok:
  assumes "ledger_ok owner"
  shows "state_ok (echo_key identity pane) (state_for_locked owner pane identity)"
proof -
  have "state_ok (echo_key identity pane) (new_state identity)" by (simp add: state_ok_def new_state_def echo_key_def)
  then show ?thesis using ledger_ok_entry [OF assms] by (auto simp: state_for_locked_def split: option.split)
qed

lemma note_edit_ok:
  assumes "ledger_ok owner" "\<And>k st. state_ok k st \<Longrightarrow> state_ok k (change st)" "note_edit change now owner identity pane = (owner', edit)"
  shows "ledger_ok owner' \<and> state_ok (edit_key edit) (previous edit)"
proof -
  let ?k = "echo_key identity pane" and ?st = "state_for_locked (prune_locked now owner) pane identity"
  have st: "state_ok ?k ?st" by (rule state_for_ok [OF ledger_ok_prune [OF assms(1)]])
  then have "state_ok ?k (?st\<lparr>in_flight := in_flight ?st + 1, touched := now\<rparr>)" by (simp add: state_ok_def)
  then have "state_ok ?k (change (?st\<lparr>in_flight := in_flight ?st + 1, touched := now\<rparr>))" by (rule assms(2))
  then show ?thesis using assms(3) st ledger_ok_set [OF ledger_ok_prune [OF assms(1)]] by (auto simp: note_edit_def Let_def)
qed

lemma echo_reachable_ok: "echo_reachable owner edits \<Longrightarrow> ledger_ok owner \<and> (\<forall>edit \<in> set edits. state_ok (edit_key edit) (previous edit))"
proof (induction rule: echo_reachable.induct)
  case empty
  show ?case by (simp add: ledger_ok_def keys_ok_def)
next
  case (key owner edits now identity pane key enter owner' edit)
  have "ledger_ok owner' \<and> state_ok (edit_key edit) (previous edit)"
    using key.hyps(2) unfolding note_key_dispatch_def
    by (rule note_edit_ok [rotated 2]) (use key.IH in \<open>auto simp: Let_def apply_effect_ok end_line_ok\<close>)
  then show ?case using key.IH by auto
next
  case (literal owner edits now identity pane s enter owner' edit)
  have change: "state_ok k (write_lines now t (st\<lparr>pending_captured := False\<rparr>))" if "state_ok k st" for k st t
    by (rule write_lines_ok) (use that in \<open>simp add: state_ok_def\<close>)
  have "ledger_ok owner' \<and> state_ok (edit_key edit) (previous edit)"
    using literal.hyps(2) unfolding note_literal_write_def
    by (rule note_edit_ok [rotated 2]) (use literal.IH change in auto)
  then show ?case using literal.IH by auto
next
  case (commit owner edits i now owner' edit)
  have "ledger_ok owner'"
  proof -
    let ?e = "edits ! i"
    have "state_ok k (st\<lparr>in_flight := n\<rparr>)" if "map_of owner k = Some st" for k st n
      using ledger_ok_entry [of owner k st] commit.IH that by (simp add: state_ok_def)
    then show ?thesis
      using commit.hyps(3) commit.IH by (auto simp: commit_edit_def ledger_ok_prune ledger_ok_set split: if_splits option.splits)
  qed
  moreover have "edit_key edit = edit_key (edits ! i)" "previous edit = previous (edits ! i)"
    using commit.hyps(3) by (auto simp: commit_edit_def split: if_splits)
  ultimately show ?case
    using commit.IH commit.hyps(2) set_update_subset_insert [of edits i edit] nth_mem by fastforce
next
  case (destroy owner edits edit)
  then show ?case
    by (auto simp: destroy_edit_def ledger_ok_set split: option.split dest: notin_set_remove1)
next
  case (look owner edits identity pane time owner' echo)
  have "ledger_ok owner'"
    using look.hyps(2) look.IH ledger_ok_entry [of "prune_locked time owner"] ledger_ok_prune [of owner time]
    by (auto simp: live_echo_def Let_def ledger_ok_set prune_recent_ok split: option.splits if_splits)
  then show ?case using look.IH by simp
next
  case (clean owner edits identity alive)
  then show ?case by (simp add: prune_dead_panes_def ledger_ok_filter)
qed


section \<open>The properties\<close>


text \<open>Input that was noted and never delivered leaves no trace: rolling the edit back gives every pane the entry it had
  after the clean-up, and a pane without one an empty entry.\<close>

theorem rollback_restores:
  assumes "note_key_dispatch now owner identity pane key enter = (owner', edit) \<or>
    note_literal_write now owner identity pane s enter = (owner', edit)"
  shows "map_of (destroy_edit owner' edit) =
    (map_of (prune_locked now owner))(echo_key identity pane \<mapsto> state_for_locked (prune_locked now owner) pane identity)"
proof -
  have "map_of (destroy_edit owner' edit) =
      (map_of (prune_locked now owner))(echo_key identity pane \<mapsto> state_for_locked (prune_locked now owner) pane identity)"
    if "note_edit change now owner identity pane = (owner', edit)" for change
    using that by (auto simp: note_edit_def Let_def destroy_edit_def fun_eq_iff)
  then show ?thesis using assms unfolding note_key_dispatch_def note_literal_write_def by blast
qed

lemma cut_position_tail:
  assumes "\<forall>i. n < i \<and> i \<le> n + m \<longrightarrow> byte (s ! i) div 64 = 2" "n = 0 \<or> byte (s ! n) div 64 \<noteq> 2"
  shows "cut_position s (n + m) = n"
  using assms
proof (induction m)
  case 0
  then show ?case by (cases n) auto
next
  case (Suc m)
  then have "byte (s ! Suc (n + m)) div 64 = 2" by simp
  then show ?case using Suc by simp
qed

lemma utf8_shape:
  assumes "scalar cp"
  shows "\<exists>b bs. utf8_of cp = b # bs \<and> b < 256 \<and> b div 64 \<noteq> 2 \<and> (\<forall>c \<in> set bs. c < 256 \<and> c div 64 = 2)"
proof -
  have "cp div 262144 \<le> 4" "cp < 0x800 \<Longrightarrow> cp div 64 < 32" "cp < 0x10000 \<Longrightarrow> cp div 4096 < 16"
    using assms by (auto simp: scalar_def)
  then show ?thesis by (auto simp: utf8_of_def div_add_self1)
qed

lemma byte_char_of: "b < 256 \<Longrightarrow> byte (char_of b) = b"
  by (simp add: byte_def)

text \<open>The backspace takes one code point off the line, whatever its length in bytes.\<close>

theorem backspace_code_point:
  assumes "scalar cp"
  shows "drop_last_code_point (s @ map char_of (utf8_of cp)) = s"
proof -
  obtain b bs where u: "utf8_of cp = b # bs" "b < 256" "b div 64 \<noteq> 2" "\<forall>c \<in> set bs. c < 256 \<and> c div 64 = 2"
    using utf8_shape [OF assms] by blast
  let ?t = "s @ map char_of (b # bs)"
  have tail: "\<forall>i. length s < i \<and> i \<le> length s + length bs \<longrightarrow> byte (?t ! i) div 64 = 2"
  proof (intro allI impI)
    fix i assume i: "length s < i \<and> i \<le> length s + length bs"
    then obtain j where "i = length s + Suc j" "j < length bs" by (metis Suc_le_eq add_Suc_right less_imp_Suc_add nat_add_left_cancel_le)
    then show "byte (?t ! i) div 64 = 2" using u(4) by (simp add: nth_append byte_char_of)
  qed
  have "cut_position ?t (length s + length bs) = length s"
    by (rule cut_position_tail [OF tail]) (use u(2,3) in \<open>simp add: byte_char_of\<close>)
  then show ?thesis by (simp add: drop_last_code_point_def u(1))
qed

lemma break_line_plain: "CHR 0x0D \<notin> set s \<Longrightarrow> CHR 0x0A \<notin> set s \<Longrightarrow> break_line (s @ [CHR 0x0A]) = (s, Some [])"
  by (induction s) auto

lemma write_line:
  assumes "CHR 0x0D \<notin> set s" "CHR 0x0A \<notin> set s"
  shows "write_lines now (s @ [CHR 0x0A]) st = append_text [] (end_line_locked now (append_text s st))"
  by (subst write_lines.simps, subst write_lines.simps) (simp add: break_line_plain [OF assms])

lemma push_recent_last:
  assumes "s \<noteq> []"
  shows "\<lparr>echo_at = now, echo_text = s\<rparr> \<in> set (recent (push_recent_locked s now st))"
proof -
  let ?lines = "recent (prune_recent_locked now st) @ [\<lparr>echo_at = now, echo_text = s\<rparr>]"
  have "length ?lines - kRecentCap \<le> length (recent (prune_recent_locked now st))" by (simp add: kRecentCap_def)
  then show ?thesis using assms by (simp add: push_recent_locked_def Let_def)
qed

lemma line_keeps [simp]:
  "in_flight (append_text s st) = in_flight st" "echo_identity (append_text s st) = echo_identity st"
  "recent (append_text s st) = recent st"
  "in_flight (prune_recent_locked now st) = in_flight st" "echo_identity (prune_recent_locked now st) = echo_identity st"
  "in_flight (push_recent_locked s now st) = in_flight st" "echo_identity (push_recent_locked s now st) = echo_identity st"
  "in_flight (end_line_locked now st) = in_flight st" "echo_identity (end_line_locked now st) = echo_identity st"
  by (simp_all add: append_text_def prune_recent_locked_def push_recent_locked_def end_line_locked_def Let_def)

lemma state_for_identity [simp]: "echo_identity (state_for_locked owner pane identity) = identity"
  by (auto simp: state_for_locked_def new_state_def split: option.split)

lemma dropWhile_keeps: "x \<in> set xs \<Longrightarrow> \<not> P x \<Longrightarrow> x \<in> set (dropWhile P xs)"
  by (induction xs) auto

lemma set_fold_insort: "set (fold insort_insert xs seen) = set xs \<union> set seen"
  by (induction xs arbitrary: seen) (auto simp: set_insort_insert)

text \<open>A line that is typed and entered is among the echoes a wait discounts when it looks within ten seconds, and what
  the wait has discounted before stays among them.\<close>

theorem noted_line_discounted:
  assumes "echo_reachable owner edits"
    and noted: "note_literal_write now owner identity pane s True = (owner', edit)"
    and line: "CHR 0x0D \<notin> set s" "CHR 0x0A \<notin> set s" "s \<noteq> []"
    and fits: "\<not> over_limit (state_for_locked (prune_locked now owner) pane identity)"
      "length (pending_text (state_for_locked (prune_locked now owner) pane identity)) + length s \<le> kTextCap"
    and soon: "time - now \<le> kRecentTtl"
    and look: "discounted owner' (Some identity) seen pane time = (owner'', seen', busy, sent)"
  shows "pending_text (state_for_locked (prune_locked now owner) pane identity) @ s \<in> set seen' \<and>
    set seen \<subseteq> set seen' \<and> set seen' \<subseteq> set sent \<and> busy"
proof -
  let ?st = "state_for_locked (prune_locked now owner) pane identity" and ?k = "echo_key identity pane"
  let ?line = "pending_text ?st @ s"
  define st where "st = append_text [] (end_line_locked now (append_text s
    (?st\<lparr>in_flight := in_flight ?st + 1, touched := now, pending_captured := False\<rparr>)))"
  have owner': "owner' = set_entry ?k st (prune_locked now owner)"
    using noted write_line [OF line(1,2)] by (auto simp: note_literal_write_def note_edit_def Let_def st_def)
  have st: "in_flight st \<noteq> 0" "echo_identity st = identity" by (simp_all add: st_def)
  have "\<lparr>echo_at = now, echo_text = ?line\<rparr> \<in> set (recent st)"
    using push_recent_last [of ?line now "append_text s (?st\<lparr>in_flight := in_flight ?st + 1, touched := now, pending_captured := False\<rparr>)"]
      line(3) fits by (auto simp: st_def end_line_locked_def append_text_def)
  then have "\<lparr>echo_at = now, echo_text = ?line\<rparr> \<in> set (dropWhile (\<lambda>r. kRecentTtl < time - echo_at r) (recent st))"
    using soon by (intro dropWhile_keeps) auto
  then have "?line \<in> echo_text ` set (recent (prune_recent_locked time st))" by (force simp: prune_recent_locked_def)
  moreover have "keys_ok owner'"
    using echo_reachable_ok [OF echo_reachable.literal [OF assms(1) noted]] by (simp add: ledger_ok_def)
  then have "map_of (prune_locked time owner') ?k = Some st"
    using prune_keeps [of owner' ?k st time] st(1) by (simp add: owner')
  ultimately show ?thesis
    using look st by (auto simp: discounted_def live_echo_def Let_def set_fold_insort split: if_splits)
qed


section \<open>Witnesses\<close>

abbreviation here :: PaneServerIdentity where
  "here \<equiv> (''/s'', 7, 9)"

abbreviation noted_ls :: "Ledger \<times> PaneEchoEdit" where
  "noted_ls \<equiv> note_literal_write 5 [] here ''%1'' ''ls'' True"

lemma noted_ls_reachable: "echo_reachable (fst noted_ls) [snd noted_ls]"
  using echo_reachable.literal [OF echo_reachable.empty, of 5 here "''%1''" "''ls''" True "fst noted_ls" "snd noted_ls"] by simp

lemma empty_pruned: "prune_locked now [] = []"
  by (simp add: prune_locked_def evict_idle.simps)

lemma empty_state: "state_for_locked (prune_locked now []) pane identity = new_state identity"
  by (simp add: empty_pruned state_for_locked_def)


theorem rollback_restores_witness:
  "map_of (destroy_edit (fst noted_ls) (snd noted_ls)) = [echo_key here ''%1'' \<mapsto> new_state here]"
  using rollback_restores [of 5 "[]" here "''%1''" "''C-m''" True "fst noted_ls" "snd noted_ls" "''ls''"]
  by (simp add: empty_pruned empty_state [of 5, unfolded empty_pruned])

theorem backspace_code_point_witness:
  "drop_last_code_point (''caf'' @ map char_of (utf8_of 233)) = ''caf''"
  by (rule backspace_code_point) (simp add: scalar_def)

theorem noted_line_discounted_witness:
  "\<exists>owner'' seen' busy sent. discounted (fst noted_ls) (Some here) [''make''] ''%1'' 6 = (owner'', seen', busy, sent) \<and>
     ''ls'' \<in> set sent \<and> ''make'' \<in> set sent"
proof -
  obtain owner'' seen' busy sent where
    d: "discounted (fst noted_ls) (Some here) [''make''] ''%1'' 6 = (owner'', seen', busy, sent)" by (metis prod.exhaust)
  show ?thesis
    using noted_line_discounted [OF echo_reachable.empty _ _ _ _ _ _ _ d, of 5 "''ls''" "snd noted_ls"] d
    by (auto simp: empty_state new_state_def kTextCap_def kRecentTtl_def)
qed

end
