(* ===== verification/Control_Requests.thy ===== *)
theory Control_Requests
  imports Literal_Commands Control_Protocol Version_Gate
begin

text \<open>The text of a control connection (\<open>src/src/connection.cpp\<close>): how a request is written as one line with a private
  boundary behind it, how a reply block is recognised as that boundary, the checks of \<open>connect\<close> and of \<open>execute\<close> before
  anything is written, the requests \<open>connect\<close> and \<open>set_pane_output\<close> make and how they read the answers, and the range over
  notifications. The processes of the version check are the \<open>Platform\<close> of \<open>Version_Gate\<close>; the entropy of a boundary seed
  and what \<open>execute\<close> answers are parameters. A connection that was moved from (no state) is not modelled.\<close>


section \<open>Private boundaries\<close>

type_synonym BoundarySeed = "8 word list"

definition kMinimumBoundaryBytes :: nat where "kMinimumBoundaryBytes = 128"

definition hex_digit :: "nat \<Rightarrow> char" where "hex_digit n = ''0123456789abcdef'' ! n"

fun append_hex64_loop :: "string \<Rightarrow> 64 word \<Rightarrow> nat \<Rightarrow> string" where
  "append_hex64_loop out v 0 = out"
| "append_hex64_loop out v (Suc n) = append_hex64_loop (out @ [hex_digit (unat (and (drop_bit (n * 4) v) 0xF))]) v n"

definition append_hex64 :: "string \<Rightarrow> 64 word \<Rightarrow> string" where
  "append_hex64 out v = append_hex64_loop out v 16"

definition seed_text :: "BoundarySeed \<Rightarrow> string" where
  "seed_text seed = concat (map (\<lambda>b. [hex_digit (unat (drop_bit 4 b)), hex_digit (unat (and b 0xF))]) seed)"

definition boundary_name :: "BoundarySeed \<Rightarrow> 64 word \<Rightarrow> string" where
  "boundary_name seed n = append_hex64 (''__libtmux_request_'' @ seed_text seed @ ''_'') n"

definition boundary_reply :: "string \<Rightarrow> string" where
  "boundary_reply name = ''parse error: unknown command: '' @ name @ [CHR 0x0A]"

definition is_boundary :: "ControlBlock \<Rightarrow> string \<Rightarrow> bool" where
  "is_boundary b expected \<longleftrightarrow>
     \<not> (terminal b \<noteq> terminal_error \<or> body_truncated b \<or> length (body b) \<noteq> length expected) \<and>
     list_all (\<lambda>i. body b ! i = expected ! i) [0..<length expected]"

section \<open>Requests on the wire\<close>

definition not_started_error :: "string \<Rightarrow> ProtocolError" where
  "not_started_error m = \<lparr>error_message = m, error_delivery = not_started\<rparr>"

type_synonym ControlCommand = "string list"
type_synonym ControlRequest = "ControlCommand list"

definition encode_byte :: "char \<Rightarrow> string" where
  "encode_byte c = [CHR 0x5C, char_of (48 + byte c div 64 mod 8), char_of (48 + byte c div 8 mod 8), char_of (48 + byte c mod 8)]"

definition encode_token :: "string \<Rightarrow> string" where
  "encode_token s = (if s = [] then [CHR 0x27, CHR 0x27] else concat (map encode_byte s))"

fun render_arguments :: "string \<Rightarrow> bool \<Rightarrow> string list \<Rightarrow> (ProtocolError, string) expected" where
  "render_arguments line first [] = Inr line"
| "render_arguments line first (a # as) =
     (if contains_nul a then Inl (not_started_error ''control request argument contains NUL'')
      else render_arguments ((if first then line else line @ '' '') @ encode_token a) False as)"

fun render_operations :: "string \<Rightarrow> bool \<Rightarrow> ControlCommand list \<Rightarrow> (ProtocolError, string) expected" where
  "render_operations line first [] = Inr (line @ [CHR 0x0A])"
| "render_operations line first (op # ops) =
     (if op = [] then Inl (not_started_error ''control request operation has no command'')
      else case render_arguments (if first then line else line @ '' ; '') True op of
          Inl e \<Rightarrow> Inl e
        | Inr line \<Rightarrow> render_operations line False ops)"

definition render_request :: "ControlRequest \<Rightarrow> (ProtocolError, string) expected" where
  "render_request commands =
     (if commands = [] then Inl (not_started_error ''control request group is empty'') else render_operations [] True commands)"

section \<open>Reply blocks\<close>

definition last_space :: "string \<Rightarrow> nat option" where
  "last_space s = (case str_find CHR '' '' (rev s) of None \<Rightarrow> None | Some i \<Rightarrow> Some (length s - 1 - i))"

definition block_flags :: "ControlBlock \<Rightarrow> 64 word option" where
  "block_flags b =
     (case last_space (begin_metadata b) of
        None \<Rightarrow> None
      | Some i \<Rightarrow> if i + 1 = length (begin_metadata b) then None else decimal (drop (i + 1) (begin_metadata b)))"

section \<open>Connecting\<close>

record ConnectionOptions =
  tmux_binary :: "string option"
  socket_path :: string
  session_name :: string
  startup_timeout :: int
  shutdown_timeout :: int
  reply_bound :: nat
  line_bound :: nat
  pane_output :: bool
  pause_after :: "int option"

definition check_options :: "ConnectionOptions \<Rightarrow> (ProtocolError, ConnectionOptions) expected" where
  "check_options options =
     (if tmux_binary options = Some [] then Inl (not_started_error ''tmux binary path is empty'')
      else let options = (if tmux_binary options = None then options\<lparr>tmux_binary := Some ''tmux''\<rparr> else options) in
       if socket_path options = [] then Inl (not_started_error ''tmux socket path is empty'')
       else if session_name options = [] then Inl (not_started_error ''tmux session name is empty'')
       else if contains_nul (the (tmux_binary options)) \<or> contains_nul (socket_path options)
            \<or> contains_nul (session_name options)
       then Inl (not_started_error ''connection option contains NUL'')
       else if startup_timeout options \<le> 0 \<or> shutdown_timeout options \<le> 0
       then Inl (not_started_error ''connection timeouts must be positive'')
       else if reply_bound options \<noteq> 0 \<and> reply_bound options < kMinimumBoundaryBytes
            \<or> line_bound options \<noteq> 0 \<and> line_bound options < kMinimumBoundaryBytes
       then Inl (not_started_error (''connection reply and line bounds must be zero or at least ''
              @ dec_string kMinimumBoundaryBytes @ '' bytes so private request boundaries remain readable''))
       else Inr options)"

definition client_flags :: "ConnectionOptions \<Rightarrow> string" where
  "client_flags options =
     (if \<not> pane_output options then ''no-output''
      else case pause_after options of None \<Rightarrow> [] | Some n \<Rightarrow> ''pause-after='' @ int_text n)"

definition client_arguments :: "ConnectionOptions \<Rightarrow> string list" where
  "client_arguments options =
     [case tmux_binary options of None \<Rightarrow> ''tmux'' | Some b \<Rightarrow> b, ''-N'', ''-u'', ''-S'', socket_path options, ''-C'',
      ''attach-session''] @ (if client_flags options = [] then [] else [''-f'', client_flags options]) @
     [''-t'', ''='' @ session_name options]"

definition sanitized_environment :: "string list \<Rightarrow> string list" where
  "sanitized_environment entries =
     filter (\<lambda>e. \<not> (starts_with e ''TMUX='' \<or> starts_with e ''TMUX_PANE='')) entries"

text \<open>Everything \<open>connect\<close> does before a client is spawned: the options it goes on with, the daemon's version and the
  marker of the fence; with the processes run so far.\<close>

definition connect_gate :: "Platform \<Rightarrow> ConnectionOptions \<Rightarrow> ProcessRequest list \<Rightarrow>
    ProcessRequest list \<times> (ProtocolError, ConnectionOptions \<times> EndpointVersion \<times> string) expected" where
  "connect_gate os options launched =
     (case check_options options of
        Inl e \<Rightarrow> (launched, Inl e)
      | Inr options \<Rightarrow>
         (case query_endpoint os (the (tmux_binary options)) [''-S'', socket_path options]
                 (Some (startup_timeout options)) launched of
            (launched, Inl f) \<Rightarrow> (launched, Inl (not_started_error (diagnostic f)))
          | (launched, Inr endpoint) \<Rightarrow>
             (case require_supported endpoint kMinimumSupported of
                Inl f \<Rightarrow> (launched, Inl (not_started_error (diagnostic f)))
              | Inr _ \<Rightarrow>
                 let since = cap_since (capability control_mode) in
                 if live endpoint \<and> version_less (version endpoint) (rel_version since)
                 then (launched, Inl (not_started_error (''library-managed control mode needs tmux '' @ rel_text since
                        @ '' or newer; the daemon reports '' @ token endpoint)))
                 else (launched, Inr (options, endpoint, version_marker (entropy os launched))))))"

record ControlRequestResult =
  blocks :: "ControlBlock list"
  connection_error :: "ProtocolError option"

definition answer_refused :: "ControlRequestResult \<Rightarrow> bool" where
  "answer_refused r \<longleftrightarrow> blocks r \<noteq> [] \<and> terminal (hd (blocks r)) = terminal_error"

definition fence_request :: "EndpointVersion \<Rightarrow> string \<Rightarrow> ControlRequest" where
  "fence_request endpoint fence_marker =
     [[''if-shell'', ''-F'', ''#{==:#{version},'' @ token endpoint @ ''}'', [], fence_marker]]"

definition layout_request :: ControlRequest where
  "layout_request = [[''refresh-client'', ''-f'', ''new-layouts'']]"

definition refused_or :: "string \<Rightarrow> ControlRequestResult \<Rightarrow> ProtocolError option" where
  "refused_or m r =
     (if connection_error r \<noteq> None \<or> answer_refused r
      then Some (case connection_error r of Some e \<Rightarrow> e | None \<Rightarrow> \<lparr>error_message = m, error_delivery = replied\<rparr>)
      else None)"

text \<open>What \<open>connect\<close> does once the client is ready; \<open>run\<close> is what \<open>execute\<close> answers, given the requests before.
  The result is the requests executed and the failure, if there is one.\<close>

definition connect_ready :: "(ControlRequest list \<Rightarrow> ControlRequest \<Rightarrow> ControlRequestResult) \<Rightarrow> EndpointVersion \<Rightarrow> string \<Rightarrow>
    ControlRequest list \<times> ProtocolError option" where
  "connect_ready run endpoint fence_marker =
     (let fence = fence_request endpoint fence_marker;
          sent = (if live endpoint then [fence] else []) in
      case (if live endpoint then refused_or (diagnostic replaced_daemon) (run [] fence) else None) of
        Some e \<Rightarrow> (sent, Some e)
      | None \<Rightarrow> (sent @ [layout_request],
          refused_or ''tmux refused to request JSON layouts on connect'' (run sent layout_request)))"

section \<open>Before a request is written\<close>

definition escaped_trailing :: "string \<Rightarrow> string" where
  "escaped_trailing a = (if a \<noteq> [] \<and> last a = CHR '';'' then butlast a @ [CHR 0x5C, CHR '';''] else a)"

fun refuse_group :: "ControlCommand list \<Rightarrow> Version \<Rightarrow> ProtocolError option" where
  "refuse_group [] daemon = None"
| "refuse_group (c # cs) daemon =
     (case refuse_literal (map escaped_trailing c) daemon True of
        Some f \<Rightarrow> Some (not_started_error (diagnostic f))
      | None \<Rightarrow> refuse_group cs daemon)"

definition prepare_execute :: "ControlRequest \<Rightarrow> Version \<Rightarrow> bool \<Rightarrow> (ProtocolError, string) expected" where
  "prepare_execute commands daemon late =
     (case refuse_group commands daemon of
        Some e \<Rightarrow> Inl e
      | None \<Rightarrow>
         (case render_request commands of
            Inl e \<Rightarrow> Inl e
          | Inr line \<Rightarrow>
              if late then Inl (not_started_error ''control request deadline expired before dispatch'') else Inr line))"

section \<open>Pane output on a connection\<close>

definition pane_output_request :: "ConnectionOptions \<Rightarrow> string \<Rightarrow> bool \<Rightarrow> (ProtocolError, ControlRequest) expected" where
  "pane_output_request options pane deliver =
     (if \<not> pane_output options then Inl (not_started_error (''this connection did not ask for pane output, and tmux cannot add it ''
         @ ''to a client that started without it''))
      else if pane = [] then Inl (not_started_error ''no pane named'')
      else Inr [[''refresh-client'', ''-A'', pane @ (if deliver then '':on'' else '':off'')] @
                (if deliver then [''-A'', pane @ '':continue''] else [])])"

definition pane_output_answer :: "string \<Rightarrow> ControlRequestResult \<Rightarrow> (ProtocolError, unit) expected" where
  "pane_output_answer pane r =
     (case connection_error r of
        Some e \<Rightarrow> Inl e
      | None \<Rightarrow>
          if length (blocks r) \<noteq> 1 then Inl \<lparr>error_message = ''tmux returned '' @ dec_string (length (blocks r))
            @ '' reply blocks for one refresh'', error_delivery = written\<rparr>
          else if terminal (hd (blocks r)) = terminal_error
          then Inl \<lparr>error_message = ''tmux refused to change output for '' @ pane, error_delivery = replied\<rparr>
          else Inr ())"

definition set_pane_output :: "(ControlRequest \<Rightarrow> ControlRequestResult) \<Rightarrow> ConnectionOptions \<Rightarrow> string \<Rightarrow> bool \<Rightarrow>
    (ProtocolError, unit) expected" where
  "set_pane_output run options pane deliver =
     (case pane_output_request options pane deliver of
        Inl e \<Rightarrow> Inl e
      | Inr request \<Rightarrow> pane_output_answer pane (run request))"

section \<open>The range over notifications\<close>

text \<open>\<open>batch\<close> and \<open>index\<close> are the range's members; \<open>arrive\<close> gives what \<open>wait_for_notifications\<close> returns at each call in
  turn and \<open>late\<close> whether the deadline has passed before it.\<close>

record NotificationRange =
  batch :: "string list"
  index :: nat
  calls :: nat

function range_next :: "(nat \<Rightarrow> string list) \<Rightarrow> (nat \<Rightarrow> bool) \<Rightarrow> NotificationRange \<Rightarrow> NotificationRange \<times> string option" where
  "range_next arrive late r =
     (if index r < length (batch r) then (r\<lparr>index := index r + 1\<rparr>, Some (batch r ! index r))
      else if late (calls r) then (r, None)
      else let r = r\<lparr>batch := arrive (calls r), index := 0, calls := calls r + 1\<rparr> in
        if batch r = [] then (r, None) else range_next arrive late r)"
  by pat_completeness auto
termination by (relation "measure (\<lambda>(_, _, r). if index r < length (batch r) then 0 else 1)") auto

fun range_collect :: "nat \<Rightarrow> (nat \<Rightarrow> string list) \<Rightarrow> (nat \<Rightarrow> bool) \<Rightarrow> NotificationRange \<Rightarrow> ParsedNotification list" where
  "range_collect 0 arrive late r = []"
| "range_collect (Suc fuel) arrive late r =
     (case range_next arrive late r of
        (r, None) \<Rightarrow> []
      | (r, Some n) \<Rightarrow> parse_notification n # range_collect fuel arrive late r)"

section \<open>Boundaries are told apart\<close>

lemma hex_digit_inject: "i < 16 \<Longrightarrow> j < 16 \<Longrightarrow> hex_digit i = hex_digit j \<Longrightarrow> i = j"
proof -
  have "distinct ''0123456789abcdef''" "length ''0123456789abcdef'' = 16" by simp_all
  thus "i < 16 \<Longrightarrow> j < 16 \<Longrightarrow> hex_digit i = hex_digit j \<Longrightarrow> i = j"
    unfolding hex_digit_def by (metis nth_eq_iff_index_eq)
qed

lemma nibble_mask: "and w 0xF = take_bit 4 (w :: 64 word)"
  by (simp add: take_bit_eq_mask mask_eq_exp_minus_1)

lemma nibble_less: "unat (and w 0xF :: 64 word) < 16"
  using take_bit_nat_less_exp [of 4 "unat w"] by (simp add: nibble_mask unsigned_take_bit_eq)

lemma append_hex64_loop_text:
  "append_hex64_loop out v n = out @ map (\<lambda>k. hex_digit (unat (and (drop_bit (k * 4) v) 0xF))) (rev [0..<n])"
  by (induction out v n rule: append_hex64_loop.induct) simp_all

lemma append_hex64_text:
  "append_hex64 out v = out @ map (\<lambda>k. hex_digit (unat (and (drop_bit (k * 4) v) 0xF))) (rev [0..<16])"
  by (simp only: append_hex64_def append_hex64_loop_text)

lemma nibbles_determine:
  assumes "\<And>k. k < 16 \<Longrightarrow> and (drop_bit (k * 4) v) 0xF = and (drop_bit (k * 4) w) (0xF :: 64 word)"
  shows "v = w"
proof (rule bit_word_eqI)
  fix n assume "n < LENGTH(64)"
  hence n: "n div 4 < 16" "n = n div 4 * 4 + n mod 4" "n mod 4 < 4" by auto
  have "bit (and (drop_bit (n div 4 * 4) u) 0xF) (n mod 4) = bit u n" for u :: "64 word"
    using n(3) by (simp add: nibble_mask bit_take_bit_iff bit_drop_bit_eq)
  thus "bit v n = bit w n" using assms [OF n(1)] by metis
qed

lemma boundary_name_inject: "boundary_name seed i = boundary_name seed j \<longleftrightarrow> i = j"
proof
  assume "boundary_name seed i = boundary_name seed j"
  hence "\<forall>k < 16. hex_digit (unat (and (drop_bit (k * 4) i) 0xF)) = hex_digit (unat (and (drop_bit (k * 4) j) 0xF))"
    by (auto simp only: boundary_name_def append_hex64_text append_same_eq same_append_eq map_eq_conv set_rev set_upt)
      (simp add: atLeastLessThan_iff)
  hence "\<And>k. k < 16 \<Longrightarrow> and (drop_bit (k * 4) i) 0xF = and (drop_bit (k * 4) j) 0xF"
    using hex_digit_inject nibble_less by (metis word_unat_eq_iff)
  thus "i = j" by (rule nibbles_determine)
qed simp

lemma is_boundary_iff: "is_boundary b expected \<longleftrightarrow> terminal b = terminal_error \<and> \<not> body_truncated b \<and> body b = expected"
  by (auto simp: is_boundary_def list_all_iff intro: nth_equalityI)

lemma length_boundary_name: "length seed = 16 \<Longrightarrow> length (boundary_name seed n) = 67"
proof -
  assume "length seed = 16"
  hence "length (seed_text seed) = 32"
    by (simp add: seed_text_def length_concat comp_def sum_list_triv)
  thus ?thesis by (simp add: boundary_name_def append_hex64_text)
qed

section \<open>Requests are read back\<close>

text \<open>How the line is read: words between spaces, \<open>;\<close> between commands, every byte of a word as an octal escape and the
  empty word as a pair of quotes.\<close>

fun split_words :: "string \<Rightarrow> string \<Rightarrow> string list" where
  "split_words word [] = [word]"
| "split_words word (c # cs) = (if c = CHR '' '' then word # split_words [] cs else split_words (word @ [c]) cs)"

definition decode_token :: "string \<Rightarrow> string" where
  "decode_token t = (if t = [CHR 0x27, CHR 0x27] then [] else case octal_loop [] t of Inr s \<Rightarrow> s | Inl _ \<Rightarrow> [])"

fun read_commands :: "string list \<Rightarrow> string list \<Rightarrow> ControlRequest" where
  "read_commands words [] = [words]"
| "read_commands words (t # ts) =
     (if t = '';'' then words # read_commands [] ts else read_commands (words @ [decode_token t]) ts)"

definition read_request :: "string \<Rightarrow> ControlRequest" where
  "read_request line = read_commands [] (split_words [] line)"

definition spaced :: "string list \<Rightarrow> string" where
  "spaced ts = concat (map (\<lambda>t. CHR '' '' # t) ts)"

definition sendable :: "ControlRequest \<Rightarrow> bool" where
  "sendable commands \<longleftrightarrow> commands \<noteq> [] \<and> (\<forall>c \<in> set commands. c \<noteq> [] \<and> (\<forall>a \<in> set c. CHR 0x00 \<notin> set a))"

lemma spaced_simps [simp]: "spaced [] = []" "spaced (t # ts) = CHR '' '' # t @ spaced ts" "spaced (ts @ us) = spaced ts @ spaced us"
  by (simp_all add: spaced_def)

lemma split_words_word: "CHR '' '' \<notin> set t \<Longrightarrow> split_words w (t @ rest) = split_words (w @ t) rest"
  by (induction t arbitrary: w) auto

lemma split_words_spaced:
  "\<forall>t \<in> set (w # ts). CHR '' '' \<notin> set t \<Longrightarrow> split_words w (spaced ts) = w # ts"
  by (induction ts arbitrary: w) (auto simp: split_words_word)

lemma encode_byte_split: "encode_byte c = CHR 0x5C # map char_of [48 + byte c div 64, 48 + byte c div 8 mod 8, 48 + byte c mod 8]"
proof -
  have "byte c div 64 mod 8 = byte c div 64" using byte_less [of c] by (intro mod_less) linarith
  thus ?thesis by (simp add: encode_byte_def)
qed

lemma octal_loop_encoded: "octal_loop out (concat (map encode_byte s)) = Inr (out @ s)"
proof (induction s arbitrary: out)
  case (Cons c s)
  have "char_of (byte c) = c" by (simp add: byte_def)
  moreover have "\<not> 255 < byte c" using byte_less [of c] by linarith
  ultimately show ?case using Cons octal_digits_char [of c] by (simp add: encode_byte_split)
qed simp

lemma encode_byte_plain: "set (encode_byte c) \<inter> {CHR '' '', CHR 0x0A, CHR '';'', CHR 0x27} = {}"
proof -
  have d: "char_of (48 + k :: nat) \<noteq> CHR '' '' \<and> char_of (48 + k :: nat) \<noteq> CHR 0x0A \<and> char_of (48 + k :: nat) \<noteq> CHR '';'' \<and>
      char_of (48 + k :: nat) \<noteq> CHR 0x27" if "k < 8" for k
  proof -
    have "k \<in> {0, 1, 2, 3, 4, 5, 6, 7}" using that by auto
    thus ?thesis by (elim insertE) (simp_all add: char_of_def)
  qed
  show ?thesis using d [of "byte c div 64 mod 8"] d [of "byte c div 8 mod 8"] d [of "byte c mod 8"]
    by (auto simp: encode_byte_def)
qed

lemma encode_token_plain:
  "CHR '' '' \<notin> set (encode_token s)" "CHR 0x0A \<notin> set (encode_token s)" "encode_token s \<noteq> '';''"
proof -
  show "CHR '' '' \<notin> set (encode_token s)" "CHR 0x0A \<notin> set (encode_token s)"
    using encode_byte_plain by (auto simp: encode_token_def)
  show "encode_token s \<noteq> '';''" by (cases s) (auto simp: encode_token_def encode_byte_def)
qed

lemma decode_encode [simp]: "decode_token (encode_token s) = s"
proof (cases s)
  case (Cons c cs)
  have "encode_token s \<noteq> [CHR 0x27, CHR 0x27]" using Cons by (simp add: encode_token_def encode_byte_def)
  thus ?thesis using Cons octal_loop_encoded [of "[]" s] by (simp add: decode_token_def encode_token_def)
qed (simp add: decode_token_def encode_token_def)

lemma read_words:
  "read_commands ws (map encode_token c @ rest) = read_commands (ws @ c) rest"
  by (induction c arbitrary: ws) (simp_all add: encode_token_plain)

definition tokens_of :: "ControlRequest \<Rightarrow> string list" where
  "tokens_of cs = concat (map (\<lambda>c. '';'' # map encode_token c) cs)"

lemma read_tokens: "read_commands ws (tokens_of cs) = ws # cs"
proof (induction cs arbitrary: ws)
  case (Cons c cs)
  thus ?case using read_words [of "[]" c "tokens_of cs"] by (simp add: tokens_of_def)
qed (simp add: tokens_of_def)

lemma render_arguments_line:
  "render_arguments line False as =
     (if list_ex contains_nul as then Inl (not_started_error ''control request argument contains NUL'')
      else Inr (line @ spaced (map encode_token as)))"
  by (induction as arbitrary: line) auto

lemma render_operations_line:
  "\<not> (\<exists>c \<in> set ops. c = [] \<or> list_ex contains_nul c) \<Longrightarrow>
     render_operations line False ops = Inr (line @ spaced (tokens_of ops) @ [CHR 0x0A])"
proof (induction ops arbitrary: line)
  case (Cons op ops)
  then obtain a as where op: "op = a # as" by (cases op) auto
  thus ?case using Cons by (simp add: render_arguments_line tokens_of_def)
qed (simp add: tokens_of_def)

lemma sendable_iff: "sendable commands \<longleftrightarrow> commands \<noteq> [] \<and> \<not> (\<exists>c \<in> set commands. c = [] \<or> list_ex contains_nul c)"
  by (auto simp: sendable_def contains_nul_def list_ex_iff str_find_None)

lemma render_request_line:
  "sendable (c # cs) \<Longrightarrow> c = a # as \<Longrightarrow>
     render_request (c # cs) = Inr (encode_token a @ spaced (map encode_token as @ tokens_of cs) @ [CHR 0x0A])"
  by (simp add: sendable_iff render_request_def render_arguments_line render_operations_line)

lemma render_operations_error:
  "\<exists>c \<in> set ops. c = [] \<or> list_ex contains_nul c \<Longrightarrow>
     \<exists>e. render_operations line first ops = Inl e \<and> error_delivery e = not_started"
proof (induction line first ops rule: render_operations.induct)
  case (2 line first op ops)
  have args: "render_arguments l f op = Inl e \<Longrightarrow> error_delivery e = not_started" for l f e
    by (induction l f op rule: render_arguments.induct) (auto simp: not_started_error_def split: if_splits)
  have nul: "list_ex contains_nul op \<Longrightarrow> \<exists>e. render_arguments l f op = Inl e" for l f
    by (induction l f op rule: render_arguments.induct) auto
  show ?case
  proof (cases "op = []")
    case True thus ?thesis by (simp add: not_started_error_def)
  next
    case False
    show ?thesis
    proof (cases "render_arguments (if first then line else line @ '' ; '') True op")
      case (Inl e) thus ?thesis using False args by simp
    next
      case (Inr l)
      hence "\<not> list_ex contains_nul op" using nul [of "if first then line else line @ '' ; ''" True] by auto
      thus ?thesis using 2 False Inr by auto
    qed
  qed
qed simp

lemma tokens_plain:
  assumes "t \<in> set (map encode_token c @ tokens_of cs)"
  shows "CHR '' '' \<notin> set t \<and> CHR 0x0A \<notin> set t"
  using assms encode_token_plain by (auto simp: tokens_of_def split: if_splits)

lemma spaced_newline: "\<forall>t \<in> set ts. CHR 0x0A \<notin> set t \<Longrightarrow> CHR 0x0A \<notin> set (spaced ts)"
  by (auto simp: spaced_def)

lemma rendered_read_back:
  assumes "sendable commands" "render_request commands = Inr line"
  shows "\<exists>text'. line = text' @ [CHR 0x0A] \<and> CHR 0x0A \<notin> set text' \<and> read_request text' = commands"
proof -
  obtain c cs a as where cs: "commands = c # cs" "c = a # as"
    using assms(1) by (auto simp: sendable_def neq_Nil_conv)
  let ?ts = "map encode_token as @ tokens_of cs"
  have ts: "\<forall>t \<in> set (encode_token a # ?ts). CHR '' '' \<notin> set t \<and> CHR 0x0A \<notin> set t"
    using tokens_plain [of _ as cs] encode_token_plain by auto
  have line: "line = (encode_token a @ spaced ?ts) @ [CHR 0x0A]"
    using render_request_line [of c cs a as] assms cs by simp
  have "split_words [] (encode_token a @ spaced ?ts) = encode_token a # ?ts"
    using split_words_word [of "encode_token a" "[]" "spaced ?ts"] split_words_spaced [of "encode_token a" ?ts] ts by auto
  hence "read_request (encode_token a @ spaced ?ts) = read_commands [a] ?ts"
    by (simp add: read_request_def encode_token_plain)
  also have "\<dots> = commands" using read_words [of "[a]" as "tokens_of cs"] read_tokens by (simp add: cs)
  finally show ?thesis using line spaced_newline [of ?ts] ts by auto
qed

section \<open>What the gates see\<close>

lemma read_escaped_trailing: "read_word (escaped_trailing a) = (a, False)"
proof (cases "a \<noteq> [] \<and> last a = CHR '';''")
  case True
  hence "butlast a @ '';'' = a" by (metis append_butlast_last_id)
  thus ?thesis using True by (simp add: read_word_def escaped_trailing_def butlast_append)
qed (auto simp: read_word_def escaped_trailing_def)

lemma split_escaped: "split_commands [c] (map escaped_trailing as) = [c @ as]"
  by (induction as arbitrary: c) (simp_all add: read_escaped_trailing)

lemma refuse_group_None:
  "refuse_group cs daemon = None \<longleftrightarrow> list_all (\<lambda>c. \<not> list_ex (unsafe_command daemon True) (resolve_commands [c])) cs"
proof (induction cs)
  case (Cons c cs)
  have "refuse_literal (map escaped_trailing c) daemon True = None \<longleftrightarrow>
      \<not> list_ex (unsafe_command daemon True) (resolve_commands [c])"
    using refuse_loop_unsafe [THEN conjunct1, of "resolve_commands [c]" daemon True]
    by (cases "refuse_loop (resolve_commands [c]) daemon True")
      (simp_all add: refuse_literal_def invocations_def split_escaped del: resolve_commands.simps)
  thus ?case using Cons by (auto simp del: resolve_commands.simps split: option.splits)
qed simp

lemma refuse_group_delivery: "refuse_group cs daemon = Some e \<Longrightarrow> error_delivery e = not_started"
  by (induction cs) (auto simp: not_started_error_def split: option.splits)

section \<open>Lines within the bounds\<close>

lemma length_dec_string: "n < 10 ^ Suc k \<Longrightarrow> length (dec_string n) \<le> Suc k"
proof (induction k arbitrary: n)
  case (Suc k)
  show ?case
  proof (cases "n < 10")
    case False
    have "n div 10 < 10 ^ Suc k" using Suc.prems by (simp add: less_mult_imp_div_less)
    thus ?thesis using Suc.IH False by (subst dec_string.simps) simp
  qed (subst dec_string.simps, simp)
qed (subst dec_string.simps, simp)

lemma length_guard_text: "length (guard_text s n f) \<le> 62"
proof -
  have "length (dec_string (unat w)) \<le> 20" for w :: "64 word"
    using length_dec_string [of "unat w" 19] unsigned_less [of w, where ?'a = nat] by simp
  from this [of s] this [of n] this [of f] show ?thesis by (simp add: guard_text_def)
qed

lemma guard_no_newline: "CHR 0x0A \<notin> set (guard_text s n f)"
  by (simp add: guard_text_def is_digit_def byte_def)

lemma hex_digit_set: "i < 16 \<Longrightarrow> hex_digit i \<in> set ''0123456789abcdef''"
  unfolding hex_digit_def by (intro nth_mem) simp

lemma byte_nibbles: "unat (drop_bit 4 b) < 16 \<and> unat (and b 0xF) < 16" for b :: "8 word"
proof -
  have "and b 0xF = take_bit 4 b" by (simp add: take_bit_eq_mask mask_eq_exp_minus_1)
  moreover have "unat b < 256" using unsigned_less [of b, where ?'a = nat] by simp
  ultimately show ?thesis
    using take_bit_nat_less_exp [of 4 "unat b"] by (simp add: unsigned_take_bit_eq unsigned_drop_bit_eq drop_bit_nat_def take_bit_nat_eq_self)
qed

lemma name_no_newline: "CHR 0x0A \<notin> set (boundary_name seed k)"
proof -
  have "CHR 0x0A \<noteq> hex_digit i" if "i < 16" for i using hex_digit_set [OF that] by auto
  thus ?thesis using byte_nibbles nibble_less by (auto simp: boundary_name_def append_hex64_text seed_text_def)
qed

lemma block_flags_guard: "begin_metadata b = guard_text s n f \<Longrightarrow> block_flags b = Some f"
proof -
  assume b: "begin_metadata b = guard_text s n f"
  let ?d = "dec_string (unat f)"
  have sp: "CHR '' '' \<notin> set (rev ?d)" by (simp add: is_digit_def byte_def)
  obtain x where g: "guard_text s n f = x @ CHR '' '' # ?d" by (simp add: guard_text_def)
  have "str_find CHR '' '' (rev ?d @ CHR '' '' # rev x) = Some (length (rev ?d))" by (rule str_find_append [OF sp])
  hence "last_space (guard_text s n f) = Some (length x)" by (simp add: last_space_def g)
  thus ?thesis by (simp add: block_flags_def b g)
qed

section \<open>Properties\<close>

text \<open>C14. A request is written as one line that says what the caller said: \<open>execute\<close> goes on exactly when every command
  of the group is named, holds no NUL, is not one of the commands the daemon's release must not be given, and the deadline
  has not passed; the line then has its only newline at its end and reads back as the very commands. The gates see each
  command as tmux will, whatever semicolons its arguments end in. Every refusal says that nothing was started.\<close>

theorem request_gated_and_read_back:
  "case prepare_execute commands daemon late of
     Inl e \<Rightarrow> error_delivery e = not_started \<and>
       (late \<or> \<not> sendable commands \<or> list_ex (\<lambda>c. list_ex (unsafe_command daemon True) (resolve_commands [c])) commands)
   | Inr line \<Rightarrow> \<not> late \<and> sendable commands \<and>
       list_all (\<lambda>c. \<not> list_ex (unsafe_command daemon True) (resolve_commands [c])) commands \<and>
       (\<exists>text'. line = text' @ [CHR 0x0A] \<and> CHR 0x0A \<notin> set text' \<and> read_request text' = commands)"
proof (cases "refuse_group commands daemon")
  case None
  show ?thesis
  proof (cases "sendable commands")
    case True
    then obtain c cs a as where "commands = c # cs" "c = a # as" by (auto simp: sendable_def neq_Nil_conv)
    then obtain line where line: "render_request commands = Inr line" using render_request_line [of c cs a as] True by auto
    show ?thesis
      using None True line rendered_read_back [OF True line] refuse_group_None [of commands daemon]
      by (simp add: prepare_execute_def not_started_error_def del: resolve_commands.simps)
  next
    case False
    hence "\<exists>e. render_request commands = Inl e \<and> error_delivery e = not_started"
      using render_operations_error [of commands "[]" True] by (auto simp: render_request_def sendable_iff not_started_error_def)
    thus ?thesis using None False by (auto simp: prepare_execute_def)
  qed
next
  case (Some e)
  hence "list_ex (\<lambda>c. list_ex (unsafe_command daemon True) (resolve_commands [c])) commands"
    using refuse_group_None [of commands daemon] by (auto simp: list_all_iff list_ex_iff simp del: resolve_commands.simps)
  thus ?thesis using Some refuse_group_delivery [OF Some] by (simp add: prepare_execute_def del: resolve_commands.simps)
qed

theorem request_gated_and_read_back_witness:
  "\<exists>line. prepare_execute [[''ls'']] (release 3 7 0) False = Inr line \<and> CHR 0x0A \<notin> set (butlast line) \<and>
     read_request (butlast line) = [[''ls'']]"
proof -
  have "refuse_group [[''ls'']] (release 3 7 0) = None" by code_simp
  moreover have "sendable [[''ls'']]" by code_simp
  ultimately obtain line where "prepare_execute [[''ls'']] (release 3 7 0) False = Inr line"
    using render_request_line [of "[''ls'']" "[]" "''ls''" "[]"] by (auto simp: prepare_execute_def)
  then show ?thesis using request_gated_and_read_back [where commands = "[[''ls'']]" and daemon = "release 3 7 0" and late = False] by auto
qed

text \<open>C18. Every accepted bound leaves room for the boundary: under the options \<open>connect\<close> accepts, the decoder hands on
  tmux's refusal of a boundary whole, with its flags, and it is recognised as the boundary of its own request and of no
  other request of the connection.\<close>

theorem boundary_recognised:
  assumes options: "check_options options = Inr accepted" and seed: "length seed = 16"
    and p: "ready p" "pending p = []" "block p = None"
    and bounds: "retained_reply_bytes p = reply_bound accepted" "line_bytes p = line_bound accepted"
  shows "\<exists>b. feed p (body_text [''%begin '' @ guard_text s n f, ''parse error: unknown command: '' @ boundary_name seed k,
        ''%error '' @ guard_text s n f]) = (p, Inr [Block b]) \<and>
      block_flags b = Some f \<and> (\<forall>j. is_boundary b (boundary_reply (boundary_name seed j)) \<longleftrightarrow> j = k)"
proof -
  let ?m = "guard_text s n f" and ?l = "''parse error: unknown command: '' @ boundary_name seed k"
  let ?b = "\<lparr>sequence = s, command_number = n, terminal = terminal_error, begin_metadata = ?m, terminal_metadata = ?m,
       body = within (retained_reply_bytes p) (body_text [?l]),
       body_truncated = (retained_reply_bytes p \<noteq> 0 \<and> length (body_text [?l]) > retained_reply_bytes p),
       body_bytes = length (body_text [?l])\<rparr>"
  have accepted: "reply_bound accepted = 0 \<or> 128 \<le> reply_bound accepted" "line_bound accepted = 0 \<or> 128 \<le> line_bound accepted"
    using options by (auto simp: check_options_def Let_def kMinimumBoundaryBytes_def split: if_splits)
  have len: "length (boundary_name seed k) = 67" using seed by (rule length_boundary_name)
  have fits: "\<not> too_long p i" if "i \<le> 128" for i using that accepted(2) bounds(2) p(2) by (auto simp: too_long_def)
  have nl: "CHR 0x0A \<notin> set ?m" "CHR 0x0A \<notin> set (boundary_name seed k)"
    using guard_no_newline name_no_newline by auto
  have "feed p (body_text ((''%begin '' @ ?m) # [?l] @ [closing terminal_error @ ?m])) = (p, Inr [Block ?b])"
  proof (rule block_framed [OF p refl])
    show "\<forall>l \<in> set ((''%begin '' @ ?m) # (closing terminal_error @ ?m) # [?l]). CHR 0x0A \<notin> set l \<and> \<not> too_long p (length l)"
      using nl length_guard_text [of s n f] len fits by (simp add: closing_def)
    show "\<forall>l \<in> set [?l]. \<forall>t. l \<noteq> closing t @ ?m" by (simp add: closing_def split: ControlTerminal.split)
  qed
  moreover have "within (retained_reply_bytes p) (body_text [?l]) = boundary_reply (boundary_name seed k)"
    "\<not> (retained_reply_bytes p \<noteq> 0 \<and> length (body_text [?l]) > retained_reply_bytes p)"
    using len accepted(1) bounds(1) by (auto simp: within_def body_text_def boundary_reply_def)
  hence "is_boundary ?b (boundary_reply (boundary_name seed j)) \<longleftrightarrow> j = k" for j
    by (auto simp: is_boundary_iff boundary_reply_def boundary_name_inject)
  ultimately show ?thesis using block_flags_guard [of ?b s n f] by (intro exI [of _ ?b]) (simp add: closing_def)
qed

theorem boundary_recognised_witness:
  "\<exists>b. feed (fresh_parser 128 0) (body_text [''%begin '' @ guard_text 1 2 1,
        ''parse error: unknown command: '' @ boundary_name (replicate 16 7) 5, ''%error '' @ guard_text 1 2 1]) =
        (fresh_parser 128 0, Inr [Block b]) \<and> block_flags b = Some 1 \<and>
      is_boundary b (boundary_reply (boundary_name (replicate 16 7) 5)) \<and>
      \<not> is_boundary b (boundary_reply (boundary_name (replicate 16 7) 6))"
proof -
  let ?o = "\<lparr>tmux_binary = Some ''tmux'', socket_path = ''/s'', session_name = ''x'', startup_timeout = 1, shutdown_timeout = 1,
    reply_bound = 128, line_bound = 0, pane_output = False, pause_after = None\<rparr>"
  have "check_options ?o = Inr ?o" by (simp add: check_options_def contains_nul_def kMinimumBoundaryBytes_def)
  from boundary_recognised [OF this, of "replicate 16 7" "fresh_parser 128 0" 1 2 1 5]
  show ?thesis by (auto simp: fresh_parser_def ready_def)
qed

text \<open>C34. No client is attached to a daemon that control mode could hurt: everything \<open>connect\<close> runs before it spawns a
  client is the version check; it goes on only for a release the library supports and, when a daemon is live, one that is
  at least 3.7, with options that name a binary, a socket and a session; and every refusal says that nothing was started.\<close>

theorem connect_gated:
  assumes "connect_gate os options h = (h', result)"
  shows "(h' = h \<or> (\<exists>binary m limit. h' = h @ [probe_request binary [''-S'', socket_path options] limit m] \<or>
        h' = h @ [probe_request binary [''-S'', socket_path options] limit m, version_request binary limit])) \<and>
    (case result of
       Inl e \<Rightarrow> error_delivery e = not_started
     | Inr (accepted, endpoint, fence_marker) \<Rightarrow>
         require_supported endpoint kMinimumSupported = Inr () \<and>
         (live endpoint \<longrightarrow> \<not> version_less (version endpoint) (release 3 7 0)) \<and>
         plain_token (token endpoint) \<and> accepted = options\<lparr>tmux_binary := tmux_binary accepted\<rparr> \<and>
         (\<exists>b. tmux_binary accepted = Some b \<and> b \<noteq> [] \<and> CHR 0x00 \<notin> set b) \<and> socket_path options \<noteq> [] \<and> session_name options \<noteq> [])"
proof (cases "check_options options")
  case (Inl e)
  thus ?thesis using assms by (auto simp: connect_gate_def check_options_def not_started_error_def Let_def split: if_splits)
next
  case (Inr accepted)
  have ok: "accepted = options\<lparr>tmux_binary := tmux_binary accepted\<rparr>" "socket_path accepted = socket_path options"
    "\<exists>b. tmux_binary accepted = Some b \<and> b \<noteq> [] \<and> CHR 0x00 \<notin> set b" "socket_path options \<noteq> []" "session_name options \<noteq> []"
    using Inr by (auto simp: check_options_def Let_def contains_nul_def str_find_None split: if_splits)
  obtain h1 r where q: "query_endpoint os (the (tmux_binary accepted)) [''-S'', socket_path accepted]
      (Some (startup_timeout accepted)) h = (h1, r)" by fastforce
  have est: "established r" using query_endpoint_established [of os "the (tmux_binary accepted)" "[''-S'', socket_path accepted]"
      "Some (startup_timeout accepted)" h] q by simp
  have since: "rel_version (cap_since (capability control_mode)) = release 3 7 0" by code_simp
  have h': "h' = h1" using assms Inr q by (auto simp: connect_gate_def Let_def split: sum.splits if_splits)
  have "case result of
       Inl e \<Rightarrow> error_delivery e = not_started
     | Inr (a, endpoint, fence_marker) \<Rightarrow> a = accepted \<and>
         require_supported endpoint kMinimumSupported = Inr () \<and>
         (live endpoint \<longrightarrow> \<not> version_less (version endpoint) (release 3 7 0)) \<and> plain_token (token endpoint)"
    using assms Inr q est since
    by (auto simp: connect_gate_def established_def not_started_error_def Let_def split: sum.splits if_splits)
  thus ?thesis using query_launches [OF q] ok unfolding h' by (auto split: sum.splits)
qed

theorem connect_gated_witness:
  "let os = \<lparr>launch = (\<lambda>h r. if h = [] then Inr \<lparr>termination_of = Exited 1, stdout_bytes = [],
        stderr_bytes = ''no server running on /tmp/t'', output_truncated = False\<rparr>
        else Inr \<lparr>termination_of = Exited 0, stdout_bytes = ''tmux 3.5a'', stderr_bytes = [], output_truncated = False\<rparr>),
        entropy = (\<lambda>h. [1, 2, 3, 4])\<rparr>;
       options = \<lparr>tmux_binary = Some ''/bin/tmux'', socket_path = ''/s'', session_name = ''x'', startup_timeout = 1,
        shutdown_timeout = 1, reply_bound = 0, line_bound = 0, pane_output = False, pause_after = None\<rparr> in
   case snd (connect_gate os options []) of Inl _ \<Rightarrow> False
   | Inr (accepted, endpoint, _) \<Rightarrow> accepted = options \<and> token endpoint = ''3.5a'' \<and> plain_token (token endpoint)"
proof -
  let ?os = "\<lparr>launch = (\<lambda>h r. if h = [] then Inr \<lparr>termination_of = Exited 1, stdout_bytes = [],
        stderr_bytes = ''no server running on /tmp/t'', output_truncated = False\<rparr>
        else Inr \<lparr>termination_of = Exited 0, stdout_bytes = ''tmux 3.5a'', stderr_bytes = [], output_truncated = False\<rparr>),
        entropy = (\<lambda>h. [1, 2, 3, 4])\<rparr> :: Platform"
  let ?o = "\<lparr>tmux_binary = Some ''/bin/tmux'', socket_path = ''/s'', session_name = ''x'', startup_timeout = 1,
        shutdown_timeout = 1, reply_bound = 0, line_bound = 0, pane_output = False, pause_after = None\<rparr> :: ConnectionOptions"
  let ?e = "\<lparr>live = False, version = release 3 5 1, token = ''3.5a''\<rparr>"
  have "probe_report ''no server running on /tmp/t'' (version_marker [1, 2, 3, 4] @ ''-'') = None"
    "endpoint_is_absent ''no server running on /tmp/t''" "\<not> answers_like_before_three_two ''no server running on /tmp/t''"
    "executable_report ''tmux 3.5a'' ''/bin/tmux'' = Some ''3.5a''" "read_report ''3.5a'' False = Inr ?e"
    and sup: "require_supported ?e kMinimumSupported = Inr ()"
    by code_simp+
  then have "snd (query_endpoint ?os ''/bin/tmux'' [''-S'', ''/s''] (Some 1) []) = Inr ?e"
    by (simp add: query_endpoint_def query_executable_def run_process_def Let_def)
  then obtain h where q: "query_endpoint ?os ''/bin/tmux'' [''-S'', ''/s''] (Some 1) [] = (h, Inr ?e)" by (metis prod.collapse)
  have "check_options ?o = Inr ?o" by (simp add: check_options_def contains_nul_def)
  then have g: "connect_gate ?os ?o [] = (h, Inr (?o, ?e, version_marker [1, 2, 3, 4]))"
    using q sup by (simp add: connect_gate_def Let_def)
  show ?thesis using connect_gated [OF g] g by (simp add: Let_def)
qed

text \<open>Once the client is ready, the fence is the first request of a live daemon and the connection is handed out only if it
  and the layout request were answered without an error.\<close>

lemma connect_ready_checks:
  "snd (connect_ready run endpoint fence_marker) = None \<longleftrightarrow>
     (\<not> live endpoint \<or> (connection_error (run [] (fence_request endpoint fence_marker)) = None \<and>
        \<not> answer_refused (run [] (fence_request endpoint fence_marker)))) \<and>
     (let r = run (if live endpoint then [fence_request endpoint fence_marker] else []) layout_request in
      connection_error r = None \<and> \<not> answer_refused r)"
  by (auto simp: connect_ready_def refused_or_def Let_def split: option.splits)

text \<open>The range hands out everything that arrived, in order, until a wait brings nothing or the deadline has passed.\<close>

fun arrived :: "nat \<Rightarrow> (nat \<Rightarrow> string list) \<Rightarrow> (nat \<Rightarrow> bool) \<Rightarrow> nat \<Rightarrow> string list" where
  "arrived 0 arrive late k = []"
| "arrived (Suc fuel) arrive late k =
     (if late k \<or> arrive k = [] then [] else arrive k @ arrived fuel arrive late (Suc k))"

lemma arrived_take: "m \<le> n \<Longrightarrow> take m (arrived (Suc n) arrive late k) = take m (arrived n arrive late k)"
proof (induction n arbitrary: m k)
  case (Suc n)
  show ?case
  proof (cases "late k \<or> arrive k = []")
    case False
    hence "m - length (arrive k) \<le> n" using Suc.prems by (cases "arrive k") auto
    from Suc.IH [OF this, of "Suc k"] False show ?thesis
      by (subst (1 2) arrived.simps) (simp del: arrived.simps)
  qed simp
qed simp

lemma range_collect_take:
  "index r \<le> length (batch r) \<Longrightarrow> range_collect n arrive late r =
     map parse_notification (take n (drop (index r) (batch r) @ arrived n arrive late (calls r)))"
proof (induction n arbitrary: r)
  case (Suc n)
  show ?case
  proof (cases "index r < length (batch r)")
    case True
    hence step: "range_next arrive late r = (r\<lparr>index := index r + 1\<rparr>, Some (batch r ! index r))" by (subst range_next.simps) simp
    have "drop (index r) (batch r) = batch r ! index r # drop (Suc (index r)) (batch r)" using True by (rule Cons_nth_drop_Suc [symmetric])
    moreover have "take (Suc (n + index r) - length (batch r)) (arrived (Suc n) arrive late k) =
        take (Suc (n + index r) - length (batch r)) (arrived n arrive late k)" for k
      using True by (intro arrived_take) simp
    ultimately show ?thesis using Suc.IH [of "r\<lparr>index := index r + 1\<rparr>"] True
      by (simp add: step del: arrived.simps)
  next
    case False
    hence none: "drop (index r) (batch r) = []" by simp
    show ?thesis
    proof (cases "late (calls r) \<or> arrive (calls r) = []")
      case True
      hence "snd (range_next arrive late r) = None" using False by (subst range_next.simps) (auto simp: Let_def)
      thus ?thesis using True none by (cases "range_next arrive late r") auto
    next
      case fresh: False
      then obtain x xs where x: "arrive (calls r) = x # xs" by (cases "arrive (calls r)") auto
      let ?r = "r\<lparr>batch := arrive (calls r), calls := Suc (calls r), index := Suc 0\<rparr>"
      have "range_next arrive late r = (?r, Some x)"
        using False fresh x by (subst range_next.simps) (simp add: Let_def range_next.simps)
      thus ?thesis using Suc.IH [of ?r] fresh x none by simp
    qed
  qed
qed simp

theorem range_in_order:
  "range_collect n arrive late \<lparr>batch = [], index = 0, calls = 0\<rparr> =
     map parse_notification (take n (arrived n arrive late 0))"
  using range_collect_take [of "\<lparr>batch = [], index = 0, calls = 0\<rparr>" n arrive late] by simp

end
