(* ===== verification/Connections.thy ===== *)
theory Connections
  imports Control_Requests Notification_Stream
begin

text \<open>A control connection as a machine of threads (\<open>Connection::State\<close>, \<open>execute\<close> and \<open>shutdown\<close> of
  \<open>src/src/connection.cpp\<close>): any number of callers of \<open>execute\<close>, the reader thread, the thread that waits for the child,
  and shutdowns, one at a time. Every rule is one critical section, or one action between two. The write mutex is held by
  the callers in the phases where \<open>writing\<close> holds; the other mutex is a step. Deadlines may pass at any time, a write may
  take any number of bytes or fail, and any event may be read; the events are those of \<open>Control_Protocol\<close>, the retained
  notifications the stream of \<open>Notification_Stream\<close>. The counter of boundaries wraps as in the code.

  Not modelled: the descriptors and \<open>poll\<close> beyond what they let happen, the text of system errors, the tail of stderr, and
  the destructor.\<close>


section \<open>State\<close>

text \<open>\<open>owner\<close>, \<open>frame\<close>, \<open>sent\<close> and \<open>answered\<close> are not in the code: the call the request belongs to, the bytes its
  writer is to write, how many of them it wrote, and whether its boundary arrived.\<close>

record PendingRequest =
  result_blocks :: "ControlBlock list"
  result_error :: "ProtocolError option"
  boundary :: string
  request_delivery :: DeliveryStatus
  complete :: bool
  owner :: nat
  frame :: string
  sent :: nat
  answered :: bool

text \<open>Where a call of \<open>execute\<close> is. From \<open>Checking\<close> to \<open>WriteFailed\<close> it holds the write mutex.\<close>

datatype Caller =
    Acquiring string
  | Checking nat
  | Polling nat
  | Wrote nat
  | WriteFailed nat ProtocolError
  | Waiting nat bool
  | Poisoning nat
  | Signalling nat
  | Collecting nat
  | Returned "nat option" ControlRequestResult

datatype Reader = Reading | ReaderClosesInput | ReaderSignals | ReaderFinishes | ReaderGone
datatype Waiter = AwaitExit | Reaping | Reaped | WaiterGone
datatype Closer = NoShutdown | ShutWrites | ShutTerminates | ShutKills | ShutJoins

datatype Signal = SIGTERM | SIGKILL

text \<open>\<open>wire\<close> is what was written to the client, \<open>newline_sent\<close> whether it ends in the newline of a shutdown, \<open>os_reaped\<close>
  whether \<open>waitpid\<close> has collected the child, and \<open>signals\<close> the signals sent with \<open>os_reaped\<close> at that time.\<close>

record Connection =
  requests :: "PendingRequest list"
  pending_requests :: "nat list"
  notifications :: Stream
  fatal_error :: "ProtocolError option"
  boundary_seed :: BoundarySeed
  next_boundary :: "64 word"
  startup_seen :: bool
  is_ready :: bool
  is_closing :: bool
  saw_exit :: bool
  reader_done :: bool
  child_exited :: bool
  reaped :: bool
  shutdown_complete :: bool
  partial_command_frame :: bool
  shutdown_error :: "ProtocolError option"
  input_open :: bool
  callers :: "Caller list"
  reader :: Reader
  waiter :: Waiter
  closer :: Closer
  wire :: string
  newline_sent :: bool
  os_reaped :: bool
  signals :: "(Signal \<times> bool) list"

definition new_connection :: "BoundarySeed \<Rightarrow> Connection" where
  "new_connection seed = \<lparr>requests = [], pending_requests = [],
     notifications = subscribe True True 0 (new_stream kMaximumNotifications kMaximumNotificationBytes),
     fatal_error = None, boundary_seed = seed, next_boundary = 0, startup_seen = False, is_ready = False,
     is_closing = False, saw_exit = False, reader_done = False, child_exited = False, reaped = False,
     shutdown_complete = False, partial_command_frame = False, shutdown_error = None, input_open = True, callers = [],
     reader = Reading, waiter = AwaitExit, closer = NoShutdown, wire = [], newline_sent = False, os_reaped = False,
     signals = []\<rparr>"

section \<open>Under the state's mutex\<close>

definition update_requests :: "(PendingRequest \<Rightarrow> PendingRequest) \<Rightarrow> nat list \<Rightarrow> PendingRequest list \<Rightarrow> PendingRequest list" where
  "update_requests f ids rs = map (\<lambda>i. if i \<in> set ids then f (rs ! i) else rs ! i) [0..<length rs]"

definition signal_child_locked :: "Signal \<Rightarrow> Connection \<Rightarrow> Connection" where
  "signal_child_locked s c = (if \<not> reaped c then c\<lparr>signals := signals c @ [(s, os_reaped c)]\<rparr> else c)"

definition fail_request :: "ProtocolError \<Rightarrow> PendingRequest \<Rightarrow> PendingRequest" where
  "fail_request e r =
     (if result_error r = None then r\<lparr>result_error := Some (e\<lparr>error_delivery := request_delivery r\<rparr>), complete := True\<rparr>
      else r\<lparr>complete := True\<rparr>)"

definition fail_locked :: "ProtocolError \<Rightarrow> Connection \<Rightarrow> Connection" where
  "fail_locked e c =
     (let e = (case fatal_error c of None \<Rightarrow> e | Some f \<Rightarrow> f) in
      c\<lparr>fatal_error := Some e, requests := update_requests (fail_request e) (pending_requests c) (requests c),
        pending_requests := [], notifications := close_stream (notifications c)\<rparr>)"

definition accept_block :: "ControlBlock \<Rightarrow> Connection \<Rightarrow> Connection" where
  "accept_block b c =
     (case pending_requests c of
        [] \<Rightarrow> if \<not> is_closing c \<and> fatal_error c = None
              then fail_locked (protocol_error ''control block has no pending request'') c else c
      | i # rest \<Rightarrow>
          if is_boundary b (boundary (requests c ! i))
          then c\<lparr>requests := (requests c)[i := (requests c ! i)\<lparr>request_delivery := replied, complete := True, answered := True\<rparr>],
                 pending_requests := rest\<rparr>
          else c\<lparr>requests := (requests c)[i := (requests c ! i)\<lparr>request_delivery := replied,
                 result_blocks := result_blocks (requests c ! i) @ [b]\<rparr>]\<rparr>)"

definition accept_event :: "Event \<Rightarrow> Connection \<Rightarrow> Connection" where
  "accept_event ev c =
     (case ev of
        Notification text' \<Rightarrow>
          let c = (if text' = ''%exit'' \<or> starts_with text' ''%exit '' then c\<lparr>saw_exit := True\<rparr> else c) in
          c\<lparr>notifications := push text' (notifications c)\<rparr>
      | Block b \<Rightarrow>
         (case block_flags b of
            None \<Rightarrow> fail_locked (protocol_error ''control block has invalid guard flags'') c
          | Some flags \<Rightarrow>
              if \<not> startup_seen c then
                let c = c\<lparr>startup_seen := True\<rparr> in
                if flags \<noteq> 0 \<or> terminal b \<noteq> terminal_end
                then fail_locked (protocol_error ''control client attach failed'') c
                else c\<lparr>is_ready := True\<rparr>
              else if flags = 0 then c
              else if flags \<noteq> 1 then fail_locked (protocol_error ''control block has unsupported guard flags'') c
              else accept_block b c))"

section \<open>Calls of \<open>execute\<close>\<close>

abbreviation set_caller :: "nat \<Rightarrow> Caller \<Rightarrow> Connection \<Rightarrow> Connection" where
  "set_caller w s c \<equiv> c\<lparr>callers := (callers c)[w := s]\<rparr>"

abbreviation set_request :: "nat \<Rightarrow> PendingRequest \<Rightarrow> Connection \<Rightarrow> Connection" where
  "set_request i r c \<equiv> c\<lparr>requests := (requests c)[i := r]\<rparr>"

definition refused :: "ProtocolError \<Rightarrow> Caller" where
  "refused e = Returned None \<lparr>blocks = [], connection_error = Some e\<rparr>"

fun writing :: "Caller \<Rightarrow> bool" where
  "writing (Checking _) = True"
| "writing (Polling _) = True"
| "writing (Wrote _) = True"
| "writing (WriteFailed _ _) = True"
| "writing _ = False"

definition write_mutex_free :: "Connection \<Rightarrow> bool" where
  "write_mutex_free c \<longleftrightarrow> list_all (\<lambda>s. \<not> writing s) (callers c)"

definition start_execute :: "ControlRequest \<Rightarrow> Version \<Rightarrow> bool \<Rightarrow> Connection \<Rightarrow> Connection" where
  "start_execute commands daemon late c =
     c\<lparr>callers := callers c @ [case prepare_execute commands daemon late of Inl e \<Rightarrow> refused e | Inr line \<Rightarrow> Acquiring line]\<rparr>"

definition register :: "nat \<Rightarrow> string \<Rightarrow> Connection \<Rightarrow> Connection" where
  "register w line c =
     (let name = boundary_name (boundary_seed c) (next_boundary c);
          c = c\<lparr>next_boundary := next_boundary c + 1\<rparr> in
      case fatal_error c of
        Some e \<Rightarrow> set_caller w (refused (e\<lparr>error_delivery := not_started\<rparr>)) c
      | None \<Rightarrow>
          if \<not> is_ready c \<or> is_closing c \<or> shutdown_complete c
          then set_caller w (refused (not_started_error ''control connection is not accepting requests'')) c
          else set_caller w (Checking (length (requests c)))
            (c\<lparr>requests := requests c @ [\<lparr>result_blocks = [], result_error = None, boundary = boundary_reply name,
                 request_delivery = not_started, complete = False, owner = w, frame = line @ name @ [CHR 0x0A], sent = 0,
                 answered = False\<rparr>],
               pending_requests := pending_requests c @ [length (requests c)]\<rparr>))"

definition write_failure :: "nat \<Rightarrow> ProtocolError \<Rightarrow> ProtocolError" where
  "write_failure n e = e\<lparr>error_delivery := (if n = 0 then not_started else indeterminate)\<rparr>"

definition check_write :: "nat \<Rightarrow> nat \<Rightarrow> Connection \<Rightarrow> Connection" where
  "check_write w i c =
     (let r = requests c ! i in
      if sent r = length (frame r) then set_caller w (Waiting i False) c
      else if is_closing c \<or> fatal_error c \<noteq> None
      then set_caller w (WriteFailed i (write_failure (sent r) (protocol_error ''control write cancelled by connection closure''))) c
      else set_caller w (Polling i) c)"

definition write_some :: "nat \<Rightarrow> nat \<Rightarrow> nat \<Rightarrow> Connection \<Rightarrow> Connection" where
  "write_some w i k c =
     (let r = requests c ! i in
      set_caller w (Wrote i) (set_request i (r\<lparr>sent := sent r + k\<rparr>) (c\<lparr>wire := wire c @ take k (drop (sent r) (frame r))\<rparr>)))"

definition advance_delivery :: "nat \<Rightarrow> nat \<Rightarrow> Connection \<Rightarrow> Connection" where
  "advance_delivery w i c =
     (let r = requests c ! i; partial = (sent r \<noteq> length (frame r));
          next = (if partial then indeterminate else written) in
      set_caller w (Checking i) (set_request i (if request_delivery r = replied then r else r\<lparr>request_delivery := next\<rparr>)
        (c\<lparr>partial_command_frame := partial\<rparr>)))"

definition give_up_writing :: "nat \<Rightarrow> nat \<Rightarrow> ProtocolError \<Rightarrow> Connection \<Rightarrow> Connection" where
  "give_up_writing w i e c =
     (if \<not> is_closing c then set_caller w (Waiting i True) (fail_locked e (c\<lparr>is_closing := True\<rparr>))
      else set_caller w (Waiting i False) c)"

definition stop_waiting :: "nat \<Rightarrow> nat \<Rightarrow> bool \<Rightarrow> Connection \<Rightarrow> Connection" where
  "stop_waiting w i poison c =
     (if complete (requests c ! i) then set_caller w (if poison then Poisoning i else Collecting i) c
      else set_caller w (Poisoning i)
        (fail_locked (protocol_error ''control request deadline expired after dispatch'') (c\<lparr>is_closing := True\<rparr>)))"

definition collect :: "nat \<Rightarrow> nat \<Rightarrow> Connection \<Rightarrow> Connection" where
  "collect w i c =
     (let r = requests c ! i;
          r = (case result_error r of None \<Rightarrow> r
               | Some e \<Rightarrow> r\<lparr>result_error := Some (e\<lparr>error_delivery := request_delivery r\<rparr>)\<rparr>) in
      set_caller w (Returned (Some i) \<lparr>blocks = result_blocks r, connection_error = result_error r\<rparr>) (set_request i r c))"

inductive caller_step :: "Connection \<Rightarrow> Connection \<Rightarrow> bool" where
  call: "caller_step c (start_execute commands daemon late c)"
| lock_late: "w < length (callers c) \<Longrightarrow> callers c ! w = Acquiring line \<Longrightarrow>
    caller_step c (set_caller w (refused (not_started_error ''control writer acquisition deadline expired'')) c)"
| lock: "w < length (callers c) \<Longrightarrow> callers c ! w = Acquiring line \<Longrightarrow> write_mutex_free c \<Longrightarrow>
    caller_step c (register w line c)"
| check: "w < length (callers c) \<Longrightarrow> callers c ! w = Checking i \<Longrightarrow> caller_step c (check_write w i c)"
| again: "w < length (callers c) \<Longrightarrow> callers c ! w = Polling i \<Longrightarrow> caller_step c (set_caller w (Checking i) c)"
| broken: "w < length (callers c) \<Longrightarrow> callers c ! w = Polling i \<Longrightarrow>
    caller_step c (set_caller w (WriteFailed i (write_failure (sent (requests c ! i)) e)) c)"
| wrote: "w < length (callers c) \<Longrightarrow> callers c ! w = Polling i \<Longrightarrow> input_open c \<Longrightarrow> 0 < k \<Longrightarrow>
    k \<le> length (frame (requests c ! i)) - sent (requests c ! i) \<Longrightarrow> caller_step c (write_some w i k c)"
| progress: "w < length (callers c) \<Longrightarrow> callers c ! w = Wrote i \<Longrightarrow> caller_step c (advance_delivery w i c)"
| give_up: "w < length (callers c) \<Longrightarrow> callers c ! w = WriteFailed i e \<Longrightarrow> caller_step c (give_up_writing w i e c)"
| wait: "w < length (callers c) \<Longrightarrow> callers c ! w = Waiting i poison \<Longrightarrow> caller_step c (stop_waiting w i poison c)"
| poison: "w < length (callers c) \<Longrightarrow> callers c ! w = Poisoning i \<Longrightarrow> write_mutex_free c \<Longrightarrow>
    caller_step c (set_caller w (Signalling i) (c\<lparr>input_open := False\<rparr>))"
| signal: "w < length (callers c) \<Longrightarrow> callers c ! w = Signalling i \<Longrightarrow>
    caller_step c (set_caller w (Collecting i) (signal_child_locked SIGTERM c))"
| collect: "w < length (callers c) \<Longrightarrow> callers c ! w = Collecting i \<Longrightarrow> caller_step c (collect w i c)"

section \<open>The reader, the waiter and shutting down\<close>

definition end_reading :: "Connection \<Rightarrow> Connection" where
  "end_reading c =
     (let c = (if \<not> saw_exit c \<and> fatal_error c = None
               then fail_locked (protocol_error ''control client exited without %exit'') c else c);
          c = (if pending_requests c \<noteq> []
               then fail_locked (protocol_error ''control client exited with pending requests'') c else c) in
      if fatal_error c \<noteq> None then c\<lparr>is_closing := True, reader := ReaderClosesInput\<rparr> else c\<lparr>reader := ReaderFinishes\<rparr>)"

inductive reader_step :: "Connection \<Rightarrow> Connection \<Rightarrow> bool" where
  event: "reader c = Reading \<Longrightarrow> reader_step c (accept_event ev c)"
| stream_failed: "reader c = Reading \<Longrightarrow> reader_step c (fail_locked e c)"
| ended: "reader c = Reading \<Longrightarrow> reader_step c (end_reading c)"
| close_input: "reader c = ReaderClosesInput \<Longrightarrow> write_mutex_free c \<Longrightarrow>
    reader_step c (c\<lparr>input_open := False, reader := ReaderSignals\<rparr>)"
| terminate: "reader c = ReaderSignals \<Longrightarrow> reader_step c (signal_child_locked SIGTERM c\<lparr>reader := ReaderFinishes\<rparr>)"
| finished: "reader c = ReaderFinishes \<Longrightarrow>
    reader_step c (c\<lparr>reader_done := True, notifications := close_stream (notifications c), reader := ReaderGone\<rparr>)"

inductive waiter_step :: "Connection \<Rightarrow> Connection \<Rightarrow> bool" where
  exited: "waiter c = AwaitExit \<Longrightarrow> waiter_step c (c\<lparr>child_exited := True, waiter := Reaping\<rparr>)"
| no_child: "waiter c = AwaitExit \<Longrightarrow>
    waiter_step c (c\<lparr>child_exited := True, reaped := True, os_reaped := True, waiter := WaiterGone\<rparr>)"
| wait_failed: "waiter c = AwaitExit \<Longrightarrow> waiter_step c (fail_locked e c\<lparr>waiter := WaiterGone\<rparr>)"
| collected: "waiter c = Reaping \<Longrightarrow> waiter_step c (c\<lparr>os_reaped := True, waiter := Reaped\<rparr>)"
| reap_failed: "waiter c = Reaping \<Longrightarrow> waiter_step c (fail_locked e c\<lparr>waiter := WaiterGone\<rparr>)"
| recorded: "waiter c = Reaped \<Longrightarrow> waiter_step c (c\<lparr>reaped := True, waiter := WaiterGone\<rparr>)"

definition shut_request :: "PendingRequest \<Rightarrow> PendingRequest" where
  "shut_request r =
     (if result_error r = None then r\<lparr>result_error := Some (protocol_error ''control connection shut down''), complete := True\<rparr>
      else r\<lparr>complete := True\<rparr>)"

definition begin_shutdown :: "Connection \<Rightarrow> Connection" where
  "begin_shutdown c =
     (if shutdown_complete c then c
      else c\<lparr>is_closing := True, requests := update_requests shut_request (pending_requests c) (requests c),
             pending_requests := [], closer := ShutWrites\<rparr>)"

text \<open>\<open>took\<close> is whether the newline could be written.\<close>

definition close_input :: "bool \<Rightarrow> Connection \<Rightarrow> Connection" where
  "close_input took c =
     (let c = (if input_open c \<and> \<not> partial_command_frame c \<and> took
               then c\<lparr>wire := wire c @ [CHR 0x0A], newline_sent := True\<rparr> else c) in
      c\<lparr>input_open := False, closer := ShutTerminates\<rparr>)"

definition end_shutdown :: "Connection \<Rightarrow> Connection \<times> (ProtocolError, unit) expected" where
  "end_shutdown c =
     (if \<not> (reader_done c \<and> reaped c)
      then (c\<lparr>closer := NoShutdown\<rparr>, Inl (protocol_error ''control client shutdown deadline expired''))
      else let e = (case fatal_error c of Some f \<Rightarrow> Some f
                    | None \<Rightarrow> if \<not> saw_exit c then Some (protocol_error ''control client did not emit %exit'') else None) in
        (c\<lparr>shutdown_error := e, shutdown_complete := True, closer := NoShutdown\<rparr>,
         case e of Some f \<Rightarrow> Inl f | None \<Rightarrow> Inr ()))"

inductive shutdown_step :: "Connection \<Rightarrow> Connection \<Rightarrow> bool" where
  begins: "closer c = NoShutdown \<Longrightarrow> shutdown_step c (begin_shutdown c)"
| lock_timeout: "closer c = ShutWrites \<Longrightarrow> shutdown_step c (c\<lparr>closer := NoShutdown\<rparr>)"
| writes: "closer c = ShutWrites \<Longrightarrow> write_mutex_free c \<Longrightarrow> shutdown_step c (close_input took c)"
| terminates: "closer c = ShutTerminates \<Longrightarrow> shutdown_step c (signal_child_locked SIGTERM c\<lparr>closer := ShutKills\<rparr>)"
| kills: "closer c = ShutKills \<Longrightarrow> shutdown_step c (signal_child_locked SIGKILL c\<lparr>closer := ShutJoins\<rparr>)"
| joins: "closer c = ShutJoins \<Longrightarrow> shutdown_step c (fst (end_shutdown c))"

inductive connection_step :: "Connection \<Rightarrow> Connection \<Rightarrow> bool" where
  by_caller: "caller_step c c' \<Longrightarrow> connection_step c c'"
| by_reader: "reader_step c c' \<Longrightarrow> connection_step c c'"
| by_waiter: "waiter_step c c' \<Longrightarrow> connection_step c c'"
| by_shutdown: "shutdown_step c c' \<Longrightarrow> connection_step c c'"

inductive connection_reachable :: "Connection \<Rightarrow> bool" where
  connected: "connection_reachable (new_connection seed)"
| step: "connection_reachable c \<Longrightarrow> connection_step c c' \<Longrightarrow> connection_reachable c'"

section \<open>Invariants\<close>

definition progress_of :: "PendingRequest \<Rightarrow> DeliveryStatus" where
  "progress_of r = (if sent r = 0 then not_started else if sent r < length (frame r) then indeterminate else written)"

definition told :: "PendingRequest \<Rightarrow> bool" where
  "told r \<longleftrightarrow> request_delivery r = replied \<or> request_delivery r = progress_of r"

definition request_ok :: "PendingRequest \<Rightarrow> bool" where
  "request_ok r \<longleftrightarrow>
     (request_delivery r = replied \<longleftrightarrow> result_blocks r \<noteq> [] \<or> answered r) \<and>
     (answered r \<longleftrightarrow> complete r \<and> result_error r = None) \<and> (\<not> complete r \<longrightarrow> result_error r = None) \<and> sent r \<le> length (frame r)"

definition queue_ok :: "Connection \<Rightarrow> bool" where
  "queue_ok c \<longleftrightarrow>
     (\<exists>k \<le> length (requests c). pending_requests c = [k..<length (requests c)]) \<and>
     (\<forall>i < length (requests c). complete (requests c ! i) \<longleftrightarrow> i \<notin> set (pending_requests c)) \<and>
     (is_closing c \<or> fatal_error c \<noteq> None \<longrightarrow> pending_requests c = []) \<and>
     (\<forall>i < length (requests c). request_ok (requests c ! i))"

text \<open>What everybody but its own caller may do to a request.\<close>

definition evolves :: "PendingRequest list \<Rightarrow> PendingRequest list \<Rightarrow> bool" where
  "evolves rs rs' \<longleftrightarrow> length rs' = length rs \<and>
     (\<forall>i < length rs. owner (rs' ! i) = owner (rs ! i) \<and> frame (rs' ! i) = frame (rs ! i) \<and> sent (rs' ! i) = sent (rs ! i) \<and>
        (complete (rs ! i) \<longrightarrow> rs' ! i = rs ! i) \<and>
        (request_delivery (rs' ! i) = request_delivery (rs ! i) \<or> request_delivery (rs' ! i) = replied))"

fun phase_ok :: "PendingRequest list \<Rightarrow> nat \<Rightarrow> Caller \<Rightarrow> bool" where
  "phase_ok rs w (Acquiring _) = True"
| "phase_ok rs w (Checking i) = (Suc i = length rs \<and> owner (rs ! i) = w \<and> told (rs ! i))"
| "phase_ok rs w (Polling i) = (Suc i = length rs \<and> owner (rs ! i) = w \<and> told (rs ! i))"
| "phase_ok rs w (Wrote i) = (Suc i = length rs \<and> owner (rs ! i) = w \<and> 0 < sent (rs ! i))"
| "phase_ok rs w (WriteFailed i _) = (Suc i = length rs \<and> owner (rs ! i) = w \<and> told (rs ! i))"
| "phase_ok rs w (Waiting i _) = (i < length rs \<and> owner (rs ! i) = w \<and> told (rs ! i))"
| "phase_ok rs w (Poisoning i) = (i < length rs \<and> owner (rs ! i) = w \<and> told (rs ! i) \<and> complete (rs ! i))"
| "phase_ok rs w (Signalling i) = (i < length rs \<and> owner (rs ! i) = w \<and> told (rs ! i) \<and> complete (rs ! i))"
| "phase_ok rs w (Collecting i) = (i < length rs \<and> owner (rs ! i) = w \<and> told (rs ! i) \<and> complete (rs ! i))"
| "phase_ok rs w (Returned None r) =
     (blocks r = [] \<and> (\<exists>e. connection_error r = Some e \<and> error_delivery e = not_started))"
| "phase_ok rs w (Returned (Some i) r) = (i < length rs \<and> owner (rs ! i) = w \<and> told (rs ! i) \<and> complete (rs ! i) \<and>
     blocks r = result_blocks (rs ! i) \<and> connection_error r = result_error (rs ! i) \<and>
     (\<forall>e. connection_error r = Some e \<longrightarrow> error_delivery e = request_delivery (rs ! i)))"

definition callers_ok :: "Connection \<Rightarrow> bool" where
  "callers_ok c \<longleftrightarrow> (\<forall>w < length (callers c). phase_ok (requests c) w (callers c ! w))"

lemma request_evolves_refl [simp]: "evolves rs rs"
  by (simp add: evolves_def)

lemma evolves_progress: "evolves rs rs' \<Longrightarrow> i < length rs \<Longrightarrow> told (rs ! i) \<Longrightarrow> told (rs' ! i)"
  by (auto simp: evolves_def told_def progress_of_def)

lemma phase_ok_evolves: "evolves rs rs' \<Longrightarrow> phase_ok rs w s \<Longrightarrow> phase_ok rs' w s"
proof (induction rs w s rule: phase_ok.induct)
  case (11 rs w i r)
  hence i: "i < length rs" "rs' ! i = rs ! i" "length rs' = length rs" by (auto simp: evolves_def)
  thus ?case using 11 by simp
qed (auto simp: evolves_progress, auto simp: evolves_def)

lemma callers_ok_evolves:
  "callers_ok c \<Longrightarrow> evolves (requests c) (requests c') \<Longrightarrow> callers c' = callers c \<Longrightarrow> callers_ok c'"
  by (auto simp: callers_ok_def intro: phase_ok_evolves)

lemma callers_ok_set:
  assumes "callers_ok c" "evolves (requests c) (requests c')" "callers c' = (callers c)[w := s]" "w < length (callers c)"
    "phase_ok (requests c') w s"
  shows "callers_ok c'"
  using assms by (auto simp: callers_ok_def nth_list_update intro: phase_ok_evolves)

lemma length_update_requests [simp]: "length (update_requests f ids rs) = length rs"
  by (simp add: update_requests_def)

lemma nth_update_requests [simp]:
  "i < length rs \<Longrightarrow> update_requests f ids rs ! i = (if i \<in> set ids then f (rs ! i) else rs ! i)"
  by (simp add: update_requests_def)

lemma fail_locked_fields [simp]:
  "callers (fail_locked e c) = callers c" "wire (fail_locked e c) = wire c" "newline_sent (fail_locked e c) = newline_sent c"
  "partial_command_frame (fail_locked e c) = partial_command_frame c" "input_open (fail_locked e c) = input_open c"
  "is_closing (fail_locked e c) = is_closing c" "pending_requests (fail_locked e c) = []"
  "fatal_error (fail_locked e c) \<noteq> None" "length (requests (fail_locked e c)) = length (requests c)"
  "reader (fail_locked e c) = reader c" "closer (fail_locked e c) = closer c" "waiter (fail_locked e c) = waiter c"
  "reaped (fail_locked e c) = reaped c" "reader_done (fail_locked e c) = reader_done c"
  "shutdown_complete (fail_locked e c) = shutdown_complete c" "signals (fail_locked e c) = signals c"
  "os_reaped (fail_locked e c) = os_reaped c" "saw_exit (fail_locked e c) = saw_exit c" "is_ready (fail_locked e c) = is_ready c"
  "startup_seen (fail_locked e c) = startup_seen c"
  by (auto simp: fail_locked_def Let_def)

lemma complete_fail [simp]: "complete (fail_request e r)" and complete_shut [simp]: "complete (shut_request r)"
  by (auto simp: fail_request_def shut_request_def)

lemma settled_requests:
  assumes q: "queue_ok c" and f: "\<And>r. complete (f r)"
    "\<And>r. owner (f r) = owner r \<and> frame (f r) = frame r \<and> sent (f r) = sent r \<and> request_delivery (f r) = request_delivery r"
    "\<And>r. request_ok r \<Longrightarrow> \<not> complete r \<Longrightarrow> request_ok (f r)"
    and c': "requests c' = update_requests f (pending_requests c) (requests c)" "pending_requests c' = []"
  shows "queue_ok c' \<and> evolves (requests c) (requests c')"
  using assms by (auto simp: queue_ok_def evolves_def)

lemma fail_locked_ok:
  assumes "queue_ok c"
  shows "queue_ok (fail_locked e c)" "evolves (requests c) (requests (fail_locked e c))"
proof -
  obtain e' where "requests (fail_locked e c) = update_requests (fail_request e') (pending_requests c) (requests c)"
    by (simp add: fail_locked_def Let_def)
  from settled_requests [OF assms, of "fail_request e'" "fail_locked e c"] this
  have "queue_ok (fail_locked e c) \<and> evolves (requests c) (requests (fail_locked e c))"
    by (simp add: fail_request_def request_ok_def)
  thus "queue_ok (fail_locked e c)" "evolves (requests c) (requests (fail_locked e c))" by auto
qed

lemma begin_shutdown_ok:
  assumes "queue_ok c"
  shows "queue_ok (begin_shutdown c)" "evolves (requests c) (requests (begin_shutdown c))"
proof -
  have "queue_ok (begin_shutdown c) \<and> evolves (requests c) (requests (begin_shutdown c))"
  proof (cases "shutdown_complete c")
    case True thus ?thesis using assms by (simp add: begin_shutdown_def)
  next
    case False
    show ?thesis
      by (rule settled_requests [OF assms, of shut_request])
        (use False in \<open>auto simp: begin_shutdown_def shut_request_def request_ok_def\<close>)
  qed
  thus "queue_ok (begin_shutdown c)" "evolves (requests c) (requests (begin_shutdown c))" by auto
qed

text \<open>The queue only depends on some members.\<close>

lemma queue_ok_cong:
  "queue_ok c \<Longrightarrow> requests c' = requests c \<Longrightarrow> pending_requests c' = pending_requests c \<Longrightarrow>
     (is_closing c' \<or> fatal_error c' \<noteq> None \<Longrightarrow> is_closing c \<or> fatal_error c \<noteq> None \<or> pending_requests c = []) \<Longrightarrow> queue_ok c'"
  by (auto simp: queue_ok_def)

lemma front_request:
  assumes "queue_ok c" "pending_requests c = i # rest"
  shows "i < length (requests c)" "rest = [Suc i..<length (requests c)]" "request_ok (requests c ! i)"
    "\<not> complete (requests c ! i)" "\<not> is_closing c" "fatal_error c = None"
proof -
  obtain k where k: "i # rest = [k..<length (requests c)]" using assms by (auto simp: queue_ok_def)
  have "k < length (requests c)" using k by (cases "k < length (requests c)") auto
  hence "[k..<length (requests c)] = k # [Suc k..<length (requests c)]" by (rule upt_conv_Cons)
  thus "i < length (requests c)" "rest = [Suc i..<length (requests c)]" using k \<open>k < length (requests c)\<close> by auto
  thus "request_ok (requests c ! i)" "\<not> complete (requests c ! i)" "\<not> is_closing c" "fatal_error c = None"
    using assms by (auto simp: queue_ok_def)
qed

lemma front_update:
  assumes q: "queue_ok c" and p: "pending_requests c = i # rest"
    and r: "request_ok r" "owner r = owner (requests c ! i)" "frame r = frame (requests c ! i)" "sent r = sent (requests c ! i)"
      "request_delivery r = replied"
    and c': "requests c' = (requests c)[i := r]" "pending_requests c' = (if complete r then rest else i # rest)"
      "is_closing c' = is_closing c" "fatal_error c' = fatal_error c"
  shows "queue_ok c' \<and> evolves (requests c) (requests c')"
proof
  note f = front_request [OF q p]
  have comp: "complete (requests c ! j) \<longleftrightarrow> j \<notin> set (i # rest)" if "j < length (requests c)" for j
    using q that unfolding queue_ok_def p by blast
  have pend: "\<exists>k \<le> length (requests c'). pending_requests c' = [k..<length (requests c')]"
  proof (cases "complete r")
    case True thus ?thesis using f(1,2) c'(1,2) by (intro exI [of _ "Suc i"]) simp
  next
    case False thus ?thesis using f(1,2) c'(1,2) by (intro exI [of _ i]) (simp add: upt_conv_Cons)
  qed
  have "complete (requests c' ! j) \<longleftrightarrow> j \<notin> set (pending_requests c')" if "j < length (requests c)" for j
    using comp [OF that] that f(2) c'(1,2) by (cases "j = i") (auto simp: nth_list_update)
  moreover have "request_ok (requests c' ! j)" if "j < length (requests c)" for j
    using q r(1) that c'(1) by (cases "j = i") (auto simp: queue_ok_def)
  ultimately show "queue_ok c'" using pend f(5,6) c' by (auto simp: queue_ok_def)
  show "evolves (requests c) (requests c')"
    unfolding evolves_def c'(1)
  proof (intro conjI allI impI; simp?)
    fix j assume "j < length (requests c)"
    show "owner ((requests c)[i := r] ! j) = owner (requests c ! j)" "frame ((requests c)[i := r] ! j) = frame (requests c ! j)"
      "sent ((requests c)[i := r] ! j) = sent (requests c ! j)"
      "complete (requests c ! j) \<Longrightarrow> (requests c)[i := r] ! j = requests c ! j"
      "request_delivery ((requests c)[i := r] ! j) = request_delivery (requests c ! j) \<or>
        request_delivery ((requests c)[i := r] ! j) = replied"
      using r f(1,4) by (cases "j = i"; simp)+
  qed
qed

lemma accept_block_ok:
  assumes q: "queue_ok c"
  shows "queue_ok (accept_block b c) \<and> evolves (requests c) (requests (accept_block b c))"
proof (cases "pending_requests c")
  case Nil
  thus ?thesis using fail_locked_ok [OF q] q by (simp add: accept_block_def)
next
  case (Cons i rest)
  note r = front_request [OF q Cons]
  let ?r = "requests c ! i"
  show ?thesis
  proof (cases "is_boundary b (boundary ?r)")
    case True
    show ?thesis
      by (rule front_update [OF q Cons, of "?r\<lparr>request_delivery := replied, complete := True, answered := True\<rparr>"])
        (use r Cons True in \<open>auto simp: accept_block_def request_ok_def\<close>)
  next
    case False
    show ?thesis
      by (rule front_update [OF q Cons, of "?r\<lparr>request_delivery := replied, result_blocks := result_blocks ?r @ [b]\<rparr>"])
        (use r Cons False in \<open>auto simp: accept_block_def request_ok_def\<close>)
  qed
qed

lemma accept_event_ok:
  assumes q: "queue_ok c"
  shows "queue_ok (accept_event ev c) \<and> evolves (requests c) (requests (accept_event ev c))"
proof -
  have s: "queue_ok (c\<lparr>startup_seen := True\<rparr>)" "queue_ok (c\<lparr>startup_seen := True, is_ready := True\<rparr>)"
    "queue_ok (c\<lparr>saw_exit := True, notifications := x\<rparr>)" "queue_ok (c\<lparr>notifications := x\<rparr>)" for x
    using q by (auto elim: queue_ok_cong)
  show ?thesis
    using fail_locked_ok [OF q] fail_locked_ok [OF s(1)] accept_block_ok [OF q] s q
    by (auto simp: accept_event_def Let_def split: Event.split option.split)
qed

lemma request_evolves_trans: "evolves a b \<Longrightarrow> evolves b c \<Longrightarrow> evolves a c"
  unfolding evolves_def by metis

text \<open>What the reader, the waiter and a shutdown keep.\<close>

definition outsider :: "Connection \<Rightarrow> Connection \<Rightarrow> bool" where
  "outsider c c' \<longleftrightarrow> queue_ok c' \<and> evolves (requests c) (requests c') \<and> callers c' = callers c \<and>
     (is_closing c \<longrightarrow> is_closing c') \<and> partial_command_frame c' = partial_command_frame c \<and> (input_open c' \<longrightarrow> input_open c)"

lemma outsider_same:
  "queue_ok c \<Longrightarrow> requests c' = requests c \<Longrightarrow> pending_requests c' = pending_requests c \<Longrightarrow> callers c' = callers c \<Longrightarrow>
     is_closing c' = is_closing c \<Longrightarrow> fatal_error c' = fatal_error c \<Longrightarrow> partial_command_frame c' = partial_command_frame c \<Longrightarrow>
     (input_open c' \<Longrightarrow> input_open c) \<Longrightarrow> outsider c c'"
  by (auto simp: outsider_def queue_ok_def)

lemma outsider_fail: "queue_ok c \<Longrightarrow> outsider c (fail_locked e c)"
  using fail_locked_ok [of c e] by (simp add: outsider_def)

lemma outsider_trans: "outsider c d \<Longrightarrow> outsider d e \<Longrightarrow> outsider c e"
  by (auto simp: outsider_def intro: request_evolves_trans)

lemma outsider_then:
  "outsider c d \<Longrightarrow> requests c' = requests d \<Longrightarrow> pending_requests c' = pending_requests d \<Longrightarrow> callers c' = callers d \<Longrightarrow>
     is_closing c' = is_closing d \<Longrightarrow> fatal_error c' = fatal_error d \<Longrightarrow>
     partial_command_frame c' = partial_command_frame d \<Longrightarrow> (input_open c' \<Longrightarrow> input_open d) \<Longrightarrow> outsider c c'"
  by (rule outsider_trans, assumption, rule outsider_same) (auto simp: outsider_def)

lemma accept_block_fields [simp]:
  "callers (accept_block b c) = callers c"
  "is_closing (accept_block b c) = is_closing c"
  "partial_command_frame (accept_block b c) = partial_command_frame c"
  "input_open (accept_block b c) = input_open c"
  "wire (accept_block b c) = wire c"
  "newline_sent (accept_block b c) = newline_sent c"
  "reader (accept_block b c) = reader c"
  "closer (accept_block b c) = closer c"
  "reaped (accept_block b c) = reaped c"
  "reader_done (accept_block b c) = reader_done c"
  "shutdown_complete (accept_block b c) = shutdown_complete c"
  by (simp_all add: accept_block_def split: list.split)

lemma accept_event_fields [simp]:
  "callers (accept_event ev c) = callers c"
  "is_closing (accept_event ev c) = is_closing c"
  "partial_command_frame (accept_event ev c) = partial_command_frame c"
  "input_open (accept_event ev c) = input_open c"
  "wire (accept_event ev c) = wire c"
  "newline_sent (accept_event ev c) = newline_sent c"
  "reader (accept_event ev c) = reader c"
  "closer (accept_event ev c) = closer c"
  "reaped (accept_event ev c) = reaped c"
  "reader_done (accept_event ev c) = reader_done c"
  "shutdown_complete (accept_event ev c) = shutdown_complete c"
  by (cases ev; simp add: accept_event_def Let_def split: option.split)+

lemma outsider_end_reading:
  assumes q: "queue_ok c"
  shows "outsider c (end_reading c)"
proof -
  let ?d = "if \<not> saw_exit c \<and> fatal_error c = None then fail_locked (protocol_error ''control client exited without %exit'') c else c"
  have d: "outsider c ?d" using outsider_fail [OF q] outsider_same [OF q] by simp
  hence qd: "queue_ok ?d" by (simp add: outsider_def)
  let ?e = "if pending_requests ?d \<noteq> [] then fail_locked (protocol_error ''control client exited with pending requests'') ?d else ?d"
  have e: "outsider c ?e" using d outsider_trans [OF d outsider_fail [OF qd]] by simp
  hence qe: "queue_ok ?e" by (simp add: outsider_def)
  have "outsider ?e (?e\<lparr>is_closing := True, reader := ReaderClosesInput\<rparr>)" if "fatal_error ?e \<noteq> None"
    using qe that by (simp add: outsider_def queue_ok_def)
  moreover have "outsider ?e (?e\<lparr>reader := ReaderFinishes\<rparr>)" using qe by (intro outsider_same) simp_all
  moreover have "end_reading c = (if fatal_error ?e \<noteq> None then ?e\<lparr>is_closing := True, reader := ReaderClosesInput\<rparr> else ?e\<lparr>reader := ReaderFinishes\<rparr>)"
    unfolding end_reading_def Let_def by simp
  ultimately show ?thesis using outsider_trans [OF e] by metis
qed

lemma signal_fields [simp]:
  "requests (signal_child_locked s c) = requests c" "pending_requests (signal_child_locked s c) = pending_requests c"
  "callers (signal_child_locked s c) = callers c" "is_closing (signal_child_locked s c) = is_closing c"
  "fatal_error (signal_child_locked s c) = fatal_error c"
  "partial_command_frame (signal_child_locked s c) = partial_command_frame c"
  "input_open (signal_child_locked s c) = input_open c" "wire (signal_child_locked s c) = wire c"
  "newline_sent (signal_child_locked s c) = newline_sent c" "reader (signal_child_locked s c) = reader c"
  "reader_done (signal_child_locked s c) = reader_done c" "reaped (signal_child_locked s c) = reaped c"
  "shutdown_complete (signal_child_locked s c) = shutdown_complete c"
  by (simp_all add: signal_child_locked_def)

lemma outsider_reader: "reader_step c c' \<Longrightarrow> queue_ok c \<Longrightarrow> outsider c c'"
proof (induction rule: reader_step.induct)
  case (event c ev)
  thus ?case using accept_event_ok [of c ev] by (simp add: outsider_def)
next
  case (stream_failed c e) thus ?case by (simp add: outsider_fail)
next
  case (ended c) thus ?case by (simp add: outsider_end_reading)
qed (rule outsider_same; simp)+

lemma outsider_waiter: "waiter_step c c' \<Longrightarrow> queue_ok c \<Longrightarrow> outsider c c'"
proof (induction rule: waiter_step.induct)
  case (wait_failed c e) show ?case by (rule outsider_then [OF outsider_fail [OF wait_failed(2)]]) simp_all
next
  case (reap_failed c e) show ?case by (rule outsider_then [OF outsider_fail [OF reap_failed(2)]]) simp_all
qed (rule outsider_same; simp)+

lemma outsider_shutdown: "shutdown_step c c' \<Longrightarrow> queue_ok c \<Longrightarrow> outsider c c'"
proof (induction rule: shutdown_step.induct)
  case (begins c)
  thus ?case using begin_shutdown_ok [of c] by (simp add: outsider_def begin_shutdown_def)
next
  case (writes c took) thus ?case by (intro outsider_same) (simp_all add: close_input_def Let_def)
next
  case (joins c) thus ?case by (intro outsider_same) (simp_all add: end_shutdown_def Let_def split: if_splits)
qed (rule outsider_same; simp)+

section \<open>Calls keep the invariants\<close>

lemma phase_ok_own:
  assumes "phase_ok rs v s" "length rs' = length rs" "\<And>j. j < length rs \<Longrightarrow> owner (rs ! j) = v \<Longrightarrow> rs' ! j = rs ! j"
  shows "phase_ok rs' v s"
  using assms by (cases "(rs, v, s)" rule: phase_ok.cases) auto

lemma other_owner:
  assumes "callers_ok c" "v < length (callers c)" "v \<noteq> w" "owner (requests c ! i) = w"
  shows "phase_ok ((requests c)[i := r]) v (callers c ! v)"
proof (rule phase_ok_own [of "requests c"])
  show "phase_ok (requests c) v (callers c ! v)" using assms by (simp add: callers_ok_def)
  show "(requests c)[i := r] ! j = requests c ! j" if "owner (requests c ! j) = v" for j using that assms by (cases "j = i") auto
qed simp

lemma own_request:
  assumes c: "queue_ok c" "callers_ok c" and w: "w < length (callers c)" and i: "i < length (requests c)" "owner (requests c ! i) = w"
    and r: "request_ok r" "owner r = w" "complete r = complete (requests c ! i)" and s: "phase_ok ((requests c)[i := r]) w s"
    and c': "requests c' = (requests c)[i := r]" "callers c' = (callers c)[w := s]" "pending_requests c' = pending_requests c"
      "is_closing c' = is_closing c" "fatal_error c' = fatal_error c"
  shows "queue_ok c' \<and> callers_ok c'"
proof
  have "complete (requests c' ! j) = complete (requests c ! j)" for j using r(3) c'(1) i(1) by (cases "j = i") auto
  moreover have "request_ok (requests c' ! j)" if "j < length (requests c)" for j
    using c(1) r(1) that c'(1) by (cases "j = i") (auto simp: queue_ok_def)
  ultimately show "queue_ok c'" using c(1) c' by (simp add: queue_ok_def)
  have "phase_ok (requests c') v (callers c' ! v)" if "v < length (callers c)" for v
    using other_owner [OF c(2) that, of w i r] s c'(1,2) i(2) that by (cases "v = w") auto
  thus "callers_ok c'" using c'(2) by (simp add: callers_ok_def)
qed

lemma caller_only:
  assumes "queue_ok c" "callers_ok c" "w < length (callers c)" "phase_ok (requests c) w s"
    "requests c' = requests c" "callers c' = (callers c)[w := s]" "pending_requests c' = pending_requests c"
    "is_closing c' = is_closing c" "fatal_error c' = fatal_error c"
  shows "queue_ok c' \<and> callers_ok c'"
  using assms callers_ok_set [of c c' w s] by (auto simp: queue_ok_def)

lemma fail_closing: "fail_locked e (c\<lparr>is_closing := True\<rparr>) = (fail_locked e c)\<lparr>is_closing := True\<rparr>"
  by (simp add: fail_locked_def Let_def)

lemma caller_fails:
  assumes c: "queue_ok c" "callers_ok c" and w: "w < length (callers c)"
    and i: "i < length (requests c)" "owner (requests c ! i) = w" "told (requests c ! i)" and s: "s = Waiting i b \<or> s = Poisoning i"
  shows "queue_ok (set_caller w s (fail_locked e (c\<lparr>is_closing := True\<rparr>))) \<and>
    callers_ok (set_caller w s (fail_locked e (c\<lparr>is_closing := True\<rparr>)))"
proof -
  let ?f = "fail_locked e c" and ?d = "set_caller w s (fail_locked e (c\<lparr>is_closing := True\<rparr>))"
  note f = fail_locked_ok [OF c(1), of e]
  have "complete (requests ?f ! i)" "owner (requests ?f ! i) = w" "told (requests ?f ! i)"
    using f i evolves_progress [OF f(2) i(1,3)] by (auto simp: queue_ok_def evolves_def)
  hence "phase_ok (requests ?f) w s" using i(1) s by auto
  hence "callers_ok ?d" using f(2) c(2) w by (intro callers_ok_set [of c ?d]) (simp_all add: fail_closing)
  moreover have "queue_ok ?d" using f(1) by (simp add: fail_closing queue_ok_def)
  ultimately show ?thesis by simp
qed

lemma phase_ok_append: "\<not> writing s \<Longrightarrow> phase_ok rs v s \<Longrightarrow> phase_ok (rs @ [r]) v s"
  by (cases "(rs, v, s)" rule: phase_ok.cases) (auto simp: nth_append)

lemma prepare_execute_refusal: "prepare_execute commands daemon late = Inl e \<Longrightarrow> error_delivery e = not_started"
proof -
  have "render_request commands = Inl e \<Longrightarrow> error_delivery e = not_started"
  proof (cases "sendable commands")
    case True
    then obtain c cs a as where "commands = c # cs" "c = a # as" by (auto simp: sendable_def neq_Nil_conv)
    thus "render_request commands = Inl e \<Longrightarrow> error_delivery e = not_started" using render_request_line [of c cs a as] True by simp
  next
    case False
    thus "render_request commands = Inl e \<Longrightarrow> error_delivery e = not_started"
      using render_operations_error [of commands "[]" True]
      by (cases "commands = []") (fastforce simp: render_request_def sendable_iff not_started_error_def)+
  qed
  thus "prepare_execute commands daemon late = Inl e \<Longrightarrow> error_delivery e = not_started"
    using refuse_group_delivery [of commands daemon]
    by (auto simp: prepare_execute_def not_started_error_def split: option.splits sum.splits if_splits)
qed

lemma register_request_ok:
  assumes c: "queue_ok c" "callers_ok c" and w: "w < length (callers c)" and m: "write_mutex_free c"
  shows "queue_ok (register w line c) \<and> callers_ok (register w line c)"
proof (cases "fatal_error c = None \<and> is_ready c \<and> \<not> is_closing c \<and> \<not> shutdown_complete c")
  case False
  thus ?thesis
    using c w by (intro caller_only [OF c w, where s = "case fatal_error c of Some e \<Rightarrow> refused (e\<lparr>error_delivery := not_started\<rparr>)
      | None \<Rightarrow> refused (not_started_error ''control connection is not accepting requests'')"])
      (auto simp: register_def refused_def not_started_error_def Let_def split: option.splits)
next
  case True
  let ?n = "length (requests c)" and ?name = "boundary_name (boundary_seed c) (next_boundary c)"
  let ?r = "\<lparr>result_blocks = [], result_error = None, boundary = boundary_reply ?name, request_delivery = not_started,
    complete = False, owner = w, frame = line @ ?name @ [CHR 0x0A], sent = 0, answered = False\<rparr>"
  let ?c = "register w line c"
  have rs: "requests ?c = requests c @ [?r]" "callers ?c = (callers c)[w := Checking ?n]" "pending_requests ?c = pending_requests c @ [?n]"
    "is_closing ?c = is_closing c" "fatal_error ?c = fatal_error c"
    using True by (simp_all add: register_def Let_def)
  have "told ?r" "request_ok ?r" by (simp_all add: told_def progress_of_def request_ok_def)
  have "phase_ok (requests ?c) v (callers ?c ! v)" if "v < length (callers c)" for v
  proof (cases "v = w")
    case True thus ?thesis using w rs(1,2) \<open>told ?r\<close> by simp
  next
    case False
    moreover have "\<not> writing (callers c ! v)" using m that by (simp add: write_mutex_free_def list_all_length)
    ultimately show ?thesis using c(2) that rs(1,2) phase_ok_append by (simp add: callers_ok_def)
  qed
  moreover obtain k where "k \<le> ?n" "pending_requests c = [k..<?n]" using c(1) by (auto simp: queue_ok_def)
  hence "\<exists>k \<le> length (requests ?c). pending_requests ?c = [k..<length (requests ?c)]"
    using rs(1,3) by (intro exI [of _ k]) simp
  moreover have "complete (requests ?c ! j) \<longleftrightarrow> j \<notin> set (pending_requests ?c)" if "j < Suc ?n" for j
    using that c(1) rs(1,3) by (cases "j = ?n") (auto simp: queue_ok_def nth_append)
  moreover have "request_ok (requests ?c ! j)" if "j < Suc ?n" for j
    using that c(1) rs(1) \<open>request_ok ?r\<close> by (cases "j = ?n") (auto simp: queue_ok_def nth_append)
  ultimately show ?thesis using True rs(1,2,4,5) by (simp add: queue_ok_def callers_ok_def)
qed

lemma caller_phase: "callers_ok c \<Longrightarrow> w < length (callers c) \<Longrightarrow> callers c ! w = s \<Longrightarrow> phase_ok (requests c) w s"
  by (auto simp: callers_ok_def)

lemma request_of_phase: "queue_ok c \<Longrightarrow> i < length (requests c) \<Longrightarrow> request_ok (requests c ! i)"
  by (simp add: queue_ok_def)

lemma request_ok_sent: "request_ok r \<Longrightarrow> sent r + k \<le> length (frame r) \<Longrightarrow> request_ok (r\<lparr>sent := sent r + k\<rparr>)"
  by (cases r) (simp add: request_ok_def)

lemma write_keeps:
  assumes c: "queue_ok c" "callers_ok c" and w: "w < length (callers c)" "callers c ! w = Polling i"
    and k: "k \<le> length (frame (requests c ! i)) - sent (requests c ! i)" "0 < k"
  shows "queue_ok (write_some w i k c) \<and> callers_ok (write_some w i k c)" (is ?goal)
proof -
  let ?r = "requests c ! i"
  have p: "Suc i = length (requests c)" "owner ?r = w" using caller_phase [OF c(2) w] by auto
  have i: "i < length (requests c)" using p(1) by simp
  have ok: "request_ok ?r" by (rule request_of_phase [OF c(1) i])
  hence "sent ?r \<le> length (frame ?r)" by (simp add: request_ok_def)
  hence "sent ?r + k \<le> length (frame ?r)" using k(1) by linarith
  hence "request_ok (?r\<lparr>sent := sent ?r + k\<rparr>)" by (rule request_ok_sent [OF ok])
  thus ?goal
    by (intro own_request [OF c w(1) i p(2), of "?r\<lparr>sent := sent ?r + k\<rparr>" "Wrote i"])
      (use p i k(2) in \<open>simp_all add: write_some_def Let_def\<close>)
qed

lemma progress_keeps:
  assumes c: "queue_ok c" "callers_ok c" and w: "w < length (callers c)" "callers c ! w = Wrote i"
  shows "queue_ok (advance_delivery w i c) \<and> callers_ok (advance_delivery w i c)" (is ?goal)
proof -
  let ?r = "requests c ! i"
  let ?q = "if request_delivery ?r = replied then ?r
    else ?r\<lparr>request_delivery := (if sent ?r \<noteq> length (frame ?r) then indeterminate else written)\<rparr>"
  have p: "Suc i = length (requests c)" "owner ?r = w" "0 < sent ?r" using caller_phase [OF c(2) w] by auto
  have ok: "request_ok ?r" using request_of_phase [OF c(1)] p(1) by auto
  hence "request_ok ?q" "told ?q" using p(3) by (auto simp: request_ok_def told_def progress_of_def)
  moreover have i: "i < length (requests c)" using p(1) by simp
  ultimately show ?goal
    by (intro own_request [OF c w(1) i p(2), of ?q "Checking i"])
      (use p i in \<open>simp_all add: advance_delivery_def Let_def\<close>)
qed

lemma give_up_keeps:
  assumes c: "queue_ok c" "callers_ok c" and w: "w < length (callers c)" "callers c ! w = WriteFailed i e"
  shows "queue_ok (give_up_writing w i e c) \<and> callers_ok (give_up_writing w i e c)" (is ?goal)
proof -
  have p: "Suc i = length (requests c)" "owner (requests c ! i) = w" "told (requests c ! i)"
    using caller_phase [OF c(2) w] by auto
  show ?goal
  proof (cases "is_closing c")
    case True
    thus ?thesis by (intro caller_only [OF c w(1), of "Waiting i False"]) (use p in \<open>simp_all add: give_up_writing_def\<close>)
  next
    case False
    thus ?thesis using caller_fails [OF c w(1), of i "Waiting i True" True e] p by (simp add: give_up_writing_def)
  qed
qed

lemma wait_keeps:
  assumes c: "queue_ok c" "callers_ok c" and w: "w < length (callers c)" "callers c ! w = Waiting i poison"
  shows "queue_ok (stop_waiting w i poison c) \<and> callers_ok (stop_waiting w i poison c)" (is ?goal)
proof -
  have p: "i < length (requests c)" "owner (requests c ! i) = w" "told (requests c ! i)"
    using caller_phase [OF c(2) w] by auto
  show ?goal
  proof (cases "complete (requests c ! i)")
    case True
    thus ?thesis
      by (intro caller_only [OF c w(1), of "if poison then Poisoning i else Collecting i"])
        (use p in \<open>simp_all add: stop_waiting_def\<close>)
  next
    case False
    thus ?thesis using caller_fails [OF c w(1), of i "Poisoning i" True] p by (simp add: stop_waiting_def)
  qed
qed

lemma collect_keeps:
  assumes c: "queue_ok c" "callers_ok c" and w: "w < length (callers c)" "callers c ! w = Collecting i"
  shows "queue_ok (collect w i c) \<and> callers_ok (collect w i c)" (is ?goal)
proof -
  let ?r = "requests c ! i"
  let ?q = "case result_error ?r of None \<Rightarrow> ?r | Some e \<Rightarrow> ?r\<lparr>result_error := Some (e\<lparr>error_delivery := request_delivery ?r\<rparr>)\<rparr>"
  have p: "i < length (requests c)" "owner ?r = w" "told ?r" "complete ?r" using caller_phase [OF c(2) w] by auto
  have q: "request_ok ?q" "owner ?q = w" "told ?q" "complete ?q" "request_delivery ?q = request_delivery ?r"
    "result_error ?q = Some e \<Longrightarrow> error_delivery e = request_delivery ?r" for e
    using request_of_phase [OF c(1) p(1)] p by (auto simp: request_ok_def told_def progress_of_def split: option.splits)
  show ?goal
    by (rule own_request [OF c w(1) p(1,2) q(1,2),
          of "Returned (Some i) \<lparr>blocks = result_blocks ?q, connection_error = result_error ?q\<rparr>"])
      (use p q in \<open>auto simp: collect_def Let_def\<close>)
qed

lemma caller_keeps: "caller_step c c' \<Longrightarrow> queue_ok c \<Longrightarrow> callers_ok c \<Longrightarrow> queue_ok c' \<and> callers_ok c'"
proof (induction rule: caller_step.induct)
  case (call c commands daemon late)
  let ?s = "case prepare_execute commands daemon late of Inl e \<Rightarrow> refused e | Inr line \<Rightarrow> Acquiring line"
  have "phase_ok (requests c) w ?s" for w
    using prepare_execute_refusal [of commands daemon late] by (auto simp: refused_def split: sum.splits)
  thus ?case using call by (auto simp: start_execute_def callers_ok_def queue_ok_def nth_append)
next
  case (lock_late w c line)
  show ?case by (rule caller_only [OF lock_late(3,4,1)]) (simp_all add: refused_def not_started_error_def)
next
  case (lock w c line) thus ?case by (simp add: register_request_ok)
next
  case (check w c i)
  note p = caller_phase [OF check(4,1,2)]
  show ?case
    by (rule caller_only [OF check(3,4,1), where s = "callers (check_write w i c) ! w"])
      (use p check(1) in \<open>auto simp: check_write_def Let_def\<close>)
next
  case (again w c i)
  show ?case by (rule caller_only [OF again(3,4,1)]) (use caller_phase [OF again(4,1,2)] in simp_all)
next
  case (broken w c i e)
  show ?case by (rule caller_only [OF broken(3,4,1)]) (use caller_phase [OF broken(4,1,2)] in simp_all)
next
  case (wrote w c i k) thus ?case by (simp add: write_keeps)
next
  case (progress w c i) thus ?case by (simp add: progress_keeps)
next
  case (give_up w c i e) thus ?case by (simp add: give_up_keeps)
next
  case (wait w c i poison) thus ?case by (simp add: wait_keeps)
next
  case (poison w c i)
  show ?case by (rule caller_only [OF poison(4,5,1), of "Signalling i"]) (use caller_phase [OF poison(5,1,2)] in simp_all)
next
  case (signal w c i)
  show ?case by (rule caller_only [OF signal(3,4,1), of "Collecting i"]) (use caller_phase [OF signal(4,1,2)] in simp_all)
next
  case (collect w c i) thus ?case by (simp add: collect_keeps)
qed

interpretation connections: transition_system "\<lambda>c. \<exists>seed. c = new_connection seed" connection_step connection_reachable
proof
  show "connection_reachable c \<Longrightarrow> (\<And>c. \<exists>seed. c = new_connection seed \<Longrightarrow> P c) \<Longrightarrow>
      (\<And>c c'. connection_reachable c \<Longrightarrow> P c \<Longrightarrow> connection_step c c' \<Longrightarrow> P c') \<Longrightarrow> P c" for P c
    by (rule connection_reachable.induct) blast+
qed (auto intro: connection_reachable.intros)

lemma outsider_callers: "outsider c c' \<Longrightarrow> callers_ok c \<Longrightarrow> queue_ok c' \<and> callers_ok c'"
  using callers_ok_evolves [of c c'] by (simp add: outsider_def)

lemma step_keeps: "connection_step c c' \<Longrightarrow> queue_ok c \<and> callers_ok c \<Longrightarrow> queue_ok c' \<and> callers_ok c'"
proof (induction rule: connection_step.induct)
  case (by_caller c c') thus ?case using caller_keeps by blast
next
  case (by_reader c c') thus ?case using outsider_callers outsider_reader by blast
next
  case (by_waiter c c') thus ?case using outsider_callers outsider_waiter by blast
next
  case (by_shutdown c c') thus ?case using outsider_callers outsider_shutdown by blast
qed

lemma connection_sound: "connection_reachable c \<Longrightarrow> queue_ok c \<and> callers_ok c"
proof (erule connections.invariant)
  show "\<exists>seed. c = new_connection seed \<Longrightarrow> queue_ok c \<and> callers_ok c" for c
    by (auto simp: new_connection_def queue_ok_def callers_ok_def)
qed (rule step_keeps)

section \<open>What is on the wire\<close>

definition written_part :: "PendingRequest list \<Rightarrow> string" where
  "written_part rs = concat (map (\<lambda>r. take (sent r) (frame r)) rs)"

definition whole :: "PendingRequest \<Rightarrow> bool" where
  "whole r \<longleftrightarrow> sent r = length (frame r)"

definition cut_short :: "PendingRequest list \<Rightarrow> bool" where
  "cut_short rs \<longleftrightarrow> rs \<noteq> [] \<and> 0 < sent (last rs) \<and> \<not> whole (last rs)"

fun unrecorded :: "Caller \<Rightarrow> bool" where
  "unrecorded (Wrote _) = True"
| "unrecorded _ = False"

definition wire_ok :: "Connection \<Rightarrow> bool" where
  "wire_ok c \<longleftrightarrow>
     wire c = written_part (requests c) @ (if newline_sent c then [CHR 0x0A] else []) \<and>
     (\<forall>i. Suc i < length (requests c) \<longrightarrow> whole (requests c ! i)) \<and>
     (newline_sent c \<longrightarrow> \<not> input_open c \<and> \<not> cut_short (requests c)) \<and>
     (requests c = [] \<or> whole (last (requests c)) \<or> is_closing c \<or> (\<exists>s \<in> set (callers c). writing s)) \<and>
     ((\<exists>s \<in> set (callers c). unrecorded s) \<or> (partial_command_frame c \<longleftrightarrow> cut_short (requests c)))"

lemma wire_okI:
  assumes "wire c = written_part (requests c) @ (if newline_sent c then [CHR 0x0A] else [])"
    "\<And>i. Suc i < length (requests c) \<Longrightarrow> whole (requests c ! i)"
    "newline_sent c \<Longrightarrow> \<not> input_open c \<and> \<not> cut_short (requests c)"
    "requests c = [] \<or> whole (last (requests c)) \<or> is_closing c \<or> (\<exists>s \<in> set (callers c). writing s)"
    "(\<exists>s \<in> set (callers c). unrecorded s) \<or> (partial_command_frame c \<longleftrightarrow> cut_short (requests c))"
  shows "wire_ok c"
  using assms by (simp add: wire_ok_def)

lemma evolves_shape:
  assumes "evolves rs rs'"
  shows "map sent rs' = map sent rs" "map frame rs' = map frame rs"
  using assms by (auto simp: evolves_def intro!: nth_equalityI)

lemma shape_wire:
  assumes s: "map sent rs' = map sent rs" "map frame rs' = map frame rs"
  shows "written_part rs' = written_part rs" "cut_short rs' = cut_short rs" "rs' = [] \<longleftrightarrow> rs = []"
    "rs \<noteq> [] \<Longrightarrow> whole (last rs') = whole (last rs)" "i < length rs \<Longrightarrow> whole (rs' ! i) = whole (rs ! i)" "length rs' = length rs"
proof -
  have z: "written_part xs = concat (map2 take (map sent xs) (map frame xs))" for xs
    by (induction xs) (simp_all add: written_part_def)
  show "written_part rs' = written_part rs" unfolding z s ..
  show l: "length rs' = length rs" using s(1) by (metis length_map)
  have n: "i < length rs \<Longrightarrow> sent (rs' ! i) = sent (rs ! i)" "i < length rs \<Longrightarrow> frame (rs' ! i) = frame (rs ! i)" for i
    using s l by (metis nth_map)+
  show w: "i < length rs \<Longrightarrow> whole (rs' ! i) = whole (rs ! i)" for i using n by (simp add: whole_def)
  show e: "rs' = [] \<longleftrightarrow> rs = []" using l by auto
  show wl: "rs \<noteq> [] \<Longrightarrow> whole (last rs') = whole (last rs)" using w [of "length rs - 1"] e l by (simp add: last_conv_nth)
  have "rs \<noteq> [] \<Longrightarrow> sent (last rs') = sent (last rs)" using n e l by (simp add: last_conv_nth)
  thus "cut_short rs' = cut_short rs" using e wl by (auto simp: cut_short_def)
qed

lemmas evolves_wire = shape_wire [OF evolves_shape]

lemma wire_outsider:
  assumes w: "wire_ok c" and o: "outsider c c'" and "wire c' = wire c" "newline_sent c' = newline_sent c"
  shows "wire_ok c'"
proof -
  have e: "evolves (requests c) (requests c')" using o by (simp add: outsider_def)
  have l: "length (requests c') = length (requests c)" using e by (simp add: evolves_def)
  show ?thesis
    using w o assms(3,4) evolves_wire [OF e e] l unfolding wire_ok_def outsider_def by (auto 0 3)
qed

lemma wire_step_outside: "reader_step c c' \<or> waiter_step c c' \<or> shutdown_step c c' \<Longrightarrow> queue_ok c \<Longrightarrow> wire_ok c \<Longrightarrow> wire_ok c'"
proof (elim disjE)
  assume a: "reader_step c c'" "queue_ok c" "wire_ok c"
  have "wire c' = wire c \<and> newline_sent c' = newline_sent c"
    using a(1) by (induction rule: reader_step.induct) (auto simp: end_reading_def Let_def)
  thus ?thesis using wire_outsider [OF a(3) outsider_reader [OF a(1,2)]] by simp
next
  assume a: "waiter_step c c'" "queue_ok c" "wire_ok c"
  have "wire c' = wire c \<and> newline_sent c' = newline_sent c"
    using a(1) by (induction rule: waiter_step.induct) auto
  thus ?thesis using wire_outsider [OF a(3) outsider_waiter [OF a(1,2)]] by simp
next
  assume a: "shutdown_step c c'" "queue_ok c" "wire_ok c"
  show ?thesis
  proof (cases "\<exists>took. closer c = ShutWrites \<and> write_mutex_free c \<and> c' = close_input took c")
    case True
    hence "\<not> (\<exists>s \<in> set (callers c). unrecorded s)"
      by (auto simp: write_mutex_free_def list_all_iff elim!: unrecorded.elims)
    hence p: "partial_command_frame c \<longleftrightarrow> cut_short (requests c)" using a(3) by (simp add: wire_ok_def)
    obtain took where c': "c' = close_input took c" using True by blast
    show ?thesis
    proof (cases "input_open c \<and> \<not> partial_command_frame c \<and> took")
      case taken: True
      hence "\<not> newline_sent c" using a(3) by (auto simp: wire_ok_def)
      thus ?thesis using a(3) p taken unfolding c' by (simp add: wire_ok_def close_input_def)
    next
      case False
      hence "c' = c\<lparr>input_open := False, closer := ShutTerminates\<rparr>" unfolding c' close_input_def Let_def by (simp only: if_False)
      thus ?thesis using a(3) by (simp add: wire_ok_def)
    qed
  next
    case False
    have "wire c' = wire c \<and> newline_sent c' = newline_sent c"
      using a(1) False by (cases rule: shutdown_step.cases) (auto simp: begin_shutdown_def end_shutdown_def Let_def)
    thus ?thesis using wire_outsider [OF a(3) outsider_shutdown [OF a(1,2)]] by simp
  qed
qed

text \<open>A move of a caller that writes nothing.\<close>

lemma wire_quiet:
  assumes w: "wire_ok c" and v: "v < length (callers c)" and e: "map sent (requests c') = map sent (requests c)" "map frame (requests c') = map frame (requests c)"
    and c': "callers c' = (callers c)[v := s]" "wire c' = wire c" "newline_sent c' = newline_sent c"
      "partial_command_frame c' = partial_command_frame c" "input_open c' \<Longrightarrow> input_open c" "is_closing c \<Longrightarrow> is_closing c'"
    and s: "\<not> unrecorded s" "\<not> unrecorded (callers c ! v)"
      "writing (callers c ! v) \<Longrightarrow> writing s \<or> is_closing c' \<or> requests c = [] \<or> whole (last (requests c))"
  shows "wire_ok c'"
proof -
  have l: "length (requests c') = length (requests c)" by (rule shape_wire(6) [OF e])
  have sub: "x \<in> set (callers c) \<Longrightarrow> x = callers c ! v \<or> x \<in> set (callers c')" for x
    unfolding c'(1) using v by (metis in_set_conv_nth length_list_update nth_list_update_neq)
  have sup: "x \<in> set (callers c') \<Longrightarrow> x = s \<or> x \<in> set (callers c)" for x
    unfolding c'(1) using set_update_subset_insert [of "callers c" v s] by auto
  have self: "s \<in> set (callers c')" unfolding c'(1) using v by (simp add: set_update_memI)
  have wr: "requests c = [] \<or> whole (last (requests c)) \<or> is_closing c' \<or> (\<exists>x \<in> set (callers c'). writing x)"
    using w sub self s(3) c'(6) unfolding wire_ok_def by metis
  have un: "(\<exists>x \<in> set (callers c). unrecorded x) \<Longrightarrow> (\<exists>x \<in> set (callers c'). unrecorded x)" using sub s(2) by metis
  show ?thesis
  proof (rule wire_okI)
    show "wire c' = written_part (requests c') @ (if newline_sent c' then [CHR 0x0A] else [])"
      using w c'(2,3) shape_wire(1) [OF e] by (simp add: wire_ok_def)
    show "whole (requests c' ! i)" if "Suc i < length (requests c')" for i
      using that w l shape_wire(5) [OF e, of i] by (simp add: wire_ok_def)
    show "\<not> input_open c' \<and> \<not> cut_short (requests c')" if "newline_sent c'"
      using that w c'(3,5) shape_wire(2) [OF e] by (auto simp: wire_ok_def)
    show "requests c' = [] \<or> whole (last (requests c')) \<or> is_closing c' \<or> (\<exists>s \<in> set (callers c'). writing s)"
      using wr shape_wire(3,4) [OF e] by blast
    show "(\<exists>s \<in> set (callers c'). unrecorded s) \<or> (partial_command_frame c' \<longleftrightarrow> cut_short (requests c'))"
      using w un c'(4) shape_wire(2) [OF e] by (auto simp: wire_ok_def)
  qed
qed

lemma written_part_last:
  "Suc i = length rs \<Longrightarrow> sent (rs ! i) + k \<le> length (frame (rs ! i)) \<Longrightarrow>
     written_part (rs[i := (rs ! i)\<lparr>sent := sent (rs ! i) + k\<rparr>]) = written_part rs @ take k (drop (sent (rs ! i)) (frame (rs ! i)))"
proof -
  assume a: "Suc i = length rs" "sent (rs ! i) + k \<le> length (frame (rs ! i))"
  then obtain xs r where rs: "rs = xs @ [r]" "i = length xs" by (metis append_butlast_last_id length_append_singleton length_butlast nat.inject list.size(3) nat.distinct(1))
  thus ?thesis using a by (simp add: written_part_def take_add)
qed

lemma wire_register:
  assumes w: "wire_ok c" and m: "write_mutex_free c" and v: "v < length (callers c)" "callers c ! v = Acquiring line"
  shows "wire_ok (register v line c)"
proof (cases "fatal_error c = None \<and> is_ready c \<and> \<not> is_closing c \<and> \<not> shutdown_complete c")
  case False
  have "\<not> unrecorded (refused e)" for e by (simp add: refused_def)
  thus ?thesis
    using False by (intro wire_quiet [OF w v(1), where s = "callers (register v line c) ! v"])
      (use v in \<open>auto simp: register_def Let_def split: option.splits\<close>)
next
  case True
  have none: "\<not> writing x \<and> \<not> unrecorded x" if "x \<in> set (callers c)" for x
    using m that by (cases x) (auto simp: write_mutex_free_def list_all_iff)
  have all: "whole (requests c ! i)" if "i < length (requests c)" for i
  proof (cases "Suc i < length (requests c)")
    case False
    hence "i = length (requests c) - 1" "requests c \<noteq> []" using that by auto
    thus ?thesis using w none True by (auto simp: wire_ok_def last_conv_nth)
  qed (use w in \<open>simp add: wire_ok_def\<close>)
  have "\<not> cut_short (requests c)" using all [of "length (requests c) - 1"] by (auto simp: cut_short_def last_conv_nth)
  hence p: "\<not> partial_command_frame c" using w none by (auto simp: wire_ok_def)
  obtain r where rs: "requests (register v line c) = requests c @ [r]" "sent r = 0"
    "callers (register v line c) = (callers c)[v := Checking (length (requests c))]"
    "wire (register v line c) = wire c" "newline_sent (register v line c) = newline_sent c"
    "partial_command_frame (register v line c) = partial_command_frame c" "input_open (register v line c) = input_open c"
    using True by (simp add: register_def Let_def)
  have "Checking (length (requests c)) \<in> set (callers (register v line c))" unfolding rs(3) using v(1) by (rule set_update_memI)
  hence wr: "\<exists>x \<in> set (callers (register v line c)). writing x" by force
  have "written_part (requests c @ [r]) = written_part (requests c)" "\<not> cut_short (requests c @ [r])"
    using rs(2) by (simp_all add: written_part_def cut_short_def)
  thus ?thesis unfolding wire_ok_def rs(1,4-7)
    using w all p wr rs(2) by (auto simp: wire_ok_def nth_append)
qed

lemma wire_write:
  assumes w: "wire_ok c" and v: "v < length (callers c)" and i: "Suc i = length (requests c)" and "input_open c"
    and k: "sent (requests c ! i) + k \<le> length (frame (requests c ! i))"
  shows "wire_ok (write_some v i k c)"
proof (rule wire_okI)
  let ?r = "requests c ! i" and ?d = "write_some v i k c"
  have d: "requests ?d = (requests c)[i := ?r\<lparr>sent := sent ?r + k\<rparr>]" "wire ?d = wire c @ take k (drop (sent ?r) (frame ?r))"
    "newline_sent ?d = newline_sent c" "callers ?d = (callers c)[v := Wrote i]" by (simp_all add: write_some_def Let_def)
  have n: "\<not> newline_sent c" using w assms(4) by (auto simp: wire_ok_def)
  show "wire ?d = written_part (requests ?d) @ (if newline_sent ?d then [CHR 0x0A] else [])"
    unfolding d written_part_last [OF i k] using w n by (simp add: wire_ok_def)
  show "whole (requests ?d ! j)" if "Suc j < length (requests ?d)" for j
    using that w i unfolding d(1) by (simp add: wire_ok_def)
  show "\<not> input_open ?d \<and> \<not> cut_short (requests ?d)" if "newline_sent ?d" using that n d(3) by simp
  have "Wrote i \<in> set (callers ?d)" unfolding d(4) using v by (rule set_update_memI)
  hence "(\<exists>s \<in> set (callers ?d). writing s) \<and> (\<exists>s \<in> set (callers ?d). unrecorded s)" by force
  thus "requests ?d = [] \<or> whole (last (requests ?d)) \<or> is_closing ?d \<or> (\<exists>s \<in> set (callers ?d). writing s)"
    "(\<exists>s \<in> set (callers ?d). unrecorded s) \<or> (partial_command_frame ?d \<longleftrightarrow> cut_short (requests ?d))" by auto
qed

lemma set_request_shape:
  assumes "sent r = sent (rs ! i)" "frame r = frame (rs ! i)"
  shows "map sent (rs[i := r]) = map sent rs" "map frame (rs[i := r]) = map frame rs"
  using assms by (simp_all add: map_update) (metis list_update_id list_update_beyond not_le_imp_less length_map nth_map)+

lemma wire_advance:
  assumes w: "wire_ok c" and v: "v < length (callers c)" and i: "Suc i = length (requests c)" and p: "0 < sent (requests c ! i)"
  shows "wire_ok (advance_delivery v i c)"
proof (rule wire_okI)
  let ?r = "requests c ! i" and ?d = "advance_delivery v i c"
  obtain q where d: "requests ?d = (requests c)[i := q]" "sent q = sent ?r" "frame q = frame ?r" "wire ?d = wire c"
    "newline_sent ?d = newline_sent c" "input_open ?d = input_open c" "callers ?d = (callers c)[v := Checking i]"
    "partial_command_frame ?d = (\<not> whole ?r)"
    by (simp add: advance_delivery_def Let_def whole_def)
  note shape = set_request_shape [OF d(2,3)]
  note s = shape_wire [OF shape, folded d(1)]
  show "wire ?d = written_part (requests ?d) @ (if newline_sent ?d then [CHR 0x0A] else [])"
    using w d(4,5) s(1) by (simp add: wire_ok_def)
  show "whole (requests ?d ! j)" if "Suc j < length (requests ?d)" for j
    using that w s(5) [of j] s(6) by (simp add: wire_ok_def)
  show "\<not> input_open ?d \<and> \<not> cut_short (requests ?d)" if "newline_sent ?d" using that w d(5,6) s(2) by (simp add: wire_ok_def)
  have "Checking i \<in> set (callers ?d)" unfolding d(7) using v by (rule set_update_memI)
  thus "requests ?d = [] \<or> whole (last (requests ?d)) \<or> is_closing ?d \<or> (\<exists>s \<in> set (callers ?d). writing s)" by force
  have "requests c \<noteq> []" "last (requests c) = ?r" using i by (auto simp: last_conv_nth) (metis diff_Suc_1 last_conv_nth list.size(3) nat.distinct(1))
  hence "cut_short (requests c) = (\<not> whole ?r)" using p by (simp add: cut_short_def)
  thus "(\<exists>s \<in> set (callers ?d). unrecorded s) \<or> (partial_command_frame ?d \<longleftrightarrow> cut_short (requests ?d))"
    using d(8) s(2) by simp
qed

lemma wire_move:
  assumes "wire_ok c" "v < length (callers c)" "callers c ! v = t" "\<not> unrecorded s" "\<not> unrecorded t"
    "writing t \<Longrightarrow> writing s \<or> requests c = [] \<or> whole (last (requests c))"
  shows "wire_ok (set_caller v s c)"
  by (rule wire_quiet [OF assms(1,2), where s = s]) (use assms in auto)

lemma wire_fails:
  assumes "queue_ok c" "wire_ok c" "v < length (callers c)" "callers c ! v = t" "\<not> unrecorded s" "\<not> unrecorded t"
  shows "wire_ok (set_caller v s (fail_locked e (c\<lparr>is_closing := True\<rparr>)))"
  by (rule wire_quiet [OF assms(2,3), where s = s])
    (use assms evolves_shape [OF fail_locked_ok(2) [OF assms(1)]] in \<open>auto simp: fail_closing\<close>)

lemma last_request: "Suc i = length rs \<Longrightarrow> last rs = rs ! i"
  by (metis diff_Suc_1 last_conv_nth list.size(3) nat.distinct(1))

lemma wire_caller: "caller_step c c' \<Longrightarrow> queue_ok c \<and> callers_ok c \<Longrightarrow> wire_ok c \<Longrightarrow> wire_ok c'"
proof (induction rule: caller_step.induct)
  case (call c commands daemon late)
  let ?s = "case prepare_execute commands daemon late of Inl e \<Rightarrow> refused e | Inr line \<Rightarrow> Acquiring line"
  have "\<not> unrecorded ?s" by (simp add: refused_def split: sum.split)
  thus ?case using call(2) by (auto simp: wire_ok_def start_execute_def)
next
  case (lock_late w c line) thus ?case by (intro wire_move) (auto simp: refused_def)
next
  case (lock w c line) thus ?case by (intro wire_register)
next
  case (check w c i)
  have i: "Suc i = length (requests c)" using caller_phase [of c w] check by fastforce
  show ?case
  proof (cases "sent (requests c ! i) = length (frame (requests c ! i))")
    case True
    hence "whole (last (requests c))" by (simp add: whole_def last_request [OF i])
    thus ?thesis using check True by (auto simp: check_write_def intro!: wire_move)
  next
    case False
    thus ?thesis using check by (auto simp: check_write_def Let_def intro!: wire_move)
  qed
next
  case (again w c i) thus ?case by (intro wire_move) auto
next
  case (broken w c i e) thus ?case by (intro wire_move) auto
next
  case (wrote w c i k)
  have i: "Suc i = length (requests c)" using caller_phase [of c w "Polling i"] wrote by simp
  hence "request_ok (requests c ! i)" using wrote(6) request_of_phase [of c i] by simp
  hence "sent (requests c ! i) \<le> length (frame (requests c ! i))" by (simp add: request_ok_def)
  hence "sent (requests c ! i) + k \<le> length (frame (requests c ! i))" using wrote(5) by linarith
  thus ?case using wire_write [OF wrote(7,1) i wrote(3)] by simp
next
  case (progress w c i)
  thus ?case using caller_phase [of c w "Wrote i"] by (simp add: wire_advance)
next
  case (give_up w c i e)
  show ?case
  proof (cases "is_closing c")
    case True
    thus ?thesis using give_up
      by (auto simp: give_up_writing_def intro!: wire_quiet [OF give_up(4,1), where s = "Waiting i False"])
  next
    case False
    thus ?thesis using wire_fails [of c w _ "Waiting i True" e] give_up by (simp add: give_up_writing_def)
  qed
next
  case (wait w c i b)
  show ?case
  proof (cases "complete (requests c ! i)")
    case True thus ?thesis using wait by (auto simp: stop_waiting_def intro!: wire_move)
  next
    case False thus ?thesis using wire_fails [of c w _ "Poisoning i"] wait by (simp add: stop_waiting_def)
  qed
next
  case (poison w c i)
  show ?case by (rule wire_quiet [OF poison(5,1), where s = "Signalling i"]) (use poison in auto)
next
  case (signal w c i)
  show ?case by (rule wire_quiet [OF signal(4,1), where s = "Collecting i"]) (use signal in auto)
next
  case (collect w c i)
  let ?r = "requests c ! i"
  let ?q = "case result_error ?r of None \<Rightarrow> ?r | Some e \<Rightarrow> ?r\<lparr>result_error := Some (e\<lparr>error_delivery := request_delivery ?r\<rparr>)\<rparr>"
  have q: "sent ?q = sent ?r" "frame ?q = frame ?r" by (simp_all split: option.split)
  show ?case
    by (rule wire_quiet [OF collect(4,1), where s = "Returned (Some i) \<lparr>blocks = result_blocks ?q, connection_error = result_error ?q\<rparr>"])
      (use collect set_request_shape [OF q] in \<open>auto simp: collect_def Let_def\<close>)
qed

lemma connection_wire: "connection_reachable c \<Longrightarrow> wire_ok c"
proof (erule connections.invariant_using [where J = "\<lambda>c. queue_ok c \<and> callers_ok c"])
  show "\<exists>seed. c = new_connection seed \<Longrightarrow> wire_ok c" for c
    by (auto simp: new_connection_def wire_ok_def written_part_def cut_short_def)
  show "wire_ok d" if "connection_step c d" "queue_ok c \<and> callers_ok c" "wire_ok c" for c d
    using that by (cases rule: connection_step.cases) (auto intro: wire_caller wire_step_outside)
qed (rule connection_sound)

section \<open>Replies\<close>

text \<open>What arrives for one request: reply blocks that are not its boundary, then its boundary.\<close>

definition reply_of :: "PendingRequest \<Rightarrow> ControlBlock list \<times> ControlBlock \<Rightarrow> bool" where
  "reply_of r = (\<lambda>(bs, last_block). (\<forall>b \<in> set (bs @ [last_block]). block_flags b = Some 1) \<and>
     (\<forall>b \<in> set bs. \<not> is_boundary b (boundary r)) \<and> is_boundary last_block (boundary r))"

definition reply_events :: "ControlBlock list \<times> ControlBlock \<Rightarrow> Event list" where
  "reply_events = (\<lambda>(bs, last_block). map Block (bs @ [last_block]))"

definition replied_with :: "ControlBlock list \<times> ControlBlock \<Rightarrow> PendingRequest \<Rightarrow> PendingRequest" where
  "replied_with reply r = r\<lparr>result_blocks := result_blocks r @ fst reply, request_delivery := replied, complete := True, answered := True\<rparr>"

lemma accept_reply_blocks:
  "startup_seen c \<Longrightarrow> pending_requests c = i # rest \<Longrightarrow> i < length (requests c) \<Longrightarrow> \<forall>b \<in> set bs. block_flags b = Some 1 \<Longrightarrow>
     \<forall>b \<in> set bs. \<not> is_boundary b (boundary (requests c ! i)) \<Longrightarrow> bs \<noteq> [] \<Longrightarrow>
     fold accept_event (map Block bs) c = set_request i ((requests c ! i)\<lparr>request_delivery := replied,
       result_blocks := result_blocks (requests c ! i) @ bs\<rparr>) c"
proof (induction bs arbitrary: c)
  case (Cons b bs)
  let ?r = "(requests c ! i)\<lparr>request_delivery := replied, result_blocks := result_blocks (requests c ! i) @ [b]\<rparr>"
  have one: "accept_event (Block b) c = set_request i ?r c"
    using Cons.prems by (simp add: accept_event_def accept_block_def)
  show ?case
  proof (cases "bs = []")
    case True thus ?thesis using one by simp
  next
    case False
    have "fold accept_event (map Block bs) (set_request i ?r c) =
        set_request i (?r\<lparr>request_delivery := replied, result_blocks := result_blocks ?r @ bs\<rparr>) (set_request i ?r c)"
      using Cons.IH [of "set_request i ?r c"] Cons.prems False by simp
    thus ?thesis using one by simp
  qed
qed simp

lemma accept_reply:
  assumes "startup_seen c" "pending_requests c = i # rest" "i < length (requests c)" "reply_of (requests c ! i) reply"
  shows "fold accept_event (reply_events reply) c =
    set_request i (replied_with reply (requests c ! i)) (c\<lparr>pending_requests := rest\<rparr>)"
proof -
  obtain bs l where r: "reply = (bs, l)" by (cases reply)
  have l: "accept_event (Block l) d = set_request i ((requests d ! i)\<lparr>request_delivery := replied, complete := True, answered := True\<rparr>)
      (d\<lparr>pending_requests := rest\<rparr>)"
    if "startup_seen d" "pending_requests d = i # rest" "boundary (requests d ! i) = boundary (requests c ! i)" for d
    using that assms(4) r by (simp add: accept_event_def accept_block_def reply_of_def)
  show ?thesis
  proof (cases "bs = []")
    case True
    thus ?thesis using l [of c] assms r by (simp add: reply_events_def replied_with_def)
  next
    case False
    let ?d = "set_request i ((requests c ! i)\<lparr>request_delivery := replied, result_blocks := result_blocks (requests c ! i) @ bs\<rparr>) c"
    have "fold accept_event (map Block bs) c = ?d"
      using accept_reply_blocks [OF assms(1-3), of bs] assms(4) False by (simp add: reply_of_def r)
    thus ?thesis using l [of ?d] assms(1-3) by (simp add: reply_events_def replied_with_def r)
  qed
qed

lemma accept_replies:
  "startup_seen c \<Longrightarrow> pending_requests c = [k..<length (requests c)] \<Longrightarrow> k + length replies = length (requests c) \<Longrightarrow>
     (\<And>j. j < length replies \<Longrightarrow> reply_of (requests c ! (k + j)) (replies ! j)) \<Longrightarrow>
     (let d = fold accept_event (concat (map reply_events replies)) c in
      pending_requests d = [] \<and> length (requests d) = length (requests c) \<and>
      (\<forall>j < k. requests d ! j = requests c ! j) \<and>
      (\<forall>j < length replies. requests d ! (k + j) = replied_with (replies ! j) (requests c ! (k + j))))"
proof (induction replies arbitrary: c k)
  case (Cons reply replies)
  let ?d = "set_request k (replied_with reply (requests c ! k)) (c\<lparr>pending_requests := [Suc k..<length (requests c)]\<rparr>)"
  have k: "k < length (requests c)" "pending_requests c = k # [Suc k..<length (requests c)]"
    using Cons.prems by (auto simp: upt_conv_Cons)
  have "reply_of (requests c ! k) reply" using Cons.prems(4) [of 0] by simp
  hence one: "fold accept_event (reply_events reply) c = ?d" using accept_reply [OF Cons.prems(1) k(2,1)] by simp
  have "reply_of (requests ?d ! (Suc k + j)) (replies ! j)" if "j < length replies" for j
    using Cons.prems(4) [of "Suc j"] that by simp
  from Cons.IH [of ?d "Suc k", OF _ _ _ this] Cons.prems(1,3)
  have ih: "let e = fold accept_event (concat (map reply_events replies)) ?d in
      pending_requests e = [] \<and> length (requests e) = length (requests c) \<and>
      (\<forall>j < Suc k. requests e ! j = requests ?d ! j) \<and>
      (\<forall>j < length replies. requests e ! (Suc k + j) = replied_with (replies ! j) (requests ?d ! (Suc k + j)))"
    by simp
  let ?e = "fold accept_event (concat (map reply_events replies)) ?d"
  have e: "fold accept_event (concat (map reply_events (reply # replies))) c = ?e" using one by simp
  have "requests ?e ! (k + j) = replied_with ((reply # replies) ! j) (requests c ! (k + j))" if "j < Suc (length replies)" for j
    using ih that k(1) by (cases j) (auto simp: Let_def)
  thus ?case unfolding e Let_def using ih by (auto simp: Let_def)
qed simp

section \<open>Shutting down\<close>

definition shut_ok :: "Connection \<Rightarrow> bool" where
  "shut_ok c \<longleftrightarrow> (shutdown_complete c \<longrightarrow> reader_done c \<and> reaped c \<and> is_closing c) \<and> (closer c \<noteq> NoShutdown \<longrightarrow> is_closing c)"

lemma shut_caller: "caller_step c c' \<Longrightarrow> shut_ok c \<Longrightarrow> shut_ok c'"
proof (induction rule: caller_step.induct)
  case (lock w c line)
  thus ?case by (auto simp: shut_ok_def register_def Let_def split: option.splits)
next
  case (signal w c i)
  thus ?case by (auto simp: shut_ok_def signal_child_locked_def)
qed (auto simp: shut_ok_def start_execute_def check_write_def write_some_def advance_delivery_def give_up_writing_def
  stop_waiting_def collect_def fail_closing Let_def)

lemma shut_outside: "reader_step c c' \<or> waiter_step c c' \<or> shutdown_step c c' \<Longrightarrow> shut_ok c \<Longrightarrow> shut_ok c'"
  by (elim disjE; erule reader_step.cases waiter_step.cases shutdown_step.cases)
    (auto simp: shut_ok_def end_reading_def begin_shutdown_def close_input_def end_shutdown_def signal_child_locked_def Let_def)

lemma connection_shut: "connection_reachable c \<Longrightarrow> shut_ok c"
proof (erule connections.invariant)
  show "\<exists>seed. c = new_connection seed \<Longrightarrow> shut_ok c" for c by (auto simp: new_connection_def shut_ok_def)
  show "connection_step c d \<Longrightarrow> shut_ok c \<Longrightarrow> shut_ok d" for c d
    by (erule connection_step.cases) (auto intro: shut_caller shut_outside)
qed

text \<open>The guard of \<open>signal_child_locked\<close> is the flag that the waiter sets after \<open>waitpid\<close> returned, in another critical
  section: between the two, the child is collected, its number may name another process group, and a signal is still sent.\<close>

lemma signal_after_collection: "\<exists>c. connection_reachable c \<and> (SIGTERM, True) \<in> set (signals c)"
proof -
  let ?c0 = "new_connection []"
  let ?c1 = "?c0\<lparr>child_exited := True, waiter := Reaping\<rparr>"
  let ?c2 = "?c1\<lparr>os_reaped := True, waiter := Reaped\<rparr>"
  let ?c3 = "begin_shutdown ?c2"
  let ?c4 = "close_input False ?c3"
  let ?c5 = "signal_child_locked SIGTERM ?c4\<lparr>closer := ShutKills\<rparr>"
  have r0: "connection_reachable ?c0" by (rule connection_reachable.connected)
  have r1: "connection_reachable ?c1"
    by (rule connection_reachable.step [OF r0 connection_step.by_waiter [OF waiter_step.exited]]) (simp add: new_connection_def)
  have r2: "connection_reachable ?c2"
    by (rule connection_reachable.step [OF r1 connection_step.by_waiter [OF waiter_step.collected]]) simp
  have r3: "connection_reachable ?c3"
    by (rule connection_reachable.step [OF r2 connection_step.by_shutdown [OF shutdown_step.begins]]) (simp add: new_connection_def)
  have "closer ?c3 = ShutWrites" "write_mutex_free ?c3"
    by (simp_all add: begin_shutdown_def new_connection_def write_mutex_free_def)
  from connection_reachable.step [OF r3 connection_step.by_shutdown [OF shutdown_step.writes [OF this]]]
  have r4: "connection_reachable ?c4" .
  have "closer ?c4 = ShutTerminates" by (simp add: close_input_def Let_def)
  from connection_reachable.step [OF r4 connection_step.by_shutdown [OF shutdown_step.terminates [OF this]]]
  have "connection_reachable ?c5" .
  moreover have "(SIGTERM, True) \<in> set (signals ?c5)"
    by (simp add: signal_child_locked_def close_input_def begin_shutdown_def new_connection_def Let_def)
  ultimately show ?thesis by blast
qed

section \<open>A run to apply the properties to\<close>

lemma caller_reaches: "connection_reachable c \<Longrightarrow> caller_step c c' \<Longrightarrow> connection_reachable c'"
  by (auto intro: connection_reachable.step connection_step.by_caller)

lemma demo_block: "block_flags (described 0 1 2 (guard_text 1 2 f) t m lines) = Some f"
  by (rule block_flags_guard) (simp add: described_def)

lemma demo_line: "\<exists>line. prepare_execute [[''ls'']] (release 3 7 0) False = Inr line"
proof -
  have "refuse_group [[''ls'']] (release 3 7 0) = None" by code_simp
  moreover have "sendable [[''ls'']]" by (simp add: sendable_def)
  ultimately show ?thesis using render_request_line [of "[''ls'']" "[]" "''ls''" "[]"] by (simp add: prepare_execute_def)
qed

text \<open>A connection with one request registered and nothing of it written.\<close>

definition demo_connection :: "string \<Rightarrow> Connection" where
  "demo_connection line = register 0 line (start_execute [[''ls'']] (release 3 7 0) False
     (accept_event (Block (described 0 1 2 (guard_text 1 2 0) terminal_end [] [])) (new_connection (replicate 16 0))))"

definition demo_request :: "string \<Rightarrow> PendingRequest" where
  "demo_request line = \<lparr>result_blocks = [], result_error = None,
     boundary = boundary_reply (boundary_name (replicate 16 0) 0), request_delivery = not_started, complete = False,
     owner = 0, frame = line @ boundary_name (replicate 16 0) 0 @ [CHR 0x0A], sent = 0, answered = False\<rparr>"

lemma demo_fields:
  assumes "prepare_execute [[''ls'']] (release 3 7 0) False = Inr line"
  shows "requests (demo_connection line) = [demo_request line]" "pending_requests (demo_connection line) = [0]"
    "callers (demo_connection line) = [Checking 0]" "is_closing (demo_connection line) = False"
    "fatal_error (demo_connection line) = None" "input_open (demo_connection line)" "startup_seen (demo_connection line)"
    "wire (demo_connection line) = []" "closer (demo_connection line) = NoShutdown" "\<not> shutdown_complete (demo_connection line)"
    "waiter (demo_connection line) = AwaitExit" "signals (demo_connection line) = []" "\<not> reaped (demo_connection line)"
  using assms demo_block [of 0 terminal_end "[]" "[]"]
  by (simp_all add: demo_connection_def register_def start_execute_def accept_event_def new_connection_def demo_request_def
      described_def Let_def)

lemma demo_connection_reachable:
  assumes "prepare_execute [[''ls'']] (release 3 7 0) False = Inr line"
  shows "connection_reachable (demo_connection line)"
proof -
  let ?c = "new_connection (replicate 16 0)" and ?b = "Block (described 0 1 2 (guard_text 1 2 0) terminal_end [] [])"
  let ?d = "accept_event ?b ?c"
  have r: "reader ?c = Reading" and l: "callers ?c = []" by (simp_all add: new_connection_def)
  have "connection_reachable ?d"
    by (rule connection_reachable.step [OF connection_reachable.connected connection_step.by_reader [OF reader_step.event [OF r]]])
  hence e: "connection_reachable (start_execute [[''ls'']] (release 3 7 0) False ?d)" by (rule caller_reaches) (rule caller_step.call)
  show ?thesis unfolding demo_connection_def
    by (rule caller_reaches [OF e caller_step.lock])
      (simp_all add: start_execute_def assms l write_mutex_free_def)
qed

section \<open>Properties\<close>

text \<open>C1. Requests never mix on the wire: whatever the callers, the reader and a shutdown do, the client has been sent whole
  frames in the order the requests were registered, followed by at most a prefix of one further frame, after which
  nothing is ever written; the newline that ends a session is only sent where no frame was cut short.\<close>

theorem frames_on_the_wire:
  assumes "connection_reachable c"
  shows "\<exists>sent_requests rest cut. requests c = sent_requests @ rest \<and> length rest \<le> 1 \<and> prefix cut (concat (map frame rest)) \<and>
    (wire c = concat (map frame sent_requests) @ cut \<or>
     (cut = [] \<and> \<not> input_open c \<and> wire c = concat (map frame sent_requests) @ [CHR 0x0A]))"
proof -
  have w: "wire_ok c" using assms by (rule connection_wire)
  let ?nl = "if newline_sent c then [CHR 0x0A] else []"
  have part: "written_part rs = concat (map frame rs)" if "\<forall>r \<in> set rs. whole r" for rs
    using that by (induction rs) (auto simp: written_part_def whole_def)
  show ?thesis
  proof (cases "requests c = [] \<or> whole (last (requests c))")
    case True
    have "whole (requests c ! i)" if "i < length (requests c)" for i
    proof (cases "Suc i < length (requests c)")
      case False
      hence "requests c ! i = last (requests c)" using that last_request [of i "requests c"] by simp
      thus ?thesis using True that by auto
    qed (use w in \<open>simp add: wire_ok_def\<close>)
    hence "\<forall>r \<in> set (requests c). whole r" by (auto simp: in_set_conv_nth)
    moreover have "wire c = written_part (requests c) @ ?nl" using w by (simp add: wire_ok_def)
    ultimately have "wire c = concat (map frame (requests c)) @ ?nl" using part by simp
    moreover have "newline_sent c \<longrightarrow> \<not> input_open c" using w by (simp add: wire_ok_def)
    ultimately show ?thesis by (intro exI [of _ "requests c"] exI [of _ "[]"]) auto
  next
    case False
    let ?rs = "butlast (requests c)" and ?r = "last (requests c)"
    have "whole (?rs ! i)" if "i < length ?rs" for i using that w by (simp add: wire_ok_def nth_butlast)
    hence "\<forall>r \<in> set ?rs. whole r" by (metis in_set_conv_nth)
    hence "written_part ?rs = concat (map frame ?rs)" by (rule part)
    moreover have rs: "requests c = ?rs @ [?r]" using False by simp
    hence "written_part (requests c) = written_part ?rs @ take (sent ?r) (frame ?r)"
      by (metis (no_types, lifting) append.right_neutral concat.simps(1) concat.simps(2) concat_append list.simps(8) list.simps(9) map_append written_part_def)
    ultimately have wr: "wire c = concat (map frame ?rs) @ take (sent ?r) (frame ?r) @ ?nl" using w by (simp add: wire_ok_def)
    have nl: "newline_sent c \<Longrightarrow> \<not> input_open c \<and> sent ?r = 0" using w False by (auto simp: wire_ok_def cut_short_def)
    show ?thesis
      by (intro exI [of _ ?rs] exI [of _ "[?r]"] exI [of _ "take (sent ?r) (frame ?r)"])
        (use rs wr nl in \<open>auto simp: take_is_prefix\<close>)
  qed
qed

text \<open>C2. What a call reports is what happened. A call that reports no error had its boundary answered. An error says
  \<open>not_started\<close> exactly when no byte of the request was written and nothing was received for it, \<open>indeterminate\<close> when the
  request was cut short, \<open>written\<close> when all of it was written and nothing was received, and \<open>replied\<close> when some block was;
  the blocks are those received for this request. A call refused before registration says \<open>not_started\<close>.\<close>

theorem call_reports_honestly:
  assumes "connection_reachable c" "w < length (callers c)" "callers c ! w = Returned who r"
  shows "case who of
      None \<Rightarrow> blocks r = [] \<and> (\<exists>e. connection_error r = Some e \<and> error_delivery e = not_started)
    | Some i \<Rightarrow> i < length (requests c) \<and> owner (requests c ! i) = w \<and> blocks r = result_blocks (requests c ! i) \<and>
        (connection_error r = None \<longleftrightarrow> answered (requests c ! i)) \<and>
        (\<forall>e. connection_error r = Some e \<longrightarrow>
           error_delivery e = (if blocks r \<noteq> [] then replied
             else if sent (requests c ! i) = 0 then not_started
             else if sent (requests c ! i) < length (frame (requests c ! i)) then indeterminate else written))"
proof (cases who)
  case None
  thus ?thesis using caller_phase [OF _ assms(2,3)] connection_sound [OF assms(1)] by simp
next
  case (Some i)
  have p: "phase_ok (requests c) w (Returned (Some i) r)" using caller_phase [OF _ assms(2,3)] connection_sound [OF assms(1)] Some by simp
  hence ok: "request_ok (requests c ! i)" using connection_sound [OF assms(1)] by (simp add: queue_ok_def)
  show ?thesis using p ok Some by (auto simp: request_ok_def told_def progress_of_def)
qed

text \<open>C33. Nobody waits for a reply that cannot come: the requests still to be answered are the latest ones, in order; a
  request is complete exactly when it is no longer among them; and once the connection failed or is closing there are none
  left, and none is added again, so every call that waits finds its request complete.\<close>

theorem no_request_left_behind:
  assumes "connection_reachable c"
  shows "(\<exists>k \<le> length (requests c). pending_requests c = [k..<length (requests c)] \<and>
      (\<forall>i < length (requests c). complete (requests c ! i) \<longleftrightarrow> i < k)) \<and>
    (is_closing c \<or> fatal_error c \<noteq> None \<longrightarrow> (\<forall>w < length (callers c). \<forall>i poison.
       callers c ! w = Waiting i poison \<longrightarrow> i < length (requests c) \<and> complete (requests c ! i)))"
proof -
  have q: "queue_ok c" "callers_ok c" using connection_sound [OF assms] by auto
  obtain k where k: "k \<le> length (requests c)" "pending_requests c = [k..<length (requests c)]" using q(1) by (auto simp: queue_ok_def)
  have comp: "complete (requests c ! i) \<longleftrightarrow> i < k" if "i < length (requests c)" for i
    using q(1) that k(2) by (auto simp: queue_ok_def)
  have "i < length (requests c) \<and> complete (requests c ! i)"
    if "is_closing c \<or> fatal_error c \<noteq> None" "w < length (callers c)" "callers c ! w = Waiting i poison" for w i poison
  proof -
    have i: "i < length (requests c)" using caller_phase [OF q(2) that(2,3)] by simp
    moreover have "pending_requests c = []" using q(1) that(1) by (auto simp: queue_ok_def)
    ultimately show ?thesis using q(1) by (auto simp: queue_ok_def)
  qed
  thus ?thesis using k comp by blast
qed

text \<open>C7. Replies are told apart although tmux does not number them: when the blocks of the waiting requests arrive in the
  order of the requests, each request's blocks closed by its boundary, every request gets exactly its own blocks and is
  answered, and nothing else changes hands.\<close>

theorem replies_matched:
  assumes "connection_reachable c" "startup_seen c" "length replies = length (pending_requests c)"
    and "\<forall>j < length replies. reply_of (requests c ! (pending_requests c ! j)) (replies ! j)"
  shows "let d = fold accept_event (concat (map reply_events replies)) c in
    pending_requests d = [] \<and>
    (\<forall>j < length replies. let r = requests d ! (pending_requests c ! j) in
       answered r \<and> complete r \<and> request_delivery r = replied \<and>
       result_blocks r = result_blocks (requests c ! (pending_requests c ! j)) @ fst (replies ! j)) \<and>
    (\<forall>i < length (requests c). i \<notin> set (pending_requests c) \<longrightarrow> requests d ! i = requests c ! i)"
proof -
  have q: "queue_ok c" using connection_sound [OF assms(1)] by auto
  obtain k where k: "k \<le> length (requests c)" "pending_requests c = [k..<length (requests c)]" using q by (auto simp: queue_ok_def)
  have len: "k + length replies = length (requests c)" using assms(3) k by simp
  have "reply_of (requests c ! (k + j)) (replies ! j)" if "j < length replies" for j
    using assms(4) that len k(2) by simp
  from accept_replies [OF assms(2) k(2) len this]
  show ?thesis using len k(2) by (auto simp: Let_def replied_with_def)
qed

theorem frames_on_the_wire_witness:
  "\<exists>c. connection_reachable c \<and> length (wire c) = 1 \<and>
     (\<exists>sent_requests rest cut. requests c = sent_requests @ rest \<and> length rest \<le> 1 \<and> prefix cut (concat (map frame rest)) \<and>
       (wire c = concat (map frame sent_requests) @ cut \<or>
        (cut = [] \<and> \<not> input_open c \<and> wire c = concat (map frame sent_requests) @ [CHR 0x0A])))"
proof -
  obtain line where l: "prepare_execute [[''ls'']] (release 3 7 0) False = Inr line" using demo_line by blast
  let ?c = "demo_connection line"
  note f = demo_fields [OF l]
  have "connection_reachable (check_write 0 0 ?c)"
    by (rule caller_reaches [OF demo_connection_reachable [OF l] caller_step.check]) (simp_all add: f)
  moreover have d: "check_write 0 0 ?c = set_caller 0 (Polling 0) ?c" by (simp add: check_write_def f demo_request_def)
  ultimately have "connection_reachable (set_caller 0 (Polling 0) ?c)" by simp
  hence r: "connection_reachable (write_some 0 0 1 (set_caller 0 (Polling 0) ?c))"
    by (rule caller_reaches [OF _ caller_step.wrote]) (simp_all add: f demo_request_def)
  have "length (wire (write_some 0 0 1 (set_caller 0 (Polling 0) ?c))) = 1"
    by (simp add: write_some_def f demo_request_def)
  thus ?thesis using r frames_on_the_wire [OF r] by blast
qed

lemma demo_closed:
  assumes l: "prepare_execute [[''ls'']] (release 3 7 0) False = Inr line"
  shows "\<exists>c. connection_reachable c \<and> is_closing c \<and> callers c = [Waiting 0 False] \<and>
    requests c = [shut_request (demo_request line)]"
proof -
  let ?c = "begin_shutdown (demo_connection line)"
  note f = demo_fields [OF l]
  have r: "connection_reachable ?c"
    by (rule connection_reachable.step [OF demo_connection_reachable [OF l] connection_step.by_shutdown [OF shutdown_step.begins]])
      (simp add: f)
  have d: "is_closing ?c" "callers ?c = [Checking 0]" "requests ?c = [shut_request (demo_request line)]"
    by (simp_all add: begin_shutdown_def f update_requests_def)
  let ?e = "protocol_error ''control write cancelled by connection closure''"
  have "check_write 0 0 ?c = set_caller 0 (WriteFailed 0 (write_failure 0 ?e)) ?c"
    by (simp add: check_write_def d shut_request_def demo_request_def)
  moreover have "connection_reachable (check_write 0 0 ?c)"
    by (rule caller_reaches [OF r caller_step.check]) (simp_all add: d)
  ultimately have "connection_reachable (set_caller 0 (WriteFailed 0 (write_failure 0 ?e)) ?c)" by simp
  hence "connection_reachable (give_up_writing 0 0 (write_failure 0 ?e) (set_caller 0 (WriteFailed 0 (write_failure 0 ?e)) ?c))"
    by (rule caller_reaches [OF _ caller_step.give_up]) (simp_all add: d)
  thus ?thesis by (intro exI, intro conjI, assumption) (simp_all add: give_up_writing_def d)
qed

theorem no_request_left_behind_witness:
  "\<exists>c. connection_reachable c \<and> is_closing c \<and> callers c ! 0 = Waiting 0 False \<and> complete (requests c ! 0)"
proof -
  obtain line c where c: "connection_reachable c" "is_closing c" "callers c = [Waiting 0 False]"
    using demo_line demo_closed by blast
  from no_request_left_behind [OF c(1)] have "complete (requests c ! 0)" using c(2,3) by (metis One_nat_def length_Cons list.size(3) nth_Cons_0 zero_less_one)
  thus ?thesis using c by (intro exI [of _ c]) simp
qed

theorem call_reports_honestly_witness:
  "\<exists>c r e. connection_reachable c \<and> callers c ! 0 = Returned (Some 0) r \<and> connection_error r = Some e \<and>
     sent (requests c ! 0) = 0 \<and> blocks r = [] \<and> error_delivery e = not_started"
proof -
  obtain line where l: "prepare_execute [[''ls'']] (release 3 7 0) False = Inr line" using demo_line by blast
  obtain c where c: "connection_reachable c" "callers c = [Waiting 0 False]" "requests c = [shut_request (demo_request line)]"
    using demo_closed [OF l] by blast
  have "connection_reachable (stop_waiting 0 0 False c)"
    by (rule caller_reaches [OF c(1) caller_step.wait]) (simp_all add: c)
  hence "connection_reachable (set_caller 0 (Collecting 0) c)" by (simp add: stop_waiting_def c(3))
  hence r: "connection_reachable (collect 0 0 (set_caller 0 (Collecting 0) c))"
    by (rule caller_reaches [OF _ caller_step.collect]) (simp_all add: c)
  let ?d = "collect 0 0 (set_caller 0 (Collecting 0) c)"
  obtain x e where d: "callers ?d = [Returned (Some 0) x]" "connection_error x = Some e" "sent (requests ?d ! 0) = 0" "blocks x = []"
    by (simp add: collect_def c(2,3) shut_request_def demo_request_def)
  from call_reports_honestly [OF r, of 0 "Some 0" x] d have "error_delivery e = not_started" by simp
  thus ?thesis using r d by (intro exI [of _ ?d] exI [of _ x] exI [of _ e]) simp
qed

theorem replies_matched_witness:
  "\<exists>c b. connection_reachable c \<and> pending_requests c = [0] \<and>
     answered (requests (fold accept_event [Block b] c) ! 0) \<and> pending_requests (fold accept_event [Block b] c) = []"
proof -
  obtain line where l: "prepare_execute [[''ls'']] (release 3 7 0) False = Inr line" using demo_line by blast
  let ?c = "demo_connection line"
  let ?b = "(described 0 1 2 (guard_text 1 2 1) terminal_error [] [])\<lparr>body := boundary_reply (boundary_name (replicate 16 0) 0)\<rparr>"
  note f = demo_fields [OF l]
  have "block_flags ?b = Some 1" by (rule block_flags_guard) (simp add: described_def)
  hence "reply_of (demo_request line) ([], ?b)"
    by (simp add: reply_of_def is_boundary_iff described_def demo_request_def)
  hence "pending_requests (fold accept_event [Block ?b] ?c) = [] \<and> answered (requests (fold accept_event [Block ?b] ?c) ! 0)"
    using replies_matched [OF demo_connection_reachable [OF l], of "[([], ?b)]"] by (simp add: f reply_events_def Let_def)
  thus ?thesis using demo_connection_reachable [OF l] f(2) by blast
qed

text \<open>A shutdown that reported is final: it reports success exactly when the reader is done, the child was reaped, nothing
  failed and tmux said goodbye; from then on, whatever is called, no request is pending, none is accepted, and a later
  shutdown changes nothing.\<close>

theorem shutdown_is_final:
  assumes "connection_reachable c"
  shows "(snd (end_shutdown c) = Inr () \<longleftrightarrow> reader_done c \<and> reaped c \<and> fatal_error c = None \<and> saw_exit c) \<and>
    (shutdown_complete c \<longrightarrow> reader_done c \<and> reaped c \<and> is_closing c \<and> pending_requests c = [] \<and> begin_shutdown c = c \<and>
       requests (register w line c) = requests c)"
proof -
  have "shut_ok c" "queue_ok c" using connection_shut connection_sound assms by blast+
  thus ?thesis
    by (auto simp: shut_ok_def queue_ok_def end_shutdown_def begin_shutdown_def register_def Let_def split: option.splits)
qed

theorem shutdown_is_final_witness:
  "\<exists>c. connection_reachable c \<and> \<not> reader_done c \<and> snd (end_shutdown c) \<noteq> Inr ()"
proof (intro exI conjI)
  show r: "connection_reachable (new_connection [])" by (rule connection_reachable.connected)
  show n: "\<not> reader_done (new_connection [])" by (simp add: new_connection_def)
  show "snd (end_shutdown (new_connection [])) \<noteq> Inr ()" using shutdown_is_final [OF r] n by blast
qed

end
