(* ===== verification/Rows.thy ===== *)
theory Rows
  imports Backends Snapshots Option_Text
begin

text \<open>Rows of a listing and the entities that are such rows (\<open>src/include/libtmux/entities.hpp\<close>, \<open>src/src/backend.hpp\<close>): the
  interface of a backend as a record of its calls, the columns of each entity, the accessors that read them, equality, hashing
  and printing, and the field handles that filters use.\<close>


unbundle bit_operations_syntax

section \<open>Calls that may fail\<close>

type_synonym ('w, 'a) io = "'w \<Rightarrow> 'w \<times> (CommandFailure, 'a) expected"

definition fail_with :: "CommandFailure \<Rightarrow> ('w, 'a) io" where
  "fail_with f w = (w, Inl f)"

definition answer_with :: "'a \<Rightarrow> ('w, 'a) io" where
  "answer_with x w = (w, Inr x)"

text \<open>\<open>if (!x.has_value()) return unexpected(x.error());\<close> and the rest.\<close>

definition and_then :: "('w, 'a) io \<Rightarrow> ('a \<Rightarrow> ('w, 'b) io) \<Rightarrow> ('w, 'b) io" where
  "and_then m k w = (case m w of (w', Inl f) \<Rightarrow> (w', Inl f) | (w', Inr x) \<Rightarrow> k x w')"

section \<open>The backend interface\<close>

text \<open>The virtual members of \<open>detail::Backend\<close> over the state \<open>'w\<close> a call may change. \<open>be_address\<close> is what the pointer
  comparison of \<open>same_server\<close> compares. \<open>run_in_session\<close> and \<open>run_batch\<close> are not overridden with anything but \<open>run\<close>
  where ids are server-wide.\<close>

record 'w Backend =
  be_address :: nat
  be_run :: "CommandRequest \<Rightarrow> int option \<Rightarrow> nat option \<Rightarrow> ('w, string) io"
  be_version :: "('w, Version) io"
  be_release :: "('w, unit) io"
  be_attach :: "string \<Rightarrow> ('w, PreparedAttach) io"
  be_identity :: "'w \<Rightarrow> string"
  be_socket_path :: "'w \<Rightarrow> string"
  be_selected_path :: "'w \<Rightarrow> string"
  be_capabilities :: ServerCapabilities
  be_policy :: ExecutionPolicy

definition run_in_session :: "'w Backend \<Rightarrow> CommandRequest \<Rightarrow> string \<Rightarrow> string \<Rightarrow> int option \<Rightarrow> nat option \<Rightarrow> ('w, string) io" where
  "run_in_session b c session_id session_name limit output_limit = be_run b c limit output_limit"

definition run_batch :: "'w Backend \<Rightarrow> CommandBatch \<Rightarrow> int option \<Rightarrow> nat option \<Rightarrow> ('w, string) io" where
  "run_batch b parts limit output_limit = be_run b (batch_request parts) limit output_limit"

fun same_backend :: "'w Backend option \<Rightarrow> 'w Backend option \<Rightarrow> 'w \<Rightarrow> bool" where
  "same_backend None None w \<longleftrightarrow> True"
| "same_backend (Some l) (Some r) w \<longleftrightarrow>
     be_address l = be_address r \<or> be_identity l w \<noteq> [] \<and> be_identity l w = be_identity r w"
| "same_backend l r w \<longleftrightarrow> False"

text \<open>The subprocess backend as one of its implementations.\<close>

definition subprocess :: "Host \<Rightarrow> nat \<Rightarrow> ExecutionPolicy \<Rightarrow> SubprocessBackend Backend" where
  "subprocess host address chosen =
     \<lparr>be_address = address, be_run = run_scoped host, be_version = backend_version host, be_release = check_release host,
      be_attach = (\<lambda>target b. (b, prepare_attach b target)), be_identity = identity, be_socket_path = socket_path,
      be_selected_path = selected_socket_path,
      be_capabilities = \<lparr>implementation = impl_tmux, backend = backend_subprocess\<rparr>, be_policy = chosen\<rparr>"

section \<open>Reading what tmux renders\<close>

text \<open>\<open>std::from_chars\<close> into a signed type of \<open>bits\<close> bits that has to consume its whole input.\<close>

definition from_chars_int :: "nat \<Rightarrow> string \<Rightarrow> int option" where
  "from_chars_int bits s =
     (let negative = (s \<noteq> [] \<and> hd s = CHR ''-''); ds = (if negative then tl s else s);
          n = int (dec_value 0 ds); v = (if negative then - n else n) in
      if ds = [] \<or> \<not> list_all is_digit ds then None
      else if v < - (2 ^ (bits - 1)) \<or> v \<ge> 2 ^ (bits - 1) then None else Some v)"

definition to_number :: "string \<Rightarrow> int" where
  "to_number s = (case from_chars_int 64 s of Some v \<Rightarrow> v | None \<Rightarrow> 0)"

definition to_flag :: "string \<Rightarrow> bool" where
  "to_flag s \<longleftrightarrow> s = ''1''"

definition to_time :: "string \<Rightarrow> int" where
  "to_time s = to_number s"

definition same_entity_id :: "bool \<Rightarrow> string \<Rightarrow> string \<Rightarrow> string \<Rightarrow> string \<Rightarrow> bool" where
  "same_entity_id scoped_by_session left_id left_session_id right_id right_session_id \<longleftrightarrow>
     left_id = right_id \<and> (\<not> scoped_by_session \<or> left_session_id = right_session_id)"

section \<open>Rows\<close>

text \<open>A session, window, pane, client, buffer or command is a snapshot with the backend it came from, and a row of it.\<close>

record 'w Row =
  row_backend :: "'w Backend option"
  row_snapshot :: Snapshot
  row_at :: nat

definition value_at :: "'w Row \<Rightarrow> nat \<Rightarrow> string" where
  "value_at r i =
     (let rows = snap_rows (row_snapshot r) in
      if row_at r \<ge> length rows then []
      else let row = rows ! row_at r in if i < length row then row ! i else [])"

definition value_named :: "'w Row \<Rightarrow> string \<Rightarrow> string" where
  "value_named r field = value_at r (index_of (row_snapshot r) field)"

definition connection_identity :: "'w Row \<Rightarrow> 'w \<Rightarrow> string" where
  "connection_identity r w = (case row_backend r of None \<Rightarrow> [] | Some b \<Rightarrow> be_identity b w)"

definition same_connection :: "'w Row \<Rightarrow> 'w Row \<Rightarrow> 'w \<Rightarrow> bool" where
  "same_connection l r w \<longleftrightarrow> same_backend (row_backend l) (row_backend r) w"

definition ids_scoped_by_session :: "'w Row \<Rightarrow> bool" where
  "ids_scoped_by_session r \<longleftrightarrow> (case row_backend r of None \<Rightarrow> False
     | Some b \<Rightarrow> implementation (be_capabilities b) = impl_psmux)"

definition disconnected :: CommandFailure where
  "disconnected = \<lparr>kind = validation, delivery = not_started, exit_code = 0,
     diagnostic = ''this snapshot has no connection to a tmux server''\<rparr>"

definition row_run :: "'w Row \<Rightarrow> CommandRequest \<Rightarrow> nat option \<Rightarrow> ('w, string) io" where
  "row_run r command output_limit =
     (case row_backend r of
        None \<Rightarrow> fail_with disconnected
      | Some b \<Rightarrow> be_run b command (policy_timeout (be_policy b))
          (case output_limit of Some n \<Rightarrow> Some n | None \<Rightarrow> policy_output_limit (be_policy b)))"

definition row_refused :: "'w Row \<Rightarrow> ServerFeature \<Rightarrow> string \<Rightarrow> CommandFailure option" where
  "row_refused r feature why =
     (case row_backend r of
        None \<Rightarrow> None
      | Some b \<Rightarrow> if \<not> refuses (be_capabilities b) feature then None
          else Some \<lparr>kind = unsupported, delivery = not_started, exit_code = 0, diagnostic = why\<rparr>)"

definition row_server :: "'w Row \<Rightarrow> (CommandFailure, 'w Backend) expected" where
  "row_server r = (case row_backend r of None \<Rightarrow> Inl disconnected | Some b \<Rightarrow> Inr b)"

definition from_different_servers :: "'w Row \<Rightarrow> 'w Row \<Rightarrow> 'w \<Rightarrow> bool" where
  "from_different_servers l r w \<longleftrightarrow>
     (let mine = connection_identity l w; theirs = connection_identity r w in
      mine \<noteq> [] \<and> theirs \<noteq> [] \<and> mine \<noteq> theirs)"

section \<open>The entities\<close>

datatype EntityKind = session_kind | window_kind | pane_kind | command_kind | buffer_kind | client_kind

fun kNoun :: "EntityKind \<Rightarrow> string" where
  "kNoun session_kind = ''session''"
| "kNoun window_kind = ''window''"
| "kNoun pane_kind = ''pane''"
| "kNoun command_kind = ''command''"
| "kNoun buffer_kind = ''buffer''"
| "kNoun client_kind = ''client''"

definition session_fields :: "string list" where
  "session_fields = [''session_id'', ''session_name'', ''session_attached'', ''session_windows'', ''session_path'',
     ''session_created'', ''session_group'', ''session_grouped'']"

definition window_fields :: "string list" where
  "window_fields = [''window_id'', ''window_name'', ''window_active'', ''session_id'', ''window_index'', ''window_panes'',
     ''window_width'', ''window_height'', ''window_layout'', ''window_zoomed_flag'', ''window_bell_flag'',
     ''window_activity_flag'', ''window_linked_sessions'']"

definition pane_fields :: "string list" where
  "pane_fields = [''pane_id'', ''pane_current_command'', ''pane_active'', ''window_id'', ''session_id'', ''pane_index'',
     ''pane_title'', ''pane_pid'', ''pane_tty'', ''pane_current_path'', ''pane_width'', ''pane_height'', ''pane_dead'',
     ''pane_in_mode'', ''pane_at_top'', ''pane_at_bottom'', ''pane_at_left'', ''pane_at_right'', ''pane_pipe'',
     ''pane_left'', ''pane_top'', ''pane_dead_status'']"

definition command_fields :: "string list" where
  "command_fields = [''command_list_name'', ''command_list_alias'', ''command_list_usage'']"

definition buffer_fields :: "string list" where
  "buffer_fields = [''buffer_name'', ''buffer_size'', ''buffer_sample'', ''buffer_created'']"

definition client_fields :: "string list" where
  "client_fields = [''client_name'', ''client_session'', ''client_readonly'', ''client_tty'', ''client_width'',
     ''client_height'', ''client_created'', ''client_activity'', ''client_termname'', ''client_control_mode'',
     ''client_pid'', ''pane_id'', ''client_flags'', ''window_id'']"

fun kFields :: "EntityKind \<Rightarrow> string list" where
  "kFields session_kind = session_fields"
| "kFields window_kind = window_fields"
| "kFields pane_kind = pane_fields"
| "kFields command_kind = command_fields"
| "kFields buffer_kind = buffer_fields"
| "kFields client_kind = client_fields"

text \<open>\<open>Session\<close>.\<close>

definition session_id :: "'w Row \<Rightarrow> string" where "session_id r = value_at r 0"
definition session_name :: "'w Row \<Rightarrow> string" where "session_name r = value_at r 1"
definition client_count :: "'w Row \<Rightarrow> int" where "client_count r = to_number (value_at r 2)"
definition attached :: "'w Row \<Rightarrow> bool" where "attached r \<longleftrightarrow> client_count r \<noteq> 0"
definition window_count :: "'w Row \<Rightarrow> int" where "window_count r = to_number (value_at r 3)"
definition session_path :: "'w Row \<Rightarrow> string" where "session_path r = value_at r 4"
definition session_created :: "'w Row \<Rightarrow> int" where "session_created r = to_time (value_at r 5)"
definition session_group :: "'w Row \<Rightarrow> string" where "session_group r = value_at r 6"
definition grouped :: "'w Row \<Rightarrow> bool" where "grouped r \<longleftrightarrow> to_flag (value_at r 7)"

text \<open>\<open>Window\<close>.\<close>

definition window_id :: "'w Row \<Rightarrow> string" where "window_id r = value_at r 0"
definition window_name :: "'w Row \<Rightarrow> string" where "window_name r = value_at r 1"
definition window_active :: "'w Row \<Rightarrow> bool" where "window_active r \<longleftrightarrow> to_flag (value_at r 2)"
definition window_session_id :: "'w Row \<Rightarrow> string" where "window_session_id r = value_at r 3"
definition window_index :: "'w Row \<Rightarrow> int" where "window_index r = to_number (value_at r 4)"
definition pane_count :: "'w Row \<Rightarrow> int" where "pane_count r = to_number (value_at r 5)"
definition window_width :: "'w Row \<Rightarrow> int" where "window_width r = to_number (value_at r 6)"
definition window_height :: "'w Row \<Rightarrow> int" where "window_height r = to_number (value_at r 7)"
definition window_layout :: "'w Row \<Rightarrow> string" where "window_layout r = value_at r 8"
definition zoomed :: "'w Row \<Rightarrow> bool" where "zoomed r \<longleftrightarrow> to_flag (value_at r 9)"
definition bell :: "'w Row \<Rightarrow> bool" where "bell r \<longleftrightarrow> to_flag (value_at r 10)"
definition activity :: "'w Row \<Rightarrow> bool" where "activity r \<longleftrightarrow> to_flag (value_at r 11)"
definition linked_sessions :: "'w Row \<Rightarrow> int" where "linked_sessions r = to_number (value_at r 12)"
definition owning_session_name :: "'w Row \<Rightarrow> string" where "owning_session_name r = value_named r ''session_name''"

text \<open>\<open>Pane\<close>.\<close>

definition pane_id :: "'w Row \<Rightarrow> string" where "pane_id r = value_at r 0"
definition pane_command :: "'w Row \<Rightarrow> string" where "pane_command r = value_at r 1"
definition pane_active :: "'w Row \<Rightarrow> bool" where "pane_active r \<longleftrightarrow> to_flag (value_at r 2)"
definition pane_window_id :: "'w Row \<Rightarrow> string" where "pane_window_id r = value_at r 3"
definition pane_session_id :: "'w Row \<Rightarrow> string" where "pane_session_id r = value_at r 4"
definition pane_index :: "'w Row \<Rightarrow> int" where "pane_index r = to_number (value_at r 5)"
definition pane_title :: "'w Row \<Rightarrow> string" where "pane_title r = value_at r 6"
definition pane_pid :: "'w Row \<Rightarrow> int" where "pane_pid r = to_number (value_at r 7)"
definition pane_tty :: "'w Row \<Rightarrow> string" where "pane_tty r = value_at r 8"
definition pane_path :: "'w Row \<Rightarrow> string" where "pane_path r = value_at r 9"
definition pane_width :: "'w Row \<Rightarrow> int" where "pane_width r = to_number (value_at r 10)"
definition pane_height :: "'w Row \<Rightarrow> int" where "pane_height r = to_number (value_at r 11)"
definition dead :: "'w Row \<Rightarrow> bool" where "dead r \<longleftrightarrow> to_flag (value_at r 12)"
definition in_mode :: "'w Row \<Rightarrow> bool" where "in_mode r \<longleftrightarrow> to_flag (value_at r 13)"
definition at_top :: "'w Row \<Rightarrow> bool" where "at_top r \<longleftrightarrow> to_flag (value_at r 14)"
definition at_bottom :: "'w Row \<Rightarrow> bool" where "at_bottom r \<longleftrightarrow> to_flag (value_at r 15)"
definition at_left :: "'w Row \<Rightarrow> bool" where "at_left r \<longleftrightarrow> to_flag (value_at r 16)"
definition at_right :: "'w Row \<Rightarrow> bool" where "at_right r \<longleftrightarrow> to_flag (value_at r 17)"
definition piping :: "'w Row \<Rightarrow> bool" where "piping r \<longleftrightarrow> to_flag (value_at r 18)"
definition pane_left :: "'w Row \<Rightarrow> int" where "pane_left r = to_number (value_at r 19)"
definition pane_top :: "'w Row \<Rightarrow> int" where "pane_top r = to_number (value_at r 20)"

definition exit_status :: "'w Row \<Rightarrow> int option" where
  "exit_status r = (let raw = value_at r 21 in if raw = [] then None else from_chars_int 32 raw)"

text \<open>\<open>Command\<close>, \<open>Buffer\<close> and \<open>Client\<close>.\<close>

definition command_name :: "'w Row \<Rightarrow> string" where "command_name r = value_at r 0"
definition command_alias :: "'w Row \<Rightarrow> string" where "command_alias r = value_at r 1"
definition command_usage :: "'w Row \<Rightarrow> string" where "command_usage r = value_at r 2"

definition buffer_name :: "'w Row \<Rightarrow> string" where "buffer_name r = value_at r 0"
definition buffer_size :: "'w Row \<Rightarrow> int" where "buffer_size r = to_number (value_at r 1)"
definition buffer_sample :: "'w Row \<Rightarrow> string" where "buffer_sample r = value_at r 2"
definition buffer_created :: "'w Row \<Rightarrow> int" where "buffer_created r = to_time (value_at r 3)"

definition client_name :: "'w Row \<Rightarrow> string" where "client_name r = value_at r 0"
definition client_session_name :: "'w Row \<Rightarrow> string" where "client_session_name r = value_at r 1"
definition read_only :: "'w Row \<Rightarrow> bool" where "read_only r \<longleftrightarrow> to_flag (value_at r 2)"
definition client_tty :: "'w Row \<Rightarrow> string" where "client_tty r = value_at r 3"
definition client_width :: "'w Row \<Rightarrow> int" where "client_width r = to_number (value_at r 4)"
definition client_height :: "'w Row \<Rightarrow> int" where "client_height r = to_number (value_at r 5)"
definition client_created :: "'w Row \<Rightarrow> int" where "client_created r = to_time (value_at r 6)"
definition last_activity :: "'w Row \<Rightarrow> int" where "last_activity r = to_time (value_at r 7)"
definition terminal_name :: "'w Row \<Rightarrow> string" where "terminal_name r = value_at r 8"
definition client_control_mode :: "'w Row \<Rightarrow> bool" where "client_control_mode r \<longleftrightarrow> to_flag (value_at r 9)"
definition client_pid :: "'w Row \<Rightarrow> int" where "client_pid r = to_number (value_at r 10)"
definition active_pane_id :: "'w Row \<Rightarrow> string" where "active_pane_id r = value_at r 11"
definition client_flags :: "'w Row \<Rightarrow> string" where "client_flags r = value_at r 12"
definition client_window_id :: "'w Row \<Rightarrow> string" where "client_window_id r = value_at r 13"

section \<open>Identity\<close>

definition session_equal :: "'w Row \<Rightarrow> 'w Row \<Rightarrow> 'w \<Rightarrow> bool" where
  "session_equal l r w \<longleftrightarrow> same_connection l r w \<and> session_id l = session_id r"

definition window_equal :: "'w Row \<Rightarrow> 'w Row \<Rightarrow> 'w \<Rightarrow> bool" where
  "window_equal l r w \<longleftrightarrow> same_connection l r w \<and>
     same_entity_id (ids_scoped_by_session l) (window_id l) (window_session_id l) (window_id r) (window_session_id r)"

definition pane_equal :: "'w Row \<Rightarrow> 'w Row \<Rightarrow> 'w \<Rightarrow> bool" where
  "pane_equal l r w \<longleftrightarrow> same_connection l r w \<and>
     same_entity_id (ids_scoped_by_session l) (pane_id l) (pane_session_id l) (pane_id r) (pane_session_id r)"

definition named_equal :: "'w Row \<Rightarrow> 'w Row \<Rightarrow> 'w \<Rightarrow> bool" where
  "named_equal l r w \<longleftrightarrow> same_connection l r w \<and> value_at l 0 = value_at r 0"

definition hash_mix :: "64 word \<Rightarrow> 64 word \<Rightarrow> 64 word" where
  "hash_mix left right = left XOR (right + 0x9e3779b9 + push_bit 6 left + drop_bit 2 left)"

text \<open>\<open>std::hash<std::string_view>\<close> is the argument; the identity column is the first of every kind.\<close>

definition entity_hash :: "(string \<Rightarrow> 64 word) \<Rightarrow> 'w Row \<Rightarrow> 'w \<Rightarrow> 64 word" where
  "entity_hash h r w = hash_mix (h (connection_identity r w)) (h (value_at r 0))"

section \<open>Printing\<close>

definition session_text :: "'w Row \<Rightarrow> string" where
  "session_text r = ''Session('' @ session_id r @ '' '' @ session_name r @ '')''"

definition window_text :: "'w Row \<Rightarrow> string" where
  "window_text r = ''Window('' @ window_id r @ '' '' @ int_text (window_index r) @ '':'' @ window_name r @ '')''"

definition pane_text :: "'w Row \<Rightarrow> string" where
  "pane_text r = ''Pane('' @ pane_id r @ '' '' @ pane_command r @ '')''"

definition client_text :: "'w Row \<Rightarrow> string" where
  "client_text r = ''Client('' @ client_name r @ '' '' @ client_session_name r @ '')''"

section \<open>Field handles\<close>

datatype 'w FieldHandle =
  StringField string "'w Row \<Rightarrow> string"
| BoolField string "'w Row \<Rightarrow> bool"
| NumberField string "'w Row \<Rightarrow> int"

definition session_handles :: "'w FieldHandle list" where
  "session_handles =
     [StringField ''session_id'' session_id, StringField ''session_name'' session_name,
      BoolField ''session_attached'' attached, StringField ''session_path'' session_path,
      StringField ''session_group'' session_group, BoolField ''session_grouped'' grouped,
      NumberField ''session_attached'' client_count, NumberField ''session_windows'' window_count,
      NumberField ''session_created'' session_created]"

definition window_handles :: "'w FieldHandle list" where
  "window_handles =
     [StringField ''window_id'' window_id, StringField ''window_name'' window_name,
      BoolField ''window_active'' window_active, StringField ''session_id'' window_session_id,
      StringField ''session_name'' owning_session_name, StringField ''window_layout'' window_layout,
      BoolField ''window_zoomed_flag'' zoomed, BoolField ''window_bell_flag'' bell,
      BoolField ''window_activity_flag'' activity, NumberField ''window_index'' window_index,
      NumberField ''window_panes'' pane_count, NumberField ''window_width'' window_width,
      NumberField ''window_height'' window_height, NumberField ''window_linked_sessions'' linked_sessions]"

definition pane_handles :: "'w FieldHandle list" where
  "pane_handles =
     [StringField ''pane_id'' pane_id, StringField ''pane_current_command'' pane_command,
      BoolField ''pane_active'' pane_active, StringField ''window_id'' pane_window_id,
      StringField ''session_id'' pane_session_id, StringField ''session_name'' owning_session_name,
      StringField ''pane_title'' pane_title, StringField ''pane_tty'' pane_tty,
      StringField ''pane_current_path'' pane_path, BoolField ''pane_dead'' dead, BoolField ''pane_in_mode'' in_mode,
      NumberField ''pane_index'' pane_index, NumberField ''pane_pid'' pane_pid, NumberField ''pane_width'' pane_width,
      NumberField ''pane_height'' pane_height, BoolField ''pane_at_top'' at_top, BoolField ''pane_at_bottom'' at_bottom,
      BoolField ''pane_at_left'' at_left, BoolField ''pane_at_right'' at_right, BoolField ''pane_pipe'' piping,
      NumberField ''pane_left'' pane_left, NumberField ''pane_top'' pane_top,
      NumberField ''pane_dead_status'' (\<lambda>r. case exit_status r of Some s \<Rightarrow> s | None \<Rightarrow> - 1)]"

definition client_handles :: "'w FieldHandle list" where
  "client_handles =
     [StringField ''client_name'' client_name, StringField ''client_session'' client_session_name,
      BoolField ''client_readonly'' read_only, StringField ''client_tty'' client_tty,
      StringField ''client_termname'' terminal_name, BoolField ''client_control_mode'' client_control_mode,
      NumberField ''client_width'' client_width, NumberField ''client_height'' client_height,
      NumberField ''client_created'' client_created, NumberField ''client_activity'' last_activity,
      NumberField ''client_pid'' client_pid, StringField ''pane_id'' active_pane_id,
      StringField ''client_flags'' client_flags, StringField ''window_id'' client_window_id]"

definition command_handles :: "'w FieldHandle list" where
  "command_handles = [StringField ''command_list_name'' command_name, StringField ''command_list_alias'' command_alias,
     StringField ''command_list_usage'' command_usage]"

definition buffer_handles :: "'w FieldHandle list" where
  "buffer_handles = [StringField ''buffer_name'' buffer_name, NumberField ''buffer_size'' buffer_size,
     StringField ''buffer_sample'' buffer_sample, NumberField ''buffer_created'' buffer_created]"

fun field_handles :: "EntityKind \<Rightarrow> 'w FieldHandle list" where
  "field_handles session_kind = session_handles"
| "field_handles window_kind = window_handles"
| "field_handles pane_kind = pane_handles"
| "field_handles command_kind = command_handles"
| "field_handles buffer_kind = buffer_handles"
| "field_handles client_kind = client_handles"

section \<open>A handle reads its own column\<close>

fun handle_field :: "'w FieldHandle \<Rightarrow> string" where
  "handle_field (StringField n g) = n"
| "handle_field (BoolField n g) = n"
| "handle_field (NumberField n g) = n"

fun reads_alike :: "'w FieldHandle \<Rightarrow> 'w Row \<Rightarrow> 'w Row \<Rightarrow> bool" where
  "reads_alike (StringField n g) r r' \<longleftrightarrow> g r = g r'"
| "reads_alike (BoolField n g) r r' \<longleftrightarrow> g r = g r'"
| "reads_alike (NumberField n g) r r' \<longleftrightarrow> g r = g r'"

lemmas accessor_defs =
  session_id_def session_name_def client_count_def attached_def window_count_def session_path_def session_created_def
  session_group_def grouped_def window_id_def window_name_def window_active_def window_session_id_def window_index_def
  pane_count_def window_width_def window_height_def window_layout_def zoomed_def bell_def activity_def linked_sessions_def
  owning_session_name_def pane_id_def pane_command_def pane_active_def pane_window_id_def pane_session_id_def pane_index_def
  pane_title_def pane_pid_def pane_tty_def pane_path_def pane_width_def pane_height_def dead_def in_mode_def at_top_def
  at_bottom_def at_left_def at_right_def piping_def pane_left_def pane_top_def exit_status_def command_name_def
  command_alias_def command_usage_def buffer_name_def buffer_size_def buffer_sample_def buffer_created_def client_name_def
  client_session_name_def read_only_def client_tty_def client_width_def client_height_def client_created_def
  last_activity_def terminal_name_def client_control_mode_def client_pid_def active_pane_id_def client_flags_def
  client_window_id_def

lemmas handle_defs = session_handles_def window_handles_def pane_handles_def client_handles_def command_handles_def
  buffer_handles_def

lemmas field_list_defs = session_fields_def window_fields_def pane_fields_def client_fields_def command_fields_def
  buffer_fields_def

lemma value_named_at:
  "snap_fields (row_snapshot r) = names \<Longrightarrow> value_named r field = value_at r (index_from 0 names field)"
  by (simp add: value_named_def index_of_def)

text \<open>A filter or a comparison on a field looks at the column of that name and at nothing else: in rows of a listing of the
  entity's own fields, two rows with the same text in the column a handle is named for are read alike by it.\<close>

theorem handle_reads_its_column:
  assumes "h \<in> set (field_handles k)" "snap_fields (row_snapshot r) = kFields k" "snap_fields (row_snapshot r') = kFields k"
    and same: "value_named r (handle_field h) = value_named r' (handle_field h)"
  shows "reads_alike h r r'"
proof (cases k)
  case session_kind
  then show ?thesis using assms by (auto simp: handle_defs value_named_at field_list_defs accessor_defs eval_nat_numeral)
next
  case window_kind
  then show ?thesis using assms by (auto simp: handle_defs value_named_at field_list_defs accessor_defs eval_nat_numeral)
next
  case pane_kind
  then show ?thesis using assms by (auto simp: handle_defs value_named_at field_list_defs accessor_defs eval_nat_numeral)
next
  case command_kind
  then show ?thesis using assms by (auto simp: handle_defs value_named_at field_list_defs accessor_defs eval_nat_numeral)
next
  case buffer_kind
  then show ?thesis using assms by (auto simp: handle_defs value_named_at field_list_defs accessor_defs eval_nat_numeral)
next
  case client_kind
  then show ?thesis using assms by (auto simp: handle_defs value_named_at field_list_defs accessor_defs eval_nat_numeral)
qed

section \<open>Equality and hashing\<close>

text \<open>A pointer names one backend.\<close>

definition addressed :: "'w Backend option \<Rightarrow> 'w Backend option \<Rightarrow> bool" where
  "addressed l r \<longleftrightarrow> (\<forall>x y. l = Some x \<longrightarrow> r = Some y \<longrightarrow> be_address x = be_address y \<longrightarrow> x = y)"

lemma same_backend_identity:
  "addressed l r \<Longrightarrow> same_backend l r w \<Longrightarrow>
   (case l of None \<Rightarrow> [] | Some b \<Rightarrow> be_identity b w) = (case r of None \<Rightarrow> [] | Some b \<Rightarrow> be_identity b w)"
  by (cases l; cases r) (auto simp: addressed_def)

lemma same_backend_trans:
  "addressed l m \<Longrightarrow> addressed m r \<Longrightarrow> same_backend l m w \<Longrightarrow> same_backend m r w \<Longrightarrow> same_backend l r w"
  by (cases l; cases m; cases r) (auto simp: addressed_def)

lemma same_backend_sym: "same_backend l r w \<Longrightarrow> same_backend r l w"
  by (cases l; cases r) auto

text \<open>Entities that are equal hash alike, and two handles of equal entities are equal to the same others: equality is
  an equivalence on the values of one moment. This is for sessions; a window or pane is compared by its own id too, so
  equal windows and panes hash alike as well.\<close>

theorem equal_entities_hash_alike:
  assumes "addressed (row_backend l) (row_backend r)"
    and "session_equal l r w \<or> window_equal l r w \<or> pane_equal l r w \<or> named_equal l r w"
  shows "entity_hash h l w = entity_hash h r w"
  using assms same_backend_identity [OF assms(1), of w]
  by (auto simp: entity_hash_def connection_identity_def session_equal_def window_equal_def pane_equal_def named_equal_def
      same_connection_def same_entity_id_def accessor_defs)

theorem session_equal_equivalence:
  assumes "addressed (row_backend l) (row_backend m)" "addressed (row_backend m) (row_backend r)"
  shows "session_equal l l w" "session_equal l m w \<Longrightarrow> session_equal m l w"
    "session_equal l m w \<Longrightarrow> session_equal m r w \<Longrightarrow> session_equal l r w"
proof -
  show "session_equal l l w" by (cases "row_backend l") (auto simp: session_equal_def same_connection_def)
  show "session_equal l m w \<Longrightarrow> session_equal m l w"
    by (auto simp: session_equal_def same_connection_def intro: same_backend_sym)
  show "session_equal l m w \<Longrightarrow> session_equal m r w \<Longrightarrow> session_equal l r w"
    using same_backend_trans [OF assms] by (auto simp: session_equal_def same_connection_def)
qed

section \<open>Applied\<close>

definition recorded :: "EntityKind \<Rightarrow> string list \<Rightarrow> 'w Row" where
  "recorded k row = \<lparr>row_backend = None, row_snapshot = \<lparr>snap_fields = kFields k, snap_rows = [row]\<rparr>, row_at = 0\<rparr>"

theorem handle_reads_its_column_witness:
  "reads_alike (NumberField ''window_index'' window_index) (recorded window_kind [''@1'', ''a'', ''1'', ''$0'', ''3''] :: unit Row)
     (recorded window_kind [''@2'', ''b'', ''0'', ''$1'', ''3''])"
  by (rule handle_reads_its_column [of _ window_kind])
    (simp_all add: window_handles_def recorded_def value_named_def value_at_def index_of_def window_fields_def)

theorem equal_entities_hash_alike_witness:
  "entity_hash h (recorded session_kind [''$0'', ''a''] :: unit Row) () = entity_hash h (recorded session_kind [''$0'', ''b'']) ()"
  by (rule equal_entities_hash_alike)
    (simp_all add: addressed_def recorded_def session_equal_def same_connection_def session_id_def value_at_def)

end
