(* ===== verification/Acquire.thy ===== *)
theory Acquire
  imports Rows
begin

text \<open>How entities are asked for (\<open>src/src/acquire.hpp\<close>): a listing or one row through a backend, the check of the columns
  that are numbers, the expansion of a format behind the identity of its object, and environment arguments.\<close>


section \<open>Guards\<close>

text \<open>\<open>if (auto refusal = \<dots>) return unexpected(*refusal);\<close>, for a refusal decided locally and for one that asks the
  backend.\<close>

definition unless :: "CommandFailure option \<Rightarrow> ('w, 'a) io \<Rightarrow> ('w, 'a) io" where
  "unless refusal m = (case refusal of Some f \<Rightarrow> fail_with f | None \<Rightarrow> m)"

definition unless_found :: "('w \<Rightarrow> 'w \<times> CommandFailure option) \<Rightarrow> ('w, 'a) io \<Rightarrow> ('w, 'a) io" where
  "unless_found check m w = (case check w of (w', Some f) \<Rightarrow> (w', Inl f) | (w', None) \<Rightarrow> m w')"

definition rejected :: "string \<Rightarrow> CommandFailure" where
  "rejected d = \<lparr>kind = validation, delivery = not_started, exit_code = 0, diagnostic = d\<rparr>"

definition crossed_servers :: CommandFailure where
  "crossed_servers = \<lparr>kind = validation, delivery = not_started, exit_code = 0,
     diagnostic = ''the two values name objects on different tmux servers''\<rparr>"

definition effect :: "('w, string) io \<Rightarrow> ('w, unit) io" where
  "effect m = and_then m (\<lambda>_. answer_with ())"

section \<open>Snapshots through a backend\<close>

text \<open>The session route chooses between \<open>run\<close> and \<open>run_in_session\<close>, which are one call where ids are server-wide; the
  call policy is only given by the Windows sources. Neither is an argument here.\<close>

definition take_in_session :: "'w Backend \<Rightarrow> string list \<Rightarrow> CommandRequest \<Rightarrow> FormatArgument \<Rightarrow> ('w, Snapshot) io" where
  "take_in_session b names request placement w =
     (case be_run b (place_format names request placement) (policy_timeout (be_policy b)) (policy_output_limit (be_policy b)) w of
        (w', reply) \<Rightarrow> (w', take_snapshot (\<lambda>_. reply) names request placement))"

definition from_output :: "string list \<Rightarrow> string \<Rightarrow> (CommandFailure, Snapshot) expected" where
  "from_output names output =
     (case parse_rows (length names) output of
        None \<Rightarrow> Inl \<lparr>kind = refused, delivery = replied, exit_code = 0,
                   diagnostic = ''tmux output did not match the fields asked for''\<rparr>
      | Some rows \<Rightarrow> Inr \<lparr>snap_fields = names, snap_rows = rows\<rparr>)"

fun number_fields :: "EntityKind \<Rightarrow> string list" where
  "number_fields session_kind = [''session_attached'', ''session_windows'', ''session_created'']"
| "number_fields window_kind = [''window_index'', ''window_panes'', ''window_width'', ''window_height'', ''window_linked_sessions'']"
| "number_fields pane_kind = [''pane_index'', ''pane_pid'', ''pane_width'', ''pane_height'', ''pane_left'', ''pane_top'', ''pane_dead_status'']"
| "number_fields client_kind = [''client_width'', ''client_height'', ''client_created'', ''client_activity'']"
| "number_fields buffer_kind = [''buffer_size'', ''buffer_created'']"
| "number_fields command_kind = []"

fun malformed_column :: "nat \<Rightarrow> string list list \<Rightarrow> string option" where
  "malformed_column column [] = None"
| "malformed_column column (row # rows) =
     (if column \<ge> length row \<or> row ! column = [] then malformed_column column rows
      else if from_chars_int 64 (row ! column) = None then Some (row ! column)
      else malformed_column column rows)"

fun malformed_loop :: "Snapshot \<Rightarrow> string list \<Rightarrow> CommandFailure option" where
  "malformed_loop snapshot [] = None"
| "malformed_loop snapshot (field # names) =
     (case malformed_column (index_of snapshot field) (snap_rows snapshot) of
        Some s \<Rightarrow> Some \<lparr>kind = refused, delivery = replied, exit_code = 0,
            diagnostic = ''tmux answered '' @ field @ '' as '' @ [CHR 0x22] @ s @ [CHR 0x22] @ '', which is not a number''\<rparr>
      | None \<Rightarrow> malformed_loop snapshot names)"

definition malformed_number :: "EntityKind \<Rightarrow> Snapshot \<Rightarrow> CommandFailure option" where
  "malformed_number k snapshot = malformed_loop snapshot (number_fields k)"

definition append_display_message_text :: "string list \<Rightarrow> string \<Rightarrow> string list" where
  "append_display_message_text command s = command @ [''--'', s]"

definition row_of :: "'w Backend \<Rightarrow> Snapshot \<Rightarrow> nat \<Rightarrow> 'w Row" where
  "row_of b snapshot n = \<lparr>row_backend = Some b, row_snapshot = snapshot, row_at = n\<rparr>"

definition list_entities :: "EntityKind \<Rightarrow> 'w Backend option \<Rightarrow> string list \<Rightarrow> ('w, 'w Row list) io" where
  "list_entities k on request =
     (case on of
        None \<Rightarrow> fail_with disconnected
      | Some b \<Rightarrow> and_then (take_in_session b (kFields k) (request_of request) flag) (\<lambda>snapshot.
          unless (malformed_number k snapshot)
            (answer_with (map (row_of b snapshot) [0..<length (snap_rows snapshot)]))))"

definition one_entity :: "EntityKind \<Rightarrow> 'w Backend option \<Rightarrow> CommandRequest \<Rightarrow> FormatArgument \<Rightarrow> string \<Rightarrow> string \<Rightarrow> ('w, 'w Row) io" where
  "one_entity k on request placement target expected_identity =
     (case on of
        None \<Rightarrow> fail_with disconnected
      | Some b \<Rightarrow> and_then (take_in_session b (kFields k) request placement) (\<lambda>snapshot.
          unless (malformed_number k snapshot)
            (let rows = snap_rows snapshot in
             if length rows \<noteq> 1 \<or> hd (hd rows) = [] \<or> (expected_identity \<noteq> [] \<and> hd (hd rows) \<noteq> expected_identity)
             then fail_with \<lparr>kind = missing, delivery = replied, exit_code = 0,
                    diagnostic = ''tmux has no '' @ kNoun k @ '' '' @ target\<rparr>
             else answer_with (row_of b snapshot 0))))"

definition describe :: "EntityKind \<Rightarrow> 'w Backend option \<Rightarrow> string \<Rightarrow> string \<Rightarrow> ('w, 'w Row) io" where
  "describe k on target expected_identity =
     one_entity k on (request_of [''display-message'', ''-p'', ''-t'', target]) message target expected_identity"

fun append_environment :: "CommandRequest \<Rightarrow> (string \<times> string) list \<Rightarrow> (CommandFailure, CommandRequest) expected" where
  "append_environment command [] = Inr command"
| "append_environment command ((name, v) # variables) =
     (if name = [] \<or> CHR ''='' \<in> set name
      then Inl (rejected (''an environment variable name cannot be empty or hold an '' @ [CHR 0x27] @ ''='' @ [CHR 0x27]
        @ '': tmux would accept it and set nothing''))
      else append_environment (command @ [plain_argument ''-e'',
             sensitive_range (name @ ''='' @ v) (length name + 1) (length v)]) variables)"

definition without_trailing_newline :: "string \<Rightarrow> string" where
  "without_trailing_newline s = (if s \<noteq> [] \<and> last s = CHR 0x0A then butlast s else s)"

definition expand_format :: "EntityKind \<Rightarrow> 'w Backend option \<Rightarrow> string \<Rightarrow> string \<Rightarrow> string \<Rightarrow> ('w, string) io" where
  "expand_format k on target format expected_identity =
     (case on of
        None \<Rightarrow> fail_with disconnected
      | Some b \<Rightarrow>
          let identity = (if expected_identity = [] then target else expected_identity);
              request = ''#{'' @ hd (kFields k) @ ''}'' @ kFormatSeparator @ format;
              command = append_display_message_text [''display-message'', ''-p'', ''-t'', target] request;
              opening = identity @ kFormatSeparator in
          and_then (be_run b (request_of command) (policy_timeout (be_policy b)) (policy_output_limit (be_policy b))) (\<lambda>reply.
            let answer = without_trailing_newline reply in
            if \<not> starts_with answer opening
            then fail_with \<lparr>kind = missing, delivery = replied, exit_code = 0,
                   diagnostic = ''tmux has no '' @ kNoun k @ '' '' @ target\<rparr>
            else answer_with (drop (length opening) answer)))"

definition refuse_before :: "'w Backend \<Rightarrow> Version \<Rightarrow> string \<Rightarrow> string \<Rightarrow> 'w \<Rightarrow> 'w \<times> CommandFailure option" where
  "refuse_before b needed operation needed_text w =
     (case be_version b w of
        (w', Inl f) \<Rightarrow> (w', Some f)
      | (w', Inr running) \<Rightarrow> (w', if version_ge running needed then None else Some (older_daemon operation needed_text)))"

definition refuse_name_on_exact_37 :: "'w Backend \<Rightarrow> string \<Rightarrow> string \<Rightarrow> 'w \<Rightarrow> 'w \<times> CommandFailure option" where
  "refuse_name_on_exact_37 b name what w =
     (if \<not> has_separator name then (w, None)
      else case be_version b w of
        (w', Inl f) \<Rightarrow> (w', Some f)
      | (w', Inr running) \<Rightarrow>
          (w', if \<not> affects name_separators_rejected running then None else Some (separator_failure what)))"

section \<open>What an acquired entity is\<close>

lemma kFields_ne [simp]: "kFields k \<noteq> []"
  by (cases k) (simp_all add: field_list_defs)

lemma and_then_Inr:
  "and_then m k w = (w', Inr x) \<longleftrightarrow> (\<exists>w1 y. m w = (w1, Inr y) \<and> k y w1 = (w', Inr x))"
  by (auto simp: and_then_def split: prod.splits sum.splits)

lemma unless_Inr [simp]: "unless refusal m w = (w', Inr x) \<longleftrightarrow> refusal = None \<and> m w = (w', Inr x)"
  by (auto simp: unless_def fail_with_def split: option.splits)

lemma answer_Inr [simp]: "answer_with y w = (w', Inr x) \<longleftrightarrow> w' = w \<and> x = y" "\<not> fail_with f w = (w', Inr x)"
  by (auto simp: answer_with_def fail_with_def)

lemma take_Inr:
  assumes "take_in_session b names request placement w = (w', Inr snapshot)"
  shows "snap_fields snapshot = names \<and> (\<forall>row \<in> set (snap_rows snapshot). length row = length names)"
  using assms parse_rows_width
  by (auto simp: take_in_session_def take_snapshot_def split: prod.splits sum.splits option.splits)

lemma one_entity_identity:
  assumes "one_entity k on request placement target identity' w = (w', Inr r)"
  shows "\<exists>b. on = Some b \<and> row_backend r = Some b \<and> snap_fields (row_snapshot r) = kFields k \<and>
    value_at r 0 \<noteq> [] \<and> (identity' \<noteq> [] \<longrightarrow> value_at r 0 = identity')"
proof (cases on)
  case (Some b)
  obtain w1 snapshot where t: "take_in_session b (kFields k) request placement w = (w1, Inr snapshot)"
    and r: "length (snap_rows snapshot) = 1" "hd (hd (snap_rows snapshot)) \<noteq> []"
      "identity' \<noteq> [] \<longrightarrow> hd (hd (snap_rows snapshot)) = identity'" "r = row_of b snapshot 0"
    using assms Some by (auto simp: one_entity_def and_then_Inr Let_def split: if_splits)
  obtain row where row: "snap_rows snapshot = [row]" using r(1) by (cases "snap_rows snapshot") auto
  then have "length row = length (kFields k)" using take_Inr [OF t] by simp
  then have "row \<noteq> []" using kFields_ne [of k] by auto
  then show ?thesis using Some r row take_Inr [OF t] by (simp add: row_of_def value_at_def hd_conv_nth)
qed (use assms in \<open>simp add: one_entity_def fail_with_def\<close>)

lemma malformed_column_None:
  "malformed_column column rows = None \<Longrightarrow> row \<in> set rows \<Longrightarrow> column < length row \<Longrightarrow> row ! column \<noteq> [] \<Longrightarrow>
   from_chars_int 64 (row ! column) \<noteq> None"
  by (induction column rows rule: malformed_column.induct) (auto split: if_splits)

lemma malformed_loop_None:
  "malformed_loop snapshot names = None \<Longrightarrow> field \<in> set names \<Longrightarrow>
   malformed_column (index_of snapshot field) (snap_rows snapshot) = None"
  by (induction snapshot names rule: malformed_loop.induct) (auto split: option.splits)

text \<open>No made-up numbers: in every entity of a listing, each column that is read as a number is either empty or holds the
  decimal of a 64-bit integer, so a zero an accessor returns was either printed by tmux or stands for nothing.\<close>

theorem listed_numbers_exact:
  assumes "list_entities k on request w = (w', Inr rs)" "r \<in> set rs" "field \<in> set (number_fields k)"
  shows "value_named r field = [] \<or> from_chars_int 64 (value_named r field) = Some (to_number (value_named r field))"
proof -
  obtain b snapshot where s: "malformed_number k snapshot = None" "r \<in> row_of b snapshot ` {0..<length (snap_rows snapshot)}"
    using assms(1,2) by (auto simp: list_entities_def and_then_Inr split: option.splits)
  then obtain n where n: "n < length (snap_rows snapshot)" "r = row_of b snapshot n" by auto
  let ?row = "snap_rows snapshot ! n" and ?c = "index_of snapshot field"
  have "?c < length ?row \<Longrightarrow> ?row ! ?c \<noteq> [] \<Longrightarrow> from_chars_int 64 (?row ! ?c) \<noteq> None"
    using malformed_column_None malformed_loop_None [of snapshot "number_fields k" field] s(1) assms(3) n(1)
    unfolding malformed_number_def by (meson nth_mem)
  then show ?thesis using n by (cases "?c < length ?row \<and> ?row ! ?c \<noteq> []") (auto simp: row_of_def value_named_def value_at_def to_number_def Let_def)
qed

section \<open>Expanding a format\<close>

text \<open>What comes back from expanding a format is exactly what tmux printed after the identity it was asked for: the answer
  of a command about another object, or about none, is never handed on.\<close>

theorem expand_format_iff:
  "expand_format k (Some b) target format expected' w = (w', Inr answer) \<longleftrightarrow>
    (\<exists>reply. be_run b (request_of [''display-message'', ''-p'', ''-t'', target, ''--'',
          ''#{'' @ hd (kFields k) @ ''}'' @ kFormatSeparator @ format])
        (policy_timeout (be_policy b)) (policy_output_limit (be_policy b)) w = (w', Inr reply) \<and>
      without_trailing_newline reply = (if expected' = [] then target else expected') @ kFormatSeparator @ answer)"
proof -
  let ?p = "(if expected' = [] then target else expected') @ kFormatSeparator"
  obtain w1 r where run: "be_run b (request_of [''display-message'', ''-p'', ''-t'', target, ''--'',
        ''#{'' @ hd (kFields k) @ ''}'' @ kFormatSeparator @ format])
      (policy_timeout (be_policy b)) (policy_output_limit (be_policy b)) w = (w1, r)" by fastforce
  have "starts_with s ?p \<and> answer = drop (length ?p) s \<longleftrightarrow> s = ?p @ answer" for s
    by (auto simp: starts_with_iff)
  note tail = this [unfolded append_assoc]
  have "expand_format k (Some b) target format expected' w = (w', Inr answer) \<longleftrightarrow>
      (\<exists>reply. w' = w1 \<and> r = Inr reply \<and> starts_with (without_trailing_newline reply) ?p \<and>
        answer = drop (length ?p) (without_trailing_newline reply))"
    using run by (cases r) (auto simp: expand_format_def and_then_def Let_def append_display_message_text_def)
  then show ?thesis unfolding tail using run by auto
qed

section \<open>Variables of a new process\<close>

text \<open>Variables are refused exactly when a name is empty or holds an equals sign. Otherwise each becomes one \<open>-e\<close> argument
  \<open>name=value\<close>, in order, and what is hidden of the command grows by exactly the values that are not empty.\<close>

theorem environment_carried:
  "case append_environment command variables of
     Inl f \<Rightarrow> delivery f = not_started \<and> list_ex (\<lambda>(name, v). name = [] \<or> CHR ''='' \<in> set name) variables
   | Inr command' \<Rightarrow>
       list_all (\<lambda>(name, v). name \<noteq> [] \<and> str_find CHR ''='' (name @ ''='' @ v) = Some (length name)) variables \<and>
       argv command' = argv command @ concat (map (\<lambda>(name, v). [''-e'', name @ ''='' @ v]) variables) \<and>
       concat (map arg_parts command') = concat (map arg_parts command) @ concat (map (\<lambda>(name, v). if v = [] then [] else [v]) variables)"
proof (induction command variables rule: append_environment.induct)
  case (2 command name v variables)
  have "str_find CHR ''='' (name @ ''='' @ v) = Some (length name)" if "CHR ''='' \<notin> set name"
    using that by (simp add: str_find_append_None str_find_None)
  then show ?case
    using 2 by (auto simp: rejected_def sensitive_range_def plain_argument_def argv_def split: sum.splits)
qed simp

section \<open>Applied\<close>

text \<open>A server that gives every command the same answer.\<close>

definition answering :: "nat \<Rightarrow> string \<Rightarrow> ServerImplementation \<Rightarrow> string \<Rightarrow> unit Backend" where
  "answering address who what out =
     \<lparr>be_address = address, be_run = (\<lambda>c limit output_limit w. (w, Inr out)), be_version = answer_with (release 3 5 0),
      be_release = answer_with (), be_attach = (\<lambda>target. fail_with disconnected), be_identity = (\<lambda>w. who),
      be_socket_path = (\<lambda>w. []), be_selected_path = (\<lambda>w. []),
      be_capabilities = \<lparr>implementation = what, backend = backend_custom\<rparr>,
      be_policy = \<lparr>policy_timeout = None, policy_output_limit = None, tmux_binary = ''tmux''\<rparr>\<rparr>"

definition listing_line :: "string list \<Rightarrow> string" where
  "listing_line row = concat (map (\<lambda>v. escape_value v @ kFormatSeparator) row) @ [CHR 0x0A]"

lemma parse_listing_line:
  "row \<noteq> [] \<Longrightarrow> \<forall>v \<in> set row. CHR 0x0A \<notin> set v \<Longrightarrow> parse_rows (length row) (listing_line row) = Some [row]"
  using parse_rows_line [of row "[]"] by (simp add: listing_line_def parse_rows.simps [of _ "[]"])

definition work_row :: "string list" where
  "work_row = [''$0'', ''work'', ''0'', ''1'', ''/'', ''5'', [], ''0'']"

lemma take_work:
  "take_in_session (answering n who what (listing_line work_row)) session_fields request placement () =
     ((), Inr \<lparr>snap_fields = session_fields, snap_rows = [work_row]\<rparr>)"
  using parse_listing_line [of work_row]
  by (simp add: take_in_session_def answering_def take_snapshot_def work_row_def session_fields_def)

lemma work_numbers: "malformed_number session_kind \<lparr>snap_fields = session_fields, snap_rows = [work_row]\<rparr> = None"
  by code_simp

theorem listed_numbers_exact_witness:
  "\<exists>r. list_entities session_kind (Some (answering 1 ''1:2'' impl_tmux (listing_line work_row))) [''list-sessions''] () = ((), Inr [r]) \<and>
     (value_named r ''session_windows'' = [] \<or>
      from_chars_int 64 (value_named r ''session_windows'') = Some (to_number (value_named r ''session_windows'')))"
proof -
  let ?b = "answering 1 ''1:2'' impl_tmux (listing_line work_row)"
  let ?r = "row_of ?b \<lparr>snap_fields = session_fields, snap_rows = [work_row]\<rparr> 0"
  have l: "list_entities session_kind (Some ?b) [''list-sessions''] () = ((), Inr [?r])"
    by (simp add: list_entities_def and_then_def take_work work_numbers unless_def answer_with_def)
  show ?thesis using l listed_numbers_exact [OF l, of ?r "''session_windows''"] by auto
qed

end
