(* ===== verification/Backend_Laws.thy ===== *)
theory Backend_Laws
  imports Acquire
begin

text \<open>What the entities rely on a backend for, as a locale, and the proof that the subprocess backend provides it: a failure that
  says nothing was started tells the truth, and looking at the version changes nothing.\<close>


section \<open>Calls that are honest about what they did\<close>

text \<open>A call is \<^emph>\<open>honest\<close> when a failure that says ``not started'' leaves what took effect on the server as it was, \<^emph>\<open>quiet\<close> when
  it never has an effect, and \<^emph>\<open>settled\<close> when it only reads an answer that has arrived.\<close>

named_theorems honest_rules

definition honest :: "('w \<Rightarrow> bool) \<Rightarrow> ('w \<Rightarrow> 'e) \<Rightarrow> ('w, 'a) io \<Rightarrow> bool" where
  "honest ok effects m \<longleftrightarrow> (\<forall>w. ok w \<longrightarrow>
     ok (fst (m w)) \<and> (\<forall>f. snd (m w) = Inl f \<longrightarrow> delivery f = not_started \<longrightarrow> effects (fst (m w)) = effects w))"

definition quiet :: "('w \<Rightarrow> bool) \<Rightarrow> ('w \<Rightarrow> 'e) \<Rightarrow> ('w \<Rightarrow> 'w \<times> 'r) \<Rightarrow> bool" where
  "quiet ok effects m \<longleftrightarrow> (\<forall>w. ok w \<longrightarrow> ok (fst (m w)) \<and> effects (fst (m w)) = effects w)"

definition settled_call :: "('w, 'a) io \<Rightarrow> bool" where
  "settled_call m \<longleftrightarrow> (\<forall>w. fst (m w) = w \<and> (\<forall>f. snd (m w) = Inl f \<longrightarrow> delivery f \<noteq> not_started))"

lemma settled_call_simps [simp]:
  "settled_call (answer_with x)" "settled_call (fail_with f) \<longleftrightarrow> delivery f \<noteq> not_started"
  by (auto simp: settled_call_def answer_with_def fail_with_def)

lemma settled_unless:
  "(\<And>f. refusal = Some f \<Longrightarrow> delivery f \<noteq> not_started) \<Longrightarrow> settled_call m \<Longrightarrow> settled_call (unless refusal m)"
  by (cases refusal) (auto simp: unless_def)

lemma honest_fail [honest_rules]: "honest ok effects (fail_with f)" "honest ok effects (answer_with x)"
  by (auto simp: honest_def fail_with_def answer_with_def)

lemma honest_unless [honest_rules]: "honest ok effects m \<Longrightarrow> honest ok effects (unless refusal m)"
  by (auto simp: unless_def honest_fail split: option.splits)

lemma unless_found_eq:
  "unless_found check m w = (case snd (check w) of Some f \<Rightarrow> (fst (check w), Inl f) | None \<Rightarrow> m (fst (check w)))"
  by (simp add: unless_found_def split: prod.splits option.splits)

lemma and_then_eq:
  "and_then m k w = (case snd (m w) of Inl f \<Rightarrow> (fst (m w), Inl f) | Inr x \<Rightarrow> k x (fst (m w)))"
  by (simp add: and_then_def split: prod.splits sum.splits)

lemma honest_unless_found [honest_rules]:
  assumes "quiet ok effects check" "honest ok effects m"
  shows "honest ok effects (unless_found check m)"
  using assms unfolding honest_def quiet_def unless_found_eq by (simp split: option.splits)

lemma honest_settled:
  assumes "honest ok effects m" "\<And>x. settled_call (k x)"
  shows "honest ok effects (and_then m k)"
  using assms unfolding honest_def settled_call_def and_then_eq by (simp split: sum.splits)

lemma quiet_then_honest:
  assumes "quiet ok effects m" "\<And>x. honest ok effects (k x)"
  shows "honest ok effects (and_then m k)"
  using assms unfolding honest_def quiet_def and_then_eq by (simp split: sum.splits)

lemma honest_if [honest_rules]:
  "(P \<Longrightarrow> honest ok effects m) \<Longrightarrow> (\<not> P \<Longrightarrow> honest ok effects n) \<Longrightarrow> honest ok effects (if P then m else n)"
  by simp

lemma honest_effect [honest_rules]: "honest ok effects m \<Longrightarrow> honest ok effects (effect m)"
  unfolding effect_def by (rule honest_settled) simp_all

lemma quiet_no_check [honest_rules]: "quiet ok effects (\<lambda>w. (w, x))"
  by (simp add: quiet_def)

lemma take_snapshot_settled:
  "take_snapshot (\<lambda>_. Inr output) names request placement = Inl f \<Longrightarrow> delivery f \<noteq> not_started"
  by (auto simp: take_snapshot_def split: option.splits)

lemma take_in_session_then:
  "take_in_session b names request placement =
     and_then (be_run b (place_format names request placement) (policy_timeout (be_policy b)) (policy_output_limit (be_policy b)))
       (\<lambda>output w. (w, take_snapshot (\<lambda>_. Inr output) names request placement))"
  by (rule ext) (auto simp: take_in_session_def and_then_def take_snapshot_def split: prod.splits sum.splits)

lemma malformed_loop_settled: "malformed_loop snapshot names = Some f \<Longrightarrow> delivery f \<noteq> not_started"
  by (induction snapshot names rule: malformed_loop.induct) (auto split: option.splits)

section \<open>What a backend promises\<close>

text \<open>A row of this backend, or of a recording.\<close>

definition served_by :: "'w Backend \<Rightarrow> 'w Row \<Rightarrow> bool" where
  "served_by b r \<longleftrightarrow> row_backend r = None \<or> row_backend r = Some b"

locale honest_backend =
  fixes b :: "'w Backend" and ok :: "'w \<Rightarrow> bool" and effects :: "'w \<Rightarrow> 'e list"
  assumes run_honest: "honest ok effects (be_run b c limit output_limit)"
    and version_quiet: "quiet ok effects (be_version b)"
    and release_quiet: "quiet ok effects (be_release b)"
    and attach_quiet: "quiet ok effects (be_attach b target)"
begin

lemma row_run_honest [honest_rules]: "served_by b r \<Longrightarrow> honest ok effects (row_run r c n)"
  by (auto simp: served_by_def row_run_def honest_fail run_honest)

lemma take_honest: "honest ok effects (take_in_session b names request placement)"
  unfolding take_in_session_then
  by (rule honest_settled [OF run_honest]) (auto simp: settled_call_def dest: take_snapshot_settled)

lemma list_entities_honest [honest_rules]:
  "served_by b r \<Longrightarrow> honest ok effects (list_entities k (row_backend r) request)"
  by (auto simp: served_by_def list_entities_def honest_fail malformed_number_def
      intro!: honest_settled take_honest settled_unless dest: malformed_loop_settled)

lemma one_entity_honest [honest_rules]:
  "served_by b r \<Longrightarrow> honest ok effects (one_entity k (row_backend r) request placement target identity')"
  by (auto simp: served_by_def one_entity_def honest_fail malformed_number_def Let_def
      intro!: honest_settled take_honest settled_unless dest: malformed_loop_settled)

lemma describe_honest [honest_rules]:
  "served_by b r \<Longrightarrow> honest ok effects (describe k (row_backend r) target identity')"
  unfolding describe_def by (rule one_entity_honest)

lemma expand_format_honest [honest_rules]:
  "served_by b r \<Longrightarrow> honest ok effects (expand_format k (row_backend r) target format identity')"
  by (auto simp: served_by_def expand_format_def honest_fail Let_def intro!: honest_settled run_honest)

lemma version_step: "ok w \<Longrightarrow> be_version b w = (w', r) \<Longrightarrow> ok w' \<and> effects w' = effects w"
  using version_quiet unfolding quiet_def by (metis fst_conv)

lemma refuse_name_quiet [honest_rules]: "quiet ok effects (refuse_name_on_exact_37 b name what)"
  unfolding quiet_def refuse_name_on_exact_37_def by (auto dest: version_step split: prod.splits sum.splits)

lemma refuse_before_quiet [honest_rules]: "quiet ok effects (refuse_before b needed operation text')"
  unfolding quiet_def refuse_before_def by (auto dest: version_step split: prod.splits sum.splits)

end

section \<open>The subprocess backend keeps the promise\<close>

text \<open>A request that only looks: the two a version check launches.\<close>

definition inspects :: "ProcessRequest \<Rightarrow> bool" where
  "inspects q \<longleftrightarrow> (\<exists>tmux selector limit m. q = probe_request tmux selector limit m) \<or> (\<exists>tmux limit. q = version_request tmux limit)"

definition took_effect :: "Host \<Rightarrow> string \<Rightarrow> ProcessRequest list \<Rightarrow> ProcessRequest \<Rightarrow> bool" where
  "took_effect host m h q \<longleftrightarrow> \<not> inspects q \<and> (case launch (platform host) h q of
     Inl e \<Rightarrow> error_started e \<noteq> not_started
   | Inr reply \<Rightarrow> \<not> fence_fired (stderr_bytes reply) m)"

text \<open>What was launched and took effect, in order.\<close>

definition effects_of :: "Host \<Rightarrow> string \<Rightarrow> ProcessRequest list \<Rightarrow> ProcessRequest list" where
  "effects_of host m h = map (\<lambda>i. h ! i) (filter (\<lambda>i. took_effect host m (take i h) (h ! i)) [0..<length h])"

definition subprocess_effects :: "Host \<Rightarrow> SubprocessBackend \<Rightarrow> ProcessRequest list" where
  "subprocess_effects host s = effects_of host (fence_marker s) (launched s)"

lemma effects_of_snoc: "effects_of host m (h @ [q]) = effects_of host m h @ (if took_effect host m h q then [q] else [])"
proof -
  have "filter (\<lambda>i. took_effect host m (take i (h @ [q])) ((h @ [q]) ! i)) [0..<length h]
      = filter (\<lambda>i. took_effect host m (take i h) (h ! i)) [0..<length h]"
    by (rule filter_cong) (auto simp: nth_append)
  then show ?thesis by (auto simp: effects_of_def nth_append)
qed

lemma effects_of_checks: "\<forall>q \<in> set qs. inspects q \<Longrightarrow> effects_of host m (h @ qs) = effects_of host m h"
proof (induction qs rule: rev_induct)
  case (snoc q qs)
  then show ?case by (simp add: effects_of_snoc took_effect_def flip: append_assoc)
qed simp

lemma harmless_inspects: "harmless s q \<Longrightarrow> inspects q"
  unfolding harmless_def inspects_def by blast

lemma marker_frame [simp]:
  "fence_marker (observe d c f s) = fence_marker s" "fence_marker (after_checks s cs v) = fence_marker s"
  by (simp_all add: observe_def after_checks_def Let_def)

lemma marker_report: "report_failure d c f s = (s', r) \<Longrightarrow> fence_marker s' = fence_marker s"
  by (auto simp: report_failure_def Let_def)

lemma marker_conclude: "conclude d notify c s r = (s', r') \<Longrightarrow> fence_marker s' = fence_marker s"
  by (auto simp: conclude_def dest: marker_report split: sum.splits if_splits)

lemma marker_interpret: "interpret_reply d c n reply notify s = (s', r) \<Longrightarrow> fence_marker s' = fence_marker s"
  unfolding interpret_reply_def Let_def
  by (auto dest!: marker_conclude split: if_splits Termination.splits)

lemma marker_publish: "publish_started_endpoint host err s = (s', r) \<Longrightarrow> fence_marker s' = fence_marker s"
  by (auto simp: publish_started_endpoint_def split: sum.splits if_splits)

lemma marker_prepared: "run_prepared host c publishes q s = (s', r) \<Longrightarrow> fence_marker s' = fence_marker s"
  by (auto simp: run_prepared_def dispatch_eq Let_def
      dest!: marker_report marker_interpret marker_publish split: sum.splits if_splits prod.splits)

lemma marker_run:
  assumes "backend_ok s" "run_scoped host c limit output_limit s = (s', r)"
  shows "fence_marker s' = fence_marker s"
proof -
  have "fence_marker s1 = fence_marker s" if "prepare_request host c limit output_limit True s = (s1, p)" for s1 p
    using prepare_request_frame [OF that assms(1)] by auto
  then show ?thesis using assms(2)
    by (auto simp: run_scoped_def Let_def dest!: marker_report marker_prepared
        split: sum.splits if_splits prod.splits PreparedRequest.splits)
qed

lemma quiet_checks:
  assumes "launched s' = launched s @ cs" "\<forall>q \<in> set cs. harmless s q" "fence_marker s' = fence_marker s"
  shows "subprocess_effects host s' = subprocess_effects host s"
  using assms effects_of_checks [of cs host "fence_marker s" "launched s"] harmless_inspects
  by (auto simp: subprocess_effects_def)

lemma run_scoped_honest: "honest backend_ok (subprocess_effects host) (run_scoped host c limit output_limit)"
  unfolding honest_def
proof (intro allI impI conjI)
  fix s assume ok: "backend_ok s"
  obtain s' r where run: "run_scoped host c limit output_limit s = (s', r)" by fastforce
  obtain s1 timed where s1: "s' = observe timed c (failure_of r) s1" "run_shape host c limit output_limit s s1 timed r"
    using run_scoped_shape [OF ok run] by blast
  show "backend_ok (fst (run_scoped host c limit output_limit s))" using run s1 by (simp add: run_shape_def)
  fix f assume f: "snd (run_scoped host c limit output_limit s) = Inl f" "delivery f = not_started"
  then obtain cs where cs: "\<forall>q \<in> set cs. harmless s q" "launched s' = launched s @ cs \<or>
      (\<exists>q. launched s' = launched s @ cs @ [q] \<and> without_effect host (launched s @ cs) s q)"
    using run s1 unfolding run_shape_def by auto
  have m: "fence_marker s' = fence_marker s" by (rule marker_run [OF ok run])
  have "subprocess_effects host s' = subprocess_effects host s"
    using cs(2)
  proof
    assume "launched s' = launched s @ cs"
    then show ?thesis using cs(1) m by (rule quiet_checks)
  next
    assume "\<exists>q. launched s' = launched s @ cs @ [q] \<and> without_effect host (launched s @ cs) s q"
    then obtain q where q: "launched s' = (launched s @ cs) @ [q]" "without_effect host (launched s @ cs) s q" by auto
    then have "\<not> took_effect host (fence_marker s) (launched s @ cs) q"
      by (auto simp: took_effect_def without_effect_def split: sum.splits)
    moreover have "effects_of host (fence_marker s) (launched s @ cs) = effects_of host (fence_marker s) (launched s)"
      using cs(1) harmless_inspects by (intro effects_of_checks) blast
    ultimately show ?thesis unfolding subprocess_effects_def q(1) m by (simp add: effects_of_snoc del: append_assoc)
  qed
  then show "subprocess_effects host (fst (run_scoped host c limit output_limit s)) = subprocess_effects host s"
    using run by simp
qed

lemma backend_version_quiet: "quiet backend_ok (subprocess_effects host) (backend_version host)"
  unfolding quiet_def
proof (intro allI impI)
  fix s assume ok: "backend_ok s"
  obtain s' r where v: "backend_version host s = (s', r)" by fastforce
  have "\<exists>cs. launched s' = launched s @ cs \<and> (\<forall>q \<in> set cs. harmless s q) \<and> fence_marker s' = fence_marker s"
  proof (cases "version_cache s")
    case None
    obtain h q where hq: "query_endpoint (platform host) (tmux_binary (policy s)) (connection s)
        (Some (case policy_timeout (policy s) of Some t \<Rightarrow> t | None \<Rightarrow> 30000)) (launched s) = (h, q)" by fastforce
    from query_harmless [OF hq] obtain cs where "h = launched s @ cs" "\<forall>q \<in> set cs. harmless s q" by blast
    then show ?thesis using v None hq
      by (intro exI [of _ cs]) (auto simp: backend_version_def Let_def split: sum.splits if_splits)
  qed (use v in \<open>auto simp: backend_version_def\<close>)
  then show "backend_ok (fst (backend_version host s)) \<and>
      subprocess_effects host (fst (backend_version host s)) = subprocess_effects host s"
    using v backend_version_ok [OF ok v] quiet_checks by auto
qed

lemma check_release_quiet: "quiet backend_ok (subprocess_effects host) (check_release host)"
  unfolding quiet_def
proof (intro allI impI)
  fix s assume ok: "backend_ok s"
  obtain s' v where v: "check_version host (Some (case policy_timeout (policy s) of Some t \<Rightarrow> t | None \<Rightarrow> 30000)) s = (s', v)"
    by fastforce
  obtain cs w where "s' = after_checks s cs w" "\<forall>q \<in> set cs. harmless s q" "backend_ok s'"
    using check_version_frame [OF v ok] by blast
  moreover from this have "subprocess_effects host s' = subprocess_effects host s"
    by (intro quiet_checks [of _ _ cs]) simp_all
  ultimately show "backend_ok (fst (check_release host s)) \<and>
      subprocess_effects host (fst (check_release host s)) = subprocess_effects host s"
    using v by (simp add: check_release_def)
qed

interpretation posix: honest_backend "subprocess host address chosen" backend_ok "subprocess_effects host"
proof
  show "quiet backend_ok (subprocess_effects host) (be_attach (subprocess host address chosen) target)" for target
    by (simp add: quiet_def subprocess_def)
qed (simp_all add: subprocess_def run_scoped_honest backend_version_quiet check_release_quiet)

end
