(* ===== verification/Sessions.thy ===== *)
theory Sessions
  imports Backend_Laws
begin

text \<open>The methods of a session (\<open>src/src/entities.cpp\<close>).\<close>


section \<open>What every entity shares\<close>

definition row_checked :: "'w Row \<Rightarrow> ('w Backend \<Rightarrow> 'w \<Rightarrow> 'w \<times> CommandFailure option) \<Rightarrow> 'w \<Rightarrow> 'w \<times> CommandFailure option" where
  "row_checked r check = (case row_backend r of None \<Rightarrow> (\<lambda>w. (w, None)) | Some b \<Rightarrow> check b)"

definition listed :: "('w, string) io \<Rightarrow> ('w, OptionEntry list) io" where
  "listed reply = and_then reply (\<lambda>output. answer_with (parse_options output))"

definition named_entry :: "string \<Rightarrow> OptionEntry \<Rightarrow> OptionEntry" where
  "named_entry name entry =
     (if option_inherited entry \<and> option_name entry \<noteq> name \<and> option_name entry @ ''*'' = name
      then entry\<lparr>option_name := name, option_inherited := False\<rparr> else entry)"

definition named :: "('w, string) io \<Rightarrow> string \<Rightarrow> ('w, OptionEntry) io" where
  "named reply name = and_then (listed reply) (\<lambda>entries.
     case entries of
       [] \<Rightarrow> fail_with \<lparr>kind = missing, delivery = replied, exit_code = 0, diagnostic = ''no value set for option '' @ name\<rparr>
     | entry # _ \<Rightarrow> answer_with (named_entry name entry))"

definition scoped :: "string \<Rightarrow> string \<Rightarrow> string \<Rightarrow> string list \<Rightarrow> string list" where
  "scoped verb scope target rest = [verb] @ (if scope = [] then [] else [scope]) @ [''-t'', target] @ rest"

section \<open>Sessions\<close>

record NewWindowOptions =
  nw_name :: string
  nw_start_directory :: string
  nw_shell_command :: string
  nw_after_current :: bool
  nw_index :: "int option"
  nw_focus :: bool
  nw_environment :: "(string \<times> string) list"

definition plain_window_options :: "string \<Rightarrow> NewWindowOptions" where
  "plain_window_options name = \<lparr>nw_name = name, nw_start_directory = [], nw_shell_command = [], nw_after_current = False,
     nw_index = None, nw_focus = False, nw_environment = []\<rparr>"

definition session_target_of :: "'w Row \<Rightarrow> string" where
  "session_target_of s = session_id s"

definition session_windows :: "'w Row \<Rightarrow> ('w, 'w Row list) io" where
  "session_windows s = list_entities window_kind (row_backend s) [''list-windows'', ''-t'', session_target_of s]"

definition session_panes :: "'w Row \<Rightarrow> ('w, 'w Row list) io" where
  "session_panes s = list_entities pane_kind (row_backend s) [''list-panes'', ''-s'', ''-t'', session_target_of s]"

definition session_active_window :: "'w Row \<Rightarrow> ('w, 'w Row) io" where
  "session_active_window s = describe window_kind (row_backend s) (session_target_of s) []"

definition session_active_pane :: "'w Row \<Rightarrow> ('w, 'w Row) io" where
  "session_active_pane s = describe pane_kind (row_backend s) (session_target_of s) []"

definition moved :: "'w Row \<Rightarrow> ('w, string) io \<Rightarrow> ('w, 'w Row) io" where
  "moved s run = and_then run (\<lambda>_. session_active_window s)"

definition select_next_window :: "'w Row \<Rightarrow> ('w, 'w Row) io" where
  "select_next_window s =
     unless (row_refused s captured_mutation ''psmux cannot atomically target session navigation'')
       (moved s (row_run s (request_of [''next-window'', ''-t'', session_target_of s]) None))"

definition select_previous_window :: "'w Row \<Rightarrow> ('w, 'w Row) io" where
  "select_previous_window s =
     unless (row_refused s captured_mutation ''psmux cannot atomically target session navigation'')
       (moved s (row_run s (request_of [''previous-window'', ''-t'', session_target_of s]) None))"

definition select_last_window :: "'w Row \<Rightarrow> ('w, 'w Row) io" where
  "select_last_window s =
     unless (row_refused s captured_mutation ''psmux cannot atomically target session navigation'')
       (moved s (row_run s (request_of [''last-window'', ''-t'', session_target_of s]) None))"

definition shell_arguments :: "string \<Rightarrow> CommandRequest" where
  "shell_arguments shell = (if shell = [] then [] else [plain_argument ''--'', sensitive shell])"

definition session_new_window :: "'w Row \<Rightarrow> NewWindowOptions \<Rightarrow> ('w, 'w Row) io" where
  "session_new_window s options =
     (if nw_name options = [] then fail_with (rejected ''window name is empty'')
      else unless (row_refused s window_creation ''psmux can report a failed new-window as an existing window'')
        (unless_found (row_checked s (\<lambda>b. refuse_name_on_exact_37 b (nw_name options) ''window''))
          (let target = session_target_of s @ (case nw_index options of None \<Rightarrow> [] | Some i \<Rightarrow> '':'' @ int_text i);
               command = request_of ([''new-window'', ''-t'', target, ''-P'', ''-n'', escape_literal (nw_name options)]
                 @ (if nw_focus options then [] else [''-d''])
                 @ (if nw_after_current options then [''-a''] else [])
                 @ (if nw_start_directory options = [] then [] else [''-c'', escape_literal (nw_start_directory options)])) in
           case append_environment command (nw_environment options) of
             Inl f \<Rightarrow> fail_with f
           | Inr command \<Rightarrow> one_entity window_kind (row_backend s) (command @ shell_arguments (nw_shell_command options)) flag
               (nw_name options) [])))"

definition session_new_window_named :: "'w Row \<Rightarrow> string \<Rightarrow> ('w, 'w Row) io" where
  "session_new_window_named s name = session_new_window s (plain_window_options name)"

definition session_rename :: "'w Row \<Rightarrow> string \<Rightarrow> ('w, unit) io" where
  "session_rename s name =
     (if name = [] then fail_with (rejected ''session name is empty'')
      else unless_found (row_checked s (\<lambda>b. refuse_name_on_exact_37 b name ''session''))
        (effect (row_run s (request_of [''rename-session'', ''-t'', session_target_of s, ''--'', escape_literal name]) None)))"

definition session_kill :: "'w Row \<Rightarrow> ('w, unit) io" where
  "session_kill s = unless (row_refused s captured_mutation ''psmux cannot atomically kill a captured session'')
     (effect (row_run s (request_of [''kill-session'', ''-t'', session_target_of s]) None))"

definition session_refresh :: "'w Row \<Rightarrow> ('w, 'w Row) io" where
  "session_refresh s = describe session_kind (row_backend s) (session_target_of s) (session_id s)"

definition session_options :: "'w Row \<Rightarrow> ('w, OptionEntry list) io" where
  "session_options s = unless (row_refused s server_state ''psmux cannot atomically read session options'')
     (listed (row_run s (request_of (scoped ''show-options'' [] (session_target_of s) [''-A''])) None))"

definition session_option :: "'w Row \<Rightarrow> string \<Rightarrow> ('w, OptionEntry) io" where
  "session_option s name = unless (row_refused s server_state ''psmux cannot atomically read a session option'')
     (named (row_run s (request_of (scoped ''show-options'' [] (session_target_of s) [''-A'', ''--'', name])) None) name)"

definition session_set_option :: "'w Row \<Rightarrow> string \<Rightarrow> string \<Rightarrow> ('w, unit) io" where
  "session_set_option s name v = unless (row_refused s server_state ''psmux cannot atomically set a session option'')
     (effect (row_run s (request_of (scoped ''set-option'' [] (session_target_of s) [''--'', name]) @ [sensitive v]) None))"

definition session_unset_option :: "'w Row \<Rightarrow> string \<Rightarrow> ('w, unit) io" where
  "session_unset_option s name = unless (row_refused s server_state ''psmux cannot atomically unset a session option'')
     (effect (row_run s (request_of (scoped ''set-option'' [] (session_target_of s) [''-u'', ''--'', name])) None))"

definition session_expand :: "'w Row \<Rightarrow> string \<Rightarrow> ('w, string) io" where
  "session_expand s format = expand_format session_kind (row_backend s) (session_target_of s) format (session_id s)"

definition session_show_message :: "'w Row \<Rightarrow> string \<Rightarrow> ('w, unit) io" where
  "session_show_message s text' = unless (row_refused s captured_mutation ''psmux cannot safely preserve a session message'')
     (effect (row_run s (request_of (append_display_message_text [''display-message'', ''-t'', session_target_of s] text')) None))"

definition session_attach_command :: "'w Row \<Rightarrow> ('w, PreparedAttach) io" where
  "session_attach_command s = (case row_backend s of None \<Rightarrow> fail_with disconnected | Some b \<Rightarrow> be_attach b (session_id s))"

definition session_detach_clients :: "'w Row \<Rightarrow> ('w, unit) io" where
  "session_detach_clients s = unless (row_refused s captured_mutation ''psmux cannot safely route detach-client'')
     (effect (row_run s (request_of [''detach-client'', ''-s'', session_target_of s]) None))"

definition session_hooks :: "'w Row \<Rightarrow> ('w, OptionEntry list) io" where
  "session_hooks s = unless (row_refused s server_state ''psmux cannot atomically read session hooks'')
     (listed (row_run s (request_of [''show-hooks'', ''-t'', session_target_of s]) None))"

definition session_set_hook :: "'w Row \<Rightarrow> string \<Rightarrow> string \<Rightarrow> ('w, unit) io" where
  "session_set_hook s name command = unless (row_refused s server_state ''psmux cannot atomically set a session hook'')
     (effect (row_run s (request_of [''set-hook'', ''-t'', session_target_of s, ''--'', name] @ [sensitive command]) None))"

section \<open>Session calls are honest\<close>

lemma honest_listed [honest_rules]: "honest ok effects m \<Longrightarrow> honest ok effects (listed m)"
  unfolding listed_def by (rule honest_settled) simp_all

lemma honest_named [honest_rules]: "honest ok effects m \<Longrightarrow> honest ok effects (named m name)"
  unfolding named_def by (rule honest_settled [OF honest_listed]) (auto split: list.splits)

lemmas session_call_defs =
  session_windows_def session_panes_def session_active_window_def session_active_pane_def session_new_window_def
  session_new_window_named_def session_rename_def session_kill_def session_refresh_def session_options_def
  session_option_def session_set_option_def session_unset_option_def session_expand_def session_show_message_def
  session_detach_clients_def session_hooks_def session_set_hook_def

context honest_backend
begin

lemma row_checked_quiet [honest_rules]:
  "served_by b r \<Longrightarrow> quiet ok effects (check b) \<Longrightarrow> quiet ok effects (row_checked r check)"
  by (auto simp: served_by_def row_checked_def quiet_no_check)

lemma honest_environment [honest_rules]:
  "(\<And>c. honest ok effects (k c)) \<Longrightarrow>
   honest ok effects (case append_environment command variables of Inl f \<Rightarrow> fail_with f | Inr c \<Rightarrow> k c)"
  by (auto intro: honest_rules split: sum.splits)

lemma session_calls_honest [honest_rules]:
  assumes "served_by b s"
  shows "honest ok effects (session_windows s)" "honest ok effects (session_panes s)"
    "honest ok effects (session_active_window s)" "honest ok effects (session_active_pane s)"
    "honest ok effects (session_new_window s options)" "honest ok effects (session_new_window_named s name)"
    "honest ok effects (session_rename s name)"
    "honest ok effects (session_kill s)" "honest ok effects (session_refresh s)"
    "honest ok effects (session_options s)" "honest ok effects (session_option s name)"
    "honest ok effects (session_set_option s name v)" "honest ok effects (session_unset_option s name)"
    "honest ok effects (session_expand s format)" "honest ok effects (session_show_message s text')"
    "honest ok effects (session_detach_clients s)" "honest ok effects (session_hooks s)"
    "honest ok effects (session_set_hook s name command)"
  unfolding session_call_defs Let_def by (intro honest_rules assms)+

lemma attach_honest [honest_rules]: "served_by b s \<Longrightarrow> quiet ok effects (session_attach_command s)"
  using attach_quiet by (auto simp: served_by_def session_attach_command_def quiet_def fail_with_def)

end

end
