(* ===== verification/Windows.thy ===== *)
theory Windows
  imports Sessions
begin

text \<open>The methods of a window (\<open>src/src/entities.cpp\<close>).\<close>


record SplitOptions =
  sp_horizontal :: bool
  sp_before :: bool
  sp_full_size :: bool
  sp_start_directory :: string
  sp_shell_command :: string
  sp_percentage :: "int option"
  sp_focus :: bool
  sp_environment :: "(string \<times> string) list"

definition plain_split :: SplitOptions where
  "plain_split = \<lparr>sp_horizontal = False, sp_before = False, sp_full_size = False, sp_start_directory = [],
     sp_shell_command = [], sp_percentage = None, sp_focus = False, sp_environment = []\<rparr>"

definition checked_target :: "'w Row \<Rightarrow> (CommandFailure, string) expected" where
  "checked_target r =
     (case row_refused r reusable_window_target ''psmux cannot bind a reusable target to a captured window safely'' of
        Some f \<Rightarrow> Inl f
      | None \<Rightarrow> Inr (if window_session_id r = [] then window_id r else window_session_id r @ '':'' @ window_id r))"

definition window_target_of :: "'w Row \<Rightarrow> string" where
  "window_target_of r = (case checked_target r of Inl _ \<Rightarrow> [] | Inr t \<Rightarrow> t)"

definition window_session :: "'w Row \<Rightarrow> ('w, 'w Row) io" where
  "window_session r = describe session_kind (row_backend r) (window_target_of r) []"

definition window_panes :: "'w Row \<Rightarrow> ('w, 'w Row list) io" where
  "window_panes r = list_entities pane_kind (row_backend r) [''list-panes'', ''-t'', window_target_of r]"

definition window_active_pane :: "'w Row \<Rightarrow> ('w, 'w Row) io" where
  "window_active_pane r = describe pane_kind (row_backend r) (window_target_of r) []"

text \<open>The command \<open>Window::split\<close> and \<open>Pane::split\<close> build, which differs in the target only.\<close>

definition split_arguments :: "string \<Rightarrow> SplitOptions \<Rightarrow> string list" where
  "split_arguments target options =
     [''split-window'', ''-t'', target, ''-P'']
     @ (if sp_focus options then [] else [''-d''])
     @ [if sp_horizontal options then ''-h'' else ''-v'']
     @ (if sp_before options then [''-b''] else [])
     @ (if sp_full_size options then [''-f''] else [])
     @ (case sp_percentage options of None \<Rightarrow> [] | Some p \<Rightarrow> [''-l'', int_text p @ ''%''])
     @ (if sp_start_directory options = [] then [] else [''-c'', escape_literal (sp_start_directory options)])"

definition split_at :: "'w Row \<Rightarrow> string \<Rightarrow> string \<Rightarrow> SplitOptions \<Rightarrow> ('w, 'w Row) io" where
  "split_at r target identity' options =
     (if (case sp_percentage options of None \<Rightarrow> False | Some p \<Rightarrow> p < 1 \<or> p > 100)
      then fail_with (rejected ''a percentage of the window is between 1 and 100'')
      else unless (row_refused r captured_mutation ''psmux cannot safely target split-window'')
        (case append_environment (request_of (split_arguments target options)) (sp_environment options) of
           Inl f \<Rightarrow> fail_with f
         | Inr command \<Rightarrow> one_entity pane_kind (row_backend r) (command @ shell_arguments (sp_shell_command options)) flag
             identity' []))"

definition window_split :: "'w Row \<Rightarrow> SplitOptions \<Rightarrow> ('w, 'w Row) io" where
  "window_split r options = split_at r (window_target_of r) (window_id r) options"

definition window_rename :: "'w Row \<Rightarrow> string \<Rightarrow> ('w, unit) io" where
  "window_rename r name =
     (if name = [] then fail_with (rejected ''window name is empty'')
      else unless (row_refused r captured_mutation ''psmux cannot safely target rename-window'')
        (unless_found (row_checked r (\<lambda>b. refuse_name_on_exact_37 b name ''window''))
          (effect (row_run r (request_of [''rename-window'', ''-t'', window_target_of r, ''--'', escape_literal name]) None))))"

definition window_select :: "'w Row \<Rightarrow> ('w, unit) io" where
  "window_select r = unless (row_refused r captured_mutation ''psmux cannot safely select a window by stable id'')
     (effect (row_run r (request_of [''select-window'', ''-t'', window_target_of r]) None))"

definition window_show_message :: "'w Row \<Rightarrow> string \<Rightarrow> ('w, unit) io" where
  "window_show_message r text' = unless (row_refused r captured_mutation ''psmux cannot safely target a window message'')
     (effect (row_run r (request_of (append_display_message_text [''display-message'', ''-t'', window_target_of r] text')) None))"

definition window_expand :: "'w Row \<Rightarrow> string \<Rightarrow> ('w, string) io" where
  "window_expand r format = expand_format window_kind (row_backend r) (window_target_of r) format (window_id r)"

definition window_kill :: "'w Row \<Rightarrow> ('w, unit) io" where
  "window_kill r = unless (row_refused r captured_mutation ''psmux can kill the active window for a stale target'')
     (effect (row_run r (request_of [''kill-window'', ''-t'', window_target_of r]) None))"

text \<open>\<open>detail::validate_layouts\<close> over a backend: the daemon is asked only when a layout depends on its release.\<close>

definition layouts_refused :: "'w Backend \<Rightarrow> LayoutRequest list \<Rightarrow> 'w \<Rightarrow> 'w \<times> LayoutFailure option" where
  "layouts_refused b layouts w =
     (let (w', v) = (case check_syntax 0 layouts None of
            Inr (Some _) \<Rightarrow> be_version b w
          | _ \<Rightarrow> (w, Inl disconnected)) in
      (w', case validate_layouts (\<lambda>_. v) layouts of Inl f \<Rightarrow> Some f | Inr _ \<Rightarrow> None))"

definition window_select_layout :: "'w Row \<Rightarrow> string \<Rightarrow> ('w, unit) io" where
  "window_select_layout r layout =
     unless (row_refused r captured_mutation ''psmux cannot safely target select-layout'')
       (case row_backend r of
          None \<Rightarrow> fail_with disconnected
        | Some b \<Rightarrow> unless_found
            (\<lambda>w. map_prod id (map_option cause) (layouts_refused b [\<lparr>layout_text = layout, minimum_panes = 1\<rparr>] w))
            (effect (row_run r (request_of [''select-layout'', ''-t'', window_target_of r, ''--'', layout]) None)))"

definition window_resize :: "'w Row \<Rightarrow> int \<Rightarrow> int \<Rightarrow> ('w, unit) io" where
  "window_resize r width height =
     (if width \<le> 0 \<or> height \<le> 0 then fail_with (rejected ''a window cannot be resized to nothing'')
      else unless (row_refused r captured_mutation ''psmux treats resize-window as a no-op'')
        (effect (row_run r (request_of [''resize-window'', ''-t'', window_target_of r, ''-x'', int_text width, ''-y'', int_text height]) None)))"

definition window_next_layout :: "'w Row \<Rightarrow> ('w, unit) io" where
  "window_next_layout r = unless (row_refused r captured_mutation ''psmux cannot safely target next-layout'')
     (effect (row_run r (request_of [''next-layout'', ''-t'', window_target_of r]) None))"

definition window_previous_layout :: "'w Row \<Rightarrow> ('w, unit) io" where
  "window_previous_layout r = unless (row_refused r captured_mutation ''psmux cannot safely target previous-layout'')
     (effect (row_run r (request_of [''previous-layout'', ''-t'', window_target_of r]) None))"

definition window_rotate :: "'w Row \<Rightarrow> ('w, unit) io" where
  "window_rotate r = unless (row_refused r captured_mutation ''psmux cannot safely target rotate-window'')
     (effect (row_run r (request_of [''rotate-window'', ''-t'', window_target_of r]) None))"

definition window_select_last_pane :: "'w Row \<Rightarrow> ('w, 'w Row) io" where
  "window_select_last_pane r = unless (row_refused r captured_mutation ''psmux cannot safely target the last pane'')
     (and_then (row_run r (request_of [''select-pane'', ''-l'', ''-t'', window_target_of r]) None) (\<lambda>_. window_active_pane r))"

definition unless_crossed :: "'w Row \<Rightarrow> 'w Row \<Rightarrow> ('w, 'a) io \<Rightarrow> ('w, 'a) io" where
  "unless_crossed l r m w = (if from_different_servers l r w then (w, Inl crossed_servers) else m w)"

definition window_link_to :: "'w Row \<Rightarrow> 'w Row \<Rightarrow> ('w, unit) io" where
  "window_link_to r session = unless_crossed r session
     (unless (row_refused r captured_mutation ''psmux cannot link a window between sessions'')
       (effect (row_run r (request_of [''link-window'', ''-s'', window_target_of r, ''-t'', session_target_of session @ '':'']) None)))"

definition window_unlink :: "'w Row \<Rightarrow> ('w, unit) io" where
  "window_unlink r = unless (row_refused r captured_mutation ''psmux unlink-window destroys the active window'')
     (effect (row_run r (request_of [''unlink-window'', ''-t'', window_target_of r]) None))"

definition window_swap_with :: "'w Row \<Rightarrow> 'w Row \<Rightarrow> ('w, unit) io" where
  "window_swap_with r other = unless_crossed r other
     (unless (row_refused r captured_mutation ''psmux cannot safely target swap-window'')
       (effect (row_run r (request_of [''swap-window'', ''-s'', window_target_of r, ''-t'', window_target_of other]) None)))"

definition window_move_to :: "'w Row \<Rightarrow> int \<Rightarrow> ('w, unit) io" where
  "window_move_to r index =
     (if index < 0 then fail_with (rejected ''a window index cannot be negative'')
      else unless (row_refused r captured_mutation ''psmux cannot safely target move-window'')
        (effect (row_run r (request_of [''move-window'', ''-d'', ''-s'', window_target_of r, ''-t'',
           window_session_id r @ '':'' @ int_text index]) None)))"

definition window_refresh :: "'w Row \<Rightarrow> ('w, 'w Row) io" where
  "window_refresh r = describe window_kind (row_backend r) (window_target_of r) (window_id r)"

definition window_options :: "'w Row \<Rightarrow> ('w, OptionEntry list) io" where
  "window_options r = unless (row_refused r server_state ''psmux does not provide window-scoped options'')
     (listed (row_run r (request_of (scoped ''show-options'' ''-w'' (window_target_of r) [''-A''])) None))"

definition window_option :: "'w Row \<Rightarrow> string \<Rightarrow> ('w, OptionEntry) io" where
  "window_option r name = unless (row_refused r server_state ''psmux does not provide window-scoped options'')
     (named (row_run r (request_of (scoped ''show-options'' ''-w'' (window_target_of r) [''-A'', ''--'', name])) None) name)"

definition window_set_option :: "'w Row \<Rightarrow> string \<Rightarrow> string \<Rightarrow> ('w, unit) io" where
  "window_set_option r name v = unless (row_refused r server_state ''psmux does not provide window-scoped options'')
     (effect (row_run r (request_of (scoped ''set-option'' ''-w'' (window_target_of r) [''--'', name]) @ [sensitive v]) None))"

definition window_unset_option :: "'w Row \<Rightarrow> string \<Rightarrow> ('w, unit) io" where
  "window_unset_option r name = unless (row_refused r server_state ''psmux does not provide window-scoped options'')
     (effect (row_run r (request_of (scoped ''set-option'' ''-w'' (window_target_of r) [''-u'', ''--'', name])) None))"

section \<open>Window calls are honest\<close>

lemma honest_unless_crossed [honest_rules]: "honest ok effects m \<Longrightarrow> honest ok effects (unless_crossed l r m)"
  by (auto simp: honest_def unless_crossed_def)

lemmas window_call_defs =
  window_session_def window_panes_def window_active_pane_def split_at_def window_split_def window_rename_def window_select_def
  window_show_message_def window_expand_def window_kill_def window_resize_def window_next_layout_def
  window_previous_layout_def window_rotate_def window_link_to_def window_unlink_def window_swap_with_def window_move_to_def
  window_refresh_def window_options_def window_option_def window_set_option_def window_unset_option_def

context honest_backend
begin

lemma layouts_refused_quiet: "quiet ok effects (\<lambda>w. map_prod id (map_option cause) (layouts_refused b layouts w))"
  unfolding quiet_def
proof (intro allI impI)
  fix w assume "ok w"
  then show "ok (fst (map_prod id (map_option cause) (layouts_refused b layouts w))) \<and>
      effects (fst (map_prod id (map_option cause) (layouts_refused b layouts w))) = effects w"
    by (cases "check_syntax 0 layouts None")
      (auto simp: layouts_refused_def Let_def dest: version_step split: prod.splits option.splits)
qed

lemma window_select_layout_honest [honest_rules]:
  "served_by b r \<Longrightarrow> honest ok effects (window_select_layout r layout)"
  unfolding window_select_layout_def
  by (rule honest_unless, cases "row_backend r")
    (auto simp: served_by_def row_run_def intro!: honest_rules layouts_refused_quiet run_honest)

lemma window_calls_honest [honest_rules]:
  assumes "served_by b r"
  shows "honest ok effects (window_session r)" "honest ok effects (window_panes r)" "honest ok effects (window_active_pane r)"
    "honest ok effects (split_at r target identity' options)" "honest ok effects (window_split r options)"
    "honest ok effects (window_rename r name)" "honest ok effects (window_select r)"
    "honest ok effects (window_show_message r text')" "honest ok effects (window_expand r format)"
    "honest ok effects (window_kill r)" "honest ok effects (window_resize r width height)"
    "honest ok effects (window_next_layout r)" "honest ok effects (window_previous_layout r)"
    "honest ok effects (window_rotate r)" "honest ok effects (window_link_to r session)"
    "honest ok effects (window_unlink r)" "honest ok effects (window_swap_with r other)"
    "honest ok effects (window_move_to r index)" "honest ok effects (window_refresh r)"
    "honest ok effects (window_options r)" "honest ok effects (window_option r name)"
    "honest ok effects (window_set_option r name v)" "honest ok effects (window_unset_option r name)"
  unfolding window_call_defs Let_def by (intro honest_rules assms)+

end

end
