(* ===== verification/Panes.thy ===== *)
theory Panes
  imports Windows
begin

text \<open>The methods of a pane, a buffer and a client (\<open>src/src/entities.cpp\<close>), breaking a pane out apart.\<close>


record CaptureOptions =
  co_start_line :: "int option"
  co_end_line :: "int option"
  co_whole_history :: bool
  co_join_wrapped :: bool
  co_with_escape_sequences :: bool
  co_keep_trailing_spaces :: bool
  co_output_limit :: "nat option"

record RespawnOptions =
  re_replace_running :: bool
  re_start_directory :: string

definition plain_capture :: CaptureOptions where
  "plain_capture = \<lparr>co_start_line = None, co_end_line = None, co_whole_history = False, co_join_wrapped = False,
     co_with_escape_sequences = False, co_keep_trailing_spaces = False, co_output_limit = None\<rparr>"

section \<open>Panes\<close>

definition pane_target_of :: "'w Row \<Rightarrow> string" where
  "pane_target_of p = pane_id p"

text \<open>The loop of \<open>trim_line_end_spaces\<close> from \<open>line_begin\<close> on.\<close>

definition trim_spaces :: "string \<Rightarrow> string" where
  "trim_spaces line = rev (dropWhile (\<lambda>c. c = CHR '' '') (rev line))"

function trim_line_end_spaces :: "string \<Rightarrow> string" where
  "trim_line_end_spaces s =
     (if s = [] then []
      else case str_find (CHR 0x0A) s of
        None \<Rightarrow> trim_spaces s
      | Some n \<Rightarrow> trim_spaces (take n s) @ [CHR 0x0A] @ trim_line_end_spaces (drop (n + 1) s))"
  by pat_completeness auto
termination
  by (relation "measure length") (auto dest!: str_find_Some(1))

declare trim_line_end_spaces.simps [simp del]

definition pane_window :: "'w Row \<Rightarrow> ('w, 'w Row) io" where
  "pane_window p = describe window_kind (row_backend p) (pane_target_of p) []"

definition pane_session :: "'w Row \<Rightarrow> ('w, 'w Row) io" where
  "pane_session p = describe session_kind (row_backend p) (pane_target_of p) []"

definition pane_send_text :: "'w Row \<Rightarrow> string \<Rightarrow> ('w, unit) io" where
  "pane_send_text p text' =
     (case literal_arguments text' of
        Inl _ \<Rightarrow> fail_with (rejected ''text to send is empty'')
      | Inr arguments' \<Rightarrow>
          unless (row_refused p pane_io ''psmux can send text to the active pane for a stale target'')
            (effect (row_run p (request_of ([''send-keys'', ''-t'', pane_target_of p] @ arguments')) None)))"

definition pane_line_batch :: "string \<Rightarrow> string \<Rightarrow> CommandBatch" where
  "pane_line_batch target text' =
     (let first = (if text' = [] then []
            else case literal_arguments text' of
              Inl _ \<Rightarrow> []
            | Inr arguments' \<Rightarrow> fst (batch_add [] (request_of ([''send-keys'', ''-t'', target] @ arguments')))) in
      fst (batch_add first (request_of [''send-keys'', ''-t'', target, ''Enter''])))"

definition pane_send_line :: "'w Row \<Rightarrow> string \<Rightarrow> ('w, unit) io" where
  "pane_send_line p text' =
     unless (row_refused p pane_io ''psmux can send text to the active pane for a stale target'')
       (effect (row_run p (batch_request (pane_line_batch (pane_target_of p) text')) None))"

definition pane_send_key :: "'w Row \<Rightarrow> string \<Rightarrow> ('w, unit) io" where
  "pane_send_key p key =
     (if \<not> is_key_name key then fail_with (rejected (''unknown key name: '' @ key))
      else unless (row_refused p pane_io ''psmux can send a key to the active pane for a stale target'')
        (effect (row_run p (request_of [''send-keys'', ''-t'', pane_target_of p, key]) None)))"

definition pane_split :: "'w Row \<Rightarrow> SplitOptions \<Rightarrow> ('w, 'w Row) io" where
  "pane_split p options = split_at p (pane_target_of p) (pane_id p) options"

definition capture_arguments :: "string \<Rightarrow> CaptureOptions \<Rightarrow> string list" where
  "capture_arguments target options =
     [''capture-pane'', ''-p'', ''-t'', target]
     @ (if co_whole_history options then [''-S'', ''-'']
        else case co_start_line options of None \<Rightarrow> [] | Some n \<Rightarrow> [''-S'', int_text n])
     @ (case co_end_line options of None \<Rightarrow> [] | Some n \<Rightarrow> [''-E'', int_text n])
     @ (if co_join_wrapped options then [''-J''] else [])
     @ (if co_with_escape_sequences options then [''-e''] else [])
     @ (if co_keep_trailing_spaces options then [''-N''] else [])"

definition pane_capture :: "'w Row \<Rightarrow> CaptureOptions \<Rightarrow> ('w, string) io" where
  "pane_capture p options =
     unless (row_refused p pane_io ''psmux can capture the active pane for a stale target'')
       (and_then (row_run p (request_of (capture_arguments (pane_target_of p) options)) (co_output_limit options)) (\<lambda>captured.
          answer_with (if \<not> co_join_wrapped options \<or> co_keep_trailing_spaces options then captured
                       else trim_line_end_spaces captured)))"

definition pane_set_width :: "'w Row \<Rightarrow> int \<Rightarrow> ('w, unit) io" where
  "pane_set_width p width =
     (if width \<le> 0 then fail_with (rejected ''a pane cannot be resized to nothing'')
      else unless (row_refused p captured_mutation ''psmux cannot safely target resize-pane'')
        (effect (row_run p (request_of [''resize-pane'', ''-t'', pane_target_of p, ''-x'', int_text width]) None)))"

definition pane_set_height :: "'w Row \<Rightarrow> int \<Rightarrow> ('w, unit) io" where
  "pane_set_height p height =
     (if height \<le> 0 then fail_with (rejected ''a pane cannot be resized to nothing'')
      else unless (row_refused p captured_mutation ''psmux cannot safely target resize-pane'')
        (effect (row_run p (request_of [''resize-pane'', ''-t'', pane_target_of p, ''-y'', int_text height]) None)))"

definition pane_toggle_zoom :: "'w Row \<Rightarrow> ('w, unit) io" where
  "pane_toggle_zoom p = unless (row_refused p captured_mutation ''psmux cannot safely target resize-pane'')
     (effect (row_run p (request_of [''resize-pane'', ''-Z'', ''-t'', pane_target_of p]) None))"

definition pane_swap_with :: "'w Row \<Rightarrow> 'w Row \<Rightarrow> ('w, unit) io" where
  "pane_swap_with p other = unless_crossed p other
     (unless (row_refused p captured_mutation ''psmux cannot safely target swap-pane'')
       (effect (row_run p (request_of [''swap-pane'', ''-d'', ''-s'', pane_target_of p, ''-t'', pane_target_of other]) None)))"

definition pane_join :: "'w Row \<Rightarrow> 'w Row \<Rightarrow> ('w, unit) io" where
  "pane_join p window = unless_crossed p window
     (unless (row_refused p captured_mutation ''psmux cannot safely target join-pane'')
       (effect (row_run p (request_of [''join-pane'', ''-s'', pane_target_of p, ''-t'', window_target_of window]) None)))"

definition pane_enter_copy_mode :: "'w Row \<Rightarrow> ('w, unit) io" where
  "pane_enter_copy_mode p = unless (row_refused p pane_io ''psmux cannot safely target copy-mode'')
     (effect (row_run p (request_of [''copy-mode'', ''-t'', pane_target_of p]) None))"

definition pane_leave_mode :: "'w Row \<Rightarrow> ('w, unit) io" where
  "pane_leave_mode p = unless (row_refused p pane_io ''psmux cannot safely leave mode on a targeted pane'')
     (effect (row_run p (request_of [''send-keys'', ''-t'', pane_target_of p, ''-X'', ''cancel'']) None))"

definition pane_pipe_to :: "'w Row \<Rightarrow> string \<Rightarrow> ('w, unit) io" where
  "pane_pipe_to p command =
     (if command = [] then fail_with (rejected ''a pipe needs a command; use stop_piping'')
      else unless (row_refused p pane_io ''psmux cannot safely target pipe-pane'')
        (effect (row_run p (request_of [''pipe-pane'', ''-t'', pane_target_of p, ''--''] @ [sensitive command]) None)))"

definition pane_stop_piping :: "'w Row \<Rightarrow> ('w, unit) io" where
  "pane_stop_piping p = unless (row_refused p pane_io ''psmux cannot safely target pipe-pane'')
     (effect (row_run p (request_of [''pipe-pane'', ''-t'', pane_target_of p]) None))"

definition pane_set_title :: "'w Row \<Rightarrow> string \<Rightarrow> ('w, unit) io" where
  "pane_set_title p title = unless (row_refused p captured_mutation ''psmux cannot safely target a pane title'')
     (effect (row_run p (request_of [''select-pane'', ''-t'', pane_target_of p, ''-T'', escape_literal title]) None))"

definition pane_respawn :: "'w Row \<Rightarrow> RespawnOptions \<Rightarrow> ('w, unit) io" where
  "pane_respawn p options =
     unless (row_refused p captured_mutation ''psmux respawn-pane can terminate the session server'')
       (effect (row_run p (request_of ([''respawn-pane'', ''-t'', pane_target_of p]
          @ (if re_replace_running options then [''-k''] else [])
          @ (if re_start_directory options = [] then [] else [''-c'', escape_literal (re_start_directory options)]))) None))"

definition pane_clear_history :: "'w Row \<Rightarrow> ('w, unit) io" where
  "pane_clear_history p = unless (row_refused p pane_io ''psmux cannot safely target clear-history'')
     (effect (row_run p (request_of [''clear-history'', ''-t'', pane_target_of p]) None))"

definition pane_select :: "'w Row \<Rightarrow> ('w, unit) io" where
  "pane_select p = unless (row_refused p captured_mutation ''psmux cannot atomically select a captured pane'')
     (effect (row_run p (request_of [''select-pane'', ''-t'', pane_target_of p]) None))"

definition pane_show_message :: "'w Row \<Rightarrow> string \<Rightarrow> ('w, unit) io" where
  "pane_show_message p text' = unless (row_refused p captured_mutation ''psmux cannot safely target a pane message'')
     (effect (row_run p (request_of (append_display_message_text [''display-message'', ''-t'', pane_target_of p] text')) None))"

definition pane_expand :: "'w Row \<Rightarrow> string \<Rightarrow> ('w, string) io" where
  "pane_expand p format = expand_format pane_kind (row_backend p) (pane_target_of p) format (pane_id p)"

definition pane_kill :: "'w Row \<Rightarrow> ('w, unit) io" where
  "pane_kill p = unless (row_refused p captured_mutation ''psmux cannot atomically kill a captured pane'')
     (effect (row_run p (request_of [''kill-pane'', ''-t'', pane_target_of p]) None))"

definition pane_refresh :: "'w Row \<Rightarrow> ('w, 'w Row) io" where
  "pane_refresh p = describe pane_kind (row_backend p) (pane_target_of p) (pane_id p)"

definition pane_options :: "'w Row \<Rightarrow> ('w, OptionEntry list) io" where
  "pane_options p = unless (row_refused p server_state ''psmux does not implement pane options'')
     (listed (row_run p (request_of (scoped ''show-options'' ''-p'' (pane_target_of p) [''-A''])) None))"

definition pane_option :: "'w Row \<Rightarrow> string \<Rightarrow> ('w, OptionEntry) io" where
  "pane_option p name = unless (row_refused p server_state ''psmux does not implement pane options'')
     (named (row_run p (request_of (scoped ''show-options'' ''-p'' (pane_target_of p) [''-A'', ''--'', name])) None) name)"

definition pane_set_option :: "'w Row \<Rightarrow> string \<Rightarrow> string \<Rightarrow> ('w, unit) io" where
  "pane_set_option p name v = unless (row_refused p server_state ''psmux does not implement pane options'')
     (effect (row_run p (request_of (scoped ''set-option'' ''-p'' (pane_target_of p) [''--'', name]) @ [sensitive v]) None))"

definition pane_unset_option :: "'w Row \<Rightarrow> string \<Rightarrow> ('w, unit) io" where
  "pane_unset_option p name = unless (row_refused p server_state ''psmux does not implement pane options'')
     (effect (row_run p (request_of (scoped ''set-option'' ''-p'' (pane_target_of p) [''-u'', ''--'', name])) None))"

section \<open>Buffers and clients\<close>

definition pane_paste :: "'w Row \<Rightarrow> 'w Row \<Rightarrow> bool \<Rightarrow> ('w, unit) io" where
  "pane_paste p buffer consume = unless_crossed p buffer
     (unless (row_refused p server_state ''psmux buffers are separate in each session'')
       (effect (row_run p (request_of ([''paste-buffer'', ''-t'', pane_target_of p, ''-b'', buffer_name buffer]
          @ (if consume then [''-d''] else []))) None)))"

definition buffer_contents :: "'w Row \<Rightarrow> ('w, string) io" where
  "buffer_contents r = unless (row_refused r server_state ''psmux buffers are separate in each session'')
     (row_run r (request_of [''show-buffer'', ''-b'', buffer_name r]) None)"

definition buffer_remove :: "'w Row \<Rightarrow> ('w, unit) io" where
  "buffer_remove r = unless (row_refused r server_state ''psmux buffers are separate in each session'')
     (unless_found (row_checked r (\<lambda>b. let known = cap_since (capability buffer_delete_named) in
          refuse_before b (rel_version known) ''deleting a named buffer'' (rel_text known)))
       (effect (row_run r (request_of [''delete-buffer'', ''-b'', buffer_name r]) None)))"

definition client_session :: "'w Row \<Rightarrow> ('w, 'w Row) io" where
  "client_session c = unless (row_refused c server_state ''psmux client handles are not session-routed'')
     (one_entity session_kind (row_backend c) (request_of [''display-message'', ''-p'', ''-c'', client_name c]) message
        (client_name c) [])"

definition client_switch_to :: "'w Row \<Rightarrow> 'w Row \<Rightarrow> ('w, unit) io" where
  "client_switch_to c session = unless_crossed c session
     (unless (row_refused c server_state ''psmux client handles are not session-routed'')
       (effect (row_run c (request_of [''switch-client'', ''-c'', client_name c, ''-t'', session_target_of session]) None)))"

definition client_detach :: "'w Row \<Rightarrow> ('w, unit) io" where
  "client_detach c = unless (row_refused c server_state ''psmux client handles are not session-routed'')
     (effect (row_run c (request_of [''detach-client'', ''-t'', client_name c]) None))"

definition client_refresh :: "'w Row \<Rightarrow> ('w, unit) io" where
  "client_refresh c = unless (row_refused c server_state ''psmux client handles are not session-routed'')
     (effect (row_run c (request_of [''refresh-client'', ''-t'', client_name c]) None))"

section \<open>Pane, buffer and client calls are honest\<close>

lemmas pane_call_defs =
  pane_window_def pane_session_def pane_send_line_def pane_send_key_def pane_split_def pane_set_width_def pane_set_height_def
  pane_toggle_zoom_def pane_swap_with_def pane_join_def pane_enter_copy_mode_def pane_leave_mode_def pane_pipe_to_def
  pane_stop_piping_def pane_set_title_def pane_respawn_def pane_clear_history_def pane_select_def pane_show_message_def
  pane_expand_def pane_kill_def pane_refresh_def pane_options_def pane_option_def pane_set_option_def pane_unset_option_def
  pane_paste_def buffer_contents_def buffer_remove_def client_session_def client_switch_to_def client_detach_def
  client_refresh_def

context honest_backend
begin

lemma pane_send_text_honest [honest_rules]: "served_by b p \<Longrightarrow> honest ok effects (pane_send_text p text')"
  unfolding pane_send_text_def by (cases "literal_arguments text'") (auto intro: honest_rules)

lemma pane_capture_honest [honest_rules]: "served_by b p \<Longrightarrow> honest ok effects (pane_capture p capture)"
  unfolding pane_capture_def by (intro honest_rules honest_settled) simp_all

lemma pane_calls_honest [honest_rules]:
  assumes "served_by b p"
  shows "honest ok effects (pane_window p)" "honest ok effects (pane_session p)"
    "honest ok effects (pane_send_line p text')" "honest ok effects (pane_send_key p key)"
    "honest ok effects (pane_split p options)" "honest ok effects (pane_set_width p width)"
    "honest ok effects (pane_set_height p height)" "honest ok effects (pane_toggle_zoom p)"
    "honest ok effects (pane_swap_with p other)" "honest ok effects (pane_join p window)"
    "honest ok effects (pane_enter_copy_mode p)" "honest ok effects (pane_leave_mode p)"
    "honest ok effects (pane_pipe_to p command)" "honest ok effects (pane_stop_piping p)"
    "honest ok effects (pane_set_title p title)" "honest ok effects (pane_respawn p respawn)"
    "honest ok effects (pane_clear_history p)" "honest ok effects (pane_select p)"
    "honest ok effects (pane_show_message p text')" "honest ok effects (pane_expand p format)"
    "honest ok effects (pane_kill p)" "honest ok effects (pane_refresh p)" "honest ok effects (pane_options p)"
    "honest ok effects (pane_option p name)" "honest ok effects (pane_set_option p name v)"
    "honest ok effects (pane_unset_option p name)" "honest ok effects (pane_paste p buffer consume)"
    "honest ok effects (buffer_contents p)" "honest ok effects (buffer_remove p)"
    "honest ok effects (client_session p)" "honest ok effects (client_switch_to p session)"
    "honest ok effects (client_detach p)" "honest ok effects (client_refresh p)"
  unfolding pane_call_defs Let_def by (intro honest_rules assms)+

end

end
