(* ===== verification/Break_Pane.thy ===== *)
theory Break_Pane
  imports Panes
begin

text \<open>Breaking a pane out of its window (\<open>src/src/entities.cpp\<close>): a command that tmux itself guards, the report it prints, and
  the repair of the name on the releases that lose it.\<close>


section \<open>Stable ids\<close>

text \<open>The loop is the one of \<open>version.hpp\<close>'s digits: every character a digit and the value within 32 bits.\<close>

definition is_canonical_tmux_id :: "string \<Rightarrow> char \<Rightarrow> bool" where
  "is_canonical_tmux_id s prefix \<longleftrightarrow>
     \<not> (length s < 2 \<or> hd s \<noteq> prefix \<or> (length s > 2 \<and> s ! 1 = CHR ''0'')) \<and> digits_loop 0 (tl s) \<noteq> None"

section \<open>Text for tmux's parser\<close>

definition octal_escape :: "char \<Rightarrow> string" where
  "octal_escape c = [CHR 0x5C, digit_char (drop_bit 6 (byte c) AND 7), digit_char (drop_bit 3 (byte c) AND 7), digit_char (byte c AND 7)]"

definition tmux_command_word :: "string \<Rightarrow> (CommandFailure, string) expected" where
  "tmux_command_word v =
     (if contains_nul v then Inl (rejected ''a window name cannot contain NUL'')
      else Inr ([CHR 0x22] @ concat (map octal_escape v) @ [CHR 0x22]))"

text \<open>Terms joined from the last one backwards by a two-place operator of a format.\<close>

fun join_terms :: "string \<Rightarrow> string list \<Rightarrow> string" where
  "join_terms op [] = []"
| "join_terms op [t] = t"
| "join_terms op (t # ts) = ''#{'' @ op @ '':'' @ t @ '','' @ join_terms op ts @ ''}''"

definition release_term :: "bool \<Rightarrow> string \<Rightarrow> string" where
  "release_term affected text' = ''#{'' @ (if affected then ''=='' else ''!='') @ '':#{version},'' @ text' @ ''}''"

definition on_release_of :: "WorkaroundId \<Rightarrow> bool \<Rightarrow> string" where
  "on_release_of key affected = join_terms (if affected then ''||'' else ''&&'')
     (map (\<lambda>r. release_term affected (rel_text r)) (wk_releases (workaround key)))"

definition differs :: "string \<Rightarrow> string \<Rightarrow> string" where
  "differs field v = ''#{!=:#{'' @ field @ ''},'' @ v @ ''}''"

definition named_repair_guard :: "string \<Rightarrow> string \<Rightarrow> string" where
  "named_repair_guard window session = join_terms ''||''
     [on_release_of break_pane_misnames_windows False, differs ''window_id'' window, differs ''session_id'' session,
      differs ''after-rename-window'' [], differs ''window-renamed'' [], differs ''after-display-message'' []]"

section \<open>Reports\<close>

definition kNamedBreakFields :: "string list" where
  "kNamedBreakFields = window_fields @ [''version'', ''automatic-rename'']"

record 'w NamedBreakReport =
  report_window :: "'w Row"
  report_version :: Version
  report_automatic_rename :: bool

definition break_failure :: "FailureKind \<Rightarrow> string \<Rightarrow> CommandFailure" where
  "break_failure k d = \<lparr>kind = k, delivery = replied, exit_code = 0, diagnostic = d\<rparr>"

definition named_break_report :: "'w Backend \<Rightarrow> string \<Rightarrow> string \<Rightarrow> string \<Rightarrow> string \<Rightarrow> (CommandFailure, 'w NamedBreakReport) expected" where
  "named_break_report b output origin expected_window expected_session =
     (case from_output kNamedBreakFields output of
        Inl f \<Rightarrow> Inl (f\<lparr>diagnostic := ''break-pane completed for pane '' @ origin @ '', but its window report was malformed: '' @ diagnostic f\<rparr>)
      | Inr snapshot \<Rightarrow>
          let rows = snap_rows snapshot in
          if rows = [] \<or> hd (hd rows) = [] then Inl (break_failure missing (''tmux has no window '' @ origin))
          else if length rows \<noteq> 1 then Inl (break_failure refused (''break-pane completed for pane '' @ origin
              @ '', but did not report one exact connected window row''))
          else
            let window = row_of b snapshot 0 in
            if \<not> is_canonical_tmux_id (window_id window) CHR ''@'' \<or> \<not> is_canonical_tmux_id (window_session_id window) CHR ''$''
              \<or> (expected_window \<noteq> [] \<and> window_id window \<noteq> expected_window)
              \<or> (expected_session \<noteq> [] \<and> window_session_id window \<noteq> expected_session)
            then Inl (break_failure refused (''break-pane completed for pane '' @ origin
              @ '', but did not report the exact connected window''))
            else
              let automatic_rename = hd rows ! (length window_fields + 1) in
              case parse_version (''tmux '' @ hd rows ! length window_fields) of
                Inl _ \<Rightarrow> Inl (break_failure refused (''break-pane completed for pane '' @ origin
                  @ '', but its version or automatic-rename report was invalid''))
              | Inr running \<Rightarrow>
                  if automatic_rename \<noteq> ''0'' \<and> automatic_rename \<noteq> ''1''
                  then Inl (break_failure refused (''break-pane completed for pane '' @ origin
                    @ '', but its version or automatic-rename report was invalid''))
                  else Inr \<lparr>report_window = window, report_version = running, report_automatic_rename = (automatic_rename = ''1'')\<rparr>)"

section \<open>Breaking a pane out\<close>

text \<open>\<open>now\<close> is the steady clock in milliseconds, as a function of the state.\<close>

definition at_time :: "('w \<Rightarrow> int) \<Rightarrow> (int \<Rightarrow> ('w, 'a) io) \<Rightarrow> ('w, 'a) io" where
  "at_time now k w = k (now w) w"

definition remaining_execution_policy :: "ExecutionPolicy \<Rightarrow> int \<Rightarrow> int \<Rightarrow> ExecutionPolicy" where
  "remaining_execution_policy chosen started time =
     (case policy_timeout chosen of
        None \<Rightarrow> chosen
      | Some t \<Rightarrow> let elapsed = time - started in chosen\<lparr>policy_timeout := Some (if elapsed < t then t - elapsed else 0)\<rparr>)"

definition unstable_break_target :: "'w Row \<Rightarrow> CommandFailure option" where
  "unstable_break_target p =
     (if \<not> is_canonical_tmux_id (pane_target_of p) CHR ''%'' then Some (rejected ''break-pane requires a stable numeric pane id'')
      else if \<not> is_canonical_tmux_id (pane_session_id p) CHR ''$'' then Some (rejected ''break-pane requires a stable numeric session id'')
      else if \<not> is_canonical_tmux_id (pane_window_id p) CHR ''@'' then Some (rejected ''break-pane requires a stable numeric window id'')
      else None)"

definition single_quoted :: "string \<Rightarrow> string" where
  "single_quoted s = [CHR 0x27] @ s @ [CHR 0x27]"

definition unnamed_command :: "'w Row \<Rightarrow> string list" where
  "unnamed_command p =
     (let target = pane_target_of p; owner = pane_session_id p; home = pane_window_id p;
          native = ''break-pane -d -s '' @ target @ '' -t '' @ owner @ '': -P -F '' @ single_quoted (format_request window_fields);
          current = ''display-message -p -t '' @ owner @ '':'' @ home @ '' '' @ single_quoted (format_request window_fields);
          guarded = ''if-shell -F -t '' @ target @ '' '' @ single_quoted (on_release_of break_pane_misnames_windows True)
            @ '' { '' @ native @ '' -n libtmux } { '' @ native @ '' }'' in
      [''if-shell'', ''-F'', ''-t'', target, ''#{==:#{window_panes},1}'', current, guarded])"

definition break_out_unnamed :: "('w \<Rightarrow> int) \<Rightarrow> 'w Row \<Rightarrow> 'w Backend \<Rightarrow> ExecutionPolicy \<Rightarrow> int \<Rightarrow> ('w, 'w Row) io" where
  "break_out_unnamed now p b chosen started =
     unless (unstable_break_target p) (at_time now (\<lambda>time.
       let left = remaining_execution_policy chosen started time; target = pane_target_of p in
       and_then (be_run b (request_of (unnamed_command p)) (policy_timeout left) (policy_output_limit left)) (\<lambda>output.
         case from_output window_fields output of
           Inl f \<Rightarrow> fail_with (f\<lparr>diagnostic := ''break-pane completed for pane '' @ target @ '', but its window row was malformed: '' @ diagnostic f\<rparr>)
         | Inr snapshot \<Rightarrow>
             let rows = snap_rows snapshot; created = row_of b snapshot 0 in
             if rows = [] \<or> hd (hd rows) = [] then fail_with (break_failure missing (''tmux has no window '' @ target))
             else if length rows \<noteq> 1 \<or> \<not> is_canonical_tmux_id (window_id created) CHR ''@''
               \<or> \<not> is_canonical_tmux_id (window_session_id created) CHR ''$'' \<or> window_session_id created \<noteq> pane_session_id p
             then fail_with (break_failure refused (''break-pane completed for pane '' @ target
               @ '', but did not report one exact connected window row''))
             else answer_with created)))"

definition named_command :: "'w Row \<Rightarrow> string \<Rightarrow> string \<Rightarrow> string list" where
  "named_command p break_name rename_name =
     (let target = pane_target_of p; owner = pane_session_id p; home = pane_window_id p;
          fields' = format_request kNamedBreakFields; source_window = owner @ '':'' @ home;
          retained = ''rename-window -t '' @ source_window @ '' -- '' @ rename_name @ '' ; ''
            @ ''display-message -p -t '' @ source_window @ '' '' @ single_quoted fields';
          native = ''break-pane -d -s '' @ target @ '' -t '' @ owner @ '': -P -n '' @ break_name @ '' -F '' @ single_quoted fields' in
      [''if-shell'', ''-F'', ''-t'', target, ''#{==:#{window_panes},1}'', retained, native])"

definition repair_batch :: "string \<Rightarrow> string \<Rightarrow> string \<Rightarrow> string \<Rightarrow> CommandBatch" where
  "repair_batch target window session name =
     (let first = fst (batch_add [] (request_of [''if-shell'', ''-F'', ''-t'', target, named_repair_guard window session, ''{'']));
          second = fst (batch_add first (request_of [''rename-window'', ''-t'', target, ''--'', escape_literal name])) in
      fst (batch_add second (request_of (append_display_message_text [''display-message'', ''-p'', ''-t'', target]
        (format_request kNamedBreakFields)))))"

text \<open>The repair of a name on the releases that misname the window: what a failure of it says is that the pane has
  moved already.\<close>

definition repair_name :: "('w \<Rightarrow> int) \<Rightarrow> 'w Row \<Rightarrow> string \<Rightarrow> 'w Backend \<Rightarrow> ExecutionPolicy \<Rightarrow> int \<Rightarrow> 'w Row \<Rightarrow> ('w, 'w Row) io" where
  "repair_name now p name b chosen started created w =
     (let window = window_id created; session = window_session_id created;
          left = remaining_execution_policy chosen started (now w);
          opening = ''break-pane moved pane '' @ pane_id p @ '' into window '' @ window in
      case run_batch b (repair_batch (window_target_of created) window session name) (policy_timeout left) (policy_output_limit left) w of
        (w', Inl f) \<Rightarrow> (w', Inl (f\<lparr>delivery := (if delivery f = not_started then replied else delivery f),
            diagnostic := opening @ '', but its raw tmux 3.7 name repair failed: '' @ diagnostic f\<rparr>))
      | (w', Inr output) \<Rightarrow>
          (w', case named_break_report b output (pane_id p) window session of
             Inl f \<Rightarrow> Inl f
           | Inr final \<Rightarrow>
               if \<not> affects break_pane_misnames_windows (report_version final) \<or> report_automatic_rename final
               then Inl (break_failure refused (opening @ '', but its raw tmux 3.7 name repair was not durable''))
               else Inr (report_window final)))"

definition break_out_named :: "('w \<Rightarrow> int) \<Rightarrow> 'w Row \<Rightarrow> string \<Rightarrow> 'w Backend \<Rightarrow> ExecutionPolicy \<Rightarrow> int \<Rightarrow> ('w, 'w Row) io" where
  "break_out_named now p name b chosen started =
     unless (unstable_break_target p)
       (case tmux_command_word name of
          Inl f \<Rightarrow> fail_with f
        | Inr break_name \<Rightarrow>
            (case tmux_command_word (escape_literal name) of
               Inl f \<Rightarrow> fail_with f
             | Inr rename_name \<Rightarrow> at_time now (\<lambda>time.
                 let left = remaining_execution_policy chosen started time in
                 and_then (be_run b (request_of (named_command p break_name rename_name)) (policy_timeout left) (policy_output_limit left)) (\<lambda>output.
                   case named_break_report b output (pane_id p) [] (pane_session_id p) of
                     Inl f \<Rightarrow> fail_with f
                   | Inr created \<Rightarrow>
                       let window = report_window created;
                           raw_tmux_37 = affects break_pane_misnames_windows (report_version created);
                           retained_window = (window_id window = pane_window_id p) in
                       if \<not> raw_tmux_37 \<or> (retained_window \<and> \<not> report_automatic_rename created) then answer_with window
                       else repair_name now p name b chosen started window))))"

definition break_out :: "('w \<Rightarrow> int) \<Rightarrow> 'w Row \<Rightarrow> string \<Rightarrow> ('w, 'w Row) io" where
  "break_out now p name =
     (case row_backend p of
        None \<Rightarrow> fail_with disconnected
      | Some b \<Rightarrow>
          unless (row_refused p window_creation ''psmux cannot report the window created by break-pane'')
            (unless (unstable_break_target p)
              (unless_found (refuse_name_on_exact_37 b name ''window'') (at_time now (\<lambda>started.
                 if name = [] then break_out_unnamed now p b (be_policy b) started
                 else break_out_named now p name b (be_policy b) started)))))"

section \<open>Breaking out is honest\<close>

text \<open>A call after which nothing may be called not started: it does not say so.\<close>

definition committed :: "('w \<Rightarrow> bool) \<Rightarrow> ('w, 'a) io \<Rightarrow> bool" where
  "committed ok m \<longleftrightarrow> (\<forall>w. ok w \<longrightarrow> ok (fst (m w)) \<and> (\<forall>f. snd (m w) = Inl f \<longrightarrow> delivery f \<noteq> not_started))"

lemma settled_committed: "settled_call m \<Longrightarrow> committed ok m"
  by (simp add: settled_call_def committed_def)

lemma honest_committed:
  assumes "honest ok effects m" "\<And>x. committed ok (k x)"
  shows "honest ok effects (and_then m k)"
  using assms unfolding honest_def committed_def and_then_eq by (simp split: sum.splits) blast

lemma honest_at_time [honest_rules]: "(\<And>t. honest ok effects (k t)) \<Longrightarrow> honest ok effects (at_time now k)"
  by (simp add: honest_def at_time_def)

lemma from_output_replied: "from_output names output = Inl f \<Longrightarrow> delivery f = replied"
  by (auto simp: from_output_def split: option.splits)

lemma break_failure_replied [simp]: "delivery (break_failure k d) = replied"
  by (simp add: break_failure_def)

lemma named_break_report_replied: "named_break_report b output origin window session = Inl f \<Longrightarrow> delivery f = replied"
  by (auto simp: named_break_report_def Let_def dest: from_output_replied split: sum.splits if_splits)

context honest_backend
begin

lemma repair_committed: "committed ok (repair_name now p name b chosen started created)"
  unfolding committed_def
proof (intro allI impI)
  fix w assume "ok w"
  then have "ok (fst (run_batch b batch limit output_limit w))" for batch limit output_limit
    using run_honest by (simp add: run_batch_def honest_def)
  then show "ok (fst (repair_name now p name b chosen started created w)) \<and>
      (\<forall>f. snd (repair_name now p name b chosen started created w) = Inl f \<longrightarrow> delivery f \<noteq> not_started)"
    by (auto simp: repair_name_def Let_def dest: named_break_report_replied split: prod.splits sum.splits if_splits)
      (metis fst_conv)+
qed

lemma break_out_unnamed_honest: "honest ok effects (break_out_unnamed now p b chosen started)"
  unfolding break_out_unnamed_def Let_def
  by (intro honest_unless honest_at_time honest_settled run_honest)
    (auto dest: from_output_replied split: sum.splits)

lemma break_out_named_honest: "honest ok effects (break_out_named now p name b chosen started)"
  unfolding break_out_named_def Let_def
  by (intro honest_unless, auto intro!: honest_rules honest_committed run_honest split: sum.splits)
    (auto simp: settled_committed repair_committed dest: named_break_report_replied split: sum.splits)

lemma break_out_honest [honest_rules]: "served_by b p \<Longrightarrow> honest ok effects (break_out now p name)"
  unfolding break_out_def
  by (cases "row_backend p") (auto simp: served_by_def intro!: honest_rules break_out_unnamed_honest break_out_named_honest)

end

section \<open>Ids, words and results\<close>

lemma digits_loop_canonical:
  "digits_loop 0 s \<noteq> None \<longleftrightarrow> list_all is_digit s \<and> dec_value 0 s < 2 ^ 32"
proof
  assume "digits_loop 0 s \<noteq> None"
  then show "list_all is_digit s \<and> dec_value 0 s < 2 ^ 32" by (auto simp: digits_loop_iff list_all_iff)
next
  assume s: "list_all is_digit s \<and> dec_value 0 s < 2 ^ 32"
  then have "unat (word_of_nat (dec_value 0 s) :: 32 word) = dec_value 0 s" by (simp add: unat_of_nat)
  then have "digits_loop 0 s = Some (word_of_nat (dec_value 0 s))" using s by (simp add: digits_loop_iff list_all_iff)
  then show "digits_loop 0 s \<noteq> None" by simp
qed

text \<open>The ids taken for stable are exactly those tmux prints: the prefix and a number below \<open>2^32\<close> in decimal.\<close>

theorem canonical_tmux_id_iff: "is_canonical_tmux_id s prefix \<longleftrightarrow> (\<exists>n < 2 ^ 32. s = prefix # dec_string n)"
proof -
  have "is_canonical_tmux_id s prefix \<longleftrightarrow> (\<exists>t. s = prefix # t \<and> canonical_number t)"
    unfolding is_canonical_tmux_id_def canonical_number_def digits_loop_canonical
    by (cases s; cases "tl s") (auto simp: less_Suc_eq_le Suc_le_eq)
  then show ?thesis by (auto simp: canonical_number_iff)
qed

lemma and_seven: "(n AND 7) = n mod 8" for n :: nat
  using take_bit_eq_mask [of 3 n] by (simp add: take_bit_eq_mod mask_eq_exp_minus_1)

lemma octal_bounds: "byte c div 64 < 8" "byte c div 8 mod 8 < 8" "byte c mod 8 < 8"
proof -
  have "byte c < 8 * 64" using byte_less [of c] by linarith
  then show "byte c div 64 < 8" by (rule less_mult_imp_div_less)
qed simp_all

lemma octal_escape_digits:
  "octal_escape c = CHR 0x5C # map digit_char [byte c div 64, byte c div 8 mod 8, byte c mod 8]"
  using octal_bounds(1) [of c] by (simp add: octal_escape_def and_seven drop_bit_eq_div)

lemma octal_digit: "n < 8 \<Longrightarrow> is_octal (digit_char n) \<and> byte (digit_char n) = 48 + n"
  by (simp add: is_octal_def digit_char_def byte_def)

lemma word_octal: "unquote_body (octal_escape c @ s) = c # unquote_body s"
proof -
  let ?ds = "map digit_char [byte c div 64, byte c div 8 mod 8, byte c mod 8]"
  note d = octal_bounds [of c]
  have oct: "takeWhile is_octal (take 3 (?ds @ s)) = ?ds" using d [THEN octal_digit] by simp
  have val: "octal_value 0 ?ds = byte c"
    using d [THEN octal_digit] div_mult_mod_eq [of "byte c" 8] div_mult_mod_eq [of "byte c div 8" 8]
    by (simp add: div_mult2_eq [symmetric])
  have "simple_escape (digit_char n) = None" if "n < 8" for n
    using that octal_digit [of n] by (auto simp: simple_escape_def byte_def is_octal_def split: if_splits)
  then show ?thesis
    using oct val d octal_digit [of "byte c div 64"] byte_less [of c]
    unfolding octal_escape_digits by (simp add: unquote_body.simps(2) byte_def)
qed

text \<open>A window name is one word to tmux's parser, whatever bytes it holds: the quoted word consists of backslashes and octal
  digits only and is read back as the name.\<close>

theorem command_word_reads_back:
  assumes "tmux_command_word v = Inr word"
  shows "unquote word = v \<and> (\<forall>c \<in> set (butlast (tl word)). c = CHR 0x5C \<or> is_octal c) \<and> CHR 0x00 \<notin> set v"
proof -
  have word: "word = [CHR 0x22] @ concat (map octal_escape v) @ [CHR 0x22]" "\<not> contains_nul v"
    using assms by (auto simp: tmux_command_word_def split: if_splits)
  have "unquote_body (concat (map octal_escape v)) = v"
    by (induction v) (simp_all add: word_octal)
  moreover have "unquote word = unquote_body (concat (map octal_escape v))"
    by (simp add: word unquote_def quoted_with_def butlast_append)
  moreover have "c = CHR 0x5C \<or> is_octal c" if "c \<in> set (concat (map octal_escape v))" for c
    using that octal_bounds [THEN octal_digit] by (auto simp: octal_escape_digits split: if_splits)
  ultimately show ?thesis using word by (auto simp: contains_nul_def butlast_append str_find_None)
qed

lemma named_report_window:
  assumes "named_break_report b output origin window session = Inr report"
  shows "row_backend (report_window report) = Some b \<and> is_canonical_tmux_id (window_id (report_window report)) CHR ''@'' \<and>
    (session \<noteq> [] \<longrightarrow> window_session_id (report_window report) = session) \<and>
    (window \<noteq> [] \<longrightarrow> window_id (report_window report) = window)"
  using assms by (auto simp: named_break_report_def Let_def row_of_def split: sum.splits if_splits)

lemma repair_name_window:
  assumes "repair_name now p name b chosen started created w = (w', Inr r)"
    and "is_canonical_tmux_id (window_id created) CHR ''@''" "window_session_id created \<noteq> []"
  shows "row_backend r = Some b \<and> window_id r = window_id created \<and> window_session_id r = window_session_id created"
proof -
  obtain out final where final: "named_break_report b out (pane_id p) (window_id created) (window_session_id created) = Inr final"
    "r = report_window final"
    using assms(1) by (auto simp: repair_name_def Let_def split: prod.splits sum.splits if_splits)
  moreover have "window_id created \<noteq> []" using assms(2) by (auto simp: canonical_tmux_id_iff)
  ultimately show ?thesis using named_report_window [OF final(1)] assms(3) by simp
qed

lemma break_out_unnamed_window:
  assumes "break_out_unnamed now p b chosen started w = (w', Inr r)" "unstable_break_target p = None"
  shows "row_backend r = Some b \<and> is_canonical_tmux_id (window_id r) CHR ''@'' \<and> window_session_id r = pane_session_id p"
proof -
  obtain out w1 where "(case from_output window_fields out of
       Inl f \<Rightarrow> fail_with (f\<lparr>diagnostic := ''break-pane completed for pane '' @ pane_target_of p @ '', but its window row was malformed: '' @ diagnostic f\<rparr>)
     | Inr snapshot \<Rightarrow>
         if snap_rows snapshot = [] \<or> hd (hd (snap_rows snapshot)) = [] then fail_with (break_failure missing (''tmux has no window '' @ pane_target_of p))
         else if length (snap_rows snapshot) \<noteq> 1 \<or> \<not> is_canonical_tmux_id (window_id (row_of b snapshot 0)) CHR ''@''
           \<or> \<not> is_canonical_tmux_id (window_session_id (row_of b snapshot 0)) CHR ''$'' \<or> window_session_id (row_of b snapshot 0) \<noteq> pane_session_id p
         then fail_with (break_failure refused (''break-pane completed for pane '' @ pane_target_of p
           @ '', but did not report one exact connected window row''))
         else answer_with (row_of b snapshot 0)) w1 = (w', Inr r)"
    using assms unfolding break_out_unnamed_def Let_def at_time_def unless_Inr and_then_Inr by blast
  then show ?thesis by (cases "from_output window_fields out") (auto simp: row_of_def split: if_splits)
qed

lemma break_out_named_report:
  assumes "break_out_named now p name b chosen started w = (w', Inr r)"
  shows "\<exists>out created w1. named_break_report b out (pane_id p) [] (pane_session_id p) = Inr created \<and>
    (r = report_window created \<or> repair_name now p name b chosen started (report_window created) w1 = (w', Inr r))"
proof -
  obtain x y out w1 where "(case named_break_report b out (pane_id p) [] (pane_session_id p) of
       Inl f \<Rightarrow> fail_with f
     | Inr created \<Rightarrow>
         if \<not> affects break_pane_misnames_windows (report_version created)
           \<or> (window_id (report_window created) = pane_window_id p \<and> \<not> report_automatic_rename created)
         then answer_with (report_window created)
         else repair_name now p name b chosen started (report_window created)) w1 = (w', Inr r)"
    using assms unfolding break_out_named_def Let_def at_time_def unless_Inr
    by (cases "tmux_command_word name"; cases "tmux_command_word (escape_literal name)") (auto simp: and_then_Inr at_time_def)
  then show ?thesis by (cases "named_break_report b out (pane_id p) [] (pane_session_id p)") (auto split: if_splits)
qed

text \<open>C25. A pane that was broken out is in a window of its own session: what \<open>break_out\<close> returns is a window of the same backend
  with a stable id whose session is the pane's, whether it was created, kept or repaired.\<close>

theorem break_out_stays_home:
  assumes "break_out now p name w = (w', Inr r)"
  shows "row_backend r = row_backend p \<and> (\<exists>n < 2 ^ 32. window_id r = CHR ''@'' # dec_string n) \<and>
    window_session_id r = pane_session_id p"
proof -
  obtain b w1 started where b: "row_backend p = Some b" and home: "unstable_break_target p = None"
    and run: "(if name = [] then break_out_unnamed now p b (be_policy b) started
       else break_out_named now p name b (be_policy b) started) w1 = (w', Inr r)"
    using assms by (auto simp: break_out_def unless_found_eq at_time_def fail_with_def split: option.splits)
  have owner: "pane_session_id p \<noteq> []"
    using home by (auto simp: unstable_break_target_def canonical_tmux_id_iff split: if_splits)
  have "row_backend r = Some b \<and> is_canonical_tmux_id (window_id r) CHR ''@'' \<and> window_session_id r = pane_session_id p"
  proof (cases "name = []")
    case True
    then show ?thesis using run break_out_unnamed_window [OF _ home] by simp
  next
    case False
    then obtain out created w2 where created: "named_break_report b out (pane_id p) [] (pane_session_id p) = Inr created"
      and "r = report_window created \<or> repair_name now p name b (be_policy b) started (report_window created) w2 = (w', Inr r)"
      using run break_out_named_report [of now p name b "be_policy b" started w1 w' r] by auto
    then show ?thesis using named_report_window [OF created] owner repair_name_window by metis
  qed
  then show ?thesis using b by (simp add: canonical_tmux_id_iff)
qed

section \<open>Applied\<close>

theorem command_word_reads_back_witness:
  "\<exists>word. tmux_command_word ''a;b'' = Inr word \<and> unquote word = ''a;b'' \<and> CHR '';'' \<notin> set (butlast (tl word))"
proof -
  let ?word = "[CHR 0x22] @ concat (map octal_escape ''a;b'') @ [CHR 0x22]"
  have word: "tmux_command_word ''a;b'' = Inr ?word" by (simp add: tmux_command_word_def contains_nul_def)
  have "\<not> is_octal CHR '';''" by (simp add: is_octal_def byte_def)
  then show ?thesis using word command_word_reads_back [OF word] by blast
qed

definition split_pane :: "string \<Rightarrow> unit Row" where
  "split_pane out = \<lparr>row_backend = Some (answering 1 ''1:2'' impl_tmux out),
     row_snapshot = \<lparr>snap_fields = pane_fields, snap_rows = [[''%1'', ''sh'', ''1'', ''@2'', ''$0'']]\<rparr>, row_at = 0\<rparr>"

definition broken_row :: "string list" where
  "broken_row = [''@3'', ''sh'', ''0'', ''$0'', ''1'', ''1'', ''80'', ''24'', ''x'', ''0'', ''0'', ''0'', ''1'']"

lemma break_out_example:
  "break_out (\<lambda>_. 0) (split_pane (listing_line broken_row)) [] () =
     ((), Inr (row_of (answering 1 ''1:2'' impl_tmux (listing_line broken_row))
       \<lparr>snap_fields = window_fields, snap_rows = [broken_row]\<rparr> 0))"
proof -
  let ?b = "answering 1 ''1:2'' impl_tmux (listing_line broken_row)"
  have "is_canonical_tmux_id ''%1'' CHR ''%''" "is_canonical_tmux_id ''$0'' CHR ''$''" "is_canonical_tmux_id ''@2'' CHR ''@''"
    "is_canonical_tmux_id ''@3'' CHR ''@''" by code_simp+
  moreover have "from_output window_fields (listing_line broken_row) = Inr \<lparr>snap_fields = window_fields, snap_rows = [broken_row]\<rparr>"
    using parse_listing_line [of broken_row] by (simp add: from_output_def broken_row_def window_fields_def)
  moreover have "be_run ?b c limit output_limit () = ((), Inr (listing_line broken_row))" "be_policy ?b = \<lparr>policy_timeout = None, policy_output_limit = None, tmux_binary = ''tmux''\<rparr>"
    "be_capabilities ?b = \<lparr>implementation = impl_tmux, backend = backend_custom\<rparr>" for c limit output_limit
    by (simp_all add: answering_def)
  ultimately show ?thesis
    by (simp add: break_out_def split_pane_def row_refused_def refuses_def supports_def unless_def unless_found_def
        refuse_name_on_exact_37_def has_separator_def unstable_break_target_def pane_target_of_def pane_id_def pane_session_id_def
        pane_window_id_def value_at_def at_time_def break_out_unnamed_def and_then_def row_of_def window_id_def window_session_id_def
        broken_row_def answer_with_def Let_def)
qed

theorem break_out_stays_home_witness:
  "\<exists>r. break_out (\<lambda>_. 0) (split_pane (listing_line broken_row)) [] () = ((), Inr r) \<and> window_session_id r = ''$0''"
  using break_out_example break_out_stays_home [OF break_out_example] by (simp add: split_pane_def pane_session_id_def value_at_def)

end
