(* ===== verification/Entity_Calls.thy ===== *)
theory Entity_Calls
  imports Break_Pane
begin

text \<open>Properties of all methods of the entities: honest failures, commands that would cross servers, servers that cannot be
  changed, refreshed entities and hidden values.\<close>


section \<open>The calls of the entities\<close>

definition discard :: "('w, 'a) io \<Rightarrow> ('w, unit) io" where
  "discard m = and_then m (\<lambda>_. answer_with ())"

lemma honest_discard [honest_rules]: "honest ok effects m \<Longrightarrow> honest ok effects (discard m)"
  unfolding discard_def by (rule honest_settled) simp_all

text \<open>Every method of a session, window, pane, buffer or client that runs tmux, on a row of the backend, except the four
  that select and then look where the selection went.\<close>

inductive entity_call :: "('w \<Rightarrow> int) \<Rightarrow> 'w Backend \<Rightarrow> ('w, unit) io \<Rightarrow> bool" for now b where
  on_session_windows: "served_by b s \<Longrightarrow> entity_call now b (discard (session_windows s))"
| on_session_panes: "served_by b s \<Longrightarrow> entity_call now b (discard (session_panes s))"
| on_session_active_window: "served_by b s \<Longrightarrow> entity_call now b (discard (session_active_window s))"
| on_session_active_pane: "served_by b s \<Longrightarrow> entity_call now b (discard (session_active_pane s))"
| on_session_new_window: "served_by b s \<Longrightarrow> entity_call now b (discard (session_new_window s options))"
| on_session_new_window_named: "served_by b s \<Longrightarrow> entity_call now b (discard (session_new_window_named s name))"
| on_session_rename: "served_by b s \<Longrightarrow> entity_call now b (discard (session_rename s name))"
| on_session_kill: "served_by b s \<Longrightarrow> entity_call now b (discard (session_kill s))"
| on_session_refresh: "served_by b s \<Longrightarrow> entity_call now b (discard (session_refresh s))"
| on_session_options: "served_by b s \<Longrightarrow> entity_call now b (discard (session_options s))"
| on_session_option: "served_by b s \<Longrightarrow> entity_call now b (discard (session_option s name))"
| on_session_set_option: "served_by b s \<Longrightarrow> entity_call now b (discard (session_set_option s name v))"
| on_session_unset_option: "served_by b s \<Longrightarrow> entity_call now b (discard (session_unset_option s name))"
| on_session_expand: "served_by b s \<Longrightarrow> entity_call now b (discard (session_expand s format))"
| on_session_show_message: "served_by b s \<Longrightarrow> entity_call now b (discard (session_show_message s text'))"
| on_session_detach_clients: "served_by b s \<Longrightarrow> entity_call now b (discard (session_detach_clients s))"
| on_session_hooks: "served_by b s \<Longrightarrow> entity_call now b (discard (session_hooks s))"
| on_session_set_hook: "served_by b s \<Longrightarrow> entity_call now b (discard (session_set_hook s name command))"
| on_window_session: "served_by b s \<Longrightarrow> entity_call now b (discard (window_session s))"
| on_window_panes: "served_by b s \<Longrightarrow> entity_call now b (discard (window_panes s))"
| on_window_active_pane: "served_by b s \<Longrightarrow> entity_call now b (discard (window_active_pane s))"
| on_window_split: "served_by b s \<Longrightarrow> entity_call now b (discard (window_split s split))"
| on_window_rename: "served_by b s \<Longrightarrow> entity_call now b (discard (window_rename s name))"
| on_window_select: "served_by b s \<Longrightarrow> entity_call now b (discard (window_select s))"
| on_window_show_message: "served_by b s \<Longrightarrow> entity_call now b (discard (window_show_message s text'))"
| on_window_expand: "served_by b s \<Longrightarrow> entity_call now b (discard (window_expand s format))"
| on_window_kill: "served_by b s \<Longrightarrow> entity_call now b (discard (window_kill s))"
| on_window_select_layout: "served_by b s \<Longrightarrow> entity_call now b (discard (window_select_layout s layout))"
| on_window_resize: "served_by b s \<Longrightarrow> entity_call now b (discard (window_resize s width height))"
| on_window_next_layout: "served_by b s \<Longrightarrow> entity_call now b (discard (window_next_layout s))"
| on_window_previous_layout: "served_by b s \<Longrightarrow> entity_call now b (discard (window_previous_layout s))"
| on_window_rotate: "served_by b s \<Longrightarrow> entity_call now b (discard (window_rotate s))"
| on_window_link_to: "served_by b s \<Longrightarrow> entity_call now b (discard (window_link_to s other))"
| on_window_unlink: "served_by b s \<Longrightarrow> entity_call now b (discard (window_unlink s))"
| on_window_swap_with: "served_by b s \<Longrightarrow> entity_call now b (discard (window_swap_with s other))"
| on_window_move_to: "served_by b s \<Longrightarrow> entity_call now b (discard (window_move_to s index))"
| on_window_refresh: "served_by b s \<Longrightarrow> entity_call now b (discard (window_refresh s))"
| on_window_options: "served_by b s \<Longrightarrow> entity_call now b (discard (window_options s))"
| on_window_option: "served_by b s \<Longrightarrow> entity_call now b (discard (window_option s name))"
| on_window_set_option: "served_by b s \<Longrightarrow> entity_call now b (discard (window_set_option s name v))"
| on_window_unset_option: "served_by b s \<Longrightarrow> entity_call now b (discard (window_unset_option s name))"
| on_pane_window: "served_by b s \<Longrightarrow> entity_call now b (discard (pane_window s))"
| on_pane_session: "served_by b s \<Longrightarrow> entity_call now b (discard (pane_session s))"
| on_pane_send_text: "served_by b s \<Longrightarrow> entity_call now b (discard (pane_send_text s text'))"
| on_pane_send_line: "served_by b s \<Longrightarrow> entity_call now b (discard (pane_send_line s text'))"
| on_pane_send_key: "served_by b s \<Longrightarrow> entity_call now b (discard (pane_send_key s key))"
| on_pane_split: "served_by b s \<Longrightarrow> entity_call now b (discard (pane_split s split))"
| on_pane_capture: "served_by b s \<Longrightarrow> entity_call now b (discard (pane_capture s capture))"
| on_pane_set_width: "served_by b s \<Longrightarrow> entity_call now b (discard (pane_set_width s width))"
| on_pane_set_height: "served_by b s \<Longrightarrow> entity_call now b (discard (pane_set_height s height))"
| on_pane_toggle_zoom: "served_by b s \<Longrightarrow> entity_call now b (discard (pane_toggle_zoom s))"
| on_pane_swap_with: "served_by b s \<Longrightarrow> entity_call now b (discard (pane_swap_with s other))"
| on_break_out: "served_by b s \<Longrightarrow> entity_call now b (discard (break_out now s name))"
| on_pane_join: "served_by b s \<Longrightarrow> entity_call now b (discard (pane_join s other))"
| on_pane_enter_copy_mode: "served_by b s \<Longrightarrow> entity_call now b (discard (pane_enter_copy_mode s))"
| on_pane_leave_mode: "served_by b s \<Longrightarrow> entity_call now b (discard (pane_leave_mode s))"
| on_pane_pipe_to: "served_by b s \<Longrightarrow> entity_call now b (discard (pane_pipe_to s command))"
| on_pane_stop_piping: "served_by b s \<Longrightarrow> entity_call now b (discard (pane_stop_piping s))"
| on_pane_set_title: "served_by b s \<Longrightarrow> entity_call now b (discard (pane_set_title s title))"
| on_pane_respawn: "served_by b s \<Longrightarrow> entity_call now b (discard (pane_respawn s respawn))"
| on_pane_clear_history: "served_by b s \<Longrightarrow> entity_call now b (discard (pane_clear_history s))"
| on_pane_select: "served_by b s \<Longrightarrow> entity_call now b (discard (pane_select s))"
| on_pane_show_message: "served_by b s \<Longrightarrow> entity_call now b (discard (pane_show_message s text'))"
| on_pane_expand: "served_by b s \<Longrightarrow> entity_call now b (discard (pane_expand s format))"
| on_pane_kill: "served_by b s \<Longrightarrow> entity_call now b (discard (pane_kill s))"
| on_pane_refresh: "served_by b s \<Longrightarrow> entity_call now b (discard (pane_refresh s))"
| on_pane_options: "served_by b s \<Longrightarrow> entity_call now b (discard (pane_options s))"
| on_pane_option: "served_by b s \<Longrightarrow> entity_call now b (discard (pane_option s name))"
| on_pane_set_option: "served_by b s \<Longrightarrow> entity_call now b (discard (pane_set_option s name v))"
| on_pane_unset_option: "served_by b s \<Longrightarrow> entity_call now b (discard (pane_unset_option s name))"
| on_pane_paste: "served_by b s \<Longrightarrow> entity_call now b (discard (pane_paste s other consume))"
| on_buffer_contents: "served_by b s \<Longrightarrow> entity_call now b (discard (buffer_contents s))"
| on_buffer_remove: "served_by b s \<Longrightarrow> entity_call now b (discard (buffer_remove s))"
| on_client_session: "served_by b s \<Longrightarrow> entity_call now b (discard (client_session s))"
| on_client_switch_to: "served_by b s \<Longrightarrow> entity_call now b (discard (client_switch_to s other))"
| on_client_detach: "served_by b s \<Longrightarrow> entity_call now b (discard (client_detach s))"
| on_client_refresh: "served_by b s \<Longrightarrow> entity_call now b (discard (client_refresh s))"

section \<open>Honesty\<close>

context honest_backend
begin

lemma entity_call_honest: "entity_call now b m \<Longrightarrow> honest ok effects m"
  by (induction rule: entity_call.induct) (auto intro: honest_rules)

lemma selection_committed:
  assumes "served_by b s"
  shows "honest ok effects (row_run s c n)" "honest ok effects (session_active_window s)" "honest ok effects (window_active_pane s)"
  using assms by (auto intro: honest_rules)

end


section \<open>Servers that are not confused\<close>

text \<open>
  Nothing is sent when a command would combine objects of two servers: each of the calls that name two entities, made with
  entities whose backends are identified and differ, fails as a validation error and leaves the state as it is.
\<close>

theorem crossed_calls_refused:
  assumes "from_different_servers l r w"
    and "m \<in> {window_link_to l r, window_swap_with l r, pane_swap_with l r, pane_join l r, pane_paste l r consume, client_switch_to l r}"
  shows "m w = (w, Inl crossed_servers)"
  using assms by (auto simp: window_link_to_def window_swap_with_def pane_swap_with_def pane_join_def pane_paste_def
      client_switch_to_def unless_crossed_def)

section \<open>Refused on psmux\<close>

inductive mutation :: "('w \<Rightarrow> int) \<Rightarrow> 'w Row \<Rightarrow> ('w, unit) io \<Rightarrow> bool" for now s where
  by_session_kill: "mutation now s (discard (session_kill s))"
| by_session_set_option: "mutation now s (discard (session_set_option s name v))"
| by_session_unset_option: "mutation now s (discard (session_unset_option s name))"
| by_session_show_message: "mutation now s (discard (session_show_message s text'))"
| by_session_detach_clients: "mutation now s (discard (session_detach_clients s))"
| by_session_set_hook: "mutation now s (discard (session_set_hook s name command))"
| by_window_select: "mutation now s (discard (window_select s))"
| by_window_show_message: "mutation now s (discard (window_show_message s text'))"
| by_window_kill: "mutation now s (discard (window_kill s))"
| by_window_select_layout: "mutation now s (discard (window_select_layout s layout))"
| by_window_next_layout: "mutation now s (discard (window_next_layout s))"
| by_window_previous_layout: "mutation now s (discard (window_previous_layout s))"
| by_window_rotate: "mutation now s (discard (window_rotate s))"
| by_window_unlink: "mutation now s (discard (window_unlink s))"
| by_window_set_option: "mutation now s (discard (window_set_option s name v))"
| by_window_unset_option: "mutation now s (discard (window_unset_option s name))"
| by_pane_send_line: "mutation now s (discard (pane_send_line s text'))"
| by_pane_toggle_zoom: "mutation now s (discard (pane_toggle_zoom s))"
| by_pane_enter_copy_mode: "mutation now s (discard (pane_enter_copy_mode s))"
| by_pane_leave_mode: "mutation now s (discard (pane_leave_mode s))"
| by_pane_stop_piping: "mutation now s (discard (pane_stop_piping s))"
| by_pane_set_title: "mutation now s (discard (pane_set_title s title))"
| by_pane_respawn: "mutation now s (discard (pane_respawn s respawn))"
| by_pane_clear_history: "mutation now s (discard (pane_clear_history s))"
| by_pane_select: "mutation now s (discard (pane_select s))"
| by_pane_show_message: "mutation now s (discard (pane_show_message s text'))"
| by_pane_kill: "mutation now s (discard (pane_kill s))"
| by_pane_set_option: "mutation now s (discard (pane_set_option s name v))"
| by_pane_unset_option: "mutation now s (discard (pane_unset_option s name))"
| by_buffer_remove: "mutation now s (discard (buffer_remove s))"
| by_client_detach: "mutation now s (discard (client_detach s))"
| by_client_refresh: "mutation now s (discard (client_refresh s))"
| by_select_next_window: "mutation now s (discard (select_next_window s))"
| by_select_previous_window: "mutation now s (discard (select_previous_window s))"
| by_select_last_window: "mutation now s (discard (select_last_window s))"
| by_window_select_last_pane: "mutation now s (discard (window_select_last_pane s))"
| by_session_new_window: "mutation now s (discard (session_new_window s options))"
| by_window_split: "mutation now s (discard (window_split s split))"
| by_window_rename: "mutation now s (discard (window_rename s name))"
| by_window_resize: "mutation now s (discard (window_resize s width height))"
| by_window_move_to: "mutation now s (discard (window_move_to s index))"
| by_window_link_to: "mutation now s (discard (window_link_to s other))"
| by_window_swap_with: "mutation now s (discard (window_swap_with s other))"
| by_pane_send_text: "mutation now s (discard (pane_send_text s text'))"
| by_pane_send_key: "mutation now s (discard (pane_send_key s key))"
| by_pane_split: "mutation now s (discard (pane_split s split))"
| by_pane_set_width: "mutation now s (discard (pane_set_width s width))"
| by_pane_set_height: "mutation now s (discard (pane_set_height s height))"
| by_pane_swap_with: "mutation now s (discard (pane_swap_with s other))"
| by_pane_join: "mutation now s (discard (pane_join s other))"
| by_pane_pipe_to: "mutation now s (discard (pane_pipe_to s command))"
| by_pane_paste: "mutation now s (discard (pane_paste s other consume))"
| by_client_switch_to: "mutation now s (discard (client_switch_to s other))"
| by_break_out: "mutation now s (discard (break_out now s name))"

lemma refused_by_psmux:
  assumes "row_backend s = Some b" "implementation (be_capabilities b) = impl_psmux" "feature \<notin> {exact_inspection, server_cleanup}"
  shows "row_refused s feature why = Some \<lparr>kind = unsupported, delivery = not_started, exit_code = 0, diagnostic = why\<rparr>"
  using assms by (cases feature) (auto simp: row_refused_def refuses_def supports_def)

definition stopped_early :: "('w, 'a) io \<Rightarrow> bool" where
  "stopped_early m \<longleftrightarrow> (\<forall>w. \<exists>f. m w = (w, Inl f) \<and> delivery f = not_started \<and> kind f \<in> {unsupported, validation})"

lemma stopped_discard: "stopped_early m \<Longrightarrow> stopped_early (discard m)"
  unfolding stopped_early_def discard_def
proof
  fix w assume "\<forall>w. \<exists>f. m w = (w, Inl f) \<and> delivery f = not_started \<and> kind f \<in> {unsupported, validation}"
  then obtain f where "m w = (w, Inl f)" "delivery f = not_started" "kind f \<in> {unsupported, validation}" by blast
  then show "\<exists>f. and_then m (\<lambda>_. answer_with ()) w = (w, Inl f) \<and> delivery f = not_started \<and> kind f \<in> {unsupported, validation}"
    by (simp add: and_then_def)
qed

lemma stopped_early_rules:
  "stopped_early (unless (Some \<lparr>kind = unsupported, delivery = not_started, exit_code = 0, diagnostic = why\<rparr>) m)"
  "stopped_early (fail_with (rejected d))"
  "stopped_early m' \<Longrightarrow> stopped_early (unless_crossed l r m')"
  by (auto simp: stopped_early_def unless_def fail_with_def rejected_def unless_crossed_def crossed_servers_def)

lemmas mutation_defs = session_call_defs window_call_defs pane_call_defs select_next_window_def select_previous_window_def
  select_last_window_def window_select_last_pane_def window_select_layout_def pane_send_text_def

text \<open>C28. A server known to be psmux is never asked to change: every mutating call of an entity of such a server, renaming a
  session apart, is refused before anything is sent, and the refusal says so.
\<close>

theorem psmux_mutations_refused:
  assumes "mutation now s m" and psmux: "row_backend s = Some b" "implementation (be_capabilities b) = impl_psmux"
  shows "\<exists>f. m w = (w, Inl f) \<and> delivery f = not_started \<and> kind f \<in> {unsupported, validation}"
proof -
  note refused = refused_by_psmux [OF psmux]
  have "stopped_early m" using assms(1)
    by (induction rule: mutation.induct)
      (rule stopped_discard, simp add: mutation_defs break_out_def psmux(1) refused stopped_early_rules split: sum.split)+
  then show ?thesis by (simp add: stopped_early_def)
qed

section \<open>Refreshing\<close>

text \<open>
  A refreshed entity is the entity: \<open>refresh\<close> answers with a row of the same backend under the very id, never with the
  object tmux substituted for one that is gone.
\<close>

theorem refresh_same_object:
  assumes "m \<in> {session_refresh r, window_refresh r, pane_refresh r}" "m w = (w', Inr r')"
  shows "row_backend r' = row_backend r \<and> value_at r' 0 \<noteq> [] \<and> (value_at r 0 \<noteq> [] \<longrightarrow> value_at r' 0 = value_at r 0)"
  using assms
  by (auto simp: session_refresh_def window_refresh_def pane_refresh_def describe_def session_id_def window_id_def pane_id_def
      dest!: one_entity_identity)

section \<open>Secrets\<close>


section \<open>The selections\<close>

text \<open>The exception is real: selecting the next window moves the selection and then asks where it went. When the second
  request cannot be started the failure says ``not started'', although the first took effect.\<close>

definition failing_host :: Host where
  "failing_host = \<lparr>platform = \<lparr>launch = (\<lambda>h q. if h = []
       then Inr \<lparr>termination_of = Exited 0, stdout_bytes = [], stderr_bytes = [], output_truncated = False\<rparr>
       else Inl \<lparr>error_kind = pe_spawn, error_started = not_started, error_diagnostic = ''no more processes''\<rparr>),
     entropy = (\<lambda>h. [1, 2, 3, 4])\<rparr>, files = files quiet_host\<rparr>"

definition known_backend :: SubprocessBackend where
  "known_backend = (new_backend \<lparr>ep_connection = [''-S'', ''/s''], ep_socket_path = ''/s'', ep_identity = ''1:2'', ep_alias = None,
     ep_missing = False\<rparr> ''/s'' False None False \<lparr>policy_timeout = None, policy_output_limit = None, tmux_binary = ''tmux''\<rparr> [1, 2, 3, 4] [])
     \<lparr>version_cache := Some \<lparr>live = True, version = release 3 5 0, token = ''3.5''\<rparr>\<rparr>"

definition sole_session :: "SubprocessBackend Row" where
  "sole_session = \<lparr>row_backend = Some (subprocess failing_host 1 (policy known_backend)),
     row_snapshot = \<lparr>snap_fields = session_fields, snap_rows = [[''$0'', ''work'']]\<rparr>, row_at = 0\<rparr>"

lemma run_when_known:
  assumes "\<not> socket_missing b" "version_cache b = Some e" "live e" "c = plain_argument name # rest" "\<not> starts_with name ''-''"
    "refuse_literal (argv c) (version e) True = None" "name \<noteq> ''kill-server''"
  shows "run_scoped host c limit output_limit b = run_prepared host c False (build_request b c limit output_limit (Some e)) b"
proof -
  have "\<not> single c ''-V''" "\<not> single c ''-h''" "\<not> single c ''kill-server''"
    using assms(4,5,7) by (auto simp: single_def plain_argument_def split: list.splits)
  then show ?thesis using assms
    by (simp add: run_scoped_def prepare_request_def check_command_def check_version_def assemble_request_def plain_argument_def)
qed

lemma known_fields:
  "\<not> socket_missing known_backend" "version_cache known_backend = Some \<lparr>live = True, version = release 3 5 0, token = ''3.5''\<rparr>"
  "\<not> observer known_backend" "launched known_backend = []"
  "policy known_backend = \<lparr>policy_timeout = None, policy_output_limit = None, tmux_binary = ''tmux''\<rparr>"
  by (simp_all add: known_backend_def new_backend_def)

lemma known_ok: "backend_ok known_backend"
proof -
  have "parse_version ''tmux 3.5'' = Inr (release 3 5 0)" "plain_token ''3.5''" "is_supported (release 3 5 0)" by code_simp+
  then show ?thesis by (simp add: backend_ok_def known_fields supported_def established_def)
qed

lemma selection_moves_first:
  defines "q \<equiv> build_request known_backend (request_of [''next-window'', ''-t'', ''$0'']) None None
      (Some \<lparr>live = True, version = release 3 5 0, token = ''3.5''\<rparr>)"
  shows "run_scoped failing_host (request_of [''next-window'', ''-t'', ''$0'']) None None known_backend
    = (known_backend\<lparr>launched := [q]\<rparr>, Inr [])"
proof -
  have "refuse_literal [''next-window'', ''-t'', ''$0''] (release 3 5 0) True = None" by code_simp
  then have "run_scoped failing_host (request_of [''next-window'', ''-t'', ''$0'']) None None known_backend =
      run_prepared failing_host (request_of [''next-window'', ''-t'', ''$0'']) False q known_backend"
    unfolding q_def
    by (intro run_when_known [where name = "''next-window''"]) (simp_all add: known_fields request_of_def argv_def plain_argument_def)
  also have "\<dots> = (known_backend\<lparr>launched := [q]\<rparr>, Inr [])"
    by (simp add: run_prepared_def dispatch_eq failing_host_def known_fields interpret_reply_def conclude_def observe_def Let_def)
  finally show ?thesis .
qed

lemma selection_then_fails:
  defines "c \<equiv> request_of [''display-message'', ''-p'', ''-t'', ''$0'', format_request window_fields]"
  shows "\<exists>b' f. run_scoped failing_host c None None (known_backend\<lparr>launched := [q]\<rparr>) = (b', Inl f) \<and> delivery f = not_started \<and>
    launched b' = [q, build_request known_backend c None None (Some \<lparr>live = True, version = release 3 5 0, token = ''3.5''\<rparr>)] \<and>
    fence_marker b' = fence_marker known_backend"
proof -
  let ?b = "known_backend\<lparr>launched := [q]\<rparr>"
  have "refuse_literal [''display-message'', ''-p'', ''-t'', ''$0'', format_request window_fields] (release 3 5 0) True = None"
    by code_simp
  then have "run_scoped failing_host c None None ?b =
      run_prepared failing_host c False (build_request ?b c None None (Some \<lparr>live = True, version = release 3 5 0, token = ''3.5''\<rparr>)) ?b"
    unfolding c_def
    by (intro run_when_known [where name = "''display-message''"]) (simp_all add: known_fields request_of_def argv_def plain_argument_def)
  moreover have "build_request ?b c None None e = build_request known_backend c None None e" for e
    by (auto simp: build_request_def connection_def published_endpoint_def split: option.splits)
  ultimately show ?thesis
    by (simp add: run_prepared_def dispatch_eq failing_host_def report_failure_settled transport_failure_def known_fields observe_def redact_hidden)
qed

lemma selection_not_honest:
  "\<exists>b' f. select_next_window sole_session known_backend = (b', Inl f) \<and> backend_ok known_backend \<and> delivery f = not_started \<and>
     subprocess_effects failing_host b' \<noteq> subprocess_effects failing_host known_backend"
proof -
  let ?e = "\<lparr>live = True, version = release 3 5 0, token = ''3.5''\<rparr>"
  let ?q = "build_request known_backend (request_of [''next-window'', ''-t'', ''$0'']) None None (Some ?e)"
  let ?c = "request_of [''display-message'', ''-p'', ''-t'', ''$0'', format_request window_fields]"
  obtain b' f where r: "run_scoped failing_host ?c None None (known_backend\<lparr>launched := [?q]\<rparr>) = (b', Inl f)" "delivery f = not_started"
    "launched b' = [?q, build_request known_backend ?c None None (Some ?e)]" "fence_marker b' = fence_marker known_backend"
    using selection_then_fails [of ?q] by blast
  have sel: "select_next_window sole_session known_backend = (b', Inl f)"
    using selection_moves_first r(1)
    by (simp add: select_next_window_def row_refused_def sole_session_def subprocess_def refuses_def supports_def unless_def moved_def
        row_run_def session_target_of_def session_id_def value_at_def known_fields and_then_def session_active_window_def
        describe_def one_entity_def take_in_session_def place_format_def take_snapshot_def request_of_def)
  have "\<not> inspects ?q"
    by (auto simp: inspects_def build_request_def probe_request_def version_request_def empty_request_def default_capture_limit_def)
  then have "took_effect failing_host (fence_marker known_backend) [] ?q"
    by (simp add: took_effect_def failing_host_def fence_fired_def for_each_line.simps)
  then have "?q \<in> set (subprocess_effects failing_host b')"
    by (auto simp: subprocess_effects_def effects_of_def r(3,4) intro!: image_eqI [of _ _ 0])
  moreover have "subprocess_effects failing_host known_backend = []"
    by (simp add: subprocess_effects_def effects_of_def known_fields)
  ultimately show ?thesis using sel r(2) known_ok by auto
qed

section \<open>Applied\<close>

definition quiet_session :: "SubprocessBackend Row" where
  "quiet_session = \<lparr>row_backend = Some (subprocess quiet_host 1 (policy quiet_backend)),
     row_snapshot = \<lparr>snap_fields = session_fields, snap_rows = [[''$0'', ''work'']]\<rparr>, row_at = 0\<rparr>"


definition pane_on :: "string \<Rightarrow> ServerImplementation \<Rightarrow> unit Row" where
  "pane_on who what = \<lparr>row_backend = Some (answering 1 who what []),
     row_snapshot = \<lparr>snap_fields = pane_fields, snap_rows = [[''%0'', ''sh'', ''1'', ''@0'', ''$0'']]\<rparr>, row_at = 0\<rparr>"

theorem crossed_calls_refused_witness:
  "pane_swap_with (pane_on ''1:2'' impl_tmux) (pane_on ''1:3'' impl_tmux) () = ((), Inl crossed_servers)"
  by (rule crossed_calls_refused [where consume = False, of "pane_on ''1:2'' impl_tmux" "pane_on ''1:3'' impl_tmux"])
    (simp_all add: from_different_servers_def connection_identity_def pane_on_def answering_def Let_def)

theorem psmux_mutations_refused_witness:
  "\<exists>f. discard (pane_kill (pane_on ''1:2'' impl_psmux)) () = ((), Inl f) \<and> delivery f = not_started"
  using psmux_mutations_refused [OF mutation.by_pane_kill, of "pane_on ''1:2'' impl_psmux" "answering 1 ''1:2'' impl_psmux []" "()"]
  by (auto simp: pane_on_def answering_def)

theorem refresh_same_object_witness:
  "\<exists>r. session_refresh (row_of (answering 1 ''1:2'' impl_tmux (listing_line work_row))
       \<lparr>snap_fields = session_fields, snap_rows = [work_row]\<rparr> 0) () = ((), Inr r) \<and> value_at r 0 = ''$0''"
proof -
  let ?b = "answering 1 ''1:2'' impl_tmux (listing_line work_row)"
  let ?r = "row_of ?b \<lparr>snap_fields = session_fields, snap_rows = [work_row]\<rparr> 0"
  have id: "value_at ?r 0 = ''$0''" "hd work_row = ''$0''" by (simp_all add: row_of_def value_at_def work_row_def)
  have run: "session_refresh ?r () = ((), Inr ?r)"
    using id by (simp add: session_refresh_def describe_def one_entity_def and_then_def take_work work_numbers unless_def
        answer_with_def session_id_def session_target_of_def Let_def row_of_def [where n = 0])
  show ?thesis using run refresh_same_object [of "session_refresh ?r" ?r "()" "()" ?r]
    by (simp add: row_of_def value_at_def work_row_def)
qed

lemma set_option_fails:
  "\<exists>b' f. session_set_option sole_session ''@key'' ''hunter2'' (known_backend\<lparr>launched := [q]\<rparr>) = (b', Inl f)"
proof -
  let ?b = "known_backend\<lparr>launched := [q]\<rparr>" and ?e = "\<lparr>live = True, version = release 3 5 0, token = ''3.5''\<rparr>"
  let ?c = "request_of [''set-option'', ''-t'', ''$0'', ''--'', ''@key''] @ [sensitive ''hunter2'']"
  have "refuse_literal [''set-option'', ''-t'', ''$0'', ''--'', ''@key'', ''hunter2''] (release 3 5 0) True = None" by code_simp
  then have "run_scoped failing_host ?c None None ?b = run_prepared failing_host ?c False (build_request ?b ?c None None (Some ?e)) ?b"
    by (intro run_when_known [where name = "''set-option''"])
      (simp_all add: known_fields request_of_def argv_def plain_argument_def sensitive_def)
  then show ?thesis
    by (simp add: session_set_option_def row_refused_def sole_session_def subprocess_def refuses_def supports_def unless_def effect_def
        row_run_def scoped_def session_target_of_def session_id_def value_at_def known_fields and_then_def run_prepared_def
        dispatch_eq failing_host_def report_failure_settled)
qed


end
