(* ===== verification/Spec2Isabelle.thy ===== *)
theory Spec2Isabelle
  imports Filters Snapshots Control_Protocol Backends Option_Text Captures Notification_Stream Operation_State Waits
    Command_Engine Process_Validation Pane_Input Pane_Echo Connections Entity_Calls
begin

text \<open>
  A verification library for libtmux, the C++ client library for the terminal multiplexer tmux
  (\<open>src/src/\<close>, \<open>src/include/libtmux/\<close>), and for the two stateful parts of its MCP server (\<open>src/apps/mcp/src/\<close>).

  \<^bold>\<open>The program.\<close> A caller holds entities (sessions, windows, panes, clients, buffers) that are rows of listings. Each method
  builds the arguments of one tmux command, gives it to a backend and reads what came back. The subprocess backend finds the
  socket, asks which tmux answers there, refuses what that release cannot do safely, runs a process and turns its result
  into a value or a failure that says how far the command got. Other callers keep a control connection: one client process, to which
  several threads write requests and whose output a reader thread decodes into reply blocks and notifications. Above both stand the
  asynchronous engine, with its workers, operations and completion queue, and the wait for text in a pane.

  \<^bold>\<open>Theories, from the bottom up.\<close>

  \<^item> \<open>Prelude\<close>: \<open>std::string_view\<close> as a list of characters, \<open>std::expected\<close> as a sum, decimal numbers, the searches of strings,
    and the locale \<open>transition_system\<close> (start states, a step relation, reachable states and proofs by invariants).
  \<^item> \<open>Versions\<close> (\<open>version.hpp\<close>), \<open>Commands\<close> (\<open>command.hpp\<close>, \<open>delivery.hpp\<close>, \<open>batch.hpp\<close>, the rendering and redaction of
    \<open>backend.cpp\<close>), \<open>Capabilities\<close> (\<open>support_capabilities.cpp\<close>), \<open>Layouts\<close> (\<open>layout.cpp\<close>), \<open>Chains\<close> (\<open>target.hpp\<close>, \<open>keys.hpp\<close>,
    \<open>chain.hpp\<close>), \<open>Option_Text\<close> (\<open>options.hpp\<close>, \<open>format.hpp\<close>), \<open>Captures\<close> (\<open>capture.hpp\<close>, \<open>wait_capture.hpp\<close>), \<open>Filters\<close>
    (\<open>filter_expr.hpp\<close>, \<open>lowering.hpp\<close>, \<open>relations.hpp\<close>, \<open>legacy_lookup.hpp\<close>, \<open>cardinality.hpp\<close>), \<open>Snapshots\<close> (\<open>snapshot.hpp\<close>,
    \<open>snapshot.cpp\<close>) and \<open>Process_Validation\<close> (\<open>process_validation.cpp\<close>, the quoting of \<open>process_windows.cpp\<close>): the values and
    the text formats. The functions are total functions on strings, lists and words of the source's width; a function that can
    fail returns a sum or an option. The lemmas are round trips (a listing, an option, a layout, a command line is read back
    as what was written), equivalences of a hand-written scanner with a grammar, and secrecy of what is marked sensitive.
  \<^item> \<open>Sockets\<close> (\<open>socket_identity.cpp\<close>), \<open>Version_Gate\<close> (\<open>support_versions.cpp\<close>), \<open>Literal_Commands\<close> (\<open>support_commands.cpp\<close>)
    and \<open>Backends\<close> (\<open>backend.cpp\<close>, POSIX branches): the record \<open>SubprocessBackend\<close> is the object, the record \<open>Host\<close> what the
    machine answers (the file system and the result of a process, as functions), and every member function takes the backend and
    returns it updated with the list of the requests it launched. The lemmas show which requests can be launched at all and what
    a failure may claim about them.
  \<^item> \<open>Rows\<close> (\<open>entities.hpp\<close>), \<open>Acquire\<close> (\<open>acquire.hpp\<close>), \<open>Backend_Laws\<close>, \<open>Sessions\<close>, \<open>Windows\<close>, \<open>Panes\<close>, \<open>Break_Pane\<close> (\<open>entities.cpp\<close>)
    and \<open>Entity_Calls\<close>: the entities. The record \<open>Backend\<close> holds the virtual calls of the interface over an arbitrary world
    \<open>'w\<close>, a method is a function from the world to the world and a value or a failure, and \<open>subprocess\<close> makes such a record
    from the subprocess backend. \<open>Entity_Calls\<close> enumerates the methods as inductive predicates and proves what all of them keep.
  \<^item> \<open>Control_Protocol\<close> (\<open>control.cpp\<close>), \<open>Control_Requests\<close> and \<open>Connections\<close> (\<open>connection.cpp\<close>), \<open>Notification_Stream\<close>
    (\<open>notification_stream.cpp\<close>): the decoder as a fold over the bytes, the text of a request with its private boundary, and the
    connection as a machine in which callers, the reader, the waiter and shutdown take one critical section at a time in any
    order. The lemmas are invariants of all reachable states: whole frames on the wire, replies matched to their own requests,
    honest reports, and no caller left waiting.
  \<^item> \<open>Operation_State\<close> (\<open>operation_state.hpp\<close>), \<open>Completion_Queue\<close> (\<open>completion_queue.cpp\<close>) and \<open>Command_Engine\<close>
    (\<open>command_engine.cpp\<close>): the asynchronous side, again as steps that interleave freely. The intrusive ready list is a heap of
    links that refines a first-in first-out queue; operations complete once, callbacks are not lost and closing ends.
  \<^item> \<open>Waits\<close> (\<open>wait.cpp\<close>), in the state monad over an environment that answers captures and notifications: what a wait may
    claim, and that it returns.
  \<^item> \<open>Pane_Input\<close> and \<open>Pane_Echo\<close> (\<open>pane_input.cpp\<close>, \<open>pane_echo.cpp\<close> of the MCP server): the reservations of panes for input, and
    the bounded ledger of what was typed.

  \<^bold>\<open>Interfaces.\<close> \<open>transition_system\<close> is interpreted on the command engine and on the connection; \<open>member_writer\<close> (\<open>Capabilities\<close>) on
  the writers of the manifest; \<open>chain_step\<close> (\<open>Chains\<close>) on every step of the fluent chain; \<open>drained_queue\<close> (\<open>Completion_Queue\<close>) on the
  linked ready list; \<open>honest_backend\<close> (\<open>Backend_Laws\<close>), what the
  entities need of a backend, on the subprocess backend.

  \<^bold>\<open>Bounds and fuel.\<close> Loops over text recurse on the text or with a measure. The loops of a wait take fuel; when the clock stays
  past the deadline from its reading \<open>T\<close> on, \<open>T\<close> plus the matching budget plus one rounds are enough, whatever the environment
  answers, and the wait is proved to return with them. The reading of a notification range is cut after a given number of
  notifications and is proved to be that prefix of what arrived, for every number. The command engine has a measure,
  \<open>work_left\<close>, that every worker step of a stopping engine decreases. Widths are kept where the source has a bound: the numbers of
  the control protocol and the boundary counter are 64-bit words, decimal columns are read at 64 bits and version parts and
  ids at 32 bits with overflow refused, layout checksums have 16 bits.

  \<^bold>\<open>Not modelled.\<close> The POSIX and Windows process engines and the descriptors of a connection, which are system calls: what they
  return is a parameter. The asynchronous client, which joins the modelled parts with futures, and the methods of the
  server handle, which have the shape of those of the entities. The \<open>_WIN32\<close>
  branches of the backend and of the entities, apart from the command line. Clocks and memory exhaustion; a clock, where one is read, is
  an argument. The JSON-RPC side of the MCP server, the workspace program and the configuration tool, which rest on third-party
  parsers. A mutex is modelled by making each critical section one step.
\<close>

end
